(* ===== verification/Garry_Prelude.thy ===== *)
theory Garry_Prelude
  imports Main "HOL-Library.Word" "HOL-Library.Signed_Division"
begin

text \<open>
  Shared vocabulary of the Garry development.

  A C byte is an \<open>8 word\<close>. A C byte array that code writes by index (a page, a header
  image) is a \<open>buffer\<close>, a function from indices to bytes; a pointer with a length, or an
  output buffer with a returned length, is the list of the bytes it denotes. Signed 32-bit
  values (\<open>garry_i32\<close>) are integers, with \<open>i32\<close> for the values the type can hold, since
  signed overflow is undefined in C and never relied upon; values whose wrap-around the code
  relies upon (hashes, access counters) are \<open>32 word\<close>.

  In-bounds behaviour of code on buffers is stated by two kinds of lemma: a frame lemma
  (the bytes outside a range are unchanged) for writes, and an agreement lemma (buffers
  that agree on a range give the same result) for reads.
\<close>

unbundle bit_operations_syntax

named_theorems buffer_simps \<open>reading back a byte range after a write\<close>
named_theorems codec_simps \<open>decoders applied to the output of their encoders\<close>

type_synonym byte = "8 word"
type_synonym buffer = "int \<Rightarrow> byte"

subsection \<open>Machine integers\<close>

definition i32 :: "int \<Rightarrow> bool" where
  "i32 v \<longleftrightarrow> - (2 ^ 31) \<le> v \<and> v < 2 ^ 31"

lemma i32_sint [simp]: "i32 v \<Longrightarrow> sint (word_of_int v :: 32 word) = v"
  unfolding i32_def by (simp add: sint_sbintrunc' signed_take_bit_int_eq_self)

lemma sint_i32 [simp]: "i32 (sint (w :: 32 word))"
  using sint_ge [of w] sint_lt [of w] by (simp add: i32_def)

lemma int_and_255: "(x :: int) AND 255 = take_bit 8 x"
  by (simp add: take_bit_eq_mask mask_eq_exp_minus_1)

lemma byte_of_and_255 [simp]: "(word_of_int (x AND 255) :: byte) = word_of_int x"
  unfolding int_and_255 by (rule bit_word_eqI) (simp add: bit_simps)

lemma uint_byte_of_int: "uint (word_of_int x :: byte) = x mod 256"
  by (simp add: uint_word_of_int take_bit_eq_mod)

lemma uint_byte_small [simp]: "0 \<le> x \<Longrightarrow> x < 256 \<Longrightarrow> uint (word_of_int x :: byte) = x"
  by (simp add: uint_byte_of_int)

lemma uint_byte_bounds [simp]: "0 \<le> uint (b :: byte)" "uint (b :: byte) < 256"
  using uint_lt2p [of b] by simp_all

lemma byte_of_uint [simp]: "(word_of_int (uint (b :: byte)) :: byte) = b"
  by simp

text \<open>The division and remainder of C truncate; on the non-negative values the code
  divides they are \<open>div\<close> and \<open>mod\<close>.\<close>

lemma sdiv_nonneg [simp]: "0 \<le> (a :: int) \<Longrightarrow> 0 < b \<Longrightarrow> a sdiv b = a div b"
  by (cases "a = 0") (simp_all add: signed_divide_int_def sgn_if)

lemma smod_nonneg [simp]: "0 \<le> (a :: int) \<Longrightarrow> 0 < b \<Longrightarrow> a smod b = a mod b"
  by (simp add: signed_modulo_int_def signed_divide_int_def sgn_if minus_div_mult_eq_mod)

lemma upt_split: "k < n \<Longrightarrow> [0..<n] = [0..<k] @ k # [Suc k..<n]"
  by (metis le0 less_imp_le_nat upt_add_eq_append upt_conv_Cons le_add_diff_inverse)

subsection \<open>Byte ranges of buffers\<close>

text \<open>The copy loops \<open>for (i = 0; i < len; i++) buf[off + i] = src[i]\<close>.\<close>

primrec put_bytes :: "buffer \<Rightarrow> int \<Rightarrow> byte list \<Rightarrow> buffer" where
  "put_bytes buf off [] = buf"
| "put_bytes buf off (b # bs) = put_bytes (buf(off := b)) (off + 1) bs"

text \<open>The copy loops \<open>for (i = 0; i < len; i++) dst[i] = buf[off + i]\<close>.\<close>

definition read_bytes :: "buffer \<Rightarrow> int \<Rightarrow> int \<Rightarrow> byte list" where
  "read_bytes buf off len = map (\<lambda>j. buf (off + int j)) [0..<nat len]"

text \<open>A local array whose leading bytes are the given list.\<close>

definition buf_of :: "byte list \<Rightarrow> buffer" where
  "buf_of bs = (\<lambda>i. if 0 \<le> i \<and> nat i < length bs then bs ! nat i else 0)"

definition agree :: "int \<Rightarrow> int \<Rightarrow> buffer \<Rightarrow> buffer \<Rightarrow> bool" where
  "agree lo hi b b' \<longleftrightarrow> (\<forall>i. lo \<le> i \<and> i < hi \<longrightarrow> b i = b' i)"

lemma put_bytes_apply:
  "put_bytes buf off bs i =
     (if off \<le> i \<and> i < off + int (length bs) then bs ! nat (i - off) else buf i)"
proof (induction bs arbitrary: buf off i)
  case Nil
  then show ?case by auto
next
  case (Cons b bs)
  show ?case
  proof (cases "i = off")
    case True
    then show ?thesis by (simp add: Cons.IH)
  next
    case False
    then have "nat (i - off) = Suc (nat (i - (off + 1)))" if "off \<le> i" using that by simp
    with False show ?thesis by (auto simp: Cons.IH)
  qed
qed

lemma put_bytes_outside: "i < off \<or> off + int (length bs) \<le> i \<Longrightarrow> put_bytes buf off bs i = buf i"
  by (auto simp: put_bytes_apply)

lemma length_read_bytes [simp]: "length (read_bytes buf off len) = nat len"
  by (simp add: read_bytes_def)

lemma nth_read_bytes [simp]: "j < nat len \<Longrightarrow> read_bytes buf off len ! j = buf (off + int j)"
  by (simp add: read_bytes_def)

lemma read_bytes_Nil [simp]: "len \<le> 0 \<Longrightarrow> read_bytes buf off len = []"
  by (simp add: read_bytes_def)

lemma read_bytes_cong:
  assumes "\<And>i. off \<le> i \<Longrightarrow> i < off + len \<Longrightarrow> b i = b' i"
  shows "read_bytes b off len = read_bytes b' off len"
  using assms by (auto simp: read_bytes_def)

lemma read_put_same [buffer_simps]:
  "int (length bs) = len \<Longrightarrow> read_bytes (put_bytes buf off bs) off len = bs"
  by (rule nth_equalityI) (auto simp: put_bytes_apply)

lemma read_put_other [buffer_simps]:
  assumes "off + len \<le> p \<or> p + int (length bs) \<le> off"
  shows "read_bytes (put_bytes buf p bs) off len = read_bytes buf off len"
  using assms by (intro read_bytes_cong put_bytes_outside) auto

lemma read_buf_of [simp]: "read_bytes (buf_of bs) 0 (int (length bs)) = bs"
  by (rule nth_equalityI) (auto simp: buf_of_def)

lemma buf_of_nth [simp]: "0 \<le> i \<Longrightarrow> nat i < length bs \<Longrightarrow> buf_of bs i = bs ! nat i"
  by (simp add: buf_of_def)

lemma agree_refl [simp]: "agree lo hi b b"
  by (simp add: agree_def)

lemma agree_sym: "agree lo hi b b' \<Longrightarrow> agree lo hi b' b"
  by (simp add: agree_def)

lemma agree_trans: "agree lo hi a b \<Longrightarrow> agree lo hi b c \<Longrightarrow> agree lo hi a c"
  by (simp add: agree_def)

lemma agree_trans2: "agree lo hi a b \<Longrightarrow> agree lo hi a c \<Longrightarrow> agree lo hi b c"
  by (simp add: agree_def)

lemma agreeD: "agree lo hi b b' \<Longrightarrow> lo \<le> i \<Longrightarrow> i < hi \<Longrightarrow> b i = b' i"
  by (simp add: agree_def)

lemma agree_read_bytes:
  assumes "agree lo hi b b'" and "lo \<le> off" and "off + len \<le> hi"
  shows "read_bytes b off len = read_bytes b' off len"
  using assms by (intro read_bytes_cong agreeD [OF assms(1)]) auto

lemma agree_put_bytes:
  assumes "agree lo hi b b'"
  shows "agree lo hi (put_bytes b off bs) (put_bytes b' off bs)"
  using assms by (auto simp: agree_def put_bytes_apply)

text \<open>The buffer holds the given bytes from a position on.\<close>

definition holds :: "buffer \<Rightarrow> int \<Rightarrow> byte list \<Rightarrow> bool" where
  "holds b pos bs \<longleftrightarrow> (\<forall>j < length bs. b (pos + int j) = bs ! j)"

lemma holds_Nil [simp]: "holds b pos []"
  by (simp add: holds_def)

lemma holds_Cons [simp]: "holds b pos (x # xs) \<longleftrightarrow> b pos = x \<and> holds b (pos + 1) xs"
proof -
  have "(\<forall>j < Suc (length xs). b (pos + int j) = (x # xs) ! j) \<longleftrightarrow>
      b pos = x \<and> (\<forall>j < length xs. b (pos + int (Suc j)) = xs ! j)"
    unfolding All_less_Suc2 by simp
  then show ?thesis by (simp add: holds_def add.assoc)
qed

lemma holds_append [simp]:
  "holds b pos (xs @ ys) \<longleftrightarrow> holds b pos xs \<and> holds b (pos + int (length xs)) ys"
  by (induction xs arbitrary: pos) (simp_all add: add.assoc)

lemma holds_read: "holds b pos bs \<Longrightarrow> len = int (length bs) \<Longrightarrow> read_bytes b pos len = bs"
  by (rule nth_equalityI) (auto simp: holds_def)

lemma read_holds: "read_bytes b pos (int (length bs)) = bs \<Longrightarrow> holds b pos bs"
  unfolding holds_def by (metis length_read_bytes nat_int nth_read_bytes)

lemma holds_put [simp]: "holds (put_bytes b pos bs) pos bs"
  by (simp add: holds_def put_bytes_apply)

lemma holds_buf_of [simp]: "holds (buf_of bs) 0 bs"
  by (simp add: holds_def)

lemma put_bytes_append:
  "put_bytes b pos (xs @ ys) = put_bytes (put_bytes b pos xs) (pos + int (length xs)) ys"
  by (induction xs arbitrary: b pos) (simp_all add: add.assoc)

subsection \<open>The byte of an integer\<close>

definition byte_of :: "int \<Rightarrow> byte" where
  "byte_of v = word_of_int v"

lemma uint_byte_of [simp]: "uint (byte_of v) = v mod 256"
  by (simp add: byte_of_def uint_byte_of_int)

end
