(* ===== verification/Garry_Endian.thy ===== *)
theory Garry_Endian
  imports Garry_Prelude
begin

text \<open>
  Little-endian integers: \<open>src/src/util_endian.h\<close>, the two wrappers of
  \<open>src/src/db_header.c\<close> that the page code calls, and the chain identifiers of
  \<open>src/src/transaction.c\<close>. The lemmas give the round trip for every 32-bit signed value,
  the frame of a write and the four bytes a read depends on.
\<close>

subsection \<open>util_endian.h\<close>

text \<open>Bytes are unsigned, so the corrections for negative bytes in the source are dead.
  The assembled 32-bit pattern is read as a signed value.\<close>

definition garry_read_le32 :: "buffer \<Rightarrow> int \<Rightarrow> int" where
  "garry_read_le32 buf offset =
     (let b0 = uint (buf offset);
          b1 = uint (buf (offset + 1));
          b2 = uint (buf (offset + 2));
          b3 = uint (buf (offset + 3))
      in sint (word_of_int (b0 OR push_bit 8 b1 OR push_bit 16 b2 OR push_bit 24 b3) :: 32 word))"

definition garry_write_le32 :: "buffer \<Rightarrow> int \<Rightarrow> int \<Rightarrow> buffer" where
  "garry_write_le32 buf offset val =
     buf(offset := word_of_int (val AND 255),
         offset + 1 := word_of_int (drop_bit 8 val AND 255),
         offset + 2 := word_of_int (drop_bit 16 val AND 255),
         offset + 3 := word_of_int (drop_bit 24 val AND 255))"

subsection \<open>db_header.c, the integer accessors\<close>

definition garry_write_int32 :: "buffer \<Rightarrow> int \<Rightarrow> int \<Rightarrow> buffer" where
  "garry_write_int32 buf offset val = garry_write_le32 buf offset val"

definition garry_read_int32 :: "buffer \<Rightarrow> int \<Rightarrow> int" where
  "garry_read_int32 buf offset = garry_read_le32 buf offset"

subsection \<open>transaction.c, chain identifiers\<close>

definition garry_chain_id_encode :: "int \<Rightarrow> byte list" where
  "garry_chain_id_encode chain_id =
     [word_of_int (chain_id AND 255), word_of_int (drop_bit 8 chain_id AND 255),
      word_of_int (drop_bit 16 chain_id AND 255), word_of_int (drop_bit 24 chain_id AND 255)]"

definition garry_chain_id_decode :: "buffer \<Rightarrow> int" where
  "garry_chain_id_decode encoded =
     (let b0 = uint (encoded 0); b1 = uint (encoded 1);
          b2 = uint (encoded 2); b3 = uint (encoded 3)
      in sint (word_of_int (b0 OR push_bit 8 b1 OR push_bit 16 b2 OR push_bit 24 b3) :: 32 word))"

subsection \<open>Lemmas\<close>

text \<open>The four bytes of a value, as the inlined writers of the version chain produce them.\<close>

definition le32_bytes :: "int \<Rightarrow> byte list" where
  "le32_bytes v = [word_of_int v, word_of_int (drop_bit 8 v),
                   word_of_int (drop_bit 16 v), word_of_int (drop_bit 24 v)]"

lemma length_le32_bytes [simp]: "length (le32_bytes v) = 4"
  by (simp add: le32_bytes_def)

lemma le32_assemble:
  "(word_of_int (uint (word_of_int v :: byte) OR push_bit 8 (uint (word_of_int (drop_bit 8 v) :: byte))
     OR push_bit 16 (uint (word_of_int (drop_bit 16 v) :: byte))
     OR push_bit 24 (uint (word_of_int (drop_bit 24 v) :: byte))) :: 32 word) = word_of_int v"
proof (rule bit_word_eqI)
  fix n assume n: "n < LENGTH(32)"
  consider "n < 8" | "8 \<le> n" "n < 16" | "16 \<le> n" "n < 24" | "24 \<le> n" using n by linarith
  then show "bit (word_of_int (uint (word_of_int v :: byte)
      OR push_bit 8 (uint (word_of_int (drop_bit 8 v) :: byte))
      OR push_bit 16 (uint (word_of_int (drop_bit 16 v) :: byte))
      OR push_bit 24 (uint (word_of_int (drop_bit 24 v) :: byte))) :: 32 word) n
      = bit (word_of_int v :: 32 word) n"
    using n by cases (auto simp: bit_simps)
qed

lemma write_le32_put_bytes: "garry_write_le32 buf off v = put_bytes buf off (le32_bytes v)"
  by (simp add: garry_write_le32_def le32_bytes_def add.assoc fun_upd_def fun_eq_iff)

lemma read_le32_cong:
  assumes "\<And>i. off \<le> i \<Longrightarrow> i < off + 4 \<Longrightarrow> b i = b' i"
  shows "garry_read_le32 b off = garry_read_le32 b' off"
  using assms [of off] assms [of "off + 1"] assms [of "off + 2"] assms [of "off + 3"]
  by (simp add: garry_read_le32_def)

lemma read_le32_of_bytes:
  assumes "read_bytes b off 4 = le32_bytes v" and "i32 v"
  shows "garry_read_le32 b off = v"
proof -
  have e: "b off = le32_bytes v ! 0" "b (off + 1) = le32_bytes v ! 1"
    "b (off + 2) = le32_bytes v ! 2" "b (off + 3) = le32_bytes v ! 3"
    unfolding assms(1) [symmetric] by simp_all
  have "garry_read_le32 b off = sint (word_of_int v :: 32 word)"
    unfolding garry_read_le32_def Let_def e le32_bytes_def
    using le32_assemble [of v] by (simp add: numeral_2_eq_2 numeral_3_eq_3)
  then show ?thesis using assms(2) by simp
qed

lemma read_write_le32_same [buffer_simps]:
  "i32 v \<Longrightarrow> garry_read_le32 (garry_write_le32 buf off v) off = v"
  by (rule read_le32_of_bytes) (simp_all add: write_le32_put_bytes read_put_same)

lemma write_le32_outside: "i < off \<or> off + 4 \<le> i \<Longrightarrow> garry_write_le32 buf off v i = buf i"
  by (simp add: write_le32_put_bytes put_bytes_outside)

lemma read_write_le32_other [buffer_simps]:
  "off + 4 \<le> p \<or> p + 4 \<le> off \<Longrightarrow>
     garry_read_le32 (garry_write_le32 buf p v) off = garry_read_le32 buf off"
  by (intro read_le32_cong write_le32_outside) auto

lemma read_put_le32_other [buffer_simps]:
  "off + 4 \<le> p \<or> p + int (length bs) \<le> off \<Longrightarrow>
     garry_read_le32 (put_bytes buf p bs) off = garry_read_le32 buf off"
  by (intro read_le32_cong put_bytes_outside) auto

lemma read_bytes_write_le32_other [buffer_simps]:
  "off + len \<le> p \<or> p + 4 \<le> off \<Longrightarrow>
     read_bytes (garry_write_le32 buf p v) off len = read_bytes buf off len"
  by (simp add: write_le32_put_bytes read_put_other)

lemma i32_read_le32 [simp]: "i32 (garry_read_le32 buf off)"
  by (simp add: garry_read_le32_def Let_def)

lemma agree_read_le32:
  "agree lo hi b b' \<Longrightarrow> lo \<le> off \<Longrightarrow> off + 4 \<le> hi \<Longrightarrow>
     garry_read_le32 b off = garry_read_le32 b' off"
  by (intro read_le32_cong) (auto simp: agree_def)

lemma agree_write_le32:
  "agree lo hi b b' \<Longrightarrow> agree lo hi (garry_write_le32 b off v) (garry_write_le32 b' off v)"
  by (simp add: write_le32_put_bytes agree_put_bytes)

lemma chain_id_encode_bytes: "garry_chain_id_encode cid = le32_bytes cid"
  by (simp add: garry_chain_id_encode_def le32_bytes_def)

lemma chain_id_decode_read: "garry_chain_id_decode b = garry_read_le32 b 0"
  by (simp add: garry_chain_id_decode_def garry_read_le32_def)

end
