(* ===== verification/Garry_RecordCodec.thy ===== *)
theory Garry_RecordCodec
  imports Garry_Endian
begin

text \<open>
  Records: \<open>src/src/record_codec.c\<close>. Key-value records are CBOR arrays of two byte strings;
  version descriptors are CBOR maps with a chain identifier and a flag. An encoder takes the
  output buffer and the write position and returns the buffer and the new position; a decoder
  takes the input buffer, its valid length and the read position. The decoders do not check
  that the announced bytes lie within the valid length, and neither does the model.

  The lemmas show that every encoder writes exactly one run of bytes, and the round trips;
  the locale \<open>codec\<close> is the contract of a self-delimiting code.
\<close>

subsection \<open>CBOR items\<close>

definition GARRY_CBOR_UINT_BASE :: int where "GARRY_CBOR_UINT_BASE = 0x00"
definition GARRY_CBOR_NEGINT_BASE :: int where "GARRY_CBOR_NEGINT_BASE = 0x20"
definition GARRY_CBOR_BYTES_BASE :: int where "GARRY_CBOR_BYTES_BASE = 0x40"
definition GARRY_CBOR_TEXT_BASE :: int where "GARRY_CBOR_TEXT_BASE = 0x60"
definition GARRY_CBOR_ARRAY_BASE :: int where "GARRY_CBOR_ARRAY_BASE = 0x80"
definition GARRY_CBOR_MAP_BASE :: int where "GARRY_CBOR_MAP_BASE = 0xA0"
definition GARRY_CBOR_SIMPLE_BASE :: int where "GARRY_CBOR_SIMPLE_BASE = 0xE0"
definition GARRY_CBOR_SIMPLE_FALSE :: int where "GARRY_CBOR_SIMPLE_FALSE = 20"
definition GARRY_CBOR_SIMPLE_TRUE :: int where "GARRY_CBOR_SIMPLE_TRUE = 21"

lemmas cbor_bases = GARRY_CBOR_UINT_BASE_def GARRY_CBOR_NEGINT_BASE_def GARRY_CBOR_BYTES_BASE_def
  GARRY_CBOR_TEXT_BASE_def GARRY_CBOR_ARRAY_BASE_def GARRY_CBOR_MAP_BASE_def
  GARRY_CBOR_SIMPLE_BASE_def GARRY_CBOR_SIMPLE_FALSE_def GARRY_CBOR_SIMPLE_TRUE_def

definition garry_cbor_encode_array_header_raw :: "buffer \<Rightarrow> int \<Rightarrow> int \<Rightarrow> buffer \<times> int" where
  "garry_cbor_encode_array_header_raw out pos count =
     (if count < 24 then (out(pos := word_of_int (GARRY_CBOR_ARRAY_BASE + count)), pos + 1)
      else (out(pos := word_of_int (GARRY_CBOR_ARRAY_BASE + 24), pos + 1 := word_of_int count), pos + 2))"

definition garry_cbor_encode_byte_string_raw :: "byte list \<Rightarrow> buffer \<Rightarrow> int \<Rightarrow> buffer \<times> int" where
  "garry_cbor_encode_byte_string_raw data out pos =
     (let dlen = int (length data);
          (out, pos) =
            (if dlen < 24 then (out(pos := word_of_int (GARRY_CBOR_BYTES_BASE + dlen)), pos + 1)
             else (out(pos := word_of_int (GARRY_CBOR_BYTES_BASE + 24), pos + 1 := word_of_int dlen), pos + 2))
      in (put_bytes out pos data, pos + dlen))"

definition garry_cbor_decode_array_header_raw :: "buffer \<Rightarrow> int \<Rightarrow> int \<Rightarrow> int" where
  "garry_cbor_decode_array_header_raw buf blen pos =
     (let fb = uint (buf pos)
      in if fb < GARRY_CBOR_ARRAY_BASE \<or> fb \<ge> GARRY_CBOR_ARRAY_BASE + 32 then 0
         else (let ai = fb - GARRY_CBOR_ARRAY_BASE
               in if ai < 24 then ai
                  else if ai = 24 \<and> pos + 1 < blen then uint (buf (pos + 1))
                  else 0))"

definition garry_cbor_array_header_size_raw :: "buffer \<Rightarrow> int \<Rightarrow> int" where
  "garry_cbor_array_header_size_raw buf pos =
     (let ai = uint (buf pos) - GARRY_CBOR_ARRAY_BASE
      in if ai < 24 then 1 else if ai = 24 then 2 else 1)"

text \<open>The result is the new position, zero on error, the decoded bytes and the stored length.\<close>

definition garry_cbor_decode_byte_string_raw :: "buffer \<Rightarrow> int \<Rightarrow> int \<Rightarrow> int \<times> byte list \<times> int" where
  "garry_cbor_decode_byte_string_raw buf blen pos =
     (let ai = uint (buf pos) - GARRY_CBOR_BYTES_BASE
      in if ai < 24 then (pos + 1 + ai, read_bytes buf (pos + 1) ai, ai)
         else if ai = 24 \<and> pos + 1 < blen
         then (let slen = uint (buf (pos + 1))
               in (pos + 2 + slen, read_bytes buf (pos + 2) slen, slen))
         else (0, [], 0))"

subsection \<open>Key-value records\<close>

definition garry_encode_kv :: "byte list \<Rightarrow> byte list \<Rightarrow> buffer \<Rightarrow> buffer \<times> int" where
  "garry_encode_kv key value out_buf =
     (let (out, pos) = garry_cbor_encode_array_header_raw out_buf 0 2;
          (out, pos) = garry_cbor_encode_byte_string_raw key out pos
      in if pos \<le> 0 then (out, 0)
         else (let (out, pos) = garry_cbor_encode_byte_string_raw value out pos
               in if pos \<le> 0 then (out, 0) else (out, pos)))"

text \<open>\<open>None\<close> is \<open>GARRY_FALSE\<close>. The key and value come with the lengths stored through the
  output pointers.\<close>

definition garry_decode_kv :: "buffer \<Rightarrow> int \<Rightarrow> ((byte list \<times> int) \<times> (byte list \<times> int)) option" where
  "garry_decode_kv encoded elen =
     (if elen \<le> 0 then None
      else if garry_cbor_decode_array_header_raw encoded elen 0 \<noteq> 2 then None
      else
        (let pos = garry_cbor_array_header_size_raw encoded 0;
             (pos, key, klen) = garry_cbor_decode_byte_string_raw encoded elen pos
         in if pos \<le> 0 then None
            else (let (pos, value, vlen) = garry_cbor_decode_byte_string_raw encoded elen pos
                  in if pos \<le> 0 then None else Some ((key, klen), (value, vlen)))))"

definition garry_encode_key_only :: "byte list \<Rightarrow> buffer \<Rightarrow> buffer \<times> int" where
  "garry_encode_key_only key out_buf = garry_cbor_encode_byte_string_raw key out_buf 0"

definition garry_decode_key_only :: "buffer \<Rightarrow> int \<Rightarrow> byte list \<times> int" where
  "garry_decode_key_only encoded elen =
     (let (pos, key, klen) = garry_cbor_decode_byte_string_raw encoded elen 0 in (key, klen))"

subsection \<open>Integers and version descriptors\<close>

definition encode_uint :: "buffer \<Rightarrow> int \<Rightarrow> int \<Rightarrow> buffer \<times> int" where
  "encode_uint out pos val =
     (if val \<ge> 0 \<and> val < 24 then (out(pos := word_of_int (GARRY_CBOR_UINT_BASE + val)), pos + 1)
      else if val \<ge> 0 \<and> val < 256
      then (out(pos := word_of_int (GARRY_CBOR_UINT_BASE + 24), pos + 1 := word_of_int val), pos + 2)
      else if val \<ge> 0 \<and> val < 65536
      then (out(pos := word_of_int (GARRY_CBOR_UINT_BASE + 25),
                pos + 1 := word_of_int ((val sdiv 256) smod 256),
                pos + 2 := word_of_int (val smod 256)), pos + 3)
      else (out(pos := word_of_int (GARRY_CBOR_UINT_BASE + 26),
                pos + 1 := word_of_int ((val sdiv 16777216) smod 256),
                pos + 2 := word_of_int ((val sdiv 65536) smod 256),
                pos + 3 := word_of_int ((val sdiv 256) smod 256),
                pos + 4 := word_of_int (val smod 256)), pos + 5))"

definition encode_negint :: "buffer \<Rightarrow> int \<Rightarrow> int \<Rightarrow> buffer \<times> int" where
  "encode_negint out pos abs_val =
     (if abs_val < 24 then (out(pos := word_of_int (GARRY_CBOR_NEGINT_BASE + abs_val)), pos + 1)
      else if abs_val < 256
      then (out(pos := word_of_int (GARRY_CBOR_NEGINT_BASE + 24), pos + 1 := word_of_int abs_val), pos + 2)
      else if abs_val < 65536
      then (out(pos := word_of_int (GARRY_CBOR_NEGINT_BASE + 25),
                pos + 1 := word_of_int ((abs_val sdiv 256) smod 256),
                pos + 2 := word_of_int (abs_val smod 256)), pos + 3)
      else (out(pos := word_of_int (GARRY_CBOR_NEGINT_BASE + 26),
                pos + 1 := word_of_int ((abs_val sdiv 16777216) smod 256),
                pos + 2 := word_of_int ((abs_val sdiv 65536) smod 256),
                pos + 3 := word_of_int ((abs_val sdiv 256) smod 256),
                pos + 4 := word_of_int (abs_val smod 256)), pos + 5))"

definition garry_encode_descriptor :: "int \<Rightarrow> bool \<Rightarrow> buffer \<Rightarrow> buffer \<times> int" where
  "garry_encode_descriptor chain_id has_children out_buf =
     (let out = out_buf(0 := word_of_int (GARRY_CBOR_MAP_BASE + 2),
                        1 := word_of_int (GARRY_CBOR_TEXT_BASE + 3),
                        2 := 0x63, 3 := 0x69, 4 := 0x64);
          (out, pos) = (if chain_id \<ge> 0 then encode_uint out 5 chain_id
                        else encode_negint out 5 (-1 - chain_id));
          out = out(pos := word_of_int (GARRY_CBOR_TEXT_BASE + 2), pos + 1 := 0x68, pos + 2 := 0x63,
                    pos + 3 := (if has_children
                                then word_of_int (GARRY_CBOR_SIMPLE_BASE + GARRY_CBOR_SIMPLE_TRUE)
                                else word_of_int (GARRY_CBOR_SIMPLE_BASE + GARRY_CBOR_SIMPLE_FALSE)))
      in (out, pos + 4))"

text \<open>The integer decoders return the new position, \<open>-1\<close> on malformed input, and the value they
  store, if they store one. Integers of four bytes are put together in 32-bit arithmetic.\<close>

definition decode_uint :: "buffer \<Rightarrow> int \<Rightarrow> int \<Rightarrow> int \<times> int option" where
  "decode_uint encoded elen pos =
     (let fb = uint (encoded pos); b = (\<lambda>i. uint (encoded (pos + i)))
      in if fb \<ge> GARRY_CBOR_UINT_BASE \<and> fb < GARRY_CBOR_UINT_BASE + 24
         then (pos + 1, Some (fb - GARRY_CBOR_UINT_BASE))
         else if fb = GARRY_CBOR_UINT_BASE + 24 \<and> pos + 1 < elen then (pos + 2, Some (b 1))
         else if fb = GARRY_CBOR_UINT_BASE + 25 \<and> pos + 2 < elen
         then (pos + 3, Some (b 1 * 256 + b 2))
         else if fb = GARRY_CBOR_UINT_BASE + 26 \<and> pos + 4 < elen
         then (pos + 5, Some (sint (word_of_int (b 1 * 16777216 + b 2 * 65536 + b 3 * 256 + b 4) :: 32 word)))
         else (-1, None))"

definition decode_negint :: "buffer \<Rightarrow> int \<Rightarrow> int \<Rightarrow> int \<times> int option" where
  "decode_negint encoded elen pos =
     (let fb = uint (encoded pos); b = (\<lambda>i. uint (encoded (pos + i)))
      in if fb \<ge> GARRY_CBOR_NEGINT_BASE \<and> fb < GARRY_CBOR_NEGINT_BASE + 24
         then (pos + 1, Some (-1 - (fb - GARRY_CBOR_NEGINT_BASE)))
         else if fb = GARRY_CBOR_NEGINT_BASE + 24 \<and> pos + 1 < elen then (pos + 2, Some (-1 - b 1))
         else if fb = GARRY_CBOR_NEGINT_BASE + 25 \<and> pos + 2 < elen
         then (pos + 3, Some (-1 - (b 1 * 256 + b 2)))
         else if fb = GARRY_CBOR_NEGINT_BASE + 26 \<and> pos + 4 < elen
         then (pos + 5, Some (sint (word_of_int (-1 - (b 1 * 16777216 + b 2 * 65536 + b 3 * 256 + b 4)) :: 32 word)))
         else (-1, None))"

text \<open>The chain identifier and the flag, with what the early returns leave in them.\<close>

definition garry_decode_descriptor :: "buffer \<Rightarrow> int \<Rightarrow> int \<times> bool" where
  "garry_decode_descriptor encoded elen =
     (if 0 \<ge> elen then (0, False)
      else
        (let fb = uint (encoded 0)
         in if fb < GARRY_CBOR_MAP_BASE \<or> fb \<ge> GARRY_CBOR_MAP_BASE + 32 then (0, False)
            else if 1 \<ge> elen then (0, False)
            else
              (let text_len = uint (encoded 1) - GARRY_CBOR_TEXT_BASE;
                   pos = 2 + text_len
               in if pos \<ge> elen then (0, False)
                  else
                    (let fb = uint (encoded pos);
                         r = (if fb \<ge> GARRY_CBOR_UINT_BASE \<and> fb < GARRY_CBOR_UINT_BASE + 32
                              then Some (decode_uint encoded elen pos)
                              else if fb \<ge> GARRY_CBOR_NEGINT_BASE \<and> fb < GARRY_CBOR_NEGINT_BASE + 32
                              then Some (decode_negint encoded elen pos)
                              else None)
                     in case r of
                          None \<Rightarrow> (0, False)
                        | Some (next_pos, v) \<Rightarrow>
                            (let chain_id = (case v of None \<Rightarrow> 0 | Some c \<Rightarrow> c);
                                 pos = (if next_pos > pos then next_pos else pos)
                             in if pos \<ge> elen then (chain_id, False)
                                else
                                  (let text_len = uint (encoded pos) - GARRY_CBOR_TEXT_BASE;
                                       pos = pos + 1 + text_len
                                   in if pos \<ge> elen then (chain_id, False)
                                      else (chain_id,
                                            uint (encoded pos) =
                                              GARRY_CBOR_SIMPLE_BASE + GARRY_CBOR_SIMPLE_TRUE)))))))"

subsection \<open>The bytes the encoders write\<close>

definition cbor_bytes :: "byte list \<Rightarrow> byte list" where
  "cbor_bytes d =
     (if length d < 24 then [byte_of (64 + int (length d))]
      else [88, byte_of (int (length d))]) @ d"

definition kv_bytes :: "byte list \<Rightarrow> byte list \<Rightarrow> byte list" where
  "kv_bytes k v = 130 # cbor_bytes k @ cbor_bytes v"

definition cbor_head :: "int \<Rightarrow> int \<Rightarrow> byte list" where
  "cbor_head base v =
     (if v < 24 then [byte_of (base + v)]
      else if v < 256 then [byte_of (base + 24), byte_of v]
      else if v < 65536
      then [byte_of (base + 25), byte_of (v div 256), byte_of (v mod 256)]
      else [byte_of (base + 26), byte_of (v div 16777216 mod 256),
            byte_of (v div 65536 mod 256), byte_of (v div 256 mod 256), byte_of (v mod 256)])"

definition cid_bytes :: "int \<Rightarrow> byte list" where
  "cid_bytes cid = (if cid \<ge> 0 then cbor_head 0 cid else cbor_head 32 (-1 - cid))"

definition descriptor_bytes :: "int \<Rightarrow> bool \<Rightarrow> byte list" where
  "descriptor_bytes cid hc =
     [162, 99, 0x63, 0x69, 0x64] @ cid_bytes cid @ [98, 0x68, 0x63, if hc then 245 else 244]"

lemma encode_byte_string_put:
  "garry_cbor_encode_byte_string_raw d out pos =
     (put_bytes out pos (cbor_bytes d), pos + int (length (cbor_bytes d)))"
  by (simp add: garry_cbor_encode_byte_string_raw_def cbor_bytes_def cbor_bases byte_of_def
      add.assoc)

lemma encode_kv_put:
  "garry_encode_kv k v out = (put_bytes out 0 (kv_bytes k v), int (length (kv_bytes k v)))"
  by (simp add: garry_encode_kv_def garry_cbor_encode_array_header_raw_def encode_byte_string_put
      kv_bytes_def put_bytes_append cbor_bases)

lemma encode_uint_put:
  "0 \<le> v \<Longrightarrow> encode_uint out pos v = (put_bytes out pos (cbor_head 0 v), pos + int (length (cbor_head 0 v)))"
  by (simp add: encode_uint_def cbor_head_def cbor_bases byte_of_def add.assoc)

lemma encode_negint_put:
  "0 \<le> v \<Longrightarrow> encode_negint out pos v = (put_bytes out pos (cbor_head 32 v), pos + int (length (cbor_head 32 v)))"
  by (simp add: encode_negint_def cbor_head_def cbor_bases byte_of_def add.assoc)

lemma encode_descriptor_put:
  "garry_encode_descriptor cid hc out =
     (put_bytes out 0 (descriptor_bytes cid hc), int (length (descriptor_bytes cid hc)))"
  by (simp add: garry_encode_descriptor_def encode_uint_put encode_negint_put descriptor_bytes_def
      cid_bytes_def put_bytes_append cbor_bases add.assoc)

subsection \<open>Decoding what was encoded\<close>

lemma length_cbor_bytes: "length (cbor_bytes d) = length d + (if length d < 24 then 1 else 2)"
  by (simp add: cbor_bytes_def)

lemma decode_byte_string [codec_simps]:
  assumes "holds b pos (cbor_bytes d)" "length d < 256" "pos + int (length (cbor_bytes d)) \<le> blen"
  shows "garry_cbor_decode_byte_string_raw b blen pos =
    (pos + int (length (cbor_bytes d)), d, int (length d))"
proof (cases "length d < 24")
  case True
  with assms show ?thesis
    by (simp add: garry_cbor_decode_byte_string_raw_def cbor_bytes_def cbor_bases holds_read Let_def)
next
  case False
  with assms show ?thesis
    by (simp add: garry_cbor_decode_byte_string_raw_def cbor_bytes_def cbor_bases holds_read add.assoc Let_def)
qed

lemma length_kv_bytes: "length (kv_bytes k v) = 1 + length (cbor_bytes k) + length (cbor_bytes v)"
  by (simp add: kv_bytes_def)

lemma decode_kv [codec_simps]:
  assumes "holds b 0 (kv_bytes k v)" "length k < 256" "length v < 256"
    and "int (length (kv_bytes k v)) \<le> elen"
  shows "garry_decode_kv b elen = Some ((k, int (length k)), (v, int (length v)))"
proof -
  have h: "b 0 = 130" "holds b 1 (cbor_bytes k)" "holds b (1 + int (length (cbor_bytes k))) (cbor_bytes v)"
    using assms(1) by (simp_all add: kv_bytes_def)
  have "0 < elen" using assms(4) by (simp add: kv_bytes_def)
  moreover have "garry_cbor_decode_byte_string_raw b elen 1 =
      (1 + int (length (cbor_bytes k)), k, int (length k))"
    using assms(4) by (intro decode_byte_string [OF h(2) assms(2)]) (simp add: kv_bytes_def)
  moreover have "garry_cbor_decode_byte_string_raw b elen (1 + int (length (cbor_bytes k))) =
      (1 + int (length (cbor_bytes k)) + int (length (cbor_bytes v)), v, int (length v))"
    using assms(4) by (intro decode_byte_string [OF h(3) assms(3)]) (simp add: kv_bytes_def)
  ultimately show ?thesis
    by (simp add: garry_decode_kv_def garry_cbor_decode_array_header_raw_def
        garry_cbor_array_header_size_raw_def h(1) cbor_bases)
qed

lemma word_split_16: "0 \<le> (v :: int) \<Longrightarrow> v < 65536 \<Longrightarrow> v div 256 * 256 + v mod 256 = v"
  by simp

lemma int_split_32:
  fixes v :: int
  assumes "0 \<le> v" "v < 2 ^ 31"
  shows "(v div 16777216 mod 256) * 16777216 + (v div 65536 mod 256) * 65536 +
    (v div 256 mod 256) * 256 + v mod 256 = v"
proof -
  have d: "v div 65536 = v div 256 div 256" "v div 16777216 = v div 65536 div 256"
    by (simp_all add: zdiv_zmult2_eq [symmetric])
  have "v div 16777216 mod 256 = v div 16777216" using assms by simp
  then show ?thesis
    using div_mult_mod_eq [of v 256] div_mult_mod_eq [of "v div 256" 256]
      div_mult_mod_eq [of "v div 65536" 256] unfolding d by linarith
qed

lemma cbor_head_cases:
  assumes "0 \<le> v"
  obtains "v < 24" "cbor_head base v = [byte_of (base + v)]"
  | "24 \<le> v" "v < 256" "cbor_head base v = [byte_of (base + 24), byte_of v]"
  | "256 \<le> v" "v < 65536" "cbor_head base v = [byte_of (base + 25), byte_of (v div 256), byte_of (v mod 256)]"
  | "65536 \<le> v" "cbor_head base v = [byte_of (base + 26), byte_of (v div 16777216 mod 256),
            byte_of (v div 65536 mod 256), byte_of (v div 256 mod 256), byte_of (v mod 256)]"
proof -
  consider "v < 24" | "24 \<le> v" "v < 256" | "256 \<le> v" "v < 65536" | "65536 \<le> v" by linarith
  then show ?thesis using that by cases (simp_all add: cbor_head_def)
qed

lemma decode_uint_head:
  assumes "holds b pos (cbor_head 0 v)" "0 \<le> v" "v < 2 ^ 31" "pos + int (length (cbor_head 0 v)) \<le> elen"
  shows "decode_uint b elen pos = (pos + int (length (cbor_head 0 v)), Some v)"
  using assms(2)
proof (cases rule: cbor_head_cases [where base = 0])
  case 4
  then have e: "b pos = byte_of 26" "b (pos + 1) = byte_of (v div 16777216 mod 256)"
    "b (pos + 2) = byte_of (v div 65536 mod 256)" "b (pos + 3) = byte_of (v div 256 mod 256)"
    "b (pos + 4) = byte_of (v mod 256)" "pos + 4 < elen"
    using assms(1,4) by (simp_all add: add.assoc)
  have range: "i32 v" using assms(2,3) by (simp add: i32_def)
  show ?thesis
    by (simp add: decode_uint_def Let_def cbor_bases e 4 int_split_32 [OF assms(2,3)] range
        del: of_int_add of_int_mult)
qed (use assms(1,2,4) in \<open>simp_all add: decode_uint_def cbor_bases add.assoc Let_def\<close>)

lemma decode_negint_head:
  assumes "holds b pos (cbor_head 32 v)" "0 \<le> v" "v < 2 ^ 31" "pos + int (length (cbor_head 32 v)) \<le> elen"
  shows "decode_negint b elen pos = (pos + int (length (cbor_head 32 v)), Some (-1 - v))"
  using assms(2)
proof (cases rule: cbor_head_cases [where base = 32])
  case 4
  then have e: "b pos = byte_of 58" "b (pos + 1) = byte_of (v div 16777216 mod 256)"
    "b (pos + 2) = byte_of (v div 65536 mod 256)" "b (pos + 3) = byte_of (v div 256 mod 256)"
    "b (pos + 4) = byte_of (v mod 256)" "pos + 4 < elen"
    using assms(1,4) by (simp_all add: add.assoc)
  have range: "i32 (-1 - v)" using assms(2,3) by (simp add: i32_def)
  show ?thesis
    by (simp add: decode_negint_def Let_def cbor_bases e 4 int_split_32 [OF assms(2,3)] range
        del: of_int_add of_int_mult of_int_diff)
qed (use assms(1,2,4) in \<open>simp_all add: decode_negint_def cbor_bases add.assoc Let_def\<close>)

lemma cid_bytes_first:
  "holds b pos (cid_bytes cid) \<Longrightarrow> i32 cid \<Longrightarrow>
     (if cid \<ge> 0 then uint (b pos) < 32 else 32 \<le> uint (b pos) \<and> uint (b pos) < 64)"
  by (auto simp: cid_bytes_def cbor_head_def i32_def split: if_splits)

lemma length_cid_bytes: "1 \<le> length (cid_bytes cid)" "length (cid_bytes cid) \<le> 5"
  by (simp_all add: cid_bytes_def cbor_head_def)

lemma length_descriptor_bytes: "length (descriptor_bytes cid hc) \<le> 14"
  using length_cid_bytes(2) [of cid] by (simp add: descriptor_bytes_def)

lemma decode_descriptor [codec_simps]:
  assumes "holds b 0 (descriptor_bytes cid hc)" "i32 cid" "int (length (descriptor_bytes cid hc)) \<le> elen"
  shows "garry_decode_descriptor b elen = (cid, hc)"
proof -
  let ?n = "int (length (cid_bytes cid))"
  have h: "b 0 = 162" "b 1 = 99" "holds b 5 (cid_bytes cid)" "b (5 + ?n) = 98"
    "b (5 + ?n + 3) = (if hc then 245 else 244)"
    using assms(1) by (simp_all add: descriptor_bytes_def add.assoc)
  have n: "cid_bytes cid \<noteq> []" "9 + ?n \<le> elen"
    using length_cid_bytes(1) [of cid] assms(3) by (auto simp: descriptor_bytes_def)
  note first = cid_bytes_first [OF h(3) assms(2)]
  have dec: "0 \<le> cid \<Longrightarrow> decode_uint b elen 5 = (5 + ?n, Some cid)"
    "cid < 0 \<Longrightarrow> decode_negint b elen 5 = (5 + ?n, Some cid)"
    using decode_uint_head [of b 5 cid elen] decode_negint_head [of b 5 "-1 - cid" elen] h(3) n(2) assms(2)
    by (auto simp: cid_bytes_def i32_def)
  have "garry_decode_descriptor b elen = (cid, uint (b (5 + ?n + 3)) = 245)"
  proof (cases "0 \<le> cid")
    case True
    then have "uint (b 5) < 32" using first by simp
    then show ?thesis
      using n h(1,2,4) dec(1) [OF True]
      by (simp add: garry_decode_descriptor_def cbor_bases Let_def add.assoc)
  next
    case False
    then have "32 \<le> uint (b 5)" "uint (b 5) < 64" using first by simp_all
    then show ?thesis
      using n h(1,2,4) dec(2) False
      by (simp add: garry_decode_descriptor_def cbor_bases Let_def add.assoc)
  qed
  then show ?thesis using h(5) by simp
qed

subsection \<open>Self-delimiting codes\<close>

text \<open>A code whose decoder finds the item at a position of a longer buffer, whatever follows, and
  returns the position after it.\<close>

locale codec =
  fixes enc :: "'a \<Rightarrow> byte list"
    and dec :: "buffer \<Rightarrow> int \<Rightarrow> int \<Rightarrow> int \<times> 'a"
    and ok :: "'a \<Rightarrow> bool"
  assumes dec_enc: "ok x \<Longrightarrow> holds b pos (enc x) \<Longrightarrow> pos + int (length (enc x)) \<le> blen \<Longrightarrow>
      dec b blen pos = (pos + int (length (enc x)), x)"
begin

lemma enc_prefix_free:
  assumes "ok x" "ok y" "enc x @ r = enc y @ s"
  shows "x = y" and "r = s"
proof -
  let ?b = "buf_of (enc x @ r)"
  have h: "holds ?b 0 (enc x @ r)" by (rule holds_buf_of)
  have "holds ?b 0 (enc y @ s)" unfolding assms(3) by (rule holds_buf_of)
  with h have "holds ?b 0 (enc x)" "holds ?b 0 (enc y)" unfolding holds_append by blast+
  moreover have "length (enc x) \<le> length (enc x @ r)" "length (enc y) \<le> length (enc x @ r)"
    using arg_cong [OF assms(3), of length] by simp_all
  ultimately have "dec ?b (int (length (enc x @ r))) 0 = (int (length (enc x)), x)"
    "dec ?b (int (length (enc x @ r))) 0 = (int (length (enc y)), y)"
    using dec_enc [of x ?b 0 "int (length (enc x @ r))"] dec_enc [of y ?b 0 "int (length (enc x @ r))"]
      assms(1,2) by simp_all
  then show "x = y" by simp
  with assms(3) show "r = s" by simp
qed

lemma enc_inject: "ok x \<Longrightarrow> ok y \<Longrightarrow> enc x = enc y \<Longrightarrow> x = y"
  by (rule enc_prefix_free(1) [of x y "[]" "[]"]) simp_all

lemma concat_inject:
  assumes "list_all ok xs" "list_all ok ys" "length xs = length ys"
    and "concat (map enc xs) @ r = concat (map enc ys) @ s"
  shows "xs = ys \<and> r = s"
  using assms
proof (induction xs arbitrary: ys)
  case (Cons x xs)
  then obtain y ys' where ys: "ys = y # ys'" by (cases ys) auto
  with Cons.prems have "x = y" "concat (map enc xs) @ r = concat (map enc ys') @ s"
    using enc_prefix_free [of x y "concat (map enc xs) @ r" "concat (map enc ys') @ s"] by auto
  with Cons.IH [of ys'] Cons.prems ys show ?case by simp
qed simp

end

definition cbor_string_decode :: "buffer \<Rightarrow> int \<Rightarrow> int \<Rightarrow> int \<times> byte list" where
  "cbor_string_decode b blen pos =
     (let (p, d, n) = garry_cbor_decode_byte_string_raw b blen pos in (p, d))"

interpretation cbor_string: codec cbor_bytes cbor_string_decode "\<lambda>d. length d < 256"
  by unfold_locales (simp add: cbor_string_decode_def decode_byte_string)

subsection \<open>Properties\<close>

text \<open>Key-value records: a key and a value of at most 255 bytes, encoded into any buffer and
  decoded from it with any larger valid length, come back; the encoder returns the number of bytes
  written and touches nothing else.\<close>

theorem kv_record_roundtrip:
  assumes "length k < 256" "length v < 256" "garry_encode_kv k v out = (out', n)" "n \<le> elen"
  shows "garry_decode_kv out' elen = Some ((k, int (length k)), (v, int (length v))) \<and>
    (\<forall>i. i < 0 \<or> n \<le> i \<longrightarrow> out' i = out i)"
  using assms by (auto simp: encode_kv_put decode_kv put_bytes_outside)

theorem kv_record_roundtrip_witness:
  "garry_decode_kv (fst (garry_encode_kv [1, 2] [3] (\<lambda>_. 0))) 100 = Some (([1, 2], 2), ([3], 1))"
proof -
  obtain out' n where e: "garry_encode_kv [1, 2] [3] (\<lambda>_. 0) = (out', n)" by fastforce
  then have "n \<le> 100" by (simp add: encode_kv_put kv_bytes_def cbor_bytes_def)
  with kv_record_roundtrip [OF _ _ e, of 100] e show ?thesis by simp
qed

text \<open>Version descriptors: every 32-bit chain identifier, negative ones included, and the
  children flag survive encoding and decoding.\<close>

theorem descriptor_roundtrip:
  assumes "i32 cid" "garry_encode_descriptor cid hc out = (out', n)" "n \<le> elen"
  shows "garry_decode_descriptor out' elen = (cid, hc) \<and> n \<le> 14"
  using assms length_descriptor_bytes [of cid hc] by (auto simp: encode_descriptor_put decode_descriptor)

theorem descriptor_roundtrip_witness:
  "garry_decode_descriptor (fst (garry_encode_descriptor (-70000) True (\<lambda>_. 0))) 64 = (-70000, True)"
proof -
  obtain out' n where e: "garry_encode_descriptor (-70000) True (\<lambda>_. 0) = (out', n)" by fastforce
  moreover have "n \<le> 64" using e length_descriptor_bytes [of "-70000" True]
    by (auto simp: encode_descriptor_put)
  ultimately show ?thesis
    using descriptor_roundtrip [OF _ e, of 64] by (simp add: i32_def)
qed

text \<open>The length of a byte string is written in one byte: a key of exactly 256 bytes, which the
  storage layer accepts, is encoded with length zero and does not survive.\<close>

theorem key_of_256_bytes_is_lost:
  assumes "length k = 256" "garry_encode_key_only k out = (out', n)" "n \<le> elen"
  shows "garry_decode_key_only out' elen = ([], 0)"
  using assms
  by (auto simp: garry_encode_key_only_def garry_decode_key_only_def encode_byte_string_put cbor_bytes_def
      garry_cbor_decode_byte_string_raw_def cbor_bases put_bytes_apply byte_of_def Let_def)

theorem key_of_256_bytes_is_lost_witness:
  "garry_decode_key_only (fst (garry_encode_key_only (replicate 256 7) (\<lambda>_. 0))) 300 = ([], 0)"
proof -
  obtain out' n where e: "garry_encode_key_only (replicate 256 7) (\<lambda>_. 0) = (out', n)" by fastforce
  then have "n \<le> 300"
    by (auto simp: garry_encode_key_only_def encode_byte_string_put length_cbor_bytes)
  with key_of_256_bytes_is_lost [OF _ e, of 300] e show ?thesis by simp
qed

end
