(* ===== verification/Garry_KeyEncoding.thy ===== *)
theory Garry_KeyEncoding
  imports Garry_RecordCodec "HOL-Library.List_Lexorder" "HOL-Library.Sublist"
begin

text \<open>
  Keys: \<open>src/src/key_encoding.c\<close> and \<open>src/src/btree_compression.c\<close>. A key is a sequence of
  length-prefixed components. A C string is the list of its bytes before the terminator; a key
  pointer with its length is a byte list where the code stays within the length, and a buffer
  with a length where it may look further.

  The lemmas show that the byte comparison is the lexicographic order, that the tuple code is
  self-delimiting, and the contracts of the prefix compression. The locale \<open>key_order\<close> is what
  the tree relies on.
\<close>

subsection \<open>Tuples (key_encoding.c)\<close>

record garry_key_tuple =
  kt_parts :: "byte list list"

definition garry_length_prefix_size :: "int \<Rightarrow> int" where
  "garry_length_prefix_size plen = (if plen < 128 then 1 else 3)"

definition garry_tuple_length :: "garry_key_tuple \<Rightarrow> int" where
  "garry_tuple_length t =
     fold (\<lambda>p total. total + (garry_length_prefix_size (int (length p)) + int (length p))) (kt_parts t) 0"

definition garry_make_key_2 :: "byte list \<Rightarrow> byte list \<Rightarrow> garry_key_tuple" where
  "garry_make_key_2 p1 p2 = \<lparr>kt_parts = [p1, p2]\<rparr>"

definition garry_make_key_3 :: "byte list \<Rightarrow> byte list \<Rightarrow> byte list \<Rightarrow> garry_key_tuple" where
  "garry_make_key_3 p1 p2 p3 = \<lparr>kt_parts = [p1, p2, p3]\<rparr>"

definition garry_make_key_4 :: "byte list \<Rightarrow> byte list \<Rightarrow> byte list \<Rightarrow> byte list \<Rightarrow> garry_key_tuple" where
  "garry_make_key_4 p1 p2 p3 p4 = \<lparr>kt_parts = [p1, p2, p3, p4]\<rparr>"

definition garry_encode_length_prefix :: "buffer \<Rightarrow> int \<Rightarrow> int \<Rightarrow> buffer \<times> int" where
  "garry_encode_length_prefix result offset plen =
     (if plen < 128 then (result(offset := word_of_int plen), offset + 1)
      else (result(offset := word_of_int 255,
                   offset + 1 := word_of_int ((plen sdiv 256) smod 256),
                   offset + 2 := word_of_int (plen smod 256)), offset + 3))"

definition garry_decode_length_prefix :: "buffer \<Rightarrow> int \<Rightarrow> int" where
  "garry_decode_length_prefix key offset =
     (let v0 = uint (key offset)
      in if v0 \<noteq> 255 then v0
         else uint (key (offset + 1)) * 256 + uint (key (offset + 2)))"

definition garry_empty_byte_array :: "buffer \<Rightarrow> buffer" where
  "garry_empty_byte_array out = (\<lambda>i. if 0 \<le> i \<and> i < 256 then 0 else out i)"

definition garry_encode_key_tuple :: "garry_key_tuple \<Rightarrow> buffer \<Rightarrow> buffer" where
  "garry_encode_key_tuple t out =
     fst (fold (\<lambda>part (out, offset).
            let plen = int (length part);
                (out, offset) = garry_encode_length_prefix out offset plen
            in (put_bytes out offset part, offset + plen))
          (kt_parts t) (garry_empty_byte_array out, 0))"

text \<open>The decoded parts point into the encoded bytes; they are the bytes found there.\<close>

function decode_tuple_loop :: "buffer \<Rightarrow> int \<Rightarrow> int \<Rightarrow> nat \<Rightarrow> byte list list" where
  "decode_tuple_loop encoded elen offset idx =
     (if offset < elen \<and> idx < 16
      then (let plen = garry_decode_length_prefix encoded offset;
                hdr_size = (if uint (encoded offset) = 255 then 3 else 1)
            in read_bytes encoded (offset + hdr_size) plen
               # decode_tuple_loop encoded elen (offset + hdr_size + plen) (idx + 1))
      else [])"
  by auto
termination by (relation "measure (\<lambda>(_, _, _, idx). 16 - idx)") auto

declare decode_tuple_loop.simps [simp del]

definition garry_decode_key_tuple :: "buffer \<Rightarrow> int \<Rightarrow> garry_key_tuple" where
  "garry_decode_key_tuple encoded elen = \<lparr>kt_parts = decode_tuple_loop encoded elen 0 0\<rparr>"

fun garry_has_prefix :: "byte list \<Rightarrow> byte list \<Rightarrow> bool" where
  "garry_has_prefix key [] = True"
| "garry_has_prefix [] (p # ps) = False"
| "garry_has_prefix (k # ks) (p # ps) = (if k \<noteq> p then False else garry_has_prefix ks ps)"

definition garry_encode_integer_subscript :: "int \<Rightarrow> buffer \<Rightarrow> buffer" where
  "garry_encode_integer_subscript n out =
     (let out = (garry_empty_byte_array out)(0 := 2)
      in fst (fold (\<lambda>i (out, val). (out(int i := ucast (val AND 255)), drop_bit 8 val))
               [1..<9] (out, word_of_int n :: 32 word)))"

definition garry_decode_integer_subscript :: "buffer \<Rightarrow> int \<Rightarrow> int" where
  "garry_decode_integer_subscript encoded offset =
     fold (\<lambda>i result. result * 256 + uint (encoded (offset + int i))) (rev [1..<9]) 0"

fun garry_byte_compare :: "byte list \<Rightarrow> byte list \<Rightarrow> int" where
  "garry_byte_compare [] [] = 0"
| "garry_byte_compare [] (b # bs) = -1"
| "garry_byte_compare (a # as) [] = 1"
| "garry_byte_compare (a # as) (b # bs) =
     (if a < b then -1 else if a > b then 1 else garry_byte_compare as bs)"

subsection \<open>Prefix compression (btree_compression.c)\<close>

fun garry_common_prefix_length :: "byte list \<Rightarrow> byte list \<Rightarrow> nat" where
  "garry_common_prefix_length (a # as) (b # bs) =
     (if a = b then garry_common_prefix_length as bs + 1 else 0)"
| "garry_common_prefix_length _ _ = 0"

text \<open>The result array with the length the code computed for it, which the C function does not
  return.\<close>

definition garry_minimum_separator :: "buffer \<Rightarrow> byte list \<Rightarrow> byte list \<Rightarrow> buffer \<times> int" where
  "garry_minimum_separator result left right =
     (let plen = garry_common_prefix_length left right;
          sep_len = (if plen + 1 > length right then length right else plen + 1);
          result = put_bytes (garry_empty_byte_array result) 0 (take sep_len right)
      in if garry_byte_compare (take sep_len right) left \<le> 0
         then (let sep_len = (if length left > 256 then 256 else length left)
               in (put_bytes result 0 (take sep_len left), int sep_len))
         else (result, int sep_len))"

definition garry_compress_key :: "buffer \<Rightarrow> byte list \<Rightarrow> nat \<Rightarrow> buffer" where
  "garry_compress_key result full_key prefix_len =
     (let suffix = drop prefix_len full_key
      in put_bytes ((garry_empty_byte_array result)
           (0 := word_of_int (int prefix_len), 1 := word_of_int (int (length suffix)))) 2 suffix)"

definition garry_decompress_key :: "buffer \<Rightarrow> buffer \<Rightarrow> buffer \<Rightarrow> buffer" where
  "garry_decompress_key result compressed prev_key =
     (let prefix_len = uint (compressed 0);
          suffix_len = uint (compressed 1);
          result = put_bytes (garry_empty_byte_array result) 0 (read_bytes prev_key 0 prefix_len)
      in put_bytes result prefix_len (read_bytes compressed 2 suffix_len))"

fun garry_byte_equal :: "byte list \<Rightarrow> byte list \<Rightarrow> bool" where
  "garry_byte_equal [] [] = True"
| "garry_byte_equal (a # as) (b # bs) = (if a \<noteq> b then False else garry_byte_equal as bs)"
| "garry_byte_equal _ _ = False"

subsection \<open>The order of keys\<close>

lemma byte_compare_lexicographic:
  "garry_byte_compare a b = (if a < b then -1 else if a = b then 0 else 1)"
  by (induction a b rule: garry_byte_compare.induct) auto

lemma byte_equal_eq: "garry_byte_equal a b \<longleftrightarrow> a = b"
  by (induction a b rule: garry_byte_equal.induct) auto

lemma has_prefix_eq: "garry_has_prefix key p \<longleftrightarrow> prefix p key"
  by (induction key p rule: garry_has_prefix.induct) auto

text \<open>What the tree code assumes of a three-way comparison.\<close>

locale key_order =
  fixes cmp :: "'k \<Rightarrow> 'k \<Rightarrow> int"
  assumes cmp_eq: "cmp a b = 0 \<longleftrightarrow> a = b"
    and cmp_antisym: "cmp a b < 0 \<longleftrightarrow> cmp b a > 0"
    and cmp_trans: "cmp a b < 0 \<Longrightarrow> cmp b c < 0 \<Longrightarrow> cmp a c < 0"
begin

lemma cmp_total: "cmp a b < 0 \<or> a = b \<or> cmp b a < 0"
  using cmp_eq [of a b] cmp_antisym [of b a] by linarith

lemma cmp_irrefl: "\<not> cmp a a < 0"
  using cmp_eq [of a a] by simp

text \<open>A sorted list has at most one position for a key.\<close>

lemma sorted_unique:
  assumes "sorted_wrt (\<lambda>a b. cmp a b < 0) ks" "i < length ks" "j < length ks" "cmp (ks ! i) (ks ! j) = 0"
  shows "i = j"
  using assms cmp_irrefl by (metis cmp_eq linorder_neqE_nat sorted_wrt_iff_nth_less)

end

interpretation byte_order: key_order garry_byte_compare
  by unfold_locales (auto simp: byte_compare_lexicographic split: if_splits)

subsection \<open>The tuple code\<close>

definition part_bytes :: "byte list \<Rightarrow> byte list" where
  "part_bytes p =
     (if length p < 128 then [byte_of (int (length p))]
      else [255, byte_of (int (length p) div 256), byte_of (int (length p) mod 256)]) @ p"

definition tuple_bytes :: "byte list list \<Rightarrow> byte list" where
  "tuple_bytes ps = concat (map part_bytes ps)"

definition part_ok :: "byte list \<Rightarrow> bool" where
  "part_ok p \<longleftrightarrow> length p < 65536"

lemma tuple_bytes_simps [simp]:
  "tuple_bytes [] = []" "tuple_bytes (p # ps) = part_bytes p @ tuple_bytes ps"
  "tuple_bytes (ps @ qs) = tuple_bytes ps @ tuple_bytes qs"
  by (simp_all add: tuple_bytes_def)

lemma length_part_bytes:
  "int (length (part_bytes p)) = garry_length_prefix_size (int (length p)) + int (length p)"
  by (simp add: part_bytes_def garry_length_prefix_size_def)

lemma part_bytes_not_Nil [simp]: "part_bytes p \<noteq> []"
  by (simp add: part_bytes_def)

lemma encode_length_prefix_put:
  assumes "length p < 65536" "n = int (length p)"
  shows "(let (out, offset) = garry_encode_length_prefix out offset n
          in (put_bytes out offset p, offset + n)) =
    (put_bytes out offset (part_bytes p), offset + int (length (part_bytes p)))"
  using assms by (simp add: garry_encode_length_prefix_def part_bytes_def byte_of_def add.assoc)

lemma tuple_length_bytes: "garry_tuple_length t = int (length (tuple_bytes (kt_parts t)))"
proof -
  have "fold (\<lambda>p total. total + (garry_length_prefix_size (int (length p)) + int (length p))) ps n =
      n + int (length (tuple_bytes ps))" for ps n
    by (induction ps arbitrary: n) (simp_all add: length_part_bytes)
  then show ?thesis by (simp add: garry_tuple_length_def)
qed

lemma encode_tuple_put:
  assumes "list_all part_ok (kt_parts t)"
  shows "garry_encode_key_tuple t out =
    put_bytes (garry_empty_byte_array out) 0 (tuple_bytes (kt_parts t))"
proof -
  let ?f = "\<lambda>part (out, offset).
      let plen = int (length part); (out, offset) = garry_encode_length_prefix out offset plen
      in (put_bytes out offset part, offset + plen)"
  have "fold ?f ps (out, off) = (put_bytes out off (tuple_bytes ps), off + int (length (tuple_bytes ps)))"
    if "list_all part_ok ps" for ps out off
    using that
  proof (induction ps arbitrary: out off)
    case (Cons p ps)
    have "?f p (out, off) = (put_bytes out off (part_bytes p), off + int (length (part_bytes p)))"
      using encode_length_prefix_put [of p "int (length p)" out off] Cons.prems
      by (simp add: part_ok_def Let_def)
    with Cons show ?case by (simp add: put_bytes_append add.assoc)
  qed simp
  with assms show ?thesis by (simp add: garry_encode_key_tuple_def)
qed

lemma decode_part [codec_simps]:
  assumes "holds b off (part_bytes p)" "part_ok p"
  shows "garry_decode_length_prefix b off = int (length p)"
    and "uint (b off) = 255 \<longleftrightarrow> \<not> length p < 128"
    and "read_bytes b (off + garry_length_prefix_size (int (length p))) (int (length p)) = p"
proof -
  have "holds b (off + garry_length_prefix_size (int (length p))) p"
    using assms(1) by (auto simp: part_bytes_def garry_length_prefix_size_def add.assoc)
  then show "read_bytes b (off + garry_length_prefix_size (int (length p))) (int (length p)) = p"
    by (simp add: holds_read)
  show "garry_decode_length_prefix b off = int (length p)" "uint (b off) = 255 \<longleftrightarrow> \<not> length p < 128"
    using assms by (auto simp: part_bytes_def garry_decode_length_prefix_def part_ok_def Let_def add.assoc
        split: if_splits)
qed

definition part_decode :: "buffer \<Rightarrow> int \<Rightarrow> int \<Rightarrow> int \<times> byte list" where
  "part_decode b blen pos =
     (let plen = garry_decode_length_prefix b pos;
          hdr = (if uint (b pos) = 255 then 3 else 1)
      in (pos + hdr + plen, read_bytes b (pos + hdr) plen))"

interpretation tuple_part: codec part_bytes part_decode part_ok
proof (unfold_locales, goal_cases)
  case (1 x b pos blen)
  note d = decode_part [OF 1(2,1)]
  show ?case
    using d by (simp add: part_decode_def Let_def garry_length_prefix_size_def length_part_bytes
        split: if_splits)
qed

lemma decode_tuple_loop_bytes:
  assumes "holds b off (tuple_bytes ps)" "list_all part_ok ps" "idx + length ps \<le> 16"
    and "elen = off + int (length (tuple_bytes ps))"
  shows "decode_tuple_loop b elen off idx = ps"
  using assms
proof (induction ps arbitrary: off idx)
  case (Cons p ps)
  then have h: "holds b off (part_bytes p)" "part_ok p" by simp_all
  note d = decode_part [OF h]
  have nxt: "off + (if uint (b off) = 255 then 3 else 1) + int (length p) =
      off + int (length (part_bytes p))"
    using d(2) by (simp add: length_part_bytes garry_length_prefix_size_def)
  have "read_bytes b (off + (if uint (b off) = 255 then 3 else 1)) (int (length p)) = p"
    using d(2,3) by (auto simp: garry_length_prefix_size_def split: if_splits)
  moreover have "off < elen"
    using Cons.prems(4) length_part_bytes [of p] by (simp add: garry_length_prefix_size_def)
  moreover have "decode_tuple_loop b elen (off + int (length (part_bytes p))) (idx + 1) = ps"
    using Cons.prems by (intro Cons.IH) simp_all
  ultimately show ?case
    unfolding decode_tuple_loop.simps [of b elen off] Let_def d(1) nxt
    using Cons.prems(3) by simp
qed (subst decode_tuple_loop.simps, simp)

text \<open>Byte prefixes of encoded keys are exactly the prefixes of tuples.\<close>

lemma tuple_bytes_prefix:
  assumes "list_all part_ok ps" "list_all part_ok qs"
  shows "prefix (tuple_bytes ps) (tuple_bytes qs) \<longleftrightarrow> prefix ps qs"
proof
  show "prefix ps qs" if "prefix (tuple_bytes ps) (tuple_bytes qs)"
    using that assms
  proof (induction ps arbitrary: qs)
    case (Cons p ps)
    then obtain r where r: "tuple_bytes qs = part_bytes p @ tuple_bytes ps @ r"
      by (auto simp: prefix_def)
    then obtain q qs' where qs: "qs = q # qs'" by (cases qs) auto
    then have "p = q" "tuple_bytes qs' = tuple_bytes ps @ r"
      using tuple_part.enc_prefix_free [of q p "tuple_bytes qs'" "tuple_bytes ps @ r"] r Cons.prems(2,3)
      by auto
    with Cons.IH [of qs'] Cons.prems(2,3) qs show ?case by (auto simp: prefix_def)
  qed simp
qed (auto simp: prefix_def)

lemma tuple_bytes_inject:
  "list_all part_ok ps \<Longrightarrow> list_all part_ok qs \<Longrightarrow> tuple_bytes ps = tuple_bytes qs \<longleftrightarrow> ps = qs"
  using tuple_bytes_prefix [of ps qs] tuple_bytes_prefix [of qs ps]
  by (metis prefix_order.antisym prefix_order.refl)

subsection \<open>Separators and prefix compression\<close>

lemma common_prefix_take:
  "take (garry_common_prefix_length a b) a = take (garry_common_prefix_length a b) b"
  by (induction a b rule: garry_common_prefix_length.induct) simp_all

lemma common_prefix_bounds:
  "garry_common_prefix_length a b \<le> length a" "garry_common_prefix_length a b \<le> length b"
  by (induction a b rule: garry_common_prefix_length.induct) simp_all

lemma Nil_less_iff [simp]: "[] < (xs :: byte list) \<longleftrightarrow> xs \<noteq> []"
  by (cases xs) simp_all

lemma separator_between:
  assumes "left < right"
  shows "garry_common_prefix_length left right < length right"
    and "left < take (garry_common_prefix_length left right + 1) right"
  using assms
  by (induction left right rule: garry_common_prefix_length.induct)
    (auto split: if_splits)

lemma separator_shortest:
  assumes "left < right" "left < t" "t \<le> right"
  shows "garry_common_prefix_length left right < length t"
  using assms
proof (induction left right arbitrary: t rule: garry_common_prefix_length.induct)
  case (1 a as b bs)
  then show ?case by (cases t) (auto split: if_splits)
qed auto

lemma take_le_list: "take n (xs :: byte list) \<le> xs"
  by (induction xs arbitrary: n) (auto simp: take_Cons' )

lemma minimum_separator_eq:
  assumes "left < right"
  shows "garry_minimum_separator res left right =
    (put_bytes (garry_empty_byte_array res) 0
       (take (garry_common_prefix_length left right + 1) right),
     int (garry_common_prefix_length left right + 1))"
proof -
  let ?s = "take (garry_common_prefix_length left right + 1) right"
  note s = separator_between [OF assms]
  have "?s \<noteq> left" "\<not> ?s < left" using s(2) by auto
  then have "garry_byte_compare ?s left = 1" by (simp add: byte_compare_lexicographic)
  with s(1) show ?thesis by (simp add: garry_minimum_separator_def Let_def)
qed

lemma decompress_compress:
  assumes "take n prev = take n key" "n \<le> length prev" "n \<le> length key" "length key < 256"
  shows "holds (garry_decompress_key res (garry_compress_key res' key n) (buf_of prev)) 0 key"
proof -
  let ?c = "garry_compress_key res' key n"
  have c: "uint (?c 0) = int n" "uint (?c 1) = int (length key - n)"
    unfolding garry_compress_key_def byte_of_def [symmetric] Let_def put_bytes_apply
    using assms(3,4) by simp_all
  have s: "read_bytes ?c 2 (int (length key - n)) = drop n key"
    using assms(3) by (simp add: garry_compress_key_def Let_def read_put_same)
  have p: "read_bytes (buf_of prev) 0 (int n) = take n key"
  proof -
    have "read_bytes (buf_of prev) 0 (int n) = take n prev"
      using assms(2) by (intro nth_equalityI) simp_all
    with assms(1) show ?thesis by simp
  qed
  have "garry_decompress_key res ?c (buf_of prev) =
      put_bytes (garry_empty_byte_array res) 0 (take n key @ drop n key)"
    unfolding garry_decompress_key_def Let_def c s p using assms(3)
    by (simp only: put_bytes_append length_take min_absorb2) simp
  then show ?thesis by simp
qed

subsection \<open>Integer subscripts\<close>

lemma subscript_fold:
  "fold (\<lambda>i (out, val). (out(int i := ucast (val AND 255)), drop_bit 8 val)) [1..<Suc k]
     (out :: buffer, w :: 32 word) =
   (\<lambda>j. if 1 \<le> j \<and> j \<le> int k then ucast (drop_bit (8 * nat (j - 1)) w AND 255) else out j,
    drop_bit (8 * k) w)"
  by (induction k) (auto simp: fun_eq_iff ac_simps)

lemma integer_subscript_bytes:
  assumes "0 \<le> n" "n < 2 ^ 31"
  shows "garry_decode_integer_subscript (garry_encode_integer_subscript n out) 0 = n"
proof -
  let ?w = "word_of_int n :: 32 word"
  have tb: "take_bit 32 n = n" using assms by (simp add: take_bit_int_eq_self)
  have u: "uint ?w = n" using assms by (simp add: uint_word_of_int take_bit_int_eq_self)
  have byte: "uint (ucast (drop_bit k ?w AND 255) :: byte) = n div 2 ^ k mod 256" for k
  proof -
    have "uint (ucast (drop_bit k ?w AND 255) :: byte) = take_bit 8 (drop_bit k n)"
      unfolding unsigned_ucast_eq uint_and unsigned_drop_bit_eq u by (simp add: int_and_255 tb)
    then show ?thesis by (simp add: take_bit_eq_mod drop_bit_eq_div)
  qed
  have enc: "uint (garry_encode_integer_subscript n out (int i)) = n div 2 ^ (8 * (i - 1)) mod 256"
    if "1 \<le> i" "i \<le> 8" for i
    using that subscript_fold [of 8 "(garry_empty_byte_array out)(0 := 2)" ?w] byte [of "8 * (i - 1)"]
    by (simp add: garry_encode_integer_subscript_def Let_def nat_diff_distrib)
  have "garry_decode_integer_subscript (garry_encode_integer_subscript n out) 0 =
      fold (\<lambda>i result. result * 256 + n div 2 ^ (8 * (i - 1)) mod 256) (rev [1..<9]) 0"
    unfolding garry_decode_integer_subscript_def by (intro fold_cong) (auto simp: enc)
  also have "\<dots> = n div 2 ^ 24 mod 256 * 16777216 + n div 2 ^ 16 mod 256 * 65536 +
      n div 2 ^ 8 mod 256 * 256 + n mod 256"
  proof -
    have f: "fold (\<lambda>i result. result * 256 + c i) (rev [1..<9]) 0 =
        c 4 * 16777216 + c 3 * 65536 + c 2 * 256 + c 1"
      if "c 8 = 0" "c 7 = 0" "c 6 = 0" "c 5 = 0" for c :: "nat \<Rightarrow> int"
      using that by (simp add: upt_rec numeral_eq_Suc)
    have z: "n div 2 ^ k mod 256 = 0" if "32 \<le> k" for k :: nat
    proof -
      have "n < 2 ^ k" using assms(2) power_increasing [OF that, of "2 :: int"] by simp
      with assms(1) show ?thesis by (simp add: div_pos_pos_trivial)
    qed
    let ?c = "\<lambda>i :: nat. n div 2 ^ (8 * (i - 1)) mod 256"
    have "?c 8 = 0" "?c 7 = 0" "?c 6 = 0" "?c 5 = 0" by (rule z, simp)+
    note fc = f [of ?c, OF this]
    have "?c 4 = n div 2 ^ 24 mod 256" "?c 3 = n div 2 ^ 16 mod 256" "?c 2 = n div 2 ^ 8 mod 256"
      "?c 1 = n mod 256" by simp_all
    with fc show ?thesis by (simp only:)
  qed
  also have "\<dots> = n"
  proof -
    have "(2 :: int) ^ 24 = 16777216" "(2 :: int) ^ 16 = 65536" "(2 :: int) ^ 8 = 256" by simp_all
    with int_split_32 [OF assms] show ?thesis by (simp only:)
  qed
  finally show ?thesis .
qed

subsection \<open>Properties\<close>

text \<open>C31. Key tuples: up to 16 components of fewer than 65536 bytes each, encoded and decoded with
  the encoded length, come back; the announced length is the number of bytes written.\<close>

theorem key_tuple_roundtrip:
  assumes "length (kt_parts t) \<le> 16" "list_all part_ok (kt_parts t)"
  shows "garry_decode_key_tuple (garry_encode_key_tuple t out) (garry_tuple_length t) = t \<and>
    (\<forall>i. i < 0 \<or> garry_tuple_length t \<le> i \<and> 256 \<le> i \<longrightarrow> garry_encode_key_tuple t out i = out i)"
proof
  let ?b = "garry_encode_key_tuple t out"
  have "decode_tuple_loop ?b (garry_tuple_length t) 0 0 = kt_parts t"
    by (rule decode_tuple_loop_bytes) (simp_all add: encode_tuple_put assms tuple_length_bytes)
  then show "garry_decode_key_tuple ?b (garry_tuple_length t) = t"
    by (simp add: garry_decode_key_tuple_def)
  show "\<forall>i. i < 0 \<or> garry_tuple_length t \<le> i \<and> 256 \<le> i \<longrightarrow> ?b i = out i"
    by (auto simp: encode_tuple_put assms tuple_length_bytes put_bytes_outside garry_empty_byte_array_def)
qed

theorem key_tuple_roundtrip_witness:
  "garry_decode_key_tuple (garry_encode_key_tuple (garry_make_key_2 [1, 2] (replicate 200 7)) (\<lambda>_. 0))
     (garry_tuple_length (garry_make_key_2 [1, 2] (replicate 200 7))) =
   garry_make_key_2 [1, 2] (replicate 200 7)"
  using key_tuple_roundtrip [of "garry_make_key_2 [1, 2] (replicate 200 7)"]
  by (simp add: garry_make_key_2_def part_ok_def)

text \<open>Prefix scans are exact: an encoded key starts with the bytes of an encoded tuple if and
  only if its tuple starts with that tuple, so a scan by byte prefix finds exactly the keys below a
  node of the hierarchy.\<close>

theorem prefix_scan_is_exact:
  assumes "list_all part_ok (kt_parts t)" "list_all part_ok (kt_parts p)"
  shows "garry_has_prefix
      (read_bytes (garry_encode_key_tuple t out) 0 (garry_tuple_length t))
      (read_bytes (garry_encode_key_tuple p out') 0 (garry_tuple_length p)) \<longleftrightarrow>
    prefix (kt_parts p) (kt_parts t)"
proof -
  have "read_bytes (garry_encode_key_tuple t out) 0 (garry_tuple_length t) = tuple_bytes (kt_parts t)"
    if "list_all part_ok (kt_parts t)" for t out
    using that by (simp add: encode_tuple_put tuple_length_bytes read_put_same)
  with assms show ?thesis by (simp add: has_prefix_eq tuple_bytes_prefix)
qed

theorem prefix_scan_is_exact_witness:
  "\<not> garry_has_prefix
      (read_bytes (garry_encode_key_tuple (garry_make_key_2 [1, 2] [3]) (\<lambda>_. 0)) 0
        (garry_tuple_length (garry_make_key_2 [1, 2] [3])))
      (read_bytes (garry_encode_key_tuple (garry_make_key_2 [1] [2]) (\<lambda>_. 0)) 0
        (garry_tuple_length (garry_make_key_2 [1] [2])))"
  using prefix_scan_is_exact [of "garry_make_key_2 [1, 2] [3]" "garry_make_key_2 [1] [2]"]
  by (simp add: garry_make_key_2_def part_ok_def)

text \<open>C32. The byte comparison is the lexicographic order on unsigned bytes: it returns \<open>-1\<close>, \<open>0\<close> or
  \<open>1\<close> as the first key is below, equal to or above the second.\<close>

theorem byte_compare_is_lexicographic:
  "garry_byte_compare a b = (if a < b then -1 else if a = b then 0 else 1) \<and>
   garry_byte_compare b a = - garry_byte_compare a b"
  by (auto simp: byte_compare_lexicographic)

text \<open>The separator of two keys: above the left key, at most the right key, and no longer than
  any other key with that property.\<close>

theorem minimum_separator_correct:
  assumes "left < right" "garry_minimum_separator res left right = (sep, n)"
  shows "left < read_bytes sep 0 n \<and> read_bytes sep 0 n \<le> right \<and>
    (\<forall>t. left < t \<and> t \<le> right \<longrightarrow> n \<le> int (length t))"
proof -
  let ?k = "garry_common_prefix_length left right + 1"
  note s = separator_between [OF assms(1)]
  have "sep = put_bytes (garry_empty_byte_array res) 0 (take ?k right)" "n = int ?k"
    using assms(2) minimum_separator_eq [OF assms(1)] by auto
  moreover have "?k \<le> length right" using s(1) by simp
  ultimately have "read_bytes sep 0 n = take ?k right" "n = int ?k"
    by (simp_all add: read_put_same)
  moreover have "int ?k \<le> int (length t)" if "left < t" "t \<le> right" for t
    using separator_shortest [OF assms(1) that] by simp
  ultimately show ?thesis using s(2) take_le_list by auto
qed

theorem minimum_separator_correct_witness:
  "read_bytes (fst (garry_minimum_separator (\<lambda>_. 0) [1, 5, 9] [1, 7, 2])) 0
     (snd (garry_minimum_separator (\<lambda>_. 0) [1, 5, 9] [1, 7, 2])) \<le> [1, 7, 2]"
  using minimum_separator_correct [of "[1, 5, 9]" "[1, 7, 2]" "\<lambda>_. 0"]
  by (cases "garry_minimum_separator (\<lambda>_. 0) [1, 5, 9] [1, 7, 2]") simp

text \<open>Prefix compression of a key against its predecessor is undone by decompression.\<close>

theorem compress_key_roundtrip:
  assumes "take n prev = take n key" "n \<le> length prev" "n \<le> length key" "length key < 256"
  shows "read_bytes (garry_decompress_key res (garry_compress_key res' key n) (buf_of prev)) 0
    (int (length key)) = key"
  using decompress_compress [OF assms] by (rule holds_read) simp

theorem compress_key_roundtrip_witness:
  "read_bytes (garry_decompress_key (\<lambda>_. 0) (garry_compress_key (\<lambda>_. 0) [1, 2, 3] 2) (buf_of [1, 2, 9])) 0 3
     = [1, 2, 3]"
  using compress_key_roundtrip [of 2 "[1, 2, 9]" "[1, 2, 3]"] by simp

text \<open>Integer subscripts: every non-negative 32-bit integer survives encoding and decoding.\<close>

theorem integer_subscript_roundtrip:
  assumes "0 \<le> n" "n < 2 ^ 31"
  shows "garry_decode_integer_subscript (garry_encode_integer_subscript n out) 0 = n"
  using assms by (rule integer_subscript_bytes)

theorem integer_subscript_roundtrip_witness:
  "garry_decode_integer_subscript (garry_encode_integer_subscript 123456789 (\<lambda>_. 0)) 0 = 123456789"
  using integer_subscript_roundtrip [of 123456789] by simp

text \<open>Encoded integer subscripts do not sort like the integers: the bytes are little-endian, so
  256 sorts before 1.\<close>

theorem integer_subscript_order:
  "garry_byte_compare (read_bytes (garry_encode_integer_subscript 256 (\<lambda>_. 0)) 0 9)
     (read_bytes (garry_encode_integer_subscript 1 (\<lambda>_. 0)) 0 9) = -1"
  by code_simp

end
