(* ===== verification/Garry_Hierarchical.thy ===== *)
theory Garry_Hierarchical
  imports Garry_KeyEncoding
begin

text \<open>
  Hierarchical keys: \<open>src/src/hierarchical.c\<close> and \<open>src/src/keysplit.c\<close>. The first walks keys
  whose components carry the length prefixes of \<open>key_encoding.c\<close>; the second builds keys from
  strings with a one-byte length before each component. The lemmas show that the walkers
  compute on encoded tuples what their names say on the tuples, that splitting encodes the
  segments, and that the two conventions agree for segments of at most 127 bytes only.
\<close>

subsection \<open>hierarchical.c\<close>

function subscript_count_loop :: "buffer \<Rightarrow> int \<Rightarrow> int \<Rightarrow> int \<Rightarrow> int" where
  "subscript_count_loop key klen offset count =
     (if offset < klen
      then (let plen = garry_decode_length_prefix key offset;
                hdr_size = garry_length_prefix_size plen
            in subscript_count_loop key klen (offset + hdr_size + plen) (count + 1))
      else count)"
  by auto

lemma decode_length_prefix_nonneg [simp]: "0 \<le> garry_decode_length_prefix key offset"
  by (simp add: garry_decode_length_prefix_def Let_def)

lemma length_prefix_size_pos [simp]: "0 < garry_length_prefix_size plen"
  by (simp add: garry_length_prefix_size_def)

lemma subscript_advance [simp]:
  "- garry_length_prefix_size p < garry_decode_length_prefix key off"
  using decode_length_prefix_nonneg [of key off] length_prefix_size_pos [of p] by linarith

termination subscript_count_loop
  by (relation "measure (\<lambda>(_, klen, offset, _). nat (klen - offset))")
    simp_all

declare subscript_count_loop.simps [simp del]

definition garry_subscript_count :: "buffer \<Rightarrow> int \<Rightarrow> int" where
  "garry_subscript_count key klen = subscript_count_loop key klen 0 0"

fun subscript_offset_loop :: "buffer \<Rightarrow> int \<Rightarrow> int \<Rightarrow> nat \<Rightarrow> int" where
  "subscript_offset_loop key klen offset 0 = offset"
| "subscript_offset_loop key klen offset (Suc i) =
     (if offset \<ge> klen then -1
      else (let plen = garry_decode_length_prefix key offset;
                hdr_size = garry_length_prefix_size plen;
                offset = offset + hdr_size + plen
            in if offset > klen then -1 else subscript_offset_loop key klen offset i))"

definition garry_get_subscript_offset :: "buffer \<Rightarrow> int \<Rightarrow> int \<Rightarrow> int" where
  "garry_get_subscript_offset key klen idx = subscript_offset_loop key klen 0 (nat idx)"

text \<open>The loop of \<open>garry_subscript_equal\<close> is that of \<open>garry_get_subscript_offset\<close>, with a return
  of false where the latter returns \<open>-1\<close>.\<close>

definition garry_subscript_equal :: "buffer \<Rightarrow> int \<Rightarrow> int \<Rightarrow> byte list \<Rightarrow> bool" where
  "garry_subscript_equal key klen idx expected =
     (let offset = subscript_offset_loop key klen 0 (nat idx)
      in if offset = -1 then False
         else if offset \<ge> klen then False
         else (let plen = garry_decode_length_prefix key offset;
                   hdr_size = garry_length_prefix_size plen
               in if offset + hdr_size + plen > klen then False
                  else if plen \<noteq> int (length expected) then False
                  else list_all (\<lambda>j. key (offset + hdr_size + int j) = expected ! j) [0..<nat plen]))"

definition garry_key_prefix :: "buffer \<Rightarrow> int \<Rightarrow> int \<Rightarrow> buffer \<Rightarrow> int \<Rightarrow> buffer \<times> int" where
  "garry_key_prefix key klen nsubs out out_size =
     (let plen = garry_get_subscript_offset key klen nsubs
      in if plen > out_size then (out, -1)
         else (let out = (\<lambda>i. if 0 \<le> i \<and> i < out_size then 0 else out i)
               in (put_bytes out 0 (read_bytes key 0 plen), plen)))"

definition garry_extract_subscript :: "buffer \<Rightarrow> int \<Rightarrow> int \<Rightarrow> byte list \<times> int" where
  "garry_extract_subscript key klen idx =
     (let offset = garry_get_subscript_offset key klen idx;
          plen = garry_decode_length_prefix key offset;
          hdr_size = garry_length_prefix_size plen
      in (read_bytes key (offset + hdr_size) plen, plen))"

definition garry_concat_prefix :: "byte list \<Rightarrow> byte list \<Rightarrow> buffer \<Rightarrow> int \<Rightarrow> buffer \<times> int" where
  "garry_concat_prefix parent sub out out_size =
     (let parent_len = int (length parent); sub_len = int (length sub);
          total = parent_len + garry_length_prefix_size sub_len + sub_len
      in if total > out_size then (out, -1)
         else (let out = (\<lambda>i. if 0 \<le> i \<and> i < out_size then 0 else out i);
                   out = put_bytes out 0 parent;
                   (out, offset) = garry_encode_length_prefix out parent_len sub_len
               in (put_bytes out offset sub, total)))"

subsection \<open>keysplit.c\<close>

text \<open>A C string without its terminator; the delimiter is not the zero byte.\<close>

definition split_segment :: "byte list \<Rightarrow> byte \<Rightarrow> byte list" where
  "split_segment p delimiter = take 255 (takeWhile (\<lambda>c. c \<noteq> delimiter) p)"

definition split_rest :: "byte list \<Rightarrow> byte \<Rightarrow> byte list" where
  "split_rest p delimiter =
     (case drop (length (split_segment p delimiter)) p of
        [] \<Rightarrow> []
      | c # cs \<Rightarrow> if c = delimiter then cs else c # cs)"

lemma split_rest_shorter: "p \<noteq> [] \<Longrightarrow> length (split_rest p d) < length p"
  by (cases p) (auto simp: split_rest_def split_segment_def split: list.split dest: arg_cong [where f = length])

function key_split_loop :: "byte list \<Rightarrow> byte \<Rightarrow> nat \<Rightarrow> int \<Rightarrow> buffer \<Rightarrow> buffer \<times> int" where
  "key_split_loop p delimiter count pos out =
     (if p \<noteq> [] \<and> count < 16
      then (let seg = split_segment p delimiter; seg_len = int (length seg)
            in if pos + 1 + seg_len > 256 then (out, pos)
               else key_split_loop (split_rest p delimiter) delimiter (count + 1) (pos + 1 + seg_len)
                      (put_bytes (out(pos := word_of_int seg_len)) (pos + 1) seg))
      else (out, pos))"
  by auto
termination by (relation "measure (\<lambda>(p, _). length p)") (simp_all add: split_rest_shorter)

declare key_split_loop.simps [simp del]

definition garry_key_split :: "byte list option \<Rightarrow> byte \<Rightarrow> buffer \<Rightarrow> buffer \<times> int" where
  "garry_key_split str delimiter out =
     (case str of None \<Rightarrow> (out, 0) | Some s \<Rightarrow> key_split_loop s delimiter 0 0 out)"

text \<open>The loop of \<open>garry_key_unsplit\<close>; a \<open>break\<close> leaves it with the state reached.\<close>

lemma minus_one_less_uint [simp]: "- 1 < uint (b :: byte)"
  using uint_ge_0 [of b] by linarith

function key_unsplit_loop ::
  "buffer \<Rightarrow> int \<Rightarrow> byte \<Rightarrow> int \<Rightarrow> int \<Rightarrow> buffer \<Rightarrow> int \<Rightarrow> int \<Rightarrow> buffer \<times> int \<times> int" where
  "key_unsplit_loop key klen delimiter out_size pos out out_pos count =
     (if pos < klen
      then (if pos + 1 > klen then (out, out_pos, count)
            else
              (let seg_len = uint (key pos); pos = pos + 1
               in if pos + seg_len > klen then (out, out_pos, count)
                  else if out_pos > 0 \<and> out_pos \<ge> out_size then (out, out_pos, count)
                  else
                    (let (out, out_pos) = (if out_pos > 0 then (out(out_pos := delimiter), out_pos + 1)
                                           else (out, out_pos))
                     in if out_pos + seg_len > out_size then (out, out_pos, count)
                        else key_unsplit_loop key klen delimiter out_size (pos + seg_len)
                               (put_bytes out out_pos (read_bytes key pos seg_len))
                               (out_pos + seg_len) (count + 1))))
      else (out, out_pos, count))"
  by auto
termination
  by (relation "measure (\<lambda>(_, klen, _, _, pos, _). nat (klen - pos))") (auto simp: nat_less_iff)

declare key_unsplit_loop.simps [simp del]

definition garry_key_unsplit :: "buffer \<Rightarrow> int \<Rightarrow> byte \<Rightarrow> buffer \<Rightarrow> int \<Rightarrow> buffer \<times> int" where
  "garry_key_unsplit key klen delimiter out out_size =
     (if klen \<le> 0 \<or> out_size \<le> 0 then (out, 0)
      else (let (out, out_pos, count) = key_unsplit_loop key klen delimiter out_size 0 out 0 0
            in (if out_pos < out_size then out(out_pos := 0) else out, count)))"

definition garry_make_key :: "byte list option \<Rightarrow> buffer \<Rightarrow> buffer \<times> int" where
  "garry_make_key str out =
     (case str of
        None \<Rightarrow> (out, 0)
      | Some s \<Rightarrow>
          (let seg = take 255 s; len = int (length seg)
           in if 1 + len > 256 then (out, 0)
              else (put_bytes (out(0 := word_of_int len)) 1 seg, 1 + len)))"

text \<open>A null part makes the function return zero; the bytes written before stay in the buffer.\<close>

fun make_parts_loop :: "byte list option list \<Rightarrow> nat \<Rightarrow> int \<Rightarrow> buffer \<Rightarrow> buffer \<times> int" where
  "make_parts_loop [] i pos out = (out, pos)"
| "make_parts_loop (None # ps) i pos out = (if i < 16 then (out, 0) else (out, pos))"
| "make_parts_loop (Some s # ps) i pos out =
     (if i < 16
      then (let seg = take 255 s; seg_len = int (length seg)
            in if pos + 1 + seg_len > 256 then (out, pos)
               else make_parts_loop ps (i + 1) (pos + 1 + seg_len)
                      (put_bytes (out(pos := word_of_int seg_len)) (pos + 1) seg))
      else (out, pos))"

definition garry_make_key_parts :: "byte list option list \<Rightarrow> buffer \<Rightarrow> buffer \<times> int" where
  "garry_make_key_parts parts out = (if parts = [] then (out, 0) else make_parts_loop parts 0 0 out)"

subsection \<open>The walkers on encoded tuples\<close>

lemma part_step:
  assumes "holds b off (part_bytes p)" "part_ok p"
  shows "off + garry_length_prefix_size (garry_decode_length_prefix b off) + garry_decode_length_prefix b off
    = off + int (length (part_bytes p))"
  by (simp add: decode_part(1) [OF assms] length_part_bytes)

lemma length_part_pos: "0 < int (length (part_bytes p))"
  by simp

lemma subscript_count_bytes:
  assumes "holds b off (tuple_bytes ps)" "list_all part_ok ps" "klen = off + int (length (tuple_bytes ps))"
  shows "subscript_count_loop b klen off n = n + int (length ps)"
  using assms
proof (induction ps arbitrary: off n)
  case Nil
  then show ?case by (subst subscript_count_loop.simps) simp
next
  case (Cons p ps)
  have "off < klen"
    using Cons.prems(3) length_part_pos [of p] unfolding tuple_bytes_simps length_append of_nat_add
    by linarith
  moreover have "holds b off (part_bytes p)" "part_ok p" using Cons.prems by simp_all
  note st = part_step [OF this]
  moreover have "subscript_count_loop b klen (off + int (length (part_bytes p))) (n + 1) =
      n + 1 + int (length ps)"
    using Cons.prems by (intro Cons.IH) simp_all
  ultimately show ?case
    unfolding subscript_count_loop.simps [of b klen off] Let_def st by simp
qed

lemma subscript_offset_bytes:
  assumes "holds b off (tuple_bytes ps)" "list_all part_ok ps" "klen = off + int (length (tuple_bytes ps))"
  shows "subscript_offset_loop b klen off i =
    (if i \<le> length ps then off + int (length (tuple_bytes (take i ps))) else -1)"
  using assms
proof (induction i arbitrary: off ps)
  case 0
  then show ?case by simp
next
  case (Suc i)
  show ?case
  proof (cases ps)
    case Nil
    with Suc.prems show ?thesis by simp
  next
    case (Cons p ps')
    have "off < klen"
      using Suc.prems(3) length_part_pos [of p] unfolding Cons tuple_bytes_simps length_append of_nat_add
      by linarith
    moreover have "off + int (length (part_bytes p)) \<le> klen" using Suc.prems(3) Cons by simp
    moreover have "holds b off (part_bytes p)" "part_ok p" using Suc.prems Cons by simp_all
    note st = part_step [OF this]
    moreover have "subscript_offset_loop b klen (off + int (length (part_bytes p))) i =
        (if i \<le> length ps' then off + int (length (part_bytes p)) + int (length (tuple_bytes (take i ps')))
         else -1)"
      using Suc.prems Cons by (intro Suc.IH) simp_all
    ultimately show ?thesis
      unfolding subscript_offset_loop.simps Let_def st using Cons by simp
  qed
qed

lemma tuple_at:
  assumes "holds b 0 (tuple_bytes ps)" "i < length ps"
  shows "holds b (int (length (tuple_bytes (take i ps)))) (part_bytes (ps ! i))"
proof -
  have "tuple_bytes ps = tuple_bytes (take i ps) @ part_bytes (ps ! i) @ tuple_bytes (drop (Suc i) ps)"
    using assms(2) by (metis append_take_drop_id id_take_nth_drop tuple_bytes_simps(2,3))
  with assms(1) show ?thesis by simp
qed

lemma extract_subscript_bytes:
  assumes "holds b 0 (tuple_bytes ps)" "list_all part_ok ps" "0 \<le> i" "i < int (length ps)"
  shows "garry_extract_subscript b (int (length (tuple_bytes ps))) i = (ps ! nat i, int (length (ps ! nat i)))"
proof -
  let ?o = "int (length (tuple_bytes (take (nat i) ps)))"
  have "garry_get_subscript_offset b (int (length (tuple_bytes ps))) i = ?o"
    using assms by (simp add: garry_get_subscript_offset_def subscript_offset_bytes)
  moreover have "holds b ?o (part_bytes (ps ! nat i))" "part_ok (ps ! nat i)"
    using assms by (auto simp: tuple_at list_all_length)
  note decode_part [OF this]
  ultimately show ?thesis by (simp add: garry_extract_subscript_def Let_def)
qed

lemma subscript_equal_bytes:
  assumes "holds b 0 (tuple_bytes ps)" "list_all part_ok ps" "0 \<le> i"
  shows "garry_subscript_equal b (int (length (tuple_bytes ps))) i expected \<longleftrightarrow>
    i < int (length ps) \<and> ps ! nat i = expected"
proof -
  let ?n = "int (length (tuple_bytes ps))" and ?o = "int (length (tuple_bytes (take (nat i) ps)))"
  have off: "subscript_offset_loop b ?n 0 (nat i) = (if i \<le> int (length ps) then ?o else -1)"
    using subscript_offset_bytes [OF assms(1,2), of ?n "nat i"] assms(3) by (simp add: nat_le_iff)
  consider "i < int (length ps)" | "i = int (length ps)" | "int (length ps) < i" by linarith
  then show ?thesis
  proof cases
    case 1
    let ?p = "ps ! nat i"
    have h: "holds b ?o (part_bytes ?p)" "part_ok ?p"
      using 1 assms by (auto simp: tuple_at list_all_length)
    note d = decode_part [OF h]
    have "tuple_bytes ps = tuple_bytes (take (nat i) ps) @ part_bytes ?p @ tuple_bytes (drop (Suc (nat i)) ps)"
      using 1 assms(3) by (metis append_take_drop_id id_take_nth_drop tuple_bytes_simps(2,3) nat_less_iff)
    then have "?n = ?o + int (length (part_bytes ?p)) + int (length (tuple_bytes (drop (Suc (nat i)) ps)))"
      by simp
    then have n: "?o < ?n" "?o + int (length (part_bytes ?p)) \<le> ?n"
      using length_part_pos [of ?p] by linarith+
    let ?s = "?o + garry_length_prefix_size (int (length ?p))"
    have r: "b (?s + int j) = ?p ! j" if "j < length ?p" for j
    proof -
      have "read_bytes b ?s (int (length ?p)) ! j = ?p ! j" by (simp only: d(3))
      then show ?thesis using that by simp
    qed
    have "garry_subscript_equal b ?n i expected \<longleftrightarrow>
        length ?p = length expected \<and> list_all (\<lambda>j. ?p ! j = expected ! j) [0..<length ?p]"
      using 1 n r by (auto simp: garry_subscript_equal_def Let_def off d(1) length_part_bytes list_all_iff)
    also have "\<dots> \<longleftrightarrow> ?p = expected" by (auto simp: list_all_iff intro: nth_equalityI)
    finally show ?thesis using 1 by simp
  next
    case 2
    with off show ?thesis by (simp add: garry_subscript_equal_def Let_def)
  next
    case 3
    with off show ?thesis by (simp add: garry_subscript_equal_def Let_def)
  qed
qed

lemma concat_prefix_bytes:
  assumes "part_ok sub"
    and "int (length parent + length (part_bytes sub)) \<le> out_size"
  shows "garry_concat_prefix parent sub out out_size =
    (put_bytes (\<lambda>i. if 0 \<le> i \<and> i < out_size then 0 else out i) 0 (parent @ part_bytes sub),
     int (length (parent @ part_bytes sub)))"
proof -
  let ?out = "put_bytes (\<lambda>i. if 0 \<le> i \<and> i < out_size then 0 else out i) 0 parent"
  obtain o2 k where e: "garry_encode_length_prefix ?out (int (length parent)) (int (length sub)) = (o2, k)"
    by fastforce
  then have "put_bytes o2 k sub = put_bytes ?out (int (length parent)) (part_bytes sub)"
    using encode_length_prefix_put [of sub "int (length sub)" ?out "int (length parent)"] assms(1)
    by (simp add: part_ok_def)
  with e assms(2) show ?thesis
    by (simp add: garry_concat_prefix_def Let_def length_part_bytes put_bytes_append)
qed

subsection \<open>Splitting strings\<close>

text \<open>The one-byte convention of \<open>keysplit.c\<close>.\<close>

definition segment_bytes :: "byte list \<Rightarrow> byte list" where
  "segment_bytes s = byte_of (int (length s)) # s"

definition segments_bytes :: "byte list list \<Rightarrow> byte list" where
  "segments_bytes ss = concat (map segment_bytes ss)"

fun join_segments :: "byte \<Rightarrow> byte list list \<Rightarrow> byte list" where
  "join_segments d [] = []"
| "join_segments d [s] = s"
| "join_segments d (s # ss) = s @ d # join_segments d ss"

definition segment_ok :: "byte \<Rightarrow> byte list \<Rightarrow> bool" where
  "segment_ok d s \<longleftrightarrow> length s \<le> 255 \<and> d \<notin> set s"

lemma segments_bytes_simps [simp]:
  "segments_bytes [] = []" "segments_bytes (s # ss) = segment_bytes s @ segments_bytes ss"
  by (simp_all add: segments_bytes_def)

lemma length_segment_bytes [simp]: "length (segment_bytes s) = Suc (length s)"
  by (simp add: segment_bytes_def)

lemma split_segment_join:
  assumes "segment_ok d s"
  shows "split_segment s d = s" "split_segment (s @ d # r) d = s" "split_rest s d = []"
    "split_rest (s @ d # r) d = r"
proof -
  have t: "takeWhile (\<lambda>c. c \<noteq> d) s = s" "takeWhile (\<lambda>c. c \<noteq> d) (s @ d # r) = s"
    using assms by (auto simp: segment_ok_def takeWhile_tail takeWhile_eq_all_conv)
  then show s: "split_segment s d = s" "split_segment (s @ d # r) d = s"
    unfolding split_segment_def t using assms by (simp_all add: segment_ok_def)
  then show "split_rest s d = []" "split_rest (s @ d # r) d = r"
    by (simp_all add: split_rest_def)
qed

lemma key_split_loop_segments:
  assumes "list_all (segment_ok d) ss" "ss \<noteq> [] \<longrightarrow> last ss \<noteq> []" "n + length ss \<le> 16"
    and "0 \<le> pos" "pos + int (length (segments_bytes ss)) \<le> 256"
  shows "key_split_loop (join_segments d ss) d n pos out =
    (put_bytes out pos (segments_bytes ss), pos + int (length (segments_bytes ss)))"
  using assms
proof (induction d ss arbitrary: n pos out rule: join_segments.induct)
  case (1 d)
  then show ?case by (simp add: key_split_loop.simps)
next
  case (2 d s)
  then have "segment_ok d s" "s \<noteq> []" by simp_all
  with 2 show ?case
    using key_split_loop.simps [of "[]" d "Suc n"]
    by (simp add: key_split_loop.simps [of s] Let_def split_segment_join segment_bytes_def byte_of_def)
next
  case (3 d s t ss)
  then have s: "segment_ok d s" by simp
  have "key_split_loop (join_segments d (t # ss)) d (n + 1) (pos + 1 + int (length s)) out' =
      (put_bytes out' (pos + 1 + int (length s)) (segments_bytes (t # ss)),
       pos + 1 + int (length s) + int (length (segments_bytes (t # ss))))" for out'
    using 3 by (intro "3.IH") simp_all
  with 3 show ?case
    by (simp add: key_split_loop.simps [of "s @ _"] Let_def split_segment_join [OF s] segment_bytes_def
        byte_of_def put_bytes_append add.assoc)
qed

subsection \<open>Properties\<close>

text \<open>The walkers over encoded keys compute the tuple operations: counting the components,
  extracting one, comparing one, and taking the encoded prefix of the first few; an index past the
  end is refused.\<close>

theorem hierarchical_walkers_correct:
  assumes "holds key 0 (tuple_bytes ps)" "list_all part_ok ps" "klen = int (length (tuple_bytes ps))"
    and "0 \<le> i"
  shows "garry_subscript_count key klen = int (length ps) \<and>
    garry_get_subscript_offset key klen i =
      (if i \<le> int (length ps) then int (length (tuple_bytes (take (nat i) ps))) else -1) \<and>
    (i < int (length ps) \<longrightarrow>
       garry_extract_subscript key klen i = (ps ! nat i, int (length (ps ! nat i)))) \<and>
    (garry_subscript_equal key klen i s \<longleftrightarrow> i < int (length ps) \<and> ps ! nat i = s)"
  using assms subscript_count_bytes [OF assms(1,2), of klen 0]
    subscript_offset_bytes [OF assms(1,2), of klen "nat i"]
    extract_subscript_bytes [OF assms(1,2,4)] subscript_equal_bytes [OF assms(1,2,4), of s]
  by (simp add: garry_subscript_count_def garry_get_subscript_offset_def nat_le_iff)

theorem hierarchical_walkers_correct_witness:
  "garry_extract_subscript (buf_of (tuple_bytes [[1, 2], replicate 200 9, [3]])) 208 1
     = (replicate 200 9, 200)"
proof -
  let ?ps = "[[1, 2], replicate 200 9, [3]] :: byte list list"
  have "list_all part_ok ?ps" "208 = int (length (tuple_bytes ?ps))"
    by (simp_all add: part_ok_def part_bytes_def)
  from hierarchical_walkers_correct [OF holds_buf_of this, of 1 "[]"] show ?thesis by simp
qed

text \<open>Extending a key: concatenating an encoded parent key and a component gives the encoded
  key of the longer tuple, or \<open>-1\<close> if it does not fit, and the prefix of that key with the
  parent's number of components is the parent again.\<close>

theorem concat_prefix_extends_tuple:
  assumes "list_all part_ok ps" "part_ok s" "parent = tuple_bytes ps"
    and "garry_concat_prefix parent s out out_size = (key, n)"
  shows "if int (length (tuple_bytes (ps @ [s]))) \<le> out_size
    then n = int (length (tuple_bytes (ps @ [s]))) \<and> read_bytes key 0 n = tuple_bytes (ps @ [s]) \<and>
      snd (garry_key_prefix key n (int (length ps)) out' n) = int (length parent) \<and>
      read_bytes (fst (garry_key_prefix key n (int (length ps)) out' n)) 0 (int (length parent)) = parent
    else n = -1 \<and> key = out"
proof (cases "int (length (tuple_bytes (ps @ [s]))) \<le> out_size")
  case True
  let ?b = "\<lambda>i. if 0 \<le> i \<and> i < out_size then 0 else out i"
  have e: "key = put_bytes ?b 0 (tuple_bytes (ps @ [s]))" "n = int (length (tuple_bytes (ps @ [s])))"
    using concat_prefix_bytes [of s parent out_size out] True assms by auto
  have off: "garry_get_subscript_offset key n (int (length ps)) = int (length parent)"
    using subscript_offset_bytes [of key 0 "ps @ [s]" n "length ps"] assms(1-3) e
    by (simp add: garry_get_subscript_offset_def del: tuple_bytes_simps(3))
  have "read_bytes key 0 (int (length parent)) = parent"
  proof (rule holds_read)
    have "holds key 0 (tuple_bytes ps @ tuple_bytes [s])"
      unfolding e(1) tuple_bytes_simps(3) [symmetric] by (rule holds_put)
    then show "holds key 0 parent" using assms(3) by simp
  qed simp
  with True e off assms(3) show ?thesis
    by (simp add: garry_key_prefix_def Let_def read_put_same)
next
  case False
  then show ?thesis
    using assms(3,4) by (auto simp: garry_concat_prefix_def length_part_bytes Let_def split: if_splits)
qed

theorem concat_prefix_extends_tuple_witness:
  "read_bytes (fst (garry_concat_prefix (tuple_bytes [[1]]) [2, 3] (\<lambda>_. 0) 256)) 0 5 = [1, 1, 2, 2, 3]"
proof -
  obtain key n where e: "garry_concat_prefix (tuple_bytes [[1]]) [2, 3] (\<lambda>_. 0) 256 = (key, n)"
    by fastforce
  from concat_prefix_extends_tuple [OF _ _ refl e, of "\<lambda>_. 0"] e show ?thesis
    by (auto simp: part_ok_def part_bytes_def byte_of_def)
qed

text \<open>Splitting a delimited string gives its segments, each behind its one-byte length: for at
  most 16 segments of at most 255 bytes that fit in 256 bytes, the last one not empty.\<close>

theorem key_split_encodes_segments:
  assumes "list_all (segment_ok d) ss" "ss \<noteq> []" "last ss \<noteq> []" "length ss \<le> 16"
    and "length (segments_bytes ss) \<le> 256"
  shows "garry_key_split (Some (join_segments d ss)) d out =
    (put_bytes out 0 (segments_bytes ss), int (length (segments_bytes ss)))"
  using assms key_split_loop_segments [of d ss 0 0 out] by (simp add: garry_key_split_def)

theorem key_split_encodes_segments_witness:
  "snd (garry_key_split (Some [97, 47, 98, 99]) 47 (\<lambda>_. 0)) = 5"
  using key_split_encodes_segments [of 47 "[[97], [98, 99]]" "\<lambda>_. 0"]
  by (simp add: segment_ok_def)

text \<open>The two length conventions disagree from 128 bytes on: the key that splitting makes of a
  single segment of 130 bytes is read back by the hierarchical walker as a segment that starts two
  bytes too late.\<close>

theorem split_segment_of_130_misread:
  "let key = garry_key_split (Some (replicate 129 7 @ [9])) 47 (\<lambda>_. 0)
   in snd key = 131 \<and>
      garry_extract_subscript (fst key) (snd key) 0 \<noteq> (replicate 129 7 @ [9], 130)"
  by code_simp

end
