(* ===== verification/Garry_Header.thy ===== *)
theory Garry_Header
  imports Garry_Endian
begin

text \<open>
  Configuration and the database header: \<open>src/src/engine_settings.c\<close>,
  \<open>src/src/garry_config.c\<close>, \<open>src/src/garry_types.c\<close>, \<open>src/src/storage_core.c\<close> and
  \<open>src/src/db_header.c\<close>. The header page is a fixed layout of thirteen little-endian
  integers guarded by a 31-bit FNV-1a checksum. The lemmas show the round trip of the layout
  and that the checksum catches the change of any single guarded byte.
\<close>

subsection \<open>Status codes (garry_types.c)\<close>

datatype garry_status =
    GARRY_OK
  | GARRY_ERR_NOT_FOUND
  | GARRY_ERR_LOCK_CONFLICT
  | GARRY_ERR_IO
  | GARRY_ERR_CORRUPT
  | GARRY_ERR_INVALID_ARG
  | GARRY_ERR_NOMEM
  | GARRY_ERR_BUFFER_TOO_SMALL

fun garry_strerror :: "garry_status \<Rightarrow> string" where
  "garry_strerror GARRY_OK = ''ok''"
| "garry_strerror GARRY_ERR_NOT_FOUND = ''not found''"
| "garry_strerror GARRY_ERR_LOCK_CONFLICT = ''lock conflict''"
| "garry_strerror GARRY_ERR_IO = ''i/o error''"
| "garry_strerror GARRY_ERR_CORRUPT = ''corrupt database''"
| "garry_strerror GARRY_ERR_INVALID_ARG = ''invalid argument''"
| "garry_strerror GARRY_ERR_NOMEM = ''out of memory''"
| "garry_strerror GARRY_ERR_BUFFER_TOO_SMALL = ''buffer too small''"

subsection \<open>Engine settings (engine_settings.c, garry_config.c)\<close>

record garry_engine_settings =
  es_page_size :: int
  es_compression :: int
  es_max_txns :: int
  es_max_versions :: int
  es_max_key_size :: int
  es_max_subscripts :: int
  es_btree_flags :: int
  es_pool_size :: int
  es_max_record_size :: int

definition GARRY_COMPRESS_NONE :: int where "GARRY_COMPRESS_NONE = 0"
definition GARRY_COMPRESS_LZ4 :: int where "GARRY_COMPRESS_LZ4 = 1"

definition garry_default_engine_settings :: garry_engine_settings where
  "garry_default_engine_settings =
     \<lparr>es_page_size = 4096, es_compression = GARRY_COMPRESS_NONE, es_max_txns = 4,
      es_max_versions = 64, es_max_key_size = 256, es_max_subscripts = 16,
      es_btree_flags = 0, es_pool_size = 256, es_max_record_size = 16384\<rparr>"

record garry_config =
  cfg_pool_size :: int
  cfg_max_record_size :: int
  cfg_page_size :: int
  cfg_max_txns :: int
  cfg_max_versions :: int
  cfg_max_key_size :: int
  cfg_max_subscripts :: int
  cfg_compression :: int
  cfg_btree_flags :: int

definition garry_config_default :: garry_config where
  "garry_config_default =
     (let s = garry_default_engine_settings in
      \<lparr>cfg_pool_size = es_pool_size s, cfg_max_record_size = es_max_record_size s,
       cfg_page_size = es_page_size s, cfg_max_txns = es_max_txns s,
       cfg_max_versions = es_max_versions s, cfg_max_key_size = es_max_key_size s,
       cfg_max_subscripts = es_max_subscripts s, cfg_compression = es_compression s,
       cfg_btree_flags = es_btree_flags s\<rparr>)"

text \<open>The settings \<open>garry_database_create_with_config\<close> passes on.\<close>

definition config_settings :: "garry_config \<Rightarrow> garry_engine_settings" where
  "config_settings c =
     garry_default_engine_settings
       \<lparr>es_pool_size := cfg_pool_size c, es_max_record_size := cfg_max_record_size c,
        es_page_size := cfg_page_size c, es_max_txns := cfg_max_txns c,
        es_max_versions := cfg_max_versions c, es_max_key_size := cfg_max_key_size c,
        es_max_subscripts := cfg_max_subscripts c, es_compression := cfg_compression c,
        es_btree_flags := cfg_btree_flags c\<rparr>"

subsection \<open>Page headers (storage_core.c)\<close>

datatype garry_node_kind =
    GARRY_NODE_INTERNAL
  | GARRY_NODE_LEAF
  | GARRY_NODE_OVERFLOW
  | GARRY_NODE_FREE
  | GARRY_NODE_CHAIN

fun node_kind_ord :: "garry_node_kind \<Rightarrow> int" where
  "node_kind_ord GARRY_NODE_INTERNAL = 0"
| "node_kind_ord GARRY_NODE_LEAF = 1"
| "node_kind_ord GARRY_NODE_OVERFLOW = 2"
| "node_kind_ord GARRY_NODE_FREE = 3"
| "node_kind_ord GARRY_NODE_CHAIN = 4"

record garry_page_header =
  ph_page_type :: garry_node_kind
  ph_page_level :: int
  ph_num_records :: int
  ph_free_start :: int
  ph_free_end :: int
  ph_compression :: int
  ph_parent_page :: int
  ph_checksum :: int

definition garry_page_header_size :: int where
  "garry_page_header_size = 32"

definition garry_create_header :: "garry_node_kind \<Rightarrow> int \<Rightarrow> garry_page_header" where
  "garry_create_header pt level =
     \<lparr>ph_page_type = pt, ph_page_level = level, ph_num_records = 0,
      ph_free_start = garry_page_header_size, ph_free_end = 65536, ph_compression = 0,
      ph_parent_page = 0, ph_checksum = 0\<rparr>"

subsection \<open>The database header (db_header.c)\<close>

definition GARRY_DB_MAGIC :: int where "GARRY_DB_MAGIC = 0x52435350"
definition GARRY_DB_VERSION :: int where "GARRY_DB_VERSION = 2"

record garry_db_header =
  dh_magic :: int
  dh_version :: int
  dh_page_size :: int
  dh_compression :: int
  dh_root_page :: int
  dh_free_list_head :: int
  dh_total_pages :: int
  dh_max_txns :: int
  dh_max_versions :: int
  dh_max_key_size :: int
  dh_max_subscripts :: int
  dh_btree_flags :: int
  dh_next_txid :: int
  dh_checksum :: int

text \<open>The header \<open>memset\<close> leaves when the page size is refused.\<close>

definition zero_db_header :: garry_db_header where
  "zero_db_header =
     \<lparr>dh_magic = 0, dh_version = 0, dh_page_size = 0, dh_compression = 0, dh_root_page = 0,
      dh_free_list_head = 0, dh_total_pages = 0, dh_max_txns = 0, dh_max_versions = 0,
      dh_max_key_size = 0, dh_max_subscripts = 0, dh_btree_flags = 0, dh_next_txid = 0,
      dh_checksum = 0\<rparr>"

definition garry_create_db_header :: "garry_engine_settings \<Rightarrow> garry_db_header" where
  "garry_create_db_header settings =
     (if es_page_size settings \<ge> 512 \<and> es_page_size settings \<le> 65536 \<and>
         es_page_size settings smod 512 = 0
      then \<lparr>dh_magic = GARRY_DB_MAGIC, dh_version = GARRY_DB_VERSION,
            dh_page_size = es_page_size settings, dh_compression = es_compression settings,
            dh_root_page = 1, dh_free_list_head = -1, dh_total_pages = 1,
            dh_max_txns = es_max_txns settings, dh_max_versions = es_max_versions settings,
            dh_max_key_size = es_max_key_size settings,
            dh_max_subscripts = es_max_subscripts settings, dh_btree_flags = 0,
            dh_next_txid = 1, dh_checksum = 0\<rparr>
      else zero_db_header)"

definition garry_make_db_header_from_settings :: "garry_engine_settings \<Rightarrow> garry_db_header" where
  "garry_make_db_header_from_settings settings = garry_create_db_header settings"

definition fnv1a_step :: "32 word \<Rightarrow> byte \<Rightarrow> 32 word" where
  "fnv1a_step hash b = (hash XOR ucast b) * 16777619"

definition garry_compute_header_checksum :: "buffer \<Rightarrow> int" where
  "garry_compute_header_checksum buf =
     sint (fold (\<lambda>i hash. fnv1a_step hash (buf (int i))) [0..<52] 2166136261 AND 0x7FFFFFFF)"

definition garry_write_db_header :: "buffer \<Rightarrow> garry_db_header \<Rightarrow> buffer" where
  "garry_write_db_header buf0 hdr =
     (let buf = garry_write_int32 buf0 0 (dh_magic hdr);
          buf = garry_write_int32 buf 4 (dh_version hdr);
          buf = garry_write_int32 buf 8 (dh_page_size hdr);
          buf = garry_write_int32 buf 12 (dh_compression hdr);
          buf = garry_write_int32 buf 16 (dh_root_page hdr);
          buf = garry_write_int32 buf 20 (dh_free_list_head hdr);
          buf = garry_write_int32 buf 24 (dh_total_pages hdr);
          buf = garry_write_int32 buf 28 (dh_max_txns hdr);
          buf = garry_write_int32 buf 32 (dh_max_versions hdr);
          buf = garry_write_int32 buf 36 (dh_max_key_size hdr);
          buf = garry_write_int32 buf 40 (dh_max_subscripts hdr);
          buf = garry_write_int32 buf 44 (dh_btree_flags hdr);
          buf = garry_write_int32 buf 48 (dh_next_txid hdr);
          cs = garry_compute_header_checksum buf
      in garry_write_int32 buf 52 cs)"

definition garry_read_db_header :: "buffer \<Rightarrow> garry_db_header" where
  "garry_read_db_header buf =
     (let hdr = \<lparr>dh_magic = garry_read_int32 buf 0, dh_version = garry_read_int32 buf 4,
                 dh_page_size = garry_read_int32 buf 8,
                 dh_compression = garry_read_int32 buf 12,
                 dh_root_page = garry_read_int32 buf 16,
                 dh_free_list_head = garry_read_int32 buf 20,
                 dh_total_pages = garry_read_int32 buf 24,
                 dh_max_txns = garry_read_int32 buf 28,
                 dh_max_versions = garry_read_int32 buf 32,
                 dh_max_key_size = garry_read_int32 buf 36,
                 dh_max_subscripts = garry_read_int32 buf 40,
                 dh_btree_flags = garry_read_int32 buf 44,
                 dh_next_txid = garry_read_int32 buf 48,
                 dh_checksum = garry_read_int32 buf 52\<rparr>;
          stored_cs = dh_checksum hdr;
          computed_cs = garry_compute_header_checksum buf
      in if stored_cs \<noteq> computed_cs then hdr\<lparr>dh_magic := 0\<rparr> else hdr)"

definition garry_validate_db_header :: "garry_db_header \<Rightarrow> bool" where
  "garry_validate_db_header hdr =
     (if dh_magic hdr \<noteq> GARRY_DB_MAGIC then False
      else if dh_version hdr \<noteq> GARRY_DB_VERSION then False
      else if dh_page_size hdr < 512 then False
      else if dh_page_size hdr > 65536 then False
      else if dh_max_txns hdr \<le> 0 then False
      else if dh_max_versions hdr \<le> 0 then False
      else True)"

definition header_fields :: "garry_db_header \<Rightarrow> int list" where
  "header_fields hdr =
     [dh_magic hdr, dh_version hdr, dh_page_size hdr, dh_compression hdr, dh_root_page hdr,
      dh_free_list_head hdr, dh_total_pages hdr, dh_max_txns hdr, dh_max_versions hdr,
      dh_max_key_size hdr, dh_max_subscripts hdr, dh_btree_flags hdr, dh_next_txid hdr]"

subsection \<open>Round trip of the layout\<close>

lemmas int32_defs = garry_read_int32_def garry_write_int32_def

lemma checksum_cong:
  assumes "\<And>i. 0 \<le> i \<Longrightarrow> i < 52 \<Longrightarrow> b i = b' i"
  shows "garry_compute_header_checksum b = garry_compute_header_checksum b'"
  unfolding garry_compute_header_checksum_def
  by (intro arg_cong [where f = "\<lambda>h. sint (h AND 0x7FFFFFFF)"] fold_cong) (auto simp: assms)

lemma checksum_i32 [simp]: "i32 (garry_compute_header_checksum b)"
  by (simp add: garry_compute_header_checksum_def)

lemma checksum_write_52:
  "garry_compute_header_checksum (garry_write_le32 b 52 v) = garry_compute_header_checksum b"
  by (intro checksum_cong write_le32_outside) auto

lemma read_write_db_header:
  assumes "list_all i32 (header_fields hdr)"
  shows "garry_read_db_header (garry_write_db_header buf hdr) =
     hdr\<lparr>dh_checksum := garry_compute_header_checksum (garry_write_db_header buf hdr)\<rparr>"
  using assms
  by (simp add: garry_read_db_header_def garry_write_db_header_def Let_def int32_defs
      header_fields_def buffer_simps checksum_write_52)

subsection \<open>What the checksum detects\<close>

text \<open>The low 31 bits of the FNV-1a state depend only on the low 31 bits of the previous
  state and on the byte, and the map is injective in either.\<close>

definition low31 :: "32 word \<Rightarrow> int" where
  "low31 h = uint h mod 2 ^ 31"

lemma low31_mult: "low31 (x * y) = low31 x * low31 y mod 2 ^ 31"
  by (simp add: low31_def uint_word_ariths mod_mult_eq mod_mod_cancel)

lemma low31_mult_prime:
  "low31 (x * 16777619) = low31 (y * 16777619) \<longleftrightarrow> low31 x = low31 y"
proof
  assume eq: "low31 (x * 16777619) = low31 (y * 16777619)"
  have inv: "(16777619 :: 32 word) * 899433627 = 1" by simp
  have "low31 (x * 16777619 * 899433627) = low31 (y * 16777619 * 899433627)"
    using eq by (simp only: low31_mult [of "_ * _"])
  then show "low31 x = low31 y" by (simp only: mult.assoc inv mult_1_right)
qed (simp only: low31_mult)

lemma low31_bit: "low31 x = low31 y \<longleftrightarrow> (\<forall>n < 31. bit x n \<longleftrightarrow> bit y n)"
proof -
  have "low31 x = low31 y \<longleftrightarrow> take_bit 31 (uint x) = take_bit 31 (uint y)"
    by (simp add: low31_def take_bit_eq_mod)
  also have "\<dots> \<longleftrightarrow> (\<forall>n. n < 31 \<longrightarrow> bit (uint x) n = bit (uint y) n)"
    by (auto simp: bit_eq_iff bit_take_bit_iff)
  also have "\<dots> \<longleftrightarrow> (\<forall>n < 31. bit x n \<longleftrightarrow> bit y n)"
    by (simp add: bit_uint_iff)
  finally show ?thesis .
qed

lemma low31_xor: "low31 (x XOR z) = low31 (y XOR z) \<longleftrightarrow> low31 x = low31 y"
  by (auto simp: low31_bit bit_xor_iff)

lemma low31_xor_byte: "low31 (x XOR ucast (c :: byte)) = low31 (x XOR ucast (d :: byte)) \<longleftrightarrow> c = d"
proof
  assume "low31 (x XOR ucast c) = low31 (x XOR ucast d)"
  then have "bit (ucast c :: 32 word) n = bit (ucast d :: 32 word) n" if "n < 8" for n
  proof -
    have "n < 31" using that by simp
    with \<open>low31 (x XOR ucast c) = low31 (x XOR ucast d)\<close>
    have "bit (x XOR ucast c) n = bit (x XOR ucast d) n" unfolding low31_bit by blast
    then show ?thesis by (auto simp: bit_xor_iff)
  qed
  then show "c = d" by (intro bit_word_eqI) (simp add: bit_ucast_iff)
qed simp

lemma fnv1a_step_state: "low31 (fnv1a_step h c) = low31 (fnv1a_step h' c) \<longleftrightarrow> low31 h = low31 h'"
  by (simp add: fnv1a_step_def low31_mult_prime low31_xor)

lemma fnv1a_step_byte: "low31 (fnv1a_step h c) = low31 (fnv1a_step h d) \<longleftrightarrow> c = d"
  by (simp add: fnv1a_step_def low31_mult_prime low31_xor_byte)

lemma fnv1a_fold_state:
  assumes "\<And>i. i \<in> set is \<Longrightarrow> b i = b' i"
  shows "low31 (fold (\<lambda>i h. fnv1a_step h (b i)) is h) =
     low31 (fold (\<lambda>i h. fnv1a_step h (b' i)) is h') \<longleftrightarrow> low31 h = low31 h'"
  using assms by (induction "is" arbitrary: h h') (simp_all add: fnv1a_step_state)

lemma checksum_low31:
  "garry_compute_header_checksum b =
     low31 (fold (\<lambda>i h. fnv1a_step h (b (int i))) [0..<52] 2166136261)"
proof -
  have "(w :: 32 word) AND 0x7FFFFFFF = take_bit 31 w" for w
    by (simp add: take_bit_eq_mask mask_eq_exp_minus_1)
  moreover have "sint (take_bit 31 (w :: 32 word)) = low31 w" for w
  proof -
    have "uint (take_bit 31 w) = low31 w"
      by (simp only: unsigned_take_bit_eq low31_def take_bit_eq_mod [where 'a = int])
    then show ?thesis
      by (simp add: sint_uint signed_take_bit_int_eq_self low31_def)
  qed
  ultimately show ?thesis by (simp add: garry_compute_header_checksum_def)
qed

lemma fnv1a_single_byte:
  assumes "k < n" "c \<noteq> b k"
  shows "low31 (fold (\<lambda>i h. fnv1a_step h ((b(k := c)) i)) [0..<n] h) \<noteq>
    low31 (fold (\<lambda>i h. fnv1a_step h (b i)) [0..<n] h)"
proof -
  let ?h = "fold (\<lambda>i h. fnv1a_step h (b i)) [0..<k] h"
  have pre: "fold (\<lambda>i h. fnv1a_step h ((b(k := c)) i)) [0..<k] h = ?h"
    by (intro fold_cong) auto
  have "low31 (fold (\<lambda>i h. fnv1a_step h ((b(k := c)) i)) [Suc k..<n] (fnv1a_step ?h c)) =
      low31 (fold (\<lambda>i h. fnv1a_step h (b i)) [Suc k..<n] (fnv1a_step ?h (b k))) \<longleftrightarrow>
      low31 (fnv1a_step ?h c) = low31 (fnv1a_step ?h (b k))"
    by (intro fnv1a_fold_state) auto
  with assms(2) show ?thesis
    unfolding upt_split [OF assms(1)] fold_append fold_simps o_apply pre
    by (simp add: fnv1a_step_byte)
qed

lemma checksum_single_byte:
  assumes "0 \<le> k" "k < 52" "c \<noteq> b k"
  shows "garry_compute_header_checksum (b(k := c)) \<noteq> garry_compute_header_checksum b"
proof -
  have "(\<lambda>i. (b(k := c)) (int i)) = (\<lambda>i. b (int i))(nat k := c)"
    using assms(1) by (auto simp: fun_eq_iff)
  then have e: "(b(k := c)) (int i) = ((\<lambda>i. b (int i))(nat k := c)) i" for i
    by (rule fun_cong)
  show ?thesis
    unfolding checksum_low31 e using assms by (intro fnv1a_single_byte) auto
qed

lemma stored_checksum:
  "garry_read_int32 (garry_write_db_header buf hdr) 52 =
     garry_compute_header_checksum (garry_write_db_header buf hdr)"
  by (simp add: garry_write_db_header_def Let_def int32_defs buffer_simps checksum_write_52)

lemma validate_checksum_mismatch:
  assumes "garry_read_int32 buf 52 \<noteq> garry_compute_header_checksum buf"
  shows "\<not> garry_validate_db_header (garry_read_db_header buf)"
  using assms by (simp add: garry_read_db_header_def garry_validate_db_header_def GARRY_DB_MAGIC_def)

subsection \<open>Properties\<close>

text \<open>Round trip of the database header: a header whose fields fit in 32 bits, written to a
  page and read back, is the same header with the checksum filled in.\<close>

theorem db_header_roundtrip:
  assumes "list_all i32 (header_fields hdr)"
  shows "garry_read_db_header (garry_write_db_header buf hdr) =
     hdr\<lparr>dh_checksum := garry_compute_header_checksum (garry_write_db_header buf hdr)\<rparr>"
  using assms by (rule read_write_db_header)

theorem db_header_roundtrip_witness:
  "garry_read_db_header (garry_write_db_header (\<lambda>_. 0)
      (garry_create_db_header garry_default_engine_settings)) =
   (garry_create_db_header garry_default_engine_settings)
     \<lparr>dh_checksum := garry_compute_header_checksum (garry_write_db_header (\<lambda>_. 0)
        (garry_create_db_header garry_default_engine_settings))\<rparr>"
  by (rule db_header_roundtrip)
    (simp add: garry_create_db_header_def garry_default_engine_settings_def header_fields_def i32_def
      GARRY_DB_MAGIC_def GARRY_DB_VERSION_def GARRY_COMPRESS_NONE_def)

text \<open>C26. Corruption of the header is detected: after any change of any single one of the 52
  guarded bytes of a written header, reading it back gives a header that validation refuses.\<close>

theorem db_header_corruption_detected:
  assumes "0 \<le> k" "k < 52" "c \<noteq> garry_write_db_header buf hdr k"
  shows "\<not> garry_validate_db_header (garry_read_db_header ((garry_write_db_header buf hdr)(k := c)))"
proof -
  let ?b = "garry_write_db_header buf hdr"
  have "garry_compute_header_checksum (?b(k := c)) \<noteq> garry_compute_header_checksum ?b"
    using checksum_single_byte [of k c ?b] assms by simp
  then have "garry_read_int32 (?b(k := c)) 52 \<noteq> garry_compute_header_checksum (?b(k := c))"
    using assms(1,2) stored_checksum [of buf hdr] by (simp add: garry_read_int32_def garry_read_le32_def)
  then show ?thesis by (rule validate_checksum_mismatch)
qed

theorem db_header_corruption_detected_witness:
  "\<not> garry_validate_db_header (garry_read_db_header
     ((garry_write_db_header (\<lambda>_. 0) (garry_create_db_header garry_default_engine_settings))(16 := 9)))"
  by (rule db_header_corruption_detected) (simp_all, code_simp)

text \<open>A created database opens: with a page size that is a multiple of 512 between 512 and
  65536, positive transaction and version limits and settings of 32 bits, the header that is
  created, written and read back is accepted.\<close>

theorem created_header_is_valid:
  assumes "512 \<le> es_page_size s" "es_page_size s \<le> 65536" "es_page_size s mod 512 = 0"
    and "0 < es_max_txns s" "0 < es_max_versions s"
    and "list_all i32 [es_compression s, es_max_txns s, es_max_versions s, es_max_key_size s,
      es_max_subscripts s]"
  shows "garry_validate_db_header
    (garry_read_db_header (garry_write_db_header buf (garry_create_db_header s)))"
proof -
  have "list_all i32 (header_fields (garry_create_db_header s))"
    using assms by (simp add: garry_create_db_header_def header_fields_def i32_def
        GARRY_DB_MAGIC_def GARRY_DB_VERSION_def)
  then show ?thesis
    using assms by (simp add: read_write_db_header garry_validate_db_header_def garry_create_db_header_def)
qed

theorem created_header_is_valid_witness:
  "garry_validate_db_header (garry_read_db_header (garry_write_db_header (\<lambda>_. 0)
     (garry_create_db_header garry_default_engine_settings)))"
  by (rule created_header_is_valid)
    (simp_all add: garry_default_engine_settings_def i32_def GARRY_COMPRESS_NONE_def)

end
