(* ===== verification/Garry_SlottedPage.thy ===== *)
theory Garry_SlottedPage
  imports Garry_Header
begin

text \<open>
  Slotted pages: \<open>src/src/slotted_page.c\<close>. A page is a byte buffer with a 32-byte header,
  a slot directory that grows upwards from byte 32 and record bytes that grow downwards from
  the end of the page. \<open>page_wf\<close> is the invariant the operations keep; \<open>page_records\<close> is the
  abstract content, the list of records in slot order. Every operation is shown to refine
  the corresponding list operation, to keep the invariant and to stay inside the page.
\<close>

subsection \<open>slotted_page.c\<close>

record garry_slot_entry =
  se_offset :: int
  se_length :: int

definition garry_read_slot :: "buffer \<Rightarrow> int \<Rightarrow> garry_slot_entry" where
  "garry_read_slot buf idx =
     (let slot_offset = 32 + idx * 4;
          lo = uint (buf slot_offset); hi = uint (buf (slot_offset + 1));
          lo' = uint (buf (slot_offset + 2)); hi' = uint (buf (slot_offset + 3))
      in \<lparr>se_offset = lo + hi * 256, se_length = lo' + hi' * 256\<rparr>)"

definition garry_write_slot :: "buffer \<Rightarrow> int \<Rightarrow> garry_slot_entry \<Rightarrow> buffer" where
  "garry_write_slot buf idx entry =
     (let slot_offset = 32 + idx * 4
      in buf(slot_offset := word_of_int (se_offset entry smod 256),
             slot_offset + 1 := word_of_int ((se_offset entry sdiv 256) smod 256),
             slot_offset + 2 := word_of_int (se_length entry smod 256),
             slot_offset + 3 := word_of_int ((se_length entry sdiv 256) smod 256)))"

definition garry_page_record_count :: "buffer \<Rightarrow> int" where
  "garry_page_record_count buf = garry_read_int32 buf 8"

definition garry_page_init :: "buffer \<Rightarrow> garry_node_kind \<Rightarrow> int \<Rightarrow> int \<Rightarrow> buffer" where
  "garry_page_init buf0 ptype level page_size =
     (let buf = (\<lambda>i. if 0 \<le> i \<and> i < page_size then 0 else buf0 i);
          buf = garry_write_int32 buf 0 (node_kind_ord ptype);
          buf = garry_write_int32 buf 4 level;
          buf = garry_write_int32 buf 8 0;
          buf = garry_write_int32 buf 12 32;
          buf = garry_write_int32 buf 16 page_size;
          buf = garry_write_int32 buf 20 0;
          buf = garry_write_int32 buf 24 0
      in garry_write_int32 buf 28 0)"

definition garry_copy_bytes_in :: "buffer \<Rightarrow> int \<Rightarrow> byte list \<Rightarrow> buffer" where
  "garry_copy_bytes_in buf offset src = put_bytes buf offset src"

text \<open>The result is the new page and the slot index, or \<open>-1\<close> when the page is full.\<close>

definition garry_page_insert :: "buffer \<Rightarrow> byte list \<Rightarrow> int \<Rightarrow> buffer \<times> int" where
  "garry_page_insert buf data page_size =
     (let dlen = int (length data);
          count = garry_read_int32 buf 8;
          free_start = garry_read_int32 buf 12;
          free_end = garry_read_int32 buf 16
      in if count \<ge> 128 then (buf, -1)
         else if free_start + 4 > free_end then (buf, -1)
         else if free_end - dlen < 32 then (buf, -1)
         else if free_end - free_start < dlen + 4 then (buf, -1)
         else if free_end - dlen < free_start + 4 then (buf, -1)
         else
           (let free_end = free_end - dlen;
                buf = garry_write_slot buf count \<lparr>se_offset = free_end, se_length = dlen\<rparr>;
                free_start = free_start + 4;
                buf = garry_write_int32 buf 8 (count + 1);
                buf = garry_write_int32 buf 12 free_start;
                buf = garry_write_int32 buf 16 free_end
            in (garry_copy_bytes_in buf free_end data, count)))"

text \<open>\<open>None\<close> is the error return \<open>-1\<close>; \<open>Some\<close> carries the copied bytes.\<close>

definition garry_page_get :: "buffer \<Rightarrow> int \<Rightarrow> int \<Rightarrow> byte list option" where
  "garry_page_get buf slot_idx page_size =
     (if slot_idx < 0 \<or> slot_idx \<ge> garry_page_record_count buf then None
      else let entry = garry_read_slot buf slot_idx
           in if se_length entry > page_size - 32 then None
              else Some (read_bytes buf (se_offset entry) (se_length entry)))"

subsection \<open>Slots\<close>

definition slot_bytes :: "garry_slot_entry \<Rightarrow> byte list" where
  "slot_bytes e = [word_of_int (se_offset e smod 256), word_of_int ((se_offset e sdiv 256) smod 256),
                   word_of_int (se_length e smod 256), word_of_int ((se_length e sdiv 256) smod 256)]"

lemma length_slot_bytes [simp]: "length (slot_bytes e) = 4"
  by (simp add: slot_bytes_def)

lemma write_slot_put_bytes: "garry_write_slot buf idx e = put_bytes buf (32 + idx * 4) (slot_bytes e)"
  by (simp add: garry_write_slot_def slot_bytes_def Let_def add.assoc)

lemma read_slot_cong:
  assumes "\<And>i. 32 + idx * 4 \<le> i \<Longrightarrow> i < 32 + idx * 4 + 4 \<Longrightarrow> b i = b' i"
  shows "garry_read_slot b idx = garry_read_slot b' idx"
  using assms [of "32 + idx * 4"] assms [of "32 + idx * 4 + 1"] assms [of "32 + idx * 4 + 2"]
    assms [of "32 + idx * 4 + 3"]
  by (simp add: garry_read_slot_def Let_def)

text \<open>Slot fields are 16 bits wide.\<close>

lemma read_write_slot_same:
  assumes "0 \<le> se_offset e" "0 \<le> se_length e" "se_length e < 65536"
  shows "garry_read_slot (garry_write_slot buf idx e) idx =
    \<lparr>se_offset = se_offset e mod 65536, se_length = se_length e\<rparr>"
proof -
  have "x mod 256 + x div 256 mod 256 * 256 = x mod 65536" for x :: int
    using mod_mult2_eq' [of x 256 256] by simp
  then show ?thesis
    using assms by (simp add: garry_read_slot_def garry_write_slot_def Let_def)
qed

lemma slot_length_bound: "0 \<le> se_length (garry_read_slot b idx)" "0 \<le> se_offset (garry_read_slot b idx)"
  by (simp_all add: garry_read_slot_def Let_def)

subsection \<open>The page invariant\<close>

definition slot_ok :: "buffer \<Rightarrow> int \<Rightarrow> int \<Rightarrow> bool" where
  "slot_ok buf page_size idx \<longleftrightarrow>
     (let e = garry_read_slot buf idx
      in se_length e = 0 \<or>
         garry_read_int32 buf 16 \<le> se_offset e \<and> se_offset e + se_length e \<le> page_size)"

definition page_wf :: "buffer \<Rightarrow> int \<Rightarrow> bool" where
  "page_wf buf page_size \<longleftrightarrow>
     512 \<le> page_size \<and> page_size \<le> 65536 \<and>
     (let count = garry_read_int32 buf 8;
          free_start = garry_read_int32 buf 12;
          free_end = garry_read_int32 buf 16
      in 0 \<le> count \<and> count \<le> 128 \<and> free_start = 32 + 4 * count \<and>
         free_start \<le> free_end \<and> free_end \<le> page_size \<and>
         (\<forall>i \<in> {0..<nat count}. slot_ok buf page_size (int i)))"

definition record_at :: "buffer \<Rightarrow> int \<Rightarrow> byte list" where
  "record_at buf idx = read_bytes buf (se_offset (garry_read_slot buf idx)) (se_length (garry_read_slot buf idx))"

definition page_records :: "buffer \<Rightarrow> byte list list" where
  "page_records buf = map (\<lambda>i. record_at buf (int i)) [0..<nat (garry_read_int32 buf 8)]"

text \<open>Bytes left between the slot directory and the records.\<close>

definition page_free :: "buffer \<Rightarrow> int" where
  "page_free buf = garry_read_int32 buf 16 - garry_read_int32 buf 12"

definition page_type :: "buffer \<Rightarrow> int" where "page_type buf = garry_read_int32 buf 0"
definition page_level :: "buffer \<Rightarrow> int" where "page_level buf = garry_read_int32 buf 4"

subsection \<open>Initialisation\<close>

lemma kind_ord_i32 [simp]: "i32 (node_kind_ord k)"
  by (cases k) (simp_all add: i32_def)

lemma page_size_i32 [simp]: "512 \<le> ps \<Longrightarrow> ps \<le> 65536 \<Longrightarrow> i32 ps"
  by (simp add: i32_def)

lemma small_i32 [simp]: "i32 0" "i32 1" "i32 32" "i32 (-1)"
  by (simp_all add: i32_def)

lemma page_init_fields:
  assumes "512 \<le> ps" "ps \<le> 65536" "i32 level"
  shows "garry_read_int32 (garry_page_init buf k level ps) 0 = node_kind_ord k"
    and "garry_read_int32 (garry_page_init buf k level ps) 4 = level"
    and "garry_read_int32 (garry_page_init buf k level ps) 8 = 0"
    and "garry_read_int32 (garry_page_init buf k level ps) 12 = 32"
    and "garry_read_int32 (garry_page_init buf k level ps) 16 = ps"
  using assms by (simp_all add: garry_page_init_def Let_def int32_defs buffer_simps)

lemma page_init_wf:
  assumes "512 \<le> ps" "ps \<le> 65536" "i32 level"
  shows "page_wf (garry_page_init buf k level ps) ps"
  using assms by (simp add: page_wf_def page_init_fields Let_def)

lemma page_init_records:
  assumes "512 \<le> ps" "ps \<le> 65536" "i32 level"
  shows "page_records (garry_page_init buf k level ps) = []"
  using assms by (simp add: page_records_def page_init_fields)

lemma page_init_free:
  assumes "512 \<le> ps" "ps \<le> 65536" "i32 level"
  shows "page_free (garry_page_init buf k level ps) = ps - 32"
  using assms by (simp add: page_free_def page_init_fields)

lemma page_init_outside:
  assumes "512 \<le> ps" "i < 0 \<or> ps \<le> i"
  shows "garry_page_init buf k level ps i = buf i"
  using assms
  by (auto simp: garry_page_init_def Let_def int32_defs write_le32_outside)

lemma page_init_agree: "agree 0 ps (garry_page_init b k level ps) (garry_page_init b' k level ps)"
  unfolding garry_page_init_def Let_def int32_defs
  by (intro agree_write_le32) (simp add: agree_def)

subsection \<open>Insertion\<close>

text \<open>The test the five guards of \<open>garry_page_insert\<close> amount to on a well-formed page.\<close>

definition page_fits :: "buffer \<Rightarrow> byte list \<Rightarrow> bool" where
  "page_fits buf data \<longleftrightarrow>
     garry_read_int32 buf 8 < 128 \<and> int (length data) + 4 \<le> page_free buf"

lemma page_wfD:
  assumes "page_wf buf ps"
  shows "512 \<le> ps" "ps \<le> 65536" "0 \<le> garry_read_int32 buf 8" "garry_read_int32 buf 8 \<le> 128"
    "garry_read_int32 buf 12 = 32 + 4 * garry_read_int32 buf 8"
    "garry_read_int32 buf 12 \<le> garry_read_int32 buf 16" "garry_read_int32 buf 16 \<le> ps"
    "\<And>i. i < nat (garry_read_int32 buf 8) \<Longrightarrow> slot_ok buf ps (int i)"
  using assms by (simp_all add: page_wf_def Let_def)

lemma page_insert_full:
  assumes "page_wf buf ps" "\<not> page_fits buf data"
  shows "garry_page_insert buf data ps = (buf, -1)"
  using page_wfD [OF assms(1)] assms(2)
  by (auto simp: garry_page_insert_def Let_def page_fits_def page_free_def)

text \<open>The page after a successful insertion, as three disjoint writes.\<close>

definition inserted_page :: "buffer \<Rightarrow> byte list \<Rightarrow> buffer" where
  "inserted_page buf data =
     (let count = garry_read_int32 buf 8;
          free_end = garry_read_int32 buf 16 - int (length data);
          buf = put_bytes buf (32 + count * 4)
                  (slot_bytes \<lparr>se_offset = free_end, se_length = int (length data)\<rparr>);
          buf = garry_write_le32 buf 8 (count + 1);
          buf = garry_write_le32 buf 12 (36 + 4 * count);
          buf = garry_write_le32 buf 16 free_end
      in put_bytes buf free_end data)"

lemma page_insert_fits:
  assumes "page_wf buf ps" "page_fits buf data"
  shows "garry_page_insert buf data ps = (inserted_page buf data, garry_read_int32 buf 8)"
  using page_wfD [OF assms(1)] assms(2)
  by (simp add: garry_page_insert_def inserted_page_def Let_def page_fits_def page_free_def
      write_slot_put_bytes garry_copy_bytes_in_def garry_write_int32_def)

lemma inserted_page_outside:
  assumes "page_wf buf ps" "page_fits buf data"
    and "\<not> (8 \<le> i \<and> i < 20)"
    and "\<not> (32 + 4 * garry_read_int32 buf 8 \<le> i \<and> i < 36 + 4 * garry_read_int32 buf 8)"
    and "\<not> (garry_read_int32 buf 16 - int (length data) \<le> i \<and> i < garry_read_int32 buf 16)"
  shows "inserted_page buf data i = buf i"
  using assms(3-)
  by (auto simp: inserted_page_def Let_def put_bytes_apply write_le32_put_bytes)

lemma inserted_page_fields:
  assumes "page_wf buf ps" "page_fits buf data"
  shows "garry_read_int32 (inserted_page buf data) 8 = garry_read_int32 buf 8 + 1"
    and "garry_read_int32 (inserted_page buf data) 12 = garry_read_int32 buf 12 + 4"
    and "garry_read_int32 (inserted_page buf data) 16 = garry_read_int32 buf 16 - int (length data)"
proof -
  note wf = page_wfD [OF assms(1)]
  have b: "i32 (garry_read_int32 buf 8 + 1)" "i32 (36 + 4 * garry_read_int32 buf 8)"
    "i32 (garry_read_int32 buf 16 - int (length data))"
    using wf assms(2) by (auto simp: i32_def page_fits_def page_free_def)
  have d: "36 + 4 * garry_read_int32 buf 8 \<le> garry_read_int32 buf 16 - int (length data)"
    using wf assms(2) by (auto simp: page_fits_def page_free_def)
  show "garry_read_int32 (inserted_page buf data) 8 = garry_read_int32 buf 8 + 1"
    "garry_read_int32 (inserted_page buf data) 12 = garry_read_int32 buf 12 + 4"
    "garry_read_int32 (inserted_page buf data) 16 = garry_read_int32 buf 16 - int (length data)"
    using b d wf
    by (simp_all add: inserted_page_def Let_def garry_read_int32_def buffer_simps)
qed

lemma inserted_page_old_slot:
  assumes "page_wf buf ps" "page_fits buf data" "0 \<le> i" "i < garry_read_int32 buf 8"
  shows "garry_read_slot (inserted_page buf data) i = garry_read_slot buf i"
proof (rule read_slot_cong)
  fix j assume "32 + i * 4 \<le> j" "j < 32 + i * 4 + 4"
  then show "inserted_page buf data j = buf j"
    using assms page_wfD [OF assms(1)]
    by (intro inserted_page_outside [OF assms(1,2)]) (auto simp: page_fits_def page_free_def)
qed

lemma inserted_page_new_slot:
  assumes "page_wf buf ps" "page_fits buf data"
  shows "garry_read_slot (inserted_page buf data) (garry_read_int32 buf 8) =
     \<lparr>se_offset = (garry_read_int32 buf 16 - int (length data)) mod 65536,
      se_length = int (length data)\<rparr>"
proof -
  let ?c = "garry_read_int32 buf 8"
  let ?e = "\<lparr>se_offset = garry_read_int32 buf 16 - int (length data), se_length = int (length data)\<rparr>"
  note wf = page_wfD [OF assms(1)]
  have "garry_read_slot (inserted_page buf data) ?c = garry_read_slot (garry_write_slot buf ?c ?e) ?c"
    using wf assms(2)
    by (intro read_slot_cong)
      (auto simp: inserted_page_def Let_def put_bytes_apply write_le32_put_bytes
        write_slot_put_bytes page_fits_def page_free_def)
  also have "\<dots> = \<lparr>se_offset = se_offset ?e mod 65536, se_length = se_length ?e\<rparr>"
    using wf assms(2) by (intro read_write_slot_same) (auto simp: page_fits_def page_free_def)
  finally show ?thesis by simp
qed

lemma inserted_page_old_record:
  assumes "page_wf buf ps" "page_fits buf data" "i < nat (garry_read_int32 buf 8)"
  shows "record_at (inserted_page buf data) (int i) = record_at buf (int i)"
proof -
  note wf = page_wfD [OF assms(1)]
  let ?e = "garry_read_slot buf (int i)"
  have same: "garry_read_slot (inserted_page buf data) (int i) = ?e"
    using assms by (intro inserted_page_old_slot) auto
  have "se_length ?e = 0 \<or> garry_read_int32 buf 16 \<le> se_offset ?e"
    using wf(8) [OF assms(3)] by (auto simp: slot_ok_def Let_def)
  then have "read_bytes (inserted_page buf data) (se_offset ?e) (se_length ?e) =
      read_bytes buf (se_offset ?e) (se_length ?e)"
    using wf assms(2,3)
    by (intro read_bytes_cong inserted_page_outside [OF assms(1,2)])
      (auto simp: page_fits_def page_free_def)
  then show ?thesis by (simp add: record_at_def same)
qed

lemma new_offset_small:
  assumes "page_wf buf ps" "page_fits buf data" "data \<noteq> []"
  shows "(garry_read_int32 buf 16 - int (length data)) mod 65536 =
    garry_read_int32 buf 16 - int (length data)"
  using page_wfD [OF assms(1)] assms(2,3)
  by (auto simp: page_fits_def page_free_def neq_Nil_conv)

lemma inserted_page_new_record:
  assumes "page_wf buf ps" "page_fits buf data"
  shows "record_at (inserted_page buf data) (garry_read_int32 buf 8) = data"
proof (cases "data = []")
  case True
  with inserted_page_new_slot [OF assms] show ?thesis by (simp add: record_at_def)
next
  case False
  let ?fe = "garry_read_int32 buf 16 - int (length data)"
  have "?fe mod 65536 = ?fe" by (rule new_offset_small [OF assms False])
  moreover have "read_bytes (inserted_page buf data) ?fe (int (length data)) = data"
    by (simp add: inserted_page_def Let_def read_put_same)
  ultimately show ?thesis by (simp add: record_at_def inserted_page_new_slot [OF assms])
qed

lemma inserted_page_records:
  assumes "page_wf buf ps" "page_fits buf data"
  shows "page_records (inserted_page buf data) = page_records buf @ [data]"
proof -
  note wf = page_wfD [OF assms(1)]
  have "nat (garry_read_int32 buf 8 + 1) = Suc (nat (garry_read_int32 buf 8))"
    using wf by simp
  then show ?thesis
    using inserted_page_old_record [OF assms] inserted_page_new_record [OF assms] wf
    by (simp add: page_records_def inserted_page_fields [OF assms])
qed

lemma inserted_page_wf:
  assumes "page_wf buf ps" "page_fits buf data"
  shows "page_wf (inserted_page buf data) ps"
proof -
  note wf = page_wfD [OF assms(1)]
  note f = inserted_page_fields [OF assms]
  let ?c = "garry_read_int32 buf 8"
  have "slot_ok (inserted_page buf data) ps (int i)" if i: "i < nat (?c + 1)" for i
  proof (cases "int i < ?c")
    case True
    then have "garry_read_slot (inserted_page buf data) (int i) = garry_read_slot buf (int i)"
      by (intro inserted_page_old_slot [OF assms]) auto
    moreover have "slot_ok buf ps (int i)" using True by (intro wf(8)) auto
    ultimately show ?thesis by (auto simp: slot_ok_def Let_def f)
  next
    case False
    with i have "int i = ?c" by linarith
    then show ?thesis
      using wf(7) new_offset_small [OF assms] inserted_page_new_slot [OF assms]
      by (cases "data = []") (auto simp: slot_ok_def Let_def f)
  qed
  then show ?thesis
    using wf assms(2) by (simp add: page_wf_def Let_def f page_fits_def page_free_def)
qed

lemma inserted_page_type:
  assumes "page_wf buf ps" "page_fits buf data"
  shows "garry_read_int32 (inserted_page buf data) 0 = garry_read_int32 buf 0"
    and "garry_read_int32 (inserted_page buf data) 4 = garry_read_int32 buf 4"
  unfolding garry_read_int32_def
  using assms page_wfD [OF assms(1)]
  by (intro read_le32_cong inserted_page_outside [OF assms]; auto simp: page_fits_def page_free_def)+

lemma inserted_page_free:
  assumes "page_wf buf ps" "page_fits buf data"
  shows "page_free (inserted_page buf data) = page_free buf - int (length data) - 4"
  by (simp add: page_free_def inserted_page_fields [OF assms])

lemma length_page_records: "page_wf buf ps \<Longrightarrow> int (length (page_records buf)) = garry_read_int32 buf 8"
  using page_wfD [of buf ps] by (simp add: page_records_def)

subsection \<open>Retrieval\<close>

lemma page_get_record:
  assumes "page_wf buf ps"
  shows "garry_page_get buf idx ps =
    (if 0 \<le> idx \<and> idx < int (length (page_records buf)) then Some (page_records buf ! nat idx) else None)"
proof (cases "0 \<le> idx \<and> idx < garry_read_int32 buf 8")
  case True
  note wf = page_wfD [OF assms]
  have "slot_ok buf ps (int (nat idx))" using True by (intro wf(8)) auto
  then have "se_length (garry_read_slot buf idx) \<le> ps - 32"
    using True wf by (auto simp: slot_ok_def Let_def)
  with True show ?thesis
    using length_page_records [OF assms]
    by (simp add: garry_page_get_def garry_page_record_count_def Let_def page_records_def record_at_def)
next
  case False
  then show ?thesis
    using length_page_records [OF assms]
    by (auto simp: garry_page_get_def garry_page_record_count_def)
qed

subsection \<open>Only the first \<open>page_size\<close> bytes matter\<close>

lemma agree_record_at:
  assumes "page_wf b ps" "agree 0 ps b b'" "i < nat (garry_read_int32 b 8)"
  shows "garry_read_slot b' (int i) = garry_read_slot b (int i)"
    and "record_at b' (int i) = record_at b (int i)"
proof -
  note wf = page_wfD [OF assms(1)]
  have i: "32 + int i * 4 + 4 \<le> ps" using wf assms(3) by simp
  show slot: "garry_read_slot b' (int i) = garry_read_slot b (int i)"
    using i assms(2) by (intro read_slot_cong) (auto simp: agree_def)
  have "read_bytes b' (se_offset (garry_read_slot b (int i))) (se_length (garry_read_slot b (int i))) =
      read_bytes b (se_offset (garry_read_slot b (int i))) (se_length (garry_read_slot b (int i)))"
    using wf(8) [OF assms(3)] wf assms(2) slot_length_bound [of b "int i"]
    by (intro read_bytes_cong) (auto simp: slot_ok_def Let_def agree_def)
  then show "record_at b' (int i) = record_at b (int i)"
    by (simp add: record_at_def slot)
qed

lemma agree_int32:
  "agree 0 ps b b' \<Longrightarrow> 0 \<le> off \<Longrightarrow> off + 4 \<le> ps \<Longrightarrow> garry_read_int32 b' off = garry_read_int32 b off"
  using agree_read_le32 [of 0 ps b b' off] by (simp add: garry_read_int32_def)

lemma agree_page_wf:
  assumes "page_wf b ps" "agree 0 ps b b'"
  shows "page_wf b' ps" and "page_records b' = page_records b" and "page_free b' = page_free b"
proof -
  note wf = page_wfD [OF assms(1)]
  have f: "garry_read_int32 b' 8 = garry_read_int32 b 8" "garry_read_int32 b' 12 = garry_read_int32 b 12"
    "garry_read_int32 b' 16 = garry_read_int32 b 16"
    using wf(1) by (simp_all add: agree_int32 [OF assms(2)])
  have "slot_ok b' ps (int i)" if "i < nat (garry_read_int32 b 8)" for i
    using wf(8) [OF that] agree_record_at(1) [OF assms that] by (simp add: slot_ok_def f)
  then show "page_wf b' ps" using assms(1) by (simp add: page_wf_def f Let_def)
  show "page_records b' = page_records b"
    using agree_record_at(2) [OF assms] by (simp add: page_records_def f)
  show "page_free b' = page_free b" by (simp add: page_free_def f)
qed

subsection \<open>The interface the clients of a page rely on\<close>

text \<open>A page is an append-only log of records: node images and version chains are both
  built on this contract.\<close>

locale record_log =
  fixes wf :: "'p \<Rightarrow> bool"
    and records :: "'p \<Rightarrow> 'r list"
    and fits :: "'p \<Rightarrow> 'r \<Rightarrow> bool"
    and insert :: "'p \<Rightarrow> 'r \<Rightarrow> 'p \<times> int"
    and get :: "'p \<Rightarrow> int \<Rightarrow> 'r option"
  assumes insert_wf: "wf p \<Longrightarrow> wf (fst (insert p r))"
    and insert_records: "wf p \<Longrightarrow> fits p r \<Longrightarrow> records (fst (insert p r)) = records p @ [r]"
    and insert_index: "wf p \<Longrightarrow> fits p r \<Longrightarrow> snd (insert p r) = int (length (records p))"
    and insert_full: "wf p \<Longrightarrow> \<not> fits p r \<Longrightarrow> insert p r = (p, -1)"
    and get_records: "wf p \<Longrightarrow> get p i =
      (if 0 \<le> i \<and> i < int (length (records p)) then Some (records p ! nat i) else None)"
begin

lemma insert_fails_iff: "wf p \<Longrightarrow> snd (insert p r) < 0 \<longleftrightarrow> \<not> fits p r"
  by (cases "fits p r") (simp_all add: insert_index insert_full)

lemma get_inserted: "wf p \<Longrightarrow> fits p r \<Longrightarrow> get (fst (insert p r)) (snd (insert p r)) = Some r"
  by (simp add: get_records insert_wf insert_records insert_index)

lemma get_older:
  assumes "wf p" "get p i = Some x"
  shows "get (fst (insert p r)) i = Some x"
proof (cases "fits p r")
  case True
  with assms show ?thesis
    by (auto simp: get_records insert_wf insert_records nth_append split: if_splits)
next
  case False
  with assms show ?thesis by (simp add: insert_full)
qed

lemma get_all: "wf p \<Longrightarrow> map (\<lambda>i. get p (int i)) [0..<length (records p)] = map Some (records p)"
  by (rule nth_equalityI) (simp_all add: get_records)

lemma get_nat: "wf p \<Longrightarrow> i < length (records p) \<Longrightarrow> get p (int i) = Some (records p ! i)"
  by (simp add: get_records)

end

interpretation page: record_log
  "\<lambda>b. page_wf b ps" page_records page_fits "\<lambda>b d. garry_page_insert b d ps"
  "\<lambda>b i. garry_page_get b i ps" for ps
proof (unfold_locales, goal_cases)
  case (1 p r)
  then show ?case
    by (cases "page_fits p r") (simp_all add: page_insert_fits page_insert_full inserted_page_wf)
next
  case (2 p r)
  then show ?case by (simp add: page_insert_fits inserted_page_records)
next
  case (3 p r)
  then show ?case by (simp add: page_insert_fits length_page_records)
next
  case (4 p r)
  then show ?case by (rule page_insert_full)
next
  case (5 p i)
  then show ?case by (rule page_get_record)
qed

subsection \<open>Properties\<close>

text \<open>C25. Insertion into a slotted page refines appending to a list of records: on a well-formed
  page a record that fits is appended, gets the next slot number and can be fetched, every older
  record stays where it was; a record that does not fit is refused and the page is unchanged. The
  page stays well-formed.\<close>

theorem page_insert_appends:
  assumes "page_wf buf ps"
  shows "let (buf', idx) = garry_page_insert buf data ps
    in page_wf buf' ps \<and>
       (if page_fits buf data
        then page_records buf' = page_records buf @ [data] \<and> idx = int (length (page_records buf)) \<and>
             garry_page_get buf' idx ps = Some data
        else buf' = buf \<and> idx = -1) \<and>
       (\<forall>i x. garry_page_get buf i ps = Some x \<longrightarrow> garry_page_get buf' i ps = Some x)"
  using page.insert_wf [OF assms, of data] page.insert_records [OF assms, of data]
    page.insert_index [OF assms, of data] page.insert_full [OF assms, of data]
    page.get_inserted [OF assms, of data] page.get_older [OF assms]
  by (auto simp: case_prod_unfold)

definition demo_page :: buffer where
  "demo_page = garry_page_init (\<lambda>_. 0) GARRY_NODE_LEAF 0 512"

lemma demo_page_wf: "page_wf demo_page 512"
  unfolding demo_page_def by (rule page_init_wf) simp_all

theorem page_insert_appends_witness:
  "garry_page_get (fst (garry_page_insert demo_page [1, 2, 3] 512))
     (snd (garry_page_insert demo_page [1, 2, 3] 512)) 512 = Some [1, 2, 3]"
proof -
  have "page_fits demo_page [1, 2, 3]" by code_simp
  with page_insert_appends [OF demo_page_wf, of "[1, 2, 3]"] show ?thesis
    by (auto simp: case_prod_unfold Let_def)
qed

text \<open>Insertion stays inside the page: no byte outside the first \<open>page_size\<close> is written, nor
  any byte of the records already there.\<close>

theorem page_insert_in_bounds:
  assumes "page_wf buf ps" "i < 0 \<or> ps \<le> i \<or> garry_read_int32 buf 16 \<le> i"
  shows "fst (garry_page_insert buf data ps) i = buf i"
proof (cases "page_fits buf data")
  case True
  note wf = page_wfD [OF assms(1)]
  have "inserted_page buf data i = buf i"
    by (rule inserted_page_outside [OF assms(1) True])
      (use wf assms(2) True in \<open>auto simp: page_fits_def page_free_def\<close>)
  then show ?thesis by (simp add: page_insert_fits [OF assms(1) True])
qed (simp add: page_insert_full [OF assms(1)])

theorem page_insert_in_bounds_witness:
  "fst (garry_page_insert demo_page [1, 2, 3] 512) 600 = demo_page 600"
  by (rule page_insert_in_bounds [OF demo_page_wf]) simp

end
