(* ===== verification/Garry_BufferPool.thy ===== *)
theory Garry_BufferPool
  imports Garry_SlottedPage
begin

text \<open>
  The page cache: \<open>src/src/buffer_pool.c\<close> over the page operations of
  \<open>src/platform_src/posix/file_io.c\<close>.

  The backing file is a map from page numbers to page images; a page never written reads as
  zeros, as the short-read branch of \<open>garry_file_read_page\<close> makes it. Whether the operating
  system completes a \<open>pwrite\<close> of a page is the environment's choice, the field \<open>f_wok\<close>.
  The arrays of the pool are functions of the slot index, a slot pointer is the slot index and
  \<open>GARRY_INVALID_SLOT\<close> is \<open>None\<close>. The slot locks are taken and released around every
  operation and have no effect on a single thread.

  \<open>pool_inv\<close> is the cache invariant, \<open>page_view\<close> the content of a page as a client sees it.
  The lemmas show that the cache is transparent while no page is on the free list (no operation
  changes the view of any page it does not write), that a pinned slot is never evicted, what reaches
  the file, and what goes wrong when a freed page is allocated again.
\<close>

subsection \<open>The file (posix/file_io.c)\<close>

record garry_file =
  f_is_open :: bool
  f_pages :: "int \<Rightarrow> buffer"
  f_wok :: "int \<Rightarrow> bool"

definition garry_file_read_page :: "garry_file \<Rightarrow> int \<Rightarrow> buffer \<Rightarrow> int \<Rightarrow> buffer" where
  "garry_file_read_page fd page_num buf page_size =
     (\<lambda>i. if 0 \<le> i \<and> i < page_size then f_pages fd page_num i else buf i)"

definition garry_file_write_page :: "garry_file \<Rightarrow> int \<Rightarrow> buffer \<Rightarrow> int \<Rightarrow> garry_file \<times> bool" where
  "garry_file_write_page fd page_num buf page_size =
     (if f_wok fd page_num
      then (fd\<lparr>f_pages := (f_pages fd)(page_num := (\<lambda>i. if 0 \<le> i \<and> i < page_size then buf i else 0))\<rparr>, True)
      else (fd, False))"

subsection \<open>The pool (buffer_pool.c)\<close>

record garry_buffer_pool =
  bp_capacity :: nat
  bp_page_size :: int
  bp_pages :: "nat \<Rightarrow> buffer"
  bp_page_ids :: "nat \<Rightarrow> int"
  bp_pin_counts :: "nat \<Rightarrow> 32 word"
  bp_dirty :: "nat \<Rightarrow> bool"
  bp_loaded :: "nat \<Rightarrow> bool"
  bp_last_access :: "nat \<Rightarrow> 32 word"
  bp_fd :: garry_file
  bp_next_page :: int
  bp_free_list_head :: int
  bp_access_counter :: "32 word"

definition find_slot :: "garry_buffer_pool \<Rightarrow> int \<Rightarrow> nat option" where
  "find_slot pool pid =
     List.find (\<lambda>i. bp_loaded pool i \<and> bp_page_ids pool i = pid) [0..<bp_capacity pool]"

definition lru_scan :: "garry_buffer_pool \<Rightarrow> nat list \<Rightarrow> nat option \<times> 32 word \<Rightarrow> nat option \<times> 32 word" where
  "lru_scan pool =
     fold (\<lambda>i (best, best_access).
       if bp_pin_counts pool i = 0 \<and> bp_last_access pool i < best_access
       then (Some i, bp_last_access pool i) else (best, best_access))"

definition find_eviction_candidate :: "garry_buffer_pool \<Rightarrow> nat option" where
  "find_eviction_candidate pool =
     (case List.find (\<lambda>i. \<not> bp_loaded pool i) [0..<bp_capacity pool] of
        Some i \<Rightarrow> Some i
      | None \<Rightarrow> fst (lru_scan pool [0..<bp_capacity pool] (None, 0xFFFFFFFF)))"

text \<open>The assignments that give a slot to a page, shared by the three places that do it.\<close>

definition claim_slot :: "garry_buffer_pool \<Rightarrow> nat \<Rightarrow> int \<Rightarrow> buffer \<Rightarrow> garry_buffer_pool" where
  "claim_slot pool victim pid page =
     (let ac = bp_access_counter pool + 1 in
      pool\<lparr>bp_page_ids := (bp_page_ids pool)(victim := pid),
           bp_loaded := (bp_loaded pool)(victim := True),
           bp_dirty := (bp_dirty pool)(victim := False),
           bp_pin_counts := (bp_pin_counts pool)(victim := 0),
           bp_access_counter := ac,
           bp_last_access := (bp_last_access pool)(victim := ac),
           bp_pages := (bp_pages pool)(victim := page)\<rparr>)"

definition zero_page :: "garry_buffer_pool \<Rightarrow> nat \<Rightarrow> buffer" where
  "zero_page pool victim =
     (\<lambda>i. if 0 \<le> i \<and> i < bp_page_size pool then 0 else bp_pages pool victim i)"

definition ensure_loaded :: "garry_buffer_pool \<Rightarrow> int \<Rightarrow> garry_buffer_pool \<times> nat option" where
  "ensure_loaded pool pid =
     (case find_slot pool pid of
        Some idx \<Rightarrow> (pool, Some idx)
      | None \<Rightarrow>
          (case find_eviction_candidate pool of
             None \<Rightarrow> (pool, None)
           | Some victim \<Rightarrow>
               (let wr = (if bp_loaded pool victim \<and> bp_dirty pool victim
                          then garry_file_write_page (bp_fd pool) (bp_page_ids pool victim)
                                 (bp_pages pool victim) (bp_page_size pool)
                          else (bp_fd pool, True))
                in if \<not> snd wr then (pool, None)
                   else
                     (let pool = pool\<lparr>bp_fd := fst wr\<rparr>;
                          page = garry_file_read_page (bp_fd pool) pid (zero_page pool victim)
                                   (bp_page_size pool)
                      in (claim_slot pool victim pid page, Some victim)))))"

definition garry_pool_create :: "garry_file \<Rightarrow> (nat \<Rightarrow> buffer) \<Rightarrow> nat \<Rightarrow> int \<Rightarrow> garry_buffer_pool option" where
  "garry_pool_create fd mem capacity page_size =
     (if capacity = 0 \<or> capacity > 256 then None
      else if page_size < 512 \<or> page_size > 65536 then None
      else Some \<lparr>bp_capacity = capacity, bp_page_size = page_size, bp_pages = mem,
                 bp_page_ids = (\<lambda>_. 0), bp_pin_counts = (\<lambda>_. 0), bp_dirty = (\<lambda>_. False),
                 bp_loaded = (\<lambda>_. False), bp_last_access = (\<lambda>_. 0), bp_fd = fd,
                 bp_next_page = 0, bp_free_list_head = -1, bp_access_counter = 0\<rparr>)"

definition touch_pin :: "garry_buffer_pool \<Rightarrow> nat \<Rightarrow> garry_buffer_pool" where
  "touch_pin pool idx =
     (let ac = bp_access_counter pool + 1 in
      pool\<lparr>bp_pin_counts := (bp_pin_counts pool)(idx := bp_pin_counts pool idx + 1),
           bp_access_counter := ac,
           bp_last_access := (bp_last_access pool)(idx := ac)\<rparr>)"

definition garry_pool_pin_page :: "garry_buffer_pool \<Rightarrow> int \<Rightarrow> garry_buffer_pool \<times> nat option" where
  "garry_pool_pin_page pool pid =
     (if pid < 0 then (pool, None)
      else case ensure_loaded pool pid of
             (pool, None) \<Rightarrow> (pool, None)
           | (pool, Some idx) \<Rightarrow> (touch_pin pool idx, Some idx))"

definition garry_pool_try_pin :: "garry_buffer_pool \<Rightarrow> int \<Rightarrow> garry_buffer_pool \<times> nat option" where
  "garry_pool_try_pin pool pid =
     (if pid < 0 then (pool, None)
      else case find_slot pool pid of
             None \<Rightarrow> (pool, None)
           | Some idx \<Rightarrow> (touch_pin pool idx, Some idx))"

definition garry_pool_release_page :: "garry_buffer_pool \<Rightarrow> int \<Rightarrow> garry_buffer_pool" where
  "garry_pool_release_page pool pid =
     (if pid < 0 then pool
      else case find_slot pool pid of
             None \<Rightarrow> pool
           | Some idx \<Rightarrow>
               if bp_pin_counts pool idx > 0
               then pool\<lparr>bp_pin_counts := (bp_pin_counts pool)(idx := bp_pin_counts pool idx - 1)\<rparr>
               else pool)"

definition garry_pool_pin_count :: "garry_buffer_pool \<Rightarrow> int \<Rightarrow> 32 word" where
  "garry_pool_pin_count pool pid =
     (if pid < 0 then 0
      else case find_slot pool pid of Some idx \<Rightarrow> bp_pin_counts pool idx | None \<Rightarrow> 0)"

definition garry_pool_mark_dirty :: "garry_buffer_pool \<Rightarrow> int \<Rightarrow> garry_buffer_pool" where
  "garry_pool_mark_dirty pool pid =
     (if pid < 0 then pool
      else case find_slot pool pid of
             None \<Rightarrow> pool
           | Some idx \<Rightarrow> pool\<lparr>bp_dirty := (bp_dirty pool)(idx := True)\<rparr>)"

text \<open>The write-back of a victim in \<open>garry_pool_allocate\<close> tests the dirty flag alone; the
  flag is left set in the failure branch only.\<close>

definition evict_victim :: "garry_buffer_pool \<Rightarrow> nat \<Rightarrow> garry_buffer_pool option" where
  "evict_victim pool victim =
     (if bp_dirty pool victim
      then (case garry_file_write_page (bp_fd pool) (bp_page_ids pool victim)
                   (bp_pages pool victim) (bp_page_size pool) of
              (fd, ok) \<Rightarrow> if ok then Some (pool\<lparr>bp_fd := fd\<rparr>) else None)
      else Some pool)"

definition garry_pool_allocate :: "garry_buffer_pool \<Rightarrow> garry_buffer_pool \<times> int" where
  "garry_pool_allocate pool =
     (if bp_free_list_head pool \<ge> 0 then
        (let free_pid = bp_free_list_head pool;
             pool = (case find_slot pool free_pid of
                       Some free_idx \<Rightarrow>
                         pool\<lparr>bp_free_list_head := garry_read_int32 (bp_pages pool free_idx) 0\<rparr>
                     | None \<Rightarrow> pool\<lparr>bp_free_list_head := -1\<rparr>)
         in case find_eviction_candidate pool of
              None \<Rightarrow> (pool, -1)
            | Some victim \<Rightarrow>
                (case evict_victim pool victim of
                   None \<Rightarrow> (pool, -1)
                 | Some pool \<Rightarrow> (claim_slot pool victim free_pid (zero_page pool victim), free_pid)))
      else
        (case find_eviction_candidate pool of
           None \<Rightarrow> (pool, -1)
         | Some victim \<Rightarrow>
             if bp_next_page pool < 0 then (pool, -1)
             else (case evict_victim pool victim of
                     None \<Rightarrow> (pool, -1)
                   | Some pool \<Rightarrow>
                       (let pid = bp_next_page pool;
                            pool = pool\<lparr>bp_next_page := pid + 1\<rparr>
                        in (claim_slot pool victim pid (zero_page pool victim), pid)))))"

definition garry_pool_free_page :: "garry_buffer_pool \<Rightarrow> int \<Rightarrow> garry_buffer_pool" where
  "garry_pool_free_page pool pid =
     (if pid < 0 then pool
      else
        (let pool =
           (case find_slot pool pid of
              None \<Rightarrow> pool
            | Some idx \<Rightarrow>
                (let fd = (if bp_dirty pool idx
                           then fst (garry_file_write_page (bp_fd pool) (bp_page_ids pool idx)
                                       (bp_pages pool idx) (bp_page_size pool))
                           else bp_fd pool)
                 in pool\<lparr>bp_fd := fd,
                         bp_loaded := (bp_loaded pool)(idx := False),
                         bp_pin_counts := (bp_pin_counts pool)(idx := 0),
                         bp_dirty := (bp_dirty pool)(idx := False)\<rparr>));
             pool =
               (case ensure_loaded pool pid of
                  (pool, None) \<Rightarrow> pool
                | (pool, Some idx) \<Rightarrow>
                    pool\<lparr>bp_pages := (bp_pages pool)(idx :=
                             garry_write_int32 (bp_pages pool idx) 0 (bp_free_list_head pool)),
                         bp_dirty := (bp_dirty pool)(idx := True)\<rparr>)
         in pool\<lparr>bp_free_list_head := pid\<rparr>))"

definition garry_pool_is_loaded :: "garry_buffer_pool \<Rightarrow> int \<Rightarrow> bool" where
  "garry_pool_is_loaded pool pid = (find_slot pool pid \<noteq> None)"

definition garry_pool_flush_page :: "garry_buffer_pool \<Rightarrow> int \<Rightarrow> garry_buffer_pool \<times> bool" where
  "garry_pool_flush_page pool pid =
     (if pid < 0 then (pool, False)
      else case find_slot pool pid of
             None \<Rightarrow> (pool, True)
           | Some idx \<Rightarrow>
               if bp_dirty pool idx
               then (case garry_file_write_page (bp_fd pool) (bp_page_ids pool idx)
                            (bp_pages pool idx) (bp_page_size pool) of
                       (fd, ok) \<Rightarrow>
                         if ok then (pool\<lparr>bp_fd := fd, bp_dirty := (bp_dirty pool)(idx := False)\<rparr>, True)
                         else (pool, False))
               else (pool, True))"

fun flush_slots :: "garry_buffer_pool \<Rightarrow> nat list \<Rightarrow> garry_buffer_pool" where
  "flush_slots pool [] = pool"
| "flush_slots pool (i # is) =
     (if bp_loaded pool i \<and> bp_dirty pool i
      then (case garry_file_write_page (bp_fd pool) (bp_page_ids pool i) (bp_pages pool i)
                   (bp_page_size pool) of
              (fd, ok) \<Rightarrow>
                if ok then flush_slots (pool\<lparr>bp_fd := fd, bp_dirty := (bp_dirty pool)(i := False)\<rparr>) is
                else pool)
      else flush_slots pool is)"

definition garry_pool_flush_all :: "garry_buffer_pool \<Rightarrow> garry_buffer_pool" where
  "garry_pool_flush_all pool = flush_slots pool [0..<bp_capacity pool]"

text \<open>Closing writes every dirty page, ignores failures and closes the file, which is all
  that survives.\<close>

fun close_slots :: "garry_buffer_pool \<Rightarrow> nat list \<Rightarrow> garry_buffer_pool" where
  "close_slots pool [] = pool"
| "close_slots pool (i # is) =
     (if bp_loaded pool i \<and> bp_dirty pool i
      then close_slots
             (pool\<lparr>bp_fd := fst (garry_file_write_page (bp_fd pool) (bp_page_ids pool i)
                                   (bp_pages pool i) (bp_page_size pool)),
                   bp_dirty := (bp_dirty pool)(i := False)\<rparr>) is
      else close_slots pool is)"

definition garry_pool_close :: "garry_buffer_pool \<Rightarrow> garry_file" where
  "garry_pool_close pool = (bp_fd (close_slots pool [0..<bp_capacity pool]))\<lparr>f_is_open := False\<rparr>"

text \<open>A client's store through a pinned page pointer.\<close>

definition pool_write :: "garry_buffer_pool \<Rightarrow> nat \<Rightarrow> buffer \<Rightarrow> garry_buffer_pool" where
  "pool_write pool idx page = pool\<lparr>bp_pages := (bp_pages pool)(idx := page)\<rparr>"

subsection \<open>The invariant and the client's view\<close>

text \<open>Every cached page has one slot, a free slot holds no pin and no unwritten data, a clean
  slot equals the file, and pages that were never allocated are zero in the file.\<close>

definition pool_inv :: "garry_buffer_pool \<Rightarrow> bool" where
  "pool_inv pool \<longleftrightarrow>
     1 \<le> bp_capacity pool \<and> bp_capacity pool \<le> 256 \<and>
     512 \<le> bp_page_size pool \<and> bp_page_size pool \<le> 65536 \<and>
     0 \<le> bp_next_page pool \<and>
     (\<forall>i < bp_capacity pool.
        (bp_loaded pool i \<longrightarrow> 0 \<le> bp_page_ids pool i \<and> bp_page_ids pool i < bp_next_page pool) \<and>
        (\<not> bp_loaded pool i \<longrightarrow> \<not> bp_dirty pool i \<and> bp_pin_counts pool i = 0) \<and>
        (bp_loaded pool i \<and> \<not> bp_dirty pool i \<longrightarrow>
           agree 0 (bp_page_size pool) (bp_pages pool i) (f_pages (bp_fd pool) (bp_page_ids pool i)))) \<and>
     inj_on (bp_page_ids pool) {i. i < bp_capacity pool \<and> bp_loaded pool i} \<and>
     (\<forall>pid \<ge> bp_next_page pool. agree 0 (bp_page_size pool) (f_pages (bp_fd pool) pid) (\<lambda>_. 0))"

text \<open>The content of a page as a client sees it: the cached image, or the file.\<close>

definition page_view :: "garry_buffer_pool \<Rightarrow> int \<Rightarrow> buffer" where
  "page_view pool pid =
     (case find_slot pool pid of
        Some i \<Rightarrow> bp_pages pool i
      | None \<Rightarrow> f_pages (bp_fd pool) pid)"

definition same_view :: "garry_buffer_pool \<Rightarrow> garry_buffer_pool \<Rightarrow> bool" where
  "same_view pool pool' \<longleftrightarrow>
     bp_page_size pool' = bp_page_size pool \<and> bp_next_page pool' = bp_next_page pool \<and>
     bp_free_list_head pool' = bp_free_list_head pool \<and>
     (\<forall>pid. agree 0 (bp_page_size pool) (page_view pool pid) (page_view pool' pid))"

lemma same_view_refl [simp]: "same_view pool pool"
  by (simp add: same_view_def)

lemma same_view_trans: "same_view a b \<Longrightarrow> same_view b c \<Longrightarrow> same_view a c"
  by (auto simp: same_view_def intro: agree_trans)

lemma pool_invD:
  assumes "pool_inv pool"
  shows "1 \<le> bp_capacity pool" "512 \<le> bp_page_size pool" "bp_page_size pool \<le> 65536"
    "0 \<le> bp_next_page pool"
    "\<And>i. i < bp_capacity pool \<Longrightarrow> bp_loaded pool i \<Longrightarrow> 0 \<le> bp_page_ids pool i"
    "\<And>i. i < bp_capacity pool \<Longrightarrow> bp_loaded pool i \<Longrightarrow> bp_page_ids pool i < bp_next_page pool"
    "\<And>i. i < bp_capacity pool \<Longrightarrow> \<not> bp_loaded pool i \<Longrightarrow> \<not> bp_dirty pool i"
    "\<And>i. i < bp_capacity pool \<Longrightarrow> \<not> bp_loaded pool i \<Longrightarrow> bp_pin_counts pool i = 0"
    "\<And>i. i < bp_capacity pool \<Longrightarrow> bp_loaded pool i \<Longrightarrow> \<not> bp_dirty pool i \<Longrightarrow>
       agree 0 (bp_page_size pool) (bp_pages pool i) (f_pages (bp_fd pool) (bp_page_ids pool i))"
    "\<And>i j. i < bp_capacity pool \<Longrightarrow> j < bp_capacity pool \<Longrightarrow> bp_loaded pool i \<Longrightarrow>
       bp_loaded pool j \<Longrightarrow> bp_page_ids pool i = bp_page_ids pool j \<Longrightarrow> i = j"
    "\<And>pid. bp_next_page pool \<le> pid \<Longrightarrow>
       agree 0 (bp_page_size pool) (f_pages (bp_fd pool) pid) (\<lambda>_. 0)"
  using assms by (auto simp: pool_inv_def inj_on_def)

subsection \<open>Searching the slots\<close>

lemma find_slot_SomeD:
  "find_slot pool pid = Some i \<Longrightarrow> i < bp_capacity pool \<and> bp_loaded pool i \<and> bp_page_ids pool i = pid"
  by (auto simp: find_slot_def find_Some_iff)

lemma find_slot_None_iff:
  "find_slot pool pid = None \<longleftrightarrow> (\<forall>i < bp_capacity pool. bp_loaded pool i \<longrightarrow> bp_page_ids pool i \<noteq> pid)"
  by (auto simp: find_slot_def find_None_iff)

lemma find_slot_Some_iff:
  assumes "pool_inv pool"
  shows "find_slot pool pid = Some i \<longleftrightarrow>
     i < bp_capacity pool \<and> bp_loaded pool i \<and> bp_page_ids pool i = pid"
proof
  assume r: "i < bp_capacity pool \<and> bp_loaded pool i \<and> bp_page_ids pool i = pid"
  then obtain j where j: "find_slot pool pid = Some j"
    using find_slot_None_iff [of pool pid] by (cases "find_slot pool pid") auto
  with r find_slot_SomeD [OF j] pool_invD(10) [OF assms] show "find_slot pool pid = Some i" by auto
qed (rule find_slot_SomeD)

lemma find_slot_cong:
  assumes "bp_capacity pool' = bp_capacity pool"
    and "\<And>i. i < bp_capacity pool \<Longrightarrow> bp_loaded pool' i = bp_loaded pool i"
    and "\<And>i. i < bp_capacity pool \<Longrightarrow> bp_page_ids pool' i = bp_page_ids pool i"
  shows "find_slot pool' pid = find_slot pool pid"
  unfolding find_slot_def using assms by (intro find_cong) auto

lemma lru_scan_spec:
  assumes "lru_scan pool is (b, a) = (r, a')"
  shows "a' \<le> a \<and> (\<forall>i \<in> set is. bp_pin_counts pool i = 0 \<longrightarrow> a' \<le> bp_last_access pool i) \<and>
    (r = b \<and> a' = a \<or> (\<exists>i \<in> set is. r = Some i \<and> bp_pin_counts pool i = 0 \<and> a' = bp_last_access pool i))"
  using assms
proof (induction "is" arbitrary: b a)
  case Nil
  then show ?case by (simp add: lru_scan_def)
next
  case (Cons i "is")
  show ?case
  proof (cases "bp_pin_counts pool i = 0 \<and> bp_last_access pool i < a")
    case True
    with Cons.prems have "lru_scan pool is (Some i, bp_last_access pool i) = (r, a')"
      by (simp add: lru_scan_def)
    from Cons.IH [OF this] True show ?thesis by auto
  next
    case False
    with Cons.prems have "lru_scan pool is (b, a) = (r, a')" by (auto simp: lru_scan_def)
    from Cons.IH [OF this] False show ?thesis by auto
  qed
qed

lemma eviction_candidate_Some:
  assumes "find_eviction_candidate pool = Some v"
  shows "v < bp_capacity pool"
    and "bp_loaded pool v \<Longrightarrow> bp_pin_counts pool v = 0"
    and "bp_loaded pool v \<Longrightarrow> i < bp_capacity pool \<Longrightarrow> bp_loaded pool i"
    and "bp_loaded pool v \<Longrightarrow> i < bp_capacity pool \<Longrightarrow> bp_pin_counts pool i = 0 \<Longrightarrow>
      bp_last_access pool v \<le> bp_last_access pool i"
proof -
  obtain r a where scan: "lru_scan pool [0..<bp_capacity pool] (None, 0xFFFFFFFF) = (r, a)"
    by fastforce
  note s = lru_scan_spec [OF scan]
  show "v < bp_capacity pool" using assms scan s
    by (auto simp: find_eviction_candidate_def find_Some_iff split: option.splits)
  assume l: "bp_loaded pool v"
  then have n: "List.find (\<lambda>i. \<not> bp_loaded pool i) [0..<bp_capacity pool] = None" "r = Some v"
    using assms scan by (auto simp: find_eviction_candidate_def find_Some_iff split: option.splits)
  then show "i < bp_capacity pool \<Longrightarrow> bp_loaded pool i" by (auto simp: find_None_iff)
  show "bp_pin_counts pool v = 0" using n(2) s by auto
  show "i < bp_capacity pool \<Longrightarrow> bp_pin_counts pool i = 0 \<Longrightarrow>
      bp_last_access pool v \<le> bp_last_access pool i"
    using n(2) s by auto
qed

text \<open>A slot is found as soon as one is free, or one is unpinned and its access stamp has
  not reached the largest 32-bit value.\<close>

lemma eviction_candidate_exists:
  assumes "i < bp_capacity pool"
    and "\<not> bp_loaded pool i \<or> bp_pin_counts pool i = 0 \<and> bp_last_access pool i < 0xFFFFFFFF"
  shows "\<exists>v. find_eviction_candidate pool = Some v"
proof (cases "List.find (\<lambda>i. \<not> bp_loaded pool i) [0..<bp_capacity pool]")
  case None
  with assms have i: "bp_pin_counts pool i = 0" "bp_last_access pool i < 0xFFFFFFFF"
    by (auto simp: find_None_iff)
  obtain r a where scan: "lru_scan pool [0..<bp_capacity pool] (None, 0xFFFFFFFF) = (r, a)"
    by fastforce
  have "a \<le> bp_last_access pool i" using lru_scan_spec [OF scan] i assms(1) by auto
  with i(2) have "a \<noteq> 0xFFFFFFFF" by auto
  with lru_scan_spec [OF scan] have "\<exists>v. r = Some v" by auto
  with None scan show ?thesis by (auto simp: find_eviction_candidate_def)
qed (simp add: find_eviction_candidate_def)

subsection \<open>Giving a slot to another page\<close>

text \<open>The file once the page of slot \<open>v\<close> is safe to drop.\<close>

definition written_back :: "garry_buffer_pool \<Rightarrow> nat \<Rightarrow> garry_file \<Rightarrow> bool" where
  "written_back pool v fd \<longleftrightarrow>
     f_wok fd = f_wok (bp_fd pool) \<and>
     (\<forall>q. agree 0 (bp_page_size pool) (f_pages fd q)
        (if bp_loaded pool v \<and> q = bp_page_ids pool v then bp_pages pool v
         else f_pages (bp_fd pool) q))"

lemma written_back_clean:
  "pool_inv pool \<Longrightarrow> v < bp_capacity pool \<Longrightarrow> \<not> (bp_loaded pool v \<and> bp_dirty pool v) \<Longrightarrow>
     written_back pool v (bp_fd pool)"
  using pool_invD(9) [of pool v] by (auto simp: written_back_def agree_def)

lemma written_back_write:
  assumes "bp_loaded pool v"
    and "garry_file_write_page (bp_fd pool) (bp_page_ids pool v) (bp_pages pool v)
           (bp_page_size pool) = (fd, True)"
  shows "written_back pool v fd"
  using assms by (auto simp: written_back_def garry_file_write_page_def agree_def split: if_splits)

lemma evict_victim_written_back:
  assumes "pool_inv pool" "v < bp_capacity pool" "evict_victim pool v = Some pool'"
  shows "\<exists>fd. pool' = pool\<lparr>bp_fd := fd\<rparr> \<and> written_back pool v fd"
proof (cases "bp_dirty pool v")
  case True
  then have l: "bp_loaded pool v" using pool_invD(7) [OF assms(1,2)] by blast
  from True assms(3) obtain fd
    where w: "garry_file_write_page (bp_fd pool) (bp_page_ids pool v) (bp_pages pool v)
        (bp_page_size pool) = (fd, True)" and "pool' = pool\<lparr>bp_fd := fd\<rparr>"
    by (auto simp: evict_victim_def split: prod.splits if_splits)
  with written_back_write [OF l w] show ?thesis by blast
next
  case False
  with assms written_back_clean [OF assms(1,2)] show ?thesis
    by (intro exI [of _ "bp_fd pool"]) (auto simp: evict_victim_def)
qed

lemma claim_slot_sel [simp]:
  "bp_capacity (claim_slot pool v pid page) = bp_capacity pool"
  "bp_page_size (claim_slot pool v pid page) = bp_page_size pool"
  "bp_pages (claim_slot pool v pid page) = (bp_pages pool)(v := page)"
  "bp_page_ids (claim_slot pool v pid page) = (bp_page_ids pool)(v := pid)"
  "bp_loaded (claim_slot pool v pid page) = (bp_loaded pool)(v := True)"
  "bp_dirty (claim_slot pool v pid page) = (bp_dirty pool)(v := False)"
  "bp_pin_counts (claim_slot pool v pid page) = (bp_pin_counts pool)(v := 0)"
  "bp_fd (claim_slot pool v pid page) = bp_fd pool"
  "bp_next_page (claim_slot pool v pid page) = bp_next_page pool"
  "bp_free_list_head (claim_slot pool v pid page) = bp_free_list_head pool"
  "bp_access_counter (claim_slot pool v pid page) = bp_access_counter pool + 1"
  "bp_last_access (claim_slot pool v pid page) = (bp_last_access pool)(v := bp_access_counter pool + 1)"
  by (simp_all add: claim_slot_def Let_def)

lemma claim_slot_inv:
  assumes inv: "pool_inv pool" and v: "v < bp_capacity pool" and wb: "written_back pool v fd"
    and pid: "find_slot pool pid = None" "0 \<le> pid" "pid < n" "bp_next_page pool \<le> n"
    and page: "agree 0 (bp_page_size pool) page (f_pages fd pid)"
  shows "pool_inv (claim_slot (pool\<lparr>bp_fd := fd, bp_next_page := n\<rparr>) v pid page)" (is "pool_inv ?p")
proof -
  note d = pool_invD [OF inv]
  have nl: "bp_page_ids pool i \<noteq> pid" if "i < bp_capacity pool" "bp_loaded pool i" for i
    using pid(1) that by (auto simp: find_slot_None_iff)
  have clean: "agree 0 (bp_page_size pool) (bp_pages pool i) (f_pages fd (bp_page_ids pool i))"
    if i: "i < bp_capacity pool" "bp_loaded pool i" "\<not> bp_dirty pool i" "i \<noteq> v" for i
  proof -
    have "\<not> (bp_loaded pool v \<and> bp_page_ids pool i = bp_page_ids pool v)"
      using d(10) [OF i(1) v i(2)] i(4) by auto
    then have "agree 0 (bp_page_size pool) (f_pages fd (bp_page_ids pool i))
        (f_pages (bp_fd pool) (bp_page_ids pool i))"
      using wb by (auto simp: written_back_def dest: spec [of _ "bp_page_ids pool i"])
    with d(9) [OF i(1-3)] show ?thesis by (blast intro: agree_trans agree_sym)
  qed
  have fresh: "agree 0 (bp_page_size pool) (f_pages fd q) (\<lambda>_. 0)" if q: "n \<le> q" for q
  proof -
    have "\<not> (bp_loaded pool v \<and> q = bp_page_ids pool v)" using d(6) [OF v] q pid(4) by auto
    then have "agree 0 (bp_page_size pool) (f_pages fd q) (f_pages (bp_fd pool) q)"
      using wb by (auto simp: written_back_def dest: spec [of _ q])
    with d(11) [of q] q pid(4) show ?thesis by (auto intro: agree_trans)
  qed
  have ub: "bp_page_ids pool i < n" if "i < bp_capacity pool" "bp_loaded pool i" for i
    using d(6) [OF that] pid(4) by simp
  have uniq: "inj_on ((bp_page_ids pool)(v := pid)) {i. i < bp_capacity pool \<and> ((bp_loaded pool)(v := True)) i}"
  proof -
    have "inj_on (bp_page_ids pool) {i. i < bp_capacity pool \<and> bp_loaded pool i}"
      using inv by (simp add: pool_inv_def)
    then show ?thesis using nl by (fastforce simp: inj_on_def)
  qed
  have "bp_capacity pool \<le> 256" using inv by (simp add: pool_inv_def)
  then show ?thesis
    unfolding pool_inv_def
    using d(1-5,7,8) nl nl [symmetric] ub uniq clean fresh pid(2-4) page
    by auto
qed

lemma claim_slot_view:
  assumes inv: "pool_inv pool" and v: "v < bp_capacity pool" and wb: "written_back pool v fd"
    and pid: "find_slot pool pid = None" "0 \<le> pid" "pid < n" "bp_next_page pool \<le> n"
    and page: "agree 0 (bp_page_size pool) page (f_pages fd pid)"
  shows "agree 0 (bp_page_size pool) (page_view pool q)
    (page_view (claim_slot (pool\<lparr>bp_fd := fd, bp_next_page := n\<rparr>) v pid page) q)"
    (is "agree 0 _ _ (page_view ?p q)")
proof -
  have inv': "pool_inv ?p" by (rule claim_slot_inv [OF assms])
  have fdq: "agree 0 (bp_page_size pool) (f_pages fd q)
      (if bp_loaded pool v \<and> q = bp_page_ids pool v then bp_pages pool v
       else f_pages (bp_fd pool) q)"
    using wb by (auto simp: written_back_def)
  consider (pid) "q = pid" | (kept) i where "q \<noteq> pid" "find_slot pool q = Some i" "i \<noteq> v"
    | (victim) "q \<noteq> pid" "find_slot pool q = Some v" | (other) "q \<noteq> pid" "find_slot pool q = None"
    by (cases "find_slot pool q") auto
  then show ?thesis
  proof cases
    case pid
    then have "find_slot ?p q = Some v" using v by (simp add: find_slot_Some_iff [OF inv'])
    moreover have "\<not> (bp_loaded pool v \<and> q = bp_page_ids pool v)"
      using assms(4) pid v by (auto simp: find_slot_None_iff)
    ultimately show ?thesis
      using pid assms(4) fdq page
      by (auto simp: page_view_def agree_def)
  next
    case kept
    then have "find_slot ?p q = Some i"
      using find_slot_SomeD [OF kept(2)] by (simp add: find_slot_Some_iff [OF inv'])
    with kept show ?thesis by (simp add: page_view_def)
  next
    case victim
    have "bp_page_ids pool i \<noteq> q" if "i < bp_capacity pool" "bp_loaded pool i" "i \<noteq> v" for i
      using that victim(2) find_slot_Some_iff [OF inv, of q i] by auto
    then have "find_slot ?p q = None" using victim(1) by (auto simp: find_slot_None_iff)
    with victim find_slot_SomeD [OF victim(2)] fdq show ?thesis
      by (auto simp: page_view_def intro: agree_sym)
  next
    case other
    then have "find_slot ?p q = None" by (auto simp: find_slot_None_iff)
    moreover have "\<not> (bp_loaded pool v \<and> q = bp_page_ids pool v)"
      using other v by (auto simp: find_slot_None_iff)
    ultimately show ?thesis using other fdq by (auto simp: page_view_def intro: agree_sym)
  qed
qed

subsection \<open>Loading, pinning and releasing\<close>

lemma ensure_loaded_cases:
  assumes "pool_inv pool" "0 \<le> pid" "pid < bp_next_page pool"
  obtains (hit) i where "find_slot pool pid = Some i" "ensure_loaded pool pid = (pool, Some i)"
  | (fail) "find_slot pool pid = None" "ensure_loaded pool pid = (pool, None)"
  | (load) v fd page where "find_slot pool pid = None" "find_eviction_candidate pool = Some v"
      "v < bp_capacity pool" "written_back pool v fd"
      "agree 0 (bp_page_size pool) page (f_pages fd pid)"
      "ensure_loaded pool pid =
         (claim_slot (pool\<lparr>bp_fd := fd, bp_next_page := bp_next_page pool\<rparr>) v pid page, Some v)"
proof (cases "find_slot pool pid")
  case (Some i)
  then show ?thesis by (intro hit) (simp_all add: ensure_loaded_def)
next
  case None
  show ?thesis
  proof (cases "find_eviction_candidate pool")
    case None': None
    with None show ?thesis by (intro fail) (simp_all add: ensure_loaded_def)
  next
    case (Some v)
    note v = eviction_candidate_Some(1) [OF Some]
    let ?wr = "if bp_loaded pool v \<and> bp_dirty pool v
       then garry_file_write_page (bp_fd pool) (bp_page_ids pool v) (bp_pages pool v) (bp_page_size pool)
       else (bp_fd pool, True)"
    show ?thesis
    proof (cases "snd ?wr")
      case False
      with None Some show ?thesis
        by (intro fail) (simp_all add: ensure_loaded_def split: if_splits)
    next
      case True
      let ?pool = "pool\<lparr>bp_fd := fst ?wr\<rparr>"
      let ?page = "garry_file_read_page (bp_fd ?pool) pid (zero_page ?pool v) (bp_page_size ?pool)"
      have wb: "written_back pool v (fst ?wr)"
      proof (cases "bp_loaded pool v \<and> bp_dirty pool v")
        case True
        with \<open>snd ?wr\<close> show ?thesis by (intro written_back_write) (auto simp: prod_eq_iff)
      next
        case False
        then show ?thesis using written_back_clean [OF assms(1) v] by auto
      qed
      have "ensure_loaded pool pid =
          (claim_slot (pool\<lparr>bp_fd := fst ?wr, bp_next_page := bp_next_page pool\<rparr>) v pid ?page, Some v)"
        using None Some True by (simp add: ensure_loaded_def Let_def split: if_splits)
      moreover have "agree 0 (bp_page_size pool) ?page (f_pages (fst ?wr) pid)"
        by (simp add: agree_def garry_file_read_page_def)
      ultimately show ?thesis using load None Some v wb by blast
    qed
  qed
qed

lemma ensure_loaded_spec:
  assumes "pool_inv pool" "0 \<le> pid" "pid < bp_next_page pool"
    and "ensure_loaded pool pid = (pool', r)"
  shows "pool_inv pool'" and "same_view pool pool'" and "bp_capacity pool' = bp_capacity pool"
    and "f_wok (bp_fd pool') = f_wok (bp_fd pool)"
    and "r = None \<Longrightarrow> pool' = pool" and "r = Some i \<Longrightarrow> find_slot pool' pid = Some i"
    and "bp_pin_counts pool j \<noteq> 0 \<Longrightarrow> j < bp_capacity pool \<Longrightarrow>
      bp_loaded pool' j = bp_loaded pool j \<and> bp_page_ids pool' j = bp_page_ids pool j \<and>
      bp_pages pool' j = bp_pages pool j \<and> bp_dirty pool' j = bp_dirty pool j"
    and "j < bp_capacity pool \<Longrightarrow> bp_pin_counts pool' j = bp_pin_counts pool j"
    and "j < bp_capacity pool \<Longrightarrow> r \<noteq> Some j \<Longrightarrow> bp_last_access pool' j = bp_last_access pool j"
    and "bp_access_counter pool' = bp_access_counter pool \<or>
      bp_access_counter pool' = bp_access_counter pool + 1"
proof -
  have "pool_inv pool' \<and> same_view pool pool' \<and> bp_capacity pool' = bp_capacity pool \<and>
    f_wok (bp_fd pool') = f_wok (bp_fd pool) \<and> (r = None \<longrightarrow> pool' = pool) \<and>
    (r = Some i \<longrightarrow> find_slot pool' pid = Some i) \<and>
    (bp_pin_counts pool j \<noteq> 0 \<and> j < bp_capacity pool \<longrightarrow>
      bp_loaded pool' j = bp_loaded pool j \<and> bp_page_ids pool' j = bp_page_ids pool j \<and>
      bp_pages pool' j = bp_pages pool j \<and> bp_dirty pool' j = bp_dirty pool j) \<and>
    (j < bp_capacity pool \<longrightarrow> bp_pin_counts pool' j = bp_pin_counts pool j) \<and>
    (j < bp_capacity pool \<longrightarrow> r \<noteq> Some j \<longrightarrow> bp_last_access pool' j = bp_last_access pool j) \<and>
    (bp_access_counter pool' = bp_access_counter pool \<or>
      bp_access_counter pool' = bp_access_counter pool + 1)"
    using assms(1-3)
  proof (cases rule: ensure_loaded_cases)
    case (hit i)
    with assms show ?thesis by auto
  next
    case fail
    with assms show ?thesis by auto
  next
    case (load v fd page)
    note inv = claim_slot_inv [OF assms(1) load(3,4,1) assms(2,3) order_refl load(5)]
    note view = claim_slot_view [OF assms(1) load(3,4,1) assms(2,3) order_refl load(5)]
    have eq: "pool' = claim_slot (pool\<lparr>bp_fd := fd, bp_next_page := bp_next_page pool\<rparr>) v pid page"
      "r = Some v" using load(6) assms(4) by auto
    have pin: "bp_pin_counts pool v = 0"
      using eviction_candidate_Some(2) [OF load(2)] pool_invD(8) [OF assms(1) load(3)] by blast
    have "find_slot pool' pid = Some v"
      unfolding eq(1) find_slot_Some_iff [OF inv] using load(3) by simp
    then show ?thesis
      using inv view load(4) pin unfolding eq by (auto simp: same_view_def written_back_def)
  qed
  then show "pool_inv pool'" "same_view pool pool'" "bp_capacity pool' = bp_capacity pool"
    "f_wok (bp_fd pool') = f_wok (bp_fd pool)"
    "r = None \<Longrightarrow> pool' = pool" "r = Some i \<Longrightarrow> find_slot pool' pid = Some i"
    "bp_pin_counts pool j \<noteq> 0 \<Longrightarrow> j < bp_capacity pool \<Longrightarrow>
      bp_loaded pool' j = bp_loaded pool j \<and> bp_page_ids pool' j = bp_page_ids pool j \<and>
      bp_pages pool' j = bp_pages pool j \<and> bp_dirty pool' j = bp_dirty pool j"
    "j < bp_capacity pool \<Longrightarrow> bp_pin_counts pool' j = bp_pin_counts pool j"
    "j < bp_capacity pool \<Longrightarrow> r \<noteq> Some j \<Longrightarrow> bp_last_access pool' j = bp_last_access pool j"
    "bp_access_counter pool' = bp_access_counter pool \<or>
      bp_access_counter pool' = bp_access_counter pool + 1"
    by blast+
qed

lemma touch_pin_sel [simp]:
  "bp_capacity (touch_pin pool i) = bp_capacity pool"
  "bp_page_size (touch_pin pool i) = bp_page_size pool"
  "bp_pages (touch_pin pool i) = bp_pages pool"
  "bp_page_ids (touch_pin pool i) = bp_page_ids pool"
  "bp_loaded (touch_pin pool i) = bp_loaded pool"
  "bp_dirty (touch_pin pool i) = bp_dirty pool"
  "bp_pin_counts (touch_pin pool i) = (bp_pin_counts pool)(i := bp_pin_counts pool i + 1)"
  "bp_fd (touch_pin pool i) = bp_fd pool"
  "bp_next_page (touch_pin pool i) = bp_next_page pool"
  "bp_free_list_head (touch_pin pool i) = bp_free_list_head pool"
  "bp_access_counter (touch_pin pool i) = bp_access_counter pool + 1"
  "bp_last_access (touch_pin pool i) = (bp_last_access pool)(i := bp_access_counter pool + 1)"
  "find_slot (touch_pin pool i) pid = find_slot pool pid"
  by (simp_all add: touch_pin_def Let_def find_slot_def)

text \<open>Changing pins, dirty flags and stamps leaves every view as it is.\<close>

lemma page_view_cong:
  assumes "\<And>i. find_slot pool' i = find_slot pool i" "bp_pages pool' = bp_pages pool"
    "bp_fd pool' = bp_fd pool"
  shows "page_view pool' = page_view pool"
  using assms by (auto simp: page_view_def fun_eq_iff split: option.splits)

text \<open>An operation that leaves the directory of slots and the file alone keeps the invariant
  if free slots stay unused and clean slots stay equal to the file.\<close>

lemma pool_inv_change:
  assumes "pool_inv pool" "bp_capacity pool' = bp_capacity pool"
    "bp_page_size pool' = bp_page_size pool" "bp_page_ids pool' = bp_page_ids pool"
    "bp_loaded pool' = bp_loaded pool" "bp_fd pool' = bp_fd pool"
    "bp_next_page pool' = bp_next_page pool"
    and "\<And>i. i < bp_capacity pool \<Longrightarrow> \<not> bp_loaded pool i \<Longrightarrow>
      \<not> bp_dirty pool' i \<and> bp_pin_counts pool' i = 0"
    and "\<And>i. i < bp_capacity pool \<Longrightarrow> bp_loaded pool i \<Longrightarrow> \<not> bp_dirty pool' i \<Longrightarrow>
      agree 0 (bp_page_size pool) (bp_pages pool' i) (f_pages (bp_fd pool) (bp_page_ids pool i))"
  shows "pool_inv pool'"
  using assms(1,8,9) unfolding pool_inv_def assms(2-7) by blast

lemma touch_pin_inv:
  assumes "pool_inv pool" "bp_loaded pool i"
  shows "pool_inv (touch_pin pool i)"
proof (rule pool_inv_change [OF assms(1)])
  fix j assume j: "j < bp_capacity pool" "\<not> bp_loaded pool j"
  with assms(2) have "j \<noteq> i" by auto
  with pool_invD(7,8) [OF assms(1) j] show "\<not> bp_dirty (touch_pin pool i) j \<and>
      bp_pin_counts (touch_pin pool i) j = 0" by simp
qed (simp_all add: pool_invD(9) [OF assms(1)])

lemma touch_pin_view: "same_view pool (touch_pin pool i)"
proof -
  have "page_view (touch_pin pool i) = page_view pool" by (rule page_view_cong) simp_all
  then show ?thesis by (simp add: same_view_def)
qed

lemma pin_page_spec:
  assumes "pool_inv pool" "0 \<le> pid" "pid < bp_next_page pool"
    and "garry_pool_pin_page pool pid = (pool', r)"
  shows "pool_inv pool'" and "same_view pool pool'" and "bp_capacity pool' = bp_capacity pool"
    and "f_wok (bp_fd pool') = f_wok (bp_fd pool)"
    and "r = None \<Longrightarrow> pool' = pool" and "r = Some i \<Longrightarrow> find_slot pool' pid = Some i"
    and "bp_pin_counts pool j \<noteq> 0 \<Longrightarrow> j < bp_capacity pool \<Longrightarrow>
      bp_loaded pool' j = bp_loaded pool j \<and> bp_page_ids pool' j = bp_page_ids pool j \<and>
      bp_pages pool' j = bp_pages pool j \<and> bp_dirty pool' j = bp_dirty pool j"
    and "j < bp_capacity pool \<Longrightarrow>
      bp_pin_counts pool' j = bp_pin_counts pool j + (if r = Some j then 1 else 0)"
    and "j < bp_capacity pool \<Longrightarrow> bp_last_access pool' j = bp_last_access pool j \<or>
      bp_last_access pool' j = bp_access_counter pool'"
    and "\<exists>k \<in> {0, 1, 2}. bp_access_counter pool' = bp_access_counter pool + k"
proof -
  obtain p1 r1 where e: "ensure_loaded pool pid = (p1, r1)" by fastforce
  note s = ensure_loaded_spec [OF assms(1-3) e]
  have eq: "pool' = (case r1 of None \<Rightarrow> pool | Some i \<Rightarrow> touch_pin p1 i)" "r = r1"
    using assms(2,4) s(5) by (auto simp: garry_pool_pin_page_def e split: option.splits)
  have l: "bp_loaded p1 i" "i < bp_capacity pool" if "r1 = Some i" for i
    using find_slot_SomeD [OF s(6) [OF that]] s(3) by auto
  show "pool_inv pool'" "same_view pool pool'" "bp_capacity pool' = bp_capacity pool"
    "f_wok (bp_fd pool') = f_wok (bp_fd pool)"
    "r = None \<Longrightarrow> pool' = pool" "r = Some i \<Longrightarrow> find_slot pool' pid = Some i"
    unfolding eq using s(1-6) assms(1) l
    by (auto simp: touch_pin_inv intro: same_view_trans touch_pin_view split: option.split)
  show "bp_pin_counts pool j \<noteq> 0 \<Longrightarrow> j < bp_capacity pool \<Longrightarrow>
      bp_loaded pool' j = bp_loaded pool j \<and> bp_page_ids pool' j = bp_page_ids pool j \<and>
      bp_pages pool' j = bp_pages pool j \<and> bp_dirty pool' j = bp_dirty pool j"
    unfolding eq using s(7) [of j] by (simp split: option.split)
  show "j < bp_capacity pool \<Longrightarrow>
      bp_pin_counts pool' j = bp_pin_counts pool j + (if r = Some j then 1 else 0)"
    unfolding eq using s(8) [of j] by (simp split: option.split)
  show "j < bp_capacity pool \<Longrightarrow> bp_last_access pool' j = bp_last_access pool j \<or>
      bp_last_access pool' j = bp_access_counter pool'"
    unfolding eq using s(9) [of j] by (auto split: option.split)
  show "\<exists>k \<in> {0, 1, 2}. bp_access_counter pool' = bp_access_counter pool + k"
    unfolding eq using s(10) by (auto split: option.split)
qed

lemma release_page_sel [simp]:
  "bp_capacity (garry_pool_release_page pool pid) = bp_capacity pool"
  "bp_page_size (garry_pool_release_page pool pid) = bp_page_size pool"
  "bp_pages (garry_pool_release_page pool pid) = bp_pages pool"
  "bp_page_ids (garry_pool_release_page pool pid) = bp_page_ids pool"
  "bp_loaded (garry_pool_release_page pool pid) = bp_loaded pool"
  "bp_dirty (garry_pool_release_page pool pid) = bp_dirty pool"
  "bp_fd (garry_pool_release_page pool pid) = bp_fd pool"
  "bp_next_page (garry_pool_release_page pool pid) = bp_next_page pool"
  "bp_free_list_head (garry_pool_release_page pool pid) = bp_free_list_head pool"
  "bp_access_counter (garry_pool_release_page pool pid) = bp_access_counter pool"
  "bp_last_access (garry_pool_release_page pool pid) = bp_last_access pool"
  "find_slot (garry_pool_release_page pool pid) q = find_slot pool q"
  by (auto simp: garry_pool_release_page_def find_slot_def split: option.splits)

lemma release_page_pins:
  "bp_pin_counts (garry_pool_release_page pool pid) j =
     (if 0 \<le> pid \<and> find_slot pool pid = Some j \<and> bp_pin_counts pool j > 0
      then bp_pin_counts pool j - 1 else bp_pin_counts pool j)"
  by (auto simp: garry_pool_release_page_def split: option.splits)

lemma release_page_view [simp]: "page_view (garry_pool_release_page pool pid) = page_view pool"
  by (rule page_view_cong) simp_all

lemma release_page_inv:
  assumes "pool_inv pool"
  shows "pool_inv (garry_pool_release_page pool pid)"
  by (rule pool_inv_change [OF assms]) (use pool_invD(7-9) [OF assms] in \<open>auto simp: release_page_pins\<close>)

lemma mark_dirty_sel [simp]:
  "bp_capacity (garry_pool_mark_dirty pool pid) = bp_capacity pool"
  "bp_page_size (garry_pool_mark_dirty pool pid) = bp_page_size pool"
  "bp_pages (garry_pool_mark_dirty pool pid) = bp_pages pool"
  "bp_page_ids (garry_pool_mark_dirty pool pid) = bp_page_ids pool"
  "bp_loaded (garry_pool_mark_dirty pool pid) = bp_loaded pool"
  "bp_pin_counts (garry_pool_mark_dirty pool pid) = bp_pin_counts pool"
  "bp_fd (garry_pool_mark_dirty pool pid) = bp_fd pool"
  "bp_next_page (garry_pool_mark_dirty pool pid) = bp_next_page pool"
  "bp_free_list_head (garry_pool_mark_dirty pool pid) = bp_free_list_head pool"
  "bp_access_counter (garry_pool_mark_dirty pool pid) = bp_access_counter pool"
  "bp_last_access (garry_pool_mark_dirty pool pid) = bp_last_access pool"
  "find_slot (garry_pool_mark_dirty pool pid) q = find_slot pool q"
  by (auto simp: garry_pool_mark_dirty_def find_slot_def split: option.splits)

lemma mark_dirty_flags:
  "bp_dirty (garry_pool_mark_dirty pool pid) j =
     (bp_dirty pool j \<or> 0 \<le> pid \<and> find_slot pool pid = Some j)"
  by (auto simp: garry_pool_mark_dirty_def split: option.splits)

lemma mark_dirty_view [simp]: "page_view (garry_pool_mark_dirty pool pid) = page_view pool"
  by (rule page_view_cong) simp_all

lemma mark_dirty_inv:
  assumes "pool_inv pool"
  shows "pool_inv (garry_pool_mark_dirty pool pid)"
  by (rule pool_inv_change [OF assms])
    (use pool_invD(7-9) [OF assms] find_slot_SomeD [of pool pid] in \<open>auto simp: mark_dirty_flags\<close>)

subsection \<open>Writing through a pinned page\<close>

lemma pool_write_sel [simp]:
  "bp_capacity (pool_write pool i page) = bp_capacity pool"
  "bp_page_size (pool_write pool i page) = bp_page_size pool"
  "bp_pages (pool_write pool i page) = (bp_pages pool)(i := page)"
  "bp_page_ids (pool_write pool i page) = bp_page_ids pool"
  "bp_loaded (pool_write pool i page) = bp_loaded pool"
  "bp_dirty (pool_write pool i page) = bp_dirty pool"
  "bp_pin_counts (pool_write pool i page) = bp_pin_counts pool"
  "bp_fd (pool_write pool i page) = bp_fd pool"
  "bp_next_page (pool_write pool i page) = bp_next_page pool"
  "bp_free_list_head (pool_write pool i page) = bp_free_list_head pool"
  "bp_access_counter (pool_write pool i page) = bp_access_counter pool"
  "bp_last_access (pool_write pool i page) = bp_last_access pool"
  "find_slot (pool_write pool i page) q = find_slot pool q"
  by (simp_all add: pool_write_def find_slot_def)

lemma write_dirty_inv:
  assumes "pool_inv pool" "find_slot pool pid = Some i" "0 \<le> pid"
  shows "pool_inv (garry_pool_mark_dirty (pool_write pool i page) pid)"
  by (rule pool_inv_change [OF assms(1)])
    (use pool_invD(7-9) [OF assms(1)] find_slot_SomeD [OF assms(2)] assms(2,3) in
      \<open>auto simp: mark_dirty_flags\<close>)

lemma pool_write_view:
  assumes "find_slot pool pid = Some i"
  shows "page_view (pool_write pool i page) = (page_view pool)(pid := page)"
proof
  fix q
  have "find_slot pool q \<noteq> Some i" if "q \<noteq> pid"
    using that find_slot_SomeD [of pool q i] find_slot_SomeD [OF assms] by auto
  then show "page_view (pool_write pool i page) q =
      ((page_view pool)(pid := page)) q"
    using assms by (auto simp: page_view_def split: option.splits)
qed

subsection \<open>When a pin succeeds\<close>

text \<open>The environment writes every page it is asked to write, and the 32-bit access counter is
  at least \<open>n\<close> steps from its largest value, so that no stamp reaches it. Every pin costs at
  most two steps.\<close>

definition pool_ready :: "nat \<Rightarrow> garry_buffer_pool \<Rightarrow> bool" where
  "pool_ready n pool \<longleftrightarrow>
     pool_inv pool \<and> (\<forall>p. f_wok (bp_fd pool) p) \<and>
     (\<forall>i < bp_capacity pool. bp_last_access pool i \<le> bp_access_counter pool) \<and>
     uint (bp_access_counter pool) + int n < 2 ^ 32 - 1"

text \<open>Between two operations of the engine no page is pinned.\<close>

definition pool_idle :: "nat \<Rightarrow> garry_buffer_pool \<Rightarrow> bool" where
  "pool_idle n pool \<longleftrightarrow>
     pool_ready n pool \<and> (\<forall>i < bp_capacity pool. bp_pin_counts pool i = 0)"

lemma pool_ready_inv: "pool_ready n pool \<Longrightarrow> pool_inv pool"
  by (simp add: pool_ready_def)

lemma pool_idle_ready: "pool_idle n pool \<Longrightarrow> pool_ready n pool"
  by (simp add: pool_idle_def)

lemma pool_idle_inv: "pool_idle n pool \<Longrightarrow> pool_inv pool"
  by (simp add: pool_idle_def pool_ready_def)

lemma pool_ready_mono: "pool_ready n pool \<Longrightarrow> m \<le> n \<Longrightarrow> pool_ready m pool"
  by (simp add: pool_ready_def)

lemma pool_idle_mono: "pool_idle n pool \<Longrightarrow> m \<le> n \<Longrightarrow> pool_idle m pool"
  by (simp add: pool_idle_def pool_ready_def)

lemma stamp_step:
  fixes ac :: "32 word"
  assumes "uint ac + int n < 2 ^ 32 - 1" "uint k \<le> int n"
  shows "uint (ac + k) = uint ac + uint k"
  using assms uint_ge_0 [of ac] uint_ge_0 [of k] by (simp add: uint_word_ariths)

lemma pin_page_ready:
  assumes "pool_ready (n + 2) pool" "0 \<le> pid" "pid < bp_next_page pool"
    and "garry_pool_pin_page pool pid = (pool', r)"
  shows "pool_ready n pool'"
proof -
  note inv = pool_ready_inv [OF assms(1)]
  note s = pin_page_spec [OF inv assms(2-4)]
  let ?ac = "bp_access_counter pool" and ?ac' = "bp_access_counter pool'"
  have r: "uint ?ac + int n + 2 < 2 ^ 32 - 1" "\<And>i. i < bp_capacity pool \<Longrightarrow> bp_last_access pool i \<le> ?ac"
    using assms(1) by (auto simp: pool_ready_def)
  obtain k where k: "?ac' = ?ac + k" "uint k \<le> 2" using s(10) by auto
  have u: "uint ?ac' = uint ?ac + uint k"
    unfolding k(1) by (rule stamp_step [where n = "n + 2"]) (use r k(2) in auto)
  have "bp_last_access pool' i \<le> ?ac'" if i: "i < bp_capacity pool" for i
    using s(9) [OF i] r(2) [OF i] u by (auto simp: word_le_def intro: add_increasing2)
  then show ?thesis
    using s(1,3,4) u k(2) r assms(1) by (simp add: pool_ready_def)
qed

lemma pin_page_succeeds:
  assumes "pool_ready n pool" "0 \<le> pid" "pid < bp_next_page pool"
    and "find_slot pool pid \<noteq> None \<or> (\<exists>i < bp_capacity pool. bp_pin_counts pool i = 0)"
  shows "\<exists>pool' i. garry_pool_pin_page pool pid = (pool', Some i)"
proof -
  note inv = pool_ready_inv [OF assms(1)]
  from inv assms(2,3) show ?thesis
  proof (cases rule: ensure_loaded_cases)
    case fail
    then obtain i where i: "i < bp_capacity pool" "bp_pin_counts pool i = 0" using assms(4) by auto
    have "uint (bp_last_access pool i) < 2 ^ 32 - 1"
      using assms(1) i(1) by (auto simp: pool_ready_def word_le_def intro: order.strict_trans1)
    then have "bp_last_access pool i < 0xFFFFFFFF" by (simp add: word_less_def)
    with i eviction_candidate_exists [of i pool] obtain v where v: "find_eviction_candidate pool = Some v"
      by auto
    have "snd (garry_file_write_page (bp_fd pool) q b s)" for q b s
      using assms(1) by (simp add: garry_file_write_page_def pool_ready_def)
    with fail v have "snd (ensure_loaded pool pid) \<noteq> None"
      by (simp add: ensure_loaded_def Let_def split: if_splits)
    with fail show ?thesis by simp
  qed (use assms(2) in \<open>auto simp: garry_pool_pin_page_def\<close>)
qed

lemma idle_pin_cases:
  assumes "pool_idle (n + 2) pool" "0 \<le> pid" "pid < bp_next_page pool"
  obtains pool' i where "garry_pool_pin_page pool pid = (pool', Some i)"
    "pool_ready n pool'" "same_view pool pool'" "find_slot pool' pid = Some i"
    "bp_capacity pool' = bp_capacity pool"
    "agree 0 (bp_page_size pool) (page_view pool pid) (bp_pages pool' i)"
    "\<And>j. j < bp_capacity pool \<Longrightarrow> bp_pin_counts pool' j = (if j = i then 1 else 0)"
proof -
  note inv = pool_idle_inv [OF assms(1)] and rdy = pool_idle_ready [OF assms(1)]
  have "0 < bp_capacity pool" "\<forall>j < bp_capacity pool. bp_pin_counts pool j = 0"
    using pool_invD(1) [OF inv] assms(1) by (auto simp: pool_idle_def)
  then obtain pool' i where p: "garry_pool_pin_page pool pid = (pool', Some i)"
    using pin_page_succeeds [OF rdy assms(2,3)] by blast
  note s = pin_page_spec [OF inv assms(2,3) p]
  show ?thesis
  proof (rule that [OF p pin_page_ready [OF rdy assms(2,3) p] s(2) s(6) [OF refl] s(3)])
    show "agree 0 (bp_page_size pool) (page_view pool pid) (bp_pages pool' i)"
    proof -
      have "page_view pool' pid = bp_pages pool' i" by (simp add: page_view_def s(6) [OF refl])
      with s(2) show ?thesis unfolding same_view_def by metis
    qed
    show "bp_pin_counts pool' j = (if j = i then 1 else 0)" if "j < bp_capacity pool" for j
      using s(8) [OF that] that assms(1) by (auto simp: pool_idle_def)
  qed
qed

lemma ready_change:
  assumes "pool_ready n pool" "pool_inv pool'" "bp_capacity pool' = bp_capacity pool"
    "f_wok (bp_fd pool') = f_wok (bp_fd pool)" "bp_last_access pool' = bp_last_access pool"
    "bp_access_counter pool' = bp_access_counter pool"
  shows "pool_ready n pool'"
  using assms by (simp add: pool_ready_def)

lemma release_idle:
  assumes "pool_ready n pool" "find_slot pool pid = Some i" "0 \<le> pid"
    and "\<And>j. j < bp_capacity pool \<Longrightarrow> bp_pin_counts pool j = (if j = i then 1 else 0)"
  shows "pool_idle n (garry_pool_release_page pool pid)"
proof -
  have "pool_ready n (garry_pool_release_page pool pid)"
    by (rule ready_change [OF assms(1)]) (simp_all add: release_page_inv pool_ready_inv [OF assms(1)])
  with assms(2-4) show ?thesis by (simp add: pool_idle_def release_page_pins)
qed

text \<open>A store through a pinned page, marked dirty and released.\<close>

lemma store_release_idle:
  assumes "pool_ready n pool" "find_slot pool pid = Some i" "0 \<le> pid"
    and "\<And>j. j < bp_capacity pool \<Longrightarrow> bp_pin_counts pool j = (if j = i then 1 else 0)"
    and "pool' = garry_pool_release_page (garry_pool_mark_dirty (pool_write pool i page) pid) pid"
  shows "pool_idle n pool'" "page_view pool' = (page_view pool)(pid := page)"
    "bp_page_size pool' = bp_page_size pool" "bp_next_page pool' = bp_next_page pool"
    "bp_free_list_head pool' = bp_free_list_head pool" "bp_capacity pool' = bp_capacity pool"
proof -
  let ?w = "garry_pool_mark_dirty (pool_write pool i page) pid"
  have rdy: "pool_ready n ?w"
    by (rule ready_change [OF assms(1)])
      (simp_all add: write_dirty_inv [OF pool_ready_inv [OF assms(1)] assms(2,3)])
  show "pool_idle n pool'"
    unfolding assms(5) using assms(2,4) by (intro release_idle [OF rdy _ assms(3)]) simp_all
  show "page_view pool' = (page_view pool)(pid := page)"
    by (simp add: assms(5) pool_write_view [OF assms(2)])
qed (simp_all add: assms(5))

subsection \<open>Reading and updating a page as the engine does it\<close>

text \<open>Pin, look, release; and pin, store, mark dirty, release.\<close>

definition page_look :: "garry_buffer_pool \<Rightarrow> int \<Rightarrow> garry_buffer_pool \<times> buffer option" where
  "page_look pool pid =
     (case garry_pool_pin_page pool pid of
        (pool, None) \<Rightarrow> (pool, None)
      | (pool, Some idx) \<Rightarrow> (garry_pool_release_page pool pid, Some (bp_pages pool idx)))"

definition page_update :: "garry_buffer_pool \<Rightarrow> int \<Rightarrow> (buffer \<Rightarrow> buffer) \<Rightarrow> garry_buffer_pool \<times> bool" where
  "page_update pool pid f =
     (case garry_pool_pin_page pool pid of
        (pool, None) \<Rightarrow> (pool, False)
      | (pool, Some idx) \<Rightarrow>
          (let pool = pool_write pool idx (f (bp_pages pool idx));
               pool = garry_pool_mark_dirty pool pid
           in (garry_pool_release_page pool pid, True)))"

lemma page_look_idle:
  assumes "pool_idle (n + 2) pool" "0 \<le> pid" "pid < bp_next_page pool"
  obtains pool' b where "page_look pool pid = (pool', Some b)" "pool_idle n pool'"
    "same_view pool pool'" "agree 0 (bp_page_size pool) (page_view pool pid) b"
proof -
  from assms obtain p i where p: "garry_pool_pin_page pool pid = (p, Some i)"
    "pool_ready n p" "same_view pool p" "find_slot p pid = Some i"
    "bp_capacity p = bp_capacity pool"
    "agree 0 (bp_page_size pool) (page_view pool pid) (bp_pages p i)"
    "\<And>j. j < bp_capacity pool \<Longrightarrow> bp_pin_counts p j = (if j = i then 1 else 0)"
    by (rule idle_pin_cases) blast
  show ?thesis
  proof (rule that)
    show "page_look pool pid = (garry_pool_release_page p pid, Some (bp_pages p i))"
      by (simp add: page_look_def p(1))
    show "pool_idle n (garry_pool_release_page p pid)"
      using p(5,7) by (intro release_idle [OF p(2,4) assms(2)]) simp
    show "same_view pool (garry_pool_release_page p pid)" using p(3) by (simp add: same_view_def)
  qed (rule p(6))
qed

lemma page_update_idle:
  assumes "pool_idle (n + 2) pool" "0 \<le> pid" "pid < bp_next_page pool"
    and "\<And>b b'. agree 0 (bp_page_size pool) b b' \<Longrightarrow> agree 0 (bp_page_size pool) (f b) (f b')"
  obtains pool' where "page_update pool pid f = (pool', True)" "pool_idle n pool'"
    "bp_page_size pool' = bp_page_size pool" "bp_next_page pool' = bp_next_page pool"
    "bp_free_list_head pool' = bp_free_list_head pool"
    "\<And>q. agree 0 (bp_page_size pool)
       (if q = pid then f (page_view pool pid) else page_view pool q) (page_view pool' q)"
proof -
  from assms(1-3) obtain p i where p: "garry_pool_pin_page pool pid = (p, Some i)"
    "pool_ready n p" "same_view pool p" "find_slot p pid = Some i"
    "bp_capacity p = bp_capacity pool"
    "agree 0 (bp_page_size pool) (page_view pool pid) (bp_pages p i)"
    "\<And>j. j < bp_capacity pool \<Longrightarrow> bp_pin_counts p j = (if j = i then 1 else 0)"
    by (rule idle_pin_cases) blast
  let ?w = "garry_pool_mark_dirty (pool_write p i (f (bp_pages p i))) pid"
  note inv = pool_ready_inv [OF p(2)]
  have rdy: "pool_ready n ?w"
    by (rule ready_change [OF p(2)]) (simp_all add: write_dirty_inv [OF inv p(4) assms(2)])
  show ?thesis
  proof (rule that)
    show "page_update pool pid f = (garry_pool_release_page ?w pid, True)"
      by (simp add: page_update_def p(1))
    show "pool_idle n (garry_pool_release_page ?w pid)"
      using p(4,5,7) by (intro release_idle [OF rdy _ assms(2)]) simp_all
    show "agree 0 (bp_page_size pool) (if q = pid then f (page_view pool pid) else page_view pool q)
        (page_view (garry_pool_release_page ?w pid) q)" for q
      using p(3,6) assms(4) by (simp add: pool_write_view [OF p(4)] same_view_def)
  qed (use p(3) in \<open>simp_all add: same_view_def\<close>)
qed

subsection \<open>Allocating a fresh page\<close>

lemma allocate_fresh_cases:
  assumes inv: "pool_inv pool" and free: "bp_free_list_head pool < 0"
  obtains (full) "garry_pool_allocate pool = (pool, -1)"
    "find_eviction_candidate pool = None \<or>
     (\<exists>v. find_eviction_candidate pool = Some v \<and> evict_victim pool v = None)"
  | (fresh) v fd page where "find_eviction_candidate pool = Some v" "written_back pool v fd"
    "agree 0 (bp_page_size pool) page (f_pages fd (bp_next_page pool))"
    "agree 0 (bp_page_size pool) (f_pages fd (bp_next_page pool)) (\<lambda>_. 0)"
    "garry_pool_allocate pool =
       (claim_slot (pool\<lparr>bp_fd := fd, bp_next_page := bp_next_page pool + 1\<rparr>) v
          (bp_next_page pool) page, bp_next_page pool)"
proof (cases "find_eviction_candidate pool")
  case None
  with free show ?thesis by (intro full) (simp_all add: garry_pool_allocate_def)
next
  case (Some v)
  note v = eviction_candidate_Some(1) [OF Some]
  let ?pid = "bp_next_page pool"
  show ?thesis
  proof (cases "evict_victim pool v")
    case None
    with free Some pool_invD(4) [OF inv] show ?thesis
      by (intro full) (simp_all add: garry_pool_allocate_def)
  next
    case (Some p)
    then obtain fd where fd: "p = pool\<lparr>bp_fd := fd\<rparr>" "written_back pool v fd"
      using evict_victim_written_back [OF inv v] by auto
    have "\<not> (bp_loaded pool v \<and> ?pid = bp_page_ids pool v)"
      using pool_invD(6) [OF inv v] by auto
    with fd(2) have "agree 0 (bp_page_size pool) (f_pages fd ?pid) (f_pages (bp_fd pool) ?pid)"
      unfolding written_back_def by metis
    then have z: "agree 0 (bp_page_size pool) (f_pages fd ?pid) (\<lambda>_. 0)"
      by (rule agree_trans) (rule pool_invD(11) [OF inv order_refl])
    let ?page = "zero_page (pool\<lparr>bp_fd := fd, bp_next_page := ?pid + 1\<rparr>) v"
    have "agree 0 (bp_page_size pool) ?page (f_pages fd ?pid)"
      using z by (auto simp: agree_def zero_page_def)
    moreover have "garry_pool_allocate pool =
        (claim_slot (pool\<lparr>bp_fd := fd, bp_next_page := ?pid + 1\<rparr>) v ?pid ?page, ?pid)"
      using free \<open>find_eviction_candidate pool = Some v\<close> Some fd(1) pool_invD(4) [OF inv]
      by (simp add: garry_pool_allocate_def Let_def)
    ultimately show ?thesis
      using fresh \<open>find_eviction_candidate pool = Some v\<close> fd(2) z by blast
  qed
qed

lemma fresh_not_cached: "pool_inv pool \<Longrightarrow> find_slot pool (bp_next_page pool) = None"
  using pool_invD(6) [of pool] by (fastforce simp: find_slot_None_iff)

lemma allocate_fresh_spec:
  assumes inv: "pool_inv pool" and free: "bp_free_list_head pool < 0"
    and al: "garry_pool_allocate pool = (pool', pid)"
  shows "pool_inv pool'" and "bp_capacity pool' = bp_capacity pool"
    and "bp_page_size pool' = bp_page_size pool"
    and "bp_free_list_head pool' = bp_free_list_head pool"
    and "f_wok (bp_fd pool') = f_wok (bp_fd pool)"
    and "agree 0 (bp_page_size pool) (page_view pool q) (page_view pool' q)"
    and "j < bp_capacity pool \<Longrightarrow> bp_pin_counts pool' j = bp_pin_counts pool j"
    and "pid = -1 \<Longrightarrow> pool' = pool"
    and "pid \<noteq> -1 \<Longrightarrow> pid = bp_next_page pool \<and> bp_next_page pool' = pid + 1 \<and>
      agree 0 (bp_page_size pool) (page_view pool' pid) (\<lambda>_. 0)"
    and "bp_pin_counts pool j \<noteq> 0 \<Longrightarrow> j < bp_capacity pool \<Longrightarrow>
      bp_loaded pool' j = bp_loaded pool j \<and> bp_page_ids pool' j = bp_page_ids pool j \<and>
      bp_pages pool' j = bp_pages pool j \<and> bp_dirty pool' j = bp_dirty pool j"
proof -
  have "pool_inv pool' \<and> bp_capacity pool' = bp_capacity pool \<and>
    bp_page_size pool' = bp_page_size pool \<and> bp_free_list_head pool' = bp_free_list_head pool \<and>
    f_wok (bp_fd pool') = f_wok (bp_fd pool) \<and>
    (\<forall>q. agree 0 (bp_page_size pool) (page_view pool q) (page_view pool' q)) \<and>
    (j < bp_capacity pool \<longrightarrow> bp_pin_counts pool' j = bp_pin_counts pool j) \<and>
    (pid = -1 \<longrightarrow> pool' = pool) \<and>
    (pid \<noteq> -1 \<longrightarrow> pid = bp_next_page pool \<and> bp_next_page pool' = pid + 1 \<and>
      agree 0 (bp_page_size pool) (page_view pool' pid) (\<lambda>_. 0)) \<and>
    (bp_pin_counts pool j \<noteq> 0 \<longrightarrow> j < bp_capacity pool \<longrightarrow>
      bp_loaded pool' j = bp_loaded pool j \<and> bp_page_ids pool' j = bp_page_ids pool j \<and>
      bp_pages pool' j = bp_pages pool j \<and> bp_dirty pool' j = bp_dirty pool j)"
    using inv free
  proof (cases rule: allocate_fresh_cases)
    case full
    with al inv show ?thesis by simp
  next
    case (fresh v fd page)
    note v = eviction_candidate_Some(1) [OF fresh(1)]
    note c = inv v fresh(2) fresh_not_cached [OF inv] pool_invD(4) [OF inv] _ _ fresh(3)
    let ?p = "claim_slot (pool\<lparr>bp_fd := fd, bp_next_page := bp_next_page pool + 1\<rparr>) v
          (bp_next_page pool) page"
    have eq: "pool' = ?p" "pid = bp_next_page pool" using fresh(5) al by simp_all
    have inv': "pool_inv ?p" by (rule claim_slot_inv [OF c]) simp_all
    have vw: "agree 0 (bp_page_size pool) (page_view pool q) (page_view ?p q)" for q
      by (rule claim_slot_view [OF c]) simp_all
    have "agree 0 (bp_page_size pool) (page_view ?p (bp_next_page pool)) (\<lambda>_. 0)"
      using agree_trans [OF agree_sym [OF vw [of "bp_next_page pool"]]]
        pool_invD(11) [OF inv order_refl]
      by (simp add: page_view_def [of pool] fresh_not_cached [OF inv])
    moreover have "bp_pin_counts pool v = 0"
      using eviction_candidate_Some(2) [OF fresh(1)] pool_invD(8) [OF inv v] by blast
    ultimately show ?thesis
      using inv' vw fresh(2) pool_invD(4) [OF inv] unfolding eq by (auto simp: written_back_def)
  qed
  then show "pool_inv pool'" "bp_capacity pool' = bp_capacity pool"
    "bp_page_size pool' = bp_page_size pool"
    "bp_free_list_head pool' = bp_free_list_head pool" "f_wok (bp_fd pool') = f_wok (bp_fd pool)"
    "agree 0 (bp_page_size pool) (page_view pool q) (page_view pool' q)"
    "j < bp_capacity pool \<Longrightarrow> bp_pin_counts pool' j = bp_pin_counts pool j"
    "pid = -1 \<Longrightarrow> pool' = pool"
    "pid \<noteq> -1 \<Longrightarrow> pid = bp_next_page pool \<and> bp_next_page pool' = pid + 1 \<and>
      agree 0 (bp_page_size pool) (page_view pool' pid) (\<lambda>_. 0)"
    "bp_pin_counts pool j \<noteq> 0 \<Longrightarrow> j < bp_capacity pool \<Longrightarrow>
      bp_loaded pool' j = bp_loaded pool j \<and> bp_page_ids pool' j = bp_page_ids pool j \<and>
      bp_pages pool' j = bp_pages pool j \<and> bp_dirty pool' j = bp_dirty pool j"
    by blast+
qed

lemma allocate_fresh_ready:
  assumes rdy: "pool_ready (n + 1) pool" and free: "bp_free_list_head pool < 0"
    and i: "i < bp_capacity pool" "bp_pin_counts pool i = 0"
  obtains pool' where "garry_pool_allocate pool = (pool', bp_next_page pool)" "pool_ready n pool'"
proof -
  note inv = pool_ready_inv [OF rdy]
  have ac: "bp_access_counter pool \<le> bp_access_counter pool + 1"
    "uint (bp_access_counter pool + 1) = uint (bp_access_counter pool) + 1"
    using rdy stamp_step [of "bp_access_counter pool" "n + 1" 1]
    by (auto simp: pool_ready_def word_le_def)
  from inv free show ?thesis
  proof (cases rule: allocate_fresh_cases)
    case full
    have "uint (bp_last_access pool i) < 2 ^ 32 - 1"
      using rdy i(1) by (auto simp: pool_ready_def word_le_def intro: order.strict_trans1)
    then have "\<exists>v. find_eviction_candidate pool = Some v"
      using i by (intro eviction_candidate_exists) (auto simp: word_less_def)
    moreover have "evict_victim pool v \<noteq> None" for v
      using rdy by (simp add: evict_victim_def garry_file_write_page_def pool_ready_def)
    ultimately show ?thesis using full(2) by (metis option.distinct(1))
  next
    case (fresh v fd page)
    then show ?thesis
      using allocate_fresh_spec(1,2,5) [OF inv free fresh(5)] rdy ac
      by (intro that [OF fresh(5)]) (auto simp: pool_ready_def intro: order_trans)
  qed
qed

subsection \<open>What reaches the file\<close>

definition written_slot :: "garry_buffer_pool \<Rightarrow> nat \<Rightarrow> garry_buffer_pool" where
  "written_slot pool i =
     pool\<lparr>bp_fd := fst (garry_file_write_page (bp_fd pool) (bp_page_ids pool i) (bp_pages pool i)
                            (bp_page_size pool)),
          bp_dirty := (bp_dirty pool)(i := False)\<rparr>"

lemma written_slot_sel [simp]:
  "bp_capacity (written_slot pool i) = bp_capacity pool"
  "bp_page_size (written_slot pool i) = bp_page_size pool"
  "bp_pages (written_slot pool i) = bp_pages pool"
  "bp_page_ids (written_slot pool i) = bp_page_ids pool"
  "bp_loaded (written_slot pool i) = bp_loaded pool"
  "bp_dirty (written_slot pool i) = (bp_dirty pool)(i := False)"
  "bp_pin_counts (written_slot pool i) = bp_pin_counts pool"
  "bp_next_page (written_slot pool i) = bp_next_page pool"
  "bp_free_list_head (written_slot pool i) = bp_free_list_head pool"
  "f_wok (bp_fd (written_slot pool i)) = f_wok (bp_fd pool)"
  "find_slot (written_slot pool i) q = find_slot pool q"
  by (simp_all add: written_slot_def find_slot_def garry_file_write_page_def)

lemma written_slot_file:
  assumes "f_wok (bp_fd pool) (bp_page_ids pool i)"
  shows "f_pages (bp_fd (written_slot pool i)) q =
    (if q = bp_page_ids pool i
     then (\<lambda>k. if 0 \<le> k \<and> k < bp_page_size pool then bp_pages pool i k else 0)
     else f_pages (bp_fd pool) q)"
  using assms by (simp add: written_slot_def garry_file_write_page_def)

lemma written_slot_inv:
  assumes "pool_inv pool" "i < bp_capacity pool" "bp_loaded pool i"
    and "f_wok (bp_fd pool) (bp_page_ids pool i)"
  shows "pool_inv (written_slot pool i)"
proof -
  note d = pool_invD [OF assms(1)]
  have "agree 0 (bp_page_size pool) (bp_pages pool j) (f_pages (bp_fd (written_slot pool i)) (bp_page_ids pool j))"
    if "j < bp_capacity pool" "bp_loaded pool j" "j = i \<or> \<not> bp_dirty pool j" for j
  proof (cases "bp_page_ids pool j = bp_page_ids pool i")
    case True
    then have "j = i" using d(10) [OF that(1) assms(2) that(2) assms(3)] by blast
    then show ?thesis by (simp add: written_slot_file [of pool, OF assms(4)] agree_def)
  next
    case False
    then show ?thesis using d(9) [OF that(1,2)] that(3) by (auto simp: written_slot_file [of pool, OF assms(4)])
  qed
  moreover have "agree 0 (bp_page_size pool) (f_pages (bp_fd (written_slot pool i)) q) (\<lambda>_. 0)"
    if "bp_next_page pool \<le> q" for q
    using d(6) [OF assms(2,3)] d(11) [OF that] that
    by (auto simp: written_slot_file [of pool, OF assms(4)])
  ultimately show ?thesis using assms(1) unfolding pool_inv_def by auto
qed

lemma written_slot_view:
  assumes "i < bp_capacity pool" "bp_loaded pool i" "f_wok (bp_fd pool) (bp_page_ids pool i)"
  shows "page_view (written_slot pool i) = page_view pool"
proof
  fix q
  have "find_slot pool q = None \<Longrightarrow> q \<noteq> bp_page_ids pool i"
    using assms(1,2) by (auto simp: find_slot_None_iff)
  then show "page_view (written_slot pool i) q = page_view pool q"
    by (auto simp: page_view_def written_slot_file [OF assms(3)] split: option.split)
qed

lemma flush_slots_spec:
  assumes "pool_inv pool" "set is \<subseteq> {..<bp_capacity pool}"
  shows "pool_inv (flush_slots pool is) \<and> page_view (flush_slots pool is) = page_view pool \<and>
    bp_next_page (flush_slots pool is) = bp_next_page pool \<and>
    bp_page_size (flush_slots pool is) = bp_page_size pool \<and>
    bp_free_list_head (flush_slots pool is) = bp_free_list_head pool \<and>
    bp_capacity (flush_slots pool is) = bp_capacity pool \<and>
    bp_loaded (flush_slots pool is) = bp_loaded pool \<and>
    bp_page_ids (flush_slots pool is) = bp_page_ids pool \<and>
    bp_pages (flush_slots pool is) = bp_pages pool \<and>
    bp_pin_counts (flush_slots pool is) = bp_pin_counts pool \<and>
    ((\<forall>p. f_wok (bp_fd pool) p) \<longrightarrow>
     (\<forall>i. bp_dirty (flush_slots pool is) i \<longrightarrow> bp_dirty pool i \<and> i \<notin> set is))"
  using assms
proof (induction "is" arbitrary: pool)
  case (Cons i "is")
  consider (clean) "\<not> (bp_loaded pool i \<and> bp_dirty pool i)"
    | (fails) "bp_loaded pool i" "bp_dirty pool i" "\<not> f_wok (bp_fd pool) (bp_page_ids pool i)"
    | (written) "bp_loaded pool i" "bp_dirty pool i" "f_wok (bp_fd pool) (bp_page_ids pool i)"
    by blast
  then show ?case
  proof cases
    case clean
    then have "\<not> bp_dirty pool i" using pool_invD(7) [OF Cons.prems(1)] Cons.prems(2) by auto
    with Cons.IH [OF Cons.prems(1)] Cons.prems(2) clean show ?thesis by auto
  next
    case fails
    with Cons.prems(1) show ?thesis by (auto simp: garry_file_write_page_def)
  next
    case written
    let ?p = "written_slot pool i"
    have e: "flush_slots pool (i # is) = flush_slots ?p is"
      using written by (simp add: written_slot_def garry_file_write_page_def)
    have "pool_inv ?p" "page_view ?p = page_view pool"
      using Cons.prems written by (simp_all add: written_slot_inv written_slot_view)
    with Cons.IH [of ?p] Cons.prems(2) show ?thesis
      unfolding e by (auto split: if_splits)
  qed
qed simp

lemma flush_all_spec:
  assumes "pool_inv pool"
  shows "pool_inv (garry_pool_flush_all pool) \<and>
    page_view (garry_pool_flush_all pool) = page_view pool \<and>
    bp_next_page (garry_pool_flush_all pool) = bp_next_page pool \<and>
    bp_page_size (garry_pool_flush_all pool) = bp_page_size pool \<and>
    bp_free_list_head (garry_pool_flush_all pool) = bp_free_list_head pool \<and>
    bp_capacity (garry_pool_flush_all pool) = bp_capacity pool \<and>
    bp_loaded (garry_pool_flush_all pool) = bp_loaded pool \<and>
    bp_page_ids (garry_pool_flush_all pool) = bp_page_ids pool \<and>
    bp_pages (garry_pool_flush_all pool) = bp_pages pool \<and>
    bp_pin_counts (garry_pool_flush_all pool) = bp_pin_counts pool \<and>
    ((\<forall>p. f_wok (bp_fd pool) p) \<longrightarrow>
     (\<forall>i < bp_capacity pool. \<not> bp_dirty (garry_pool_flush_all pool) i))"
  using flush_slots_spec [OF assms, of "[0..<bp_capacity pool]"]
  by (simp add: garry_pool_flush_all_def atLeast0LessThan) blast

lemma flush_all_durable:
  assumes "pool_inv pool" "\<And>p. f_wok (bp_fd pool) p"
  shows "agree 0 (bp_page_size pool) (f_pages (bp_fd (garry_pool_flush_all pool)) pid)
    (page_view pool pid)"
proof -
  let ?p = "garry_pool_flush_all pool"
  note s = flush_all_spec [OF assms(1)]
  have inv: "pool_inv ?p" and v: "page_view ?p = page_view pool" using s by auto
  have nd: "\<not> bp_dirty ?p i" if "i < bp_capacity pool" for i using s assms(2) that by auto
  show ?thesis
  proof (cases "find_slot ?p pid")
    case None
    then have "page_view ?p pid = f_pages (bp_fd ?p) pid" by (simp add: page_view_def)
    with v show ?thesis by simp
  next
    case (Some i)
    note i = find_slot_SomeD [OF Some]
    have "page_view pool pid = bp_pages ?p i" unfolding v [symmetric] by (simp add: page_view_def Some)
    then show ?thesis using pool_invD(9) [OF inv, of i] i nd s by (auto intro: agree_sym)
  qed
qed

subsection \<open>Refinement: the pool is a flat array of pages\<close>

text \<open>The requests of a client that holds the page pointers it stores through, and the two
  meanings of a request: on the pool, and on a flat array of pages that has no cache.\<close>

datatype pool_request =
    Pin int
  | TryPin int
  | Release int
  | Store int "buffer \<Rightarrow> buffer"
  | Flush int
  | FlushAll
  | Allocate

fun serve :: "garry_buffer_pool \<Rightarrow> pool_request \<Rightarrow> garry_buffer_pool" where
  "serve pool (Pin pid) = fst (garry_pool_pin_page pool pid)"
| "serve pool (TryPin pid) = fst (garry_pool_try_pin pool pid)"
| "serve pool (Release pid) = garry_pool_release_page pool pid"
| "serve pool (Store pid f) =
     (case find_slot pool pid of
        None \<Rightarrow> pool
      | Some i \<Rightarrow> garry_pool_mark_dirty (pool_write pool i (f (bp_pages pool i))) pid)"
| "serve pool (Flush pid) = fst (garry_pool_flush_page pool pid)"
| "serve pool FlushAll = garry_pool_flush_all pool"
| "serve pool Allocate = fst (garry_pool_allocate pool)"

fun flat_serve :: "(int \<Rightarrow> buffer) \<Rightarrow> pool_request \<Rightarrow> int \<Rightarrow> buffer" where
  "flat_serve pages (Store pid f) = pages(pid := f (pages pid))"
| "flat_serve pages _ = pages"

text \<open>A client asks for pages that exist, stores only through pages it has pinned, and its
  stores depend on the bytes of the page alone.\<close>

fun client_ok :: "garry_buffer_pool \<Rightarrow> pool_request \<Rightarrow> bool" where
  "client_ok pool (Pin pid) = (pid < bp_next_page pool)"
| "client_ok pool (Store pid f) =
     (0 \<le> pid \<and> garry_pool_pin_count pool pid > 0 \<and>
      (\<forall>b b'. agree 0 (bp_page_size pool) b b' \<longrightarrow> agree 0 (bp_page_size pool) (f b) (f b')))"
| "client_ok pool _ = True"

fun client_run :: "garry_buffer_pool \<Rightarrow> pool_request list \<Rightarrow> bool" where
  "client_run pool [] = True"
| "client_run pool (r # rs) = (client_ok pool r \<and> client_run (serve pool r) rs)"

definition flat_refines :: "garry_buffer_pool \<Rightarrow> (int \<Rightarrow> buffer) \<Rightarrow> bool" where
  "flat_refines pool pages \<longleftrightarrow>
     (\<forall>pid. agree 0 (bp_page_size pool) (page_view pool pid) (pages pid))"

lemma flush_page_eq:
  "garry_pool_flush_page pool pid =
     (if pid < 0 then (pool, False)
      else case find_slot pool pid of
             None \<Rightarrow> (pool, True)
           | Some i \<Rightarrow>
               if \<not> bp_dirty pool i then (pool, True)
               else if f_wok (bp_fd pool) (bp_page_ids pool i) then (written_slot pool i, True)
               else (pool, False))"
  by (simp add: garry_pool_flush_page_def garry_file_write_page_def written_slot_def
      split: option.split)

lemma flush_page_spec:
  assumes "pool_inv pool"
  shows "pool_inv (fst (garry_pool_flush_page pool pid))"
    and "page_view (fst (garry_pool_flush_page pool pid)) = page_view pool"
    and "bp_page_size (fst (garry_pool_flush_page pool pid)) = bp_page_size pool"
    and "bp_free_list_head (fst (garry_pool_flush_page pool pid)) = bp_free_list_head pool"
  using assms find_slot_SomeD [of pool pid]
  by (simp_all add: flush_page_eq written_slot_inv written_slot_view split: option.split)

lemma try_pin_spec:
  assumes "pool_inv pool"
  shows "pool_inv (fst (garry_pool_try_pin pool pid))" "same_view pool (fst (garry_pool_try_pin pool pid))"
  using assms find_slot_SomeD [of pool pid]
  by (auto simp: garry_pool_try_pin_def touch_pin_inv touch_pin_view split: option.splits)

lemma pin_page_negative: "pid < 0 \<Longrightarrow> garry_pool_pin_page pool pid = (pool, None)"
  by (simp add: garry_pool_pin_page_def)

lemma serve_refines:
  assumes "pool_inv pool" "bp_free_list_head pool < 0" "client_ok pool r" "flat_refines pool pages"
  shows "pool_inv (serve pool r) \<and> bp_free_list_head (serve pool r) < 0 \<and>
    flat_refines (serve pool r) (flat_serve pages r)"
proof -
  have view: "flat_refines pool' pages" if "same_view pool pool'" for pool'
    using that assms(4) by (auto simp: flat_refines_def same_view_def intro: agree_trans2)
  show ?thesis
  proof (cases r)
    case (Pin pid)
    show ?thesis
    proof (cases "pid < 0")
      case True
      with Pin assms show ?thesis by (simp add: pin_page_negative)
    next
      case False
      with Pin assms(3) have pid: "0 \<le> pid" "pid < bp_next_page pool" by auto
      obtain p q where e: "garry_pool_pin_page pool pid = (p, q)" by fastforce
      note s = pin_page_spec [OF assms(1) pid e]
      from s(1,2) view [OF s(2)] assms(2) Pin e show ?thesis by (auto simp: same_view_def)
    qed
  next
    case (TryPin pid)
    with try_pin_spec [OF assms(1), of pid] view assms(2) show ?thesis by (auto simp: same_view_def)
  next
    case (Release pid)
    then show ?thesis using assms by (simp add: release_page_inv flat_refines_def)
  next
    case (Store pid f)
    with assms(3) obtain i where i: "find_slot pool pid = Some i" "0 \<le> pid"
      by (auto simp: garry_pool_pin_count_def split: option.splits)
    then have "page_view pool pid = bp_pages pool i" by (simp add: page_view_def)
    with assms(4) have a: "agree 0 (bp_page_size pool) (bp_pages pool i) (pages pid)"
      unfolding flat_refines_def by metis
    with Store assms(3) have "agree 0 (bp_page_size pool) (f (bp_pages pool i)) (f (pages pid))" by simp
    with Store i assms show ?thesis
      by (simp add: write_dirty_inv flat_refines_def pool_write_view)
  next
    case (Flush pid)
    with assms(2,4) flush_page_spec [OF assms(1), of pid] show ?thesis by (simp add: flat_refines_def)
  next
    case FlushAll
    with assms(2,4) flush_all_spec [OF assms(1)] show ?thesis by (simp add: flat_refines_def)
  next
    case Allocate
    obtain p q where e: "garry_pool_allocate pool = (p, q)" by fastforce
    note s = allocate_fresh_spec [OF assms(1,2) e]
    have "flat_refines p pages"
      using assms(4) s(3,6) by (auto simp: flat_refines_def intro: agree_trans2)
    with Allocate e s(1,4) assms(2) show ?thesis by simp
  qed
qed

lemma create_inv:
  assumes "garry_pool_create fd mem cap ps = Some pool"
    and "\<And>pid. 0 \<le> pid \<Longrightarrow> agree 0 ps (f_pages fd pid) (\<lambda>_. 0)"
  shows "pool_inv pool"
  using assms by (auto simp: garry_pool_create_def pool_inv_def split: if_splits)

subsection \<open>Properties\<close>

text \<open>C24. The buffer pool is transparent as long as no page is freed: served any sequence of pins, releases, stores through
  pinned pages, flushes and fresh allocations, whatever it evicts and whichever write-backs the
  operating system refuses, every page reads as it would in a flat array of pages without a
  cache, and the cache invariant holds.\<close>

theorem pool_refines_flat_pages:
  assumes "pool_inv pool" "bp_free_list_head pool < 0" "client_run pool rs"
  shows "pool_inv (fold (\<lambda>r p. serve p r) rs pool) \<and>
    flat_refines (fold (\<lambda>r p. serve p r) rs pool)
      (fold (\<lambda>r m. flat_serve m r) rs (page_view pool))"
proof -
  have "flat_refines pool (page_view pool)" by (simp add: flat_refines_def)
  with assms have "\<forall>pages. flat_refines pool pages \<longrightarrow>
    pool_inv (fold (\<lambda>r p. serve p r) rs pool) \<and>
    flat_refines (fold (\<lambda>r p. serve p r) rs pool) (fold (\<lambda>r m. flat_serve m r) rs pages)"
  proof (induction rs arbitrary: pool)
    case (Cons r rs)
    then have "client_ok pool r" "client_run (serve pool r) rs" by auto
    with Cons.IH [of "serve pool r"] serve_refines [OF Cons.prems(1,2)] show ?case
      by (auto simp: flat_refines_def [of _ "page_view _"])
  qed simp
  with \<open>flat_refines pool (page_view pool)\<close> show ?thesis by blast
qed

definition demo_file :: garry_file where
  "demo_file = \<lparr>f_is_open = True, f_pages = (\<lambda>_ _. 0), f_wok = (\<lambda>_. True)\<rparr>"

definition demo_pool :: garry_buffer_pool where
  "demo_pool = (the (garry_pool_create demo_file (\<lambda>_ _. 0) 1 512))\<lparr>bp_next_page := 2\<rparr>"

lemma demo_pool_eq:
  "demo_pool = \<lparr>bp_capacity = 1, bp_page_size = 512, bp_pages = (\<lambda>_ _. 0),
     bp_page_ids = (\<lambda>_. 0), bp_pin_counts = (\<lambda>_. 0), bp_dirty = (\<lambda>_. False),
     bp_loaded = (\<lambda>_. False), bp_last_access = (\<lambda>_. 0), bp_fd = demo_file,
     bp_next_page = 2, bp_free_list_head = -1, bp_access_counter = 0\<rparr>"
  by (simp add: demo_pool_def garry_pool_create_def)

lemma demo_pool_inv: "pool_inv demo_pool"
  by (simp add: demo_pool_eq pool_inv_def demo_file_def)

theorem pool_refines_flat_pages_witness:
  "flat_refines
     (fold (\<lambda>r p. serve p r)
        [Pin 0, Store 0 (\<lambda>b. b(7 := 42)), Release 0, Pin 1, Release 1, Pin 0] demo_pool)
     (fold (\<lambda>r m. flat_serve m r)
        [Pin 0, Store 0 (\<lambda>b. b(7 := 42)), Release 0, Pin 1, Release 1, Pin 0] (page_view demo_pool))"
proof -
  let ?rs = "[Pin 0, Store 0 (\<lambda>b. b(7 := 42)), Release 0, Pin 1, Release 1, Pin 0]"
  have "client_run demo_pool ?rs"
    by (simp add: demo_pool_eq demo_file_def garry_pool_pin_page_def ensure_loaded_def find_slot_def
        find_eviction_candidate_def claim_slot_def touch_pin_def garry_pool_pin_count_def agree_def
        garry_pool_release_page_def garry_pool_mark_dirty_def pool_write_def
        garry_file_write_page_def lru_scan_def)
  then show ?thesis
    using pool_refines_flat_pages [OF demo_pool_inv, of ?rs] by (simp add: demo_pool_eq)
qed

text \<open>A pinned page does not move and its bytes do not change while other pages are pinned
  or allocated: the pointer a client holds stays valid.\<close>

theorem pinned_page_stays:
  assumes "pool_inv pool" "j < bp_capacity pool" "bp_pin_counts pool j \<noteq> 0"
    and "bp_free_list_head pool < 0" "pid < bp_next_page pool"
    and "pool' = fst (garry_pool_pin_page pool pid) \<or> pool' = fst (garry_pool_allocate pool)"
  shows "bp_loaded pool' j \<and> bp_page_ids pool' j = bp_page_ids pool j \<and>
    bp_pages pool' j = bp_pages pool j \<and> bp_dirty pool' j = bp_dirty pool j"
proof -
  have l: "bp_loaded pool j" using pool_invD(8) [OF assms(1,2)] assms(3) by blast
  obtain p1 r1 p2 r2 where e: "garry_pool_pin_page pool pid = (p1, r1)"
    "garry_pool_allocate pool = (p2, r2)" by fastforce
  show ?thesis
  proof (cases "pool' = p2")
    case True
    with allocate_fresh_spec(10) [OF assms(1,4) e(2) assms(3,2)] l show ?thesis by simp
  next
    case False
    then have eq: "pool' = p1" using assms(6) e by simp
    show ?thesis
    proof (cases "pid < 0")
      case True
      with e(1) eq l show ?thesis by (auto simp: pin_page_negative)
    next
      case False
      then show ?thesis using pin_page_spec(7) [OF assms(1) _ assms(5) e(1) assms(3,2)] l eq by simp
    qed
  qed
qed

definition demo_pinned :: garry_buffer_pool where
  "demo_pinned = fst (garry_pool_pin_page demo_pool 0)"

lemma demo_pinned_sel:
  "bp_capacity demo_pinned = 1" "bp_page_size demo_pinned = 512" "bp_pin_counts demo_pinned 0 = 1"
  "bp_next_page demo_pinned = 2" "bp_free_list_head demo_pinned = -1"
  "bp_page_ids demo_pinned 0 = 0" "find_slot demo_pinned 0 = Some 0"
  by code_simp+

lemma demo_pinned_inv: "pool_inv demo_pinned" and demo_pinned_wok: "f_wok (bp_fd demo_pinned) q"
proof -
  obtain p r where e: "garry_pool_pin_page demo_pool 0 = (p, r)" by fastforce
  from pin_page_spec(1,4) [OF demo_pool_inv _ _ e] e
  show "pool_inv demo_pinned" "f_wok (bp_fd demo_pinned) q"
    by (simp_all add: demo_pinned_def) (simp_all add: demo_pool_eq demo_file_def)
qed

theorem pinned_page_stays_witness:
  "bp_page_ids (fst (garry_pool_pin_page demo_pinned 1)) 0 = 0 \<and>
   bp_page_ids (fst (garry_pool_allocate demo_pinned)) 0 = 0"
  using pinned_page_stays [OF demo_pinned_inv, of 0 1 "fst (garry_pool_pin_page demo_pinned 1)"]
    pinned_page_stays [OF demo_pinned_inv, of 0 1 "fst (garry_pool_allocate demo_pinned)"]
  by (simp add: demo_pinned_sel)

text \<open>The eviction victim: an unused slot if there is one; otherwise an unpinned slot with the
  oldest access stamp; and there is none only if every page is pinned or stamped with the largest
  32-bit value.\<close>

theorem eviction_is_lru:
  "case find_eviction_candidate pool of
     Some v \<Rightarrow> v < bp_capacity pool \<and>
       (bp_loaded pool v \<longrightarrow>
          bp_pin_counts pool v = 0 \<and> (\<forall>i < bp_capacity pool. bp_loaded pool i) \<and>
          (\<forall>i < bp_capacity pool. bp_pin_counts pool i = 0 \<longrightarrow>
             bp_last_access pool v \<le> bp_last_access pool i))
   | None \<Rightarrow> (\<forall>i < bp_capacity pool.
       bp_loaded pool i \<and> (bp_pin_counts pool i = 0 \<longrightarrow> bp_last_access pool i = 0xFFFFFFFF))"
proof (cases "find_eviction_candidate pool")
  case None
  have "bp_loaded pool i \<and> (bp_pin_counts pool i = 0 \<longrightarrow> bp_last_access pool i = 0xFFFFFFFF)"
    if "i < bp_capacity pool" for i
  proof -
    have "\<not> bp_last_access pool i < 0xFFFFFFFF \<Longrightarrow> bp_last_access pool i = 0xFFFFFFFF"
      using uint_lt2p [of "bp_last_access pool i"]
      by (intro word_uint_eqI) (auto simp: word_less_def)
    with None eviction_candidate_exists [OF that] show ?thesis by auto
  qed
  with None show ?thesis by simp
next
  case (Some v)
  then show ?thesis using eviction_candidate_Some [OF Some] by auto
qed

theorem eviction_is_lru_witness:
  "find_eviction_candidate demo_pinned = None \<and> bp_loaded demo_pinned 0"
proof -
  have "find_eviction_candidate demo_pinned = None" by code_simp
  with eviction_is_lru [of demo_pinned] show ?thesis by (simp add: demo_pinned_sel)
qed

text \<open>A pin succeeds in a pool with room: the page is cached or a slot is unpinned, the
  operating system accepts writes and the access counter has not run out.\<close>

theorem pin_succeeds:
  assumes "pool_ready n pool" "0 \<le> pid" "pid < bp_next_page pool"
    and "find_slot pool pid \<noteq> None \<or> (\<exists>i < bp_capacity pool. bp_pin_counts pool i = 0)"
  shows "\<exists>pool' i. garry_pool_pin_page pool pid = (pool', Some i) \<and>
    agree 0 (bp_page_size pool) (bp_pages pool' i) (page_view pool pid)"
proof -
  from pin_page_succeeds [OF assms] obtain p i where e: "garry_pool_pin_page pool pid = (p, Some i)"
    by blast
  note s = pin_page_spec [OF pool_ready_inv [OF assms(1)] assms(2,3) e]
  have "page_view p pid = bp_pages p i" using s(6) [OF refl] by (simp add: page_view_def)
  with s(2) e show ?thesis unfolding same_view_def by (metis agree_sym)
qed

lemma demo_pool_idle: "pool_idle 1000 demo_pool"
  by (simp add: pool_idle_def pool_ready_def demo_pool_inv) (simp add: demo_pool_eq demo_file_def)

theorem pin_succeeds_witness:
  "\<exists>pool' i. garry_pool_pin_page demo_pool 1 = (pool', Some i) \<and>
     agree 0 512 (bp_pages pool' i) (page_view demo_pool 1)"
  using pin_succeeds [OF pool_idle_ready [OF demo_pool_idle], of 1] by (simp add: demo_pool_eq)

text \<open>After a flush of the whole pool the file holds every page as the clients see it, if the
  operating system accepts the writes.\<close>

theorem flush_all_makes_durable:
  assumes "pool_inv pool" "\<forall>p. f_wok (bp_fd pool) p"
  shows "agree 0 (bp_page_size pool) (f_pages (bp_fd (garry_pool_flush_all pool)) pid) (page_view pool pid)
    \<and> page_view (garry_pool_flush_all pool) = page_view pool"
  using flush_all_durable [OF assms(1)] flush_all_spec [OF assms(1)] assms(2) by simp

theorem flush_all_makes_durable_witness:
  "f_pages (bp_fd (garry_pool_flush_all
      (serve demo_pinned (Store 0 (\<lambda>b. b(7 := 42)))))) 0 7 = 42"
proof -
  let ?p = "serve demo_pinned (Store 0 (\<lambda>b. b(7 := 42)))"
  have "pool_inv ?p"
    using write_dirty_inv [OF demo_pinned_inv demo_pinned_sel(7)] by (simp add: demo_pinned_sel)
  moreover have "\<forall>q. f_wok (bp_fd ?p) q" by (simp add: demo_pinned_sel demo_pinned_wok)
  moreover have "page_view ?p 0 7 = 42"
    by (simp add: demo_pinned_sel pool_write_view [OF demo_pinned_sel(7)])
  moreover have "bp_page_size ?p = 512" by (simp add: demo_pinned_sel)
  ultimately show ?thesis
    using flush_all_makes_durable [of ?p 0] unfolding agree_def by auto
qed

subsection \<open>Freeing a page and allocating it again\<close>

lemma unload_inv:
  assumes "pool_inv pool" "\<not> bp_dirty pool i"
  shows "pool_inv (pool\<lparr>bp_loaded := (bp_loaded pool)(i := False), bp_pin_counts := (bp_pin_counts pool)(i := 0)\<rparr>)"
  using assms unfolding pool_inv_def by (auto simp: inj_on_def)

text \<open>A cached page that is freed is written, dropped, loaded again and gets the free-list pointer in
  its first four bytes.\<close>

lemma free_cached_page:
  assumes inv: "pool_inv pool" and wok: "\<forall>q. f_wok (bp_fd pool) q" and slot: "find_slot pool pid = Some s"
  defines "freed \<equiv> garry_pool_free_page pool pid"
  shows "pool_inv freed" "f_wok (bp_fd freed) = f_wok (bp_fd pool)" "bp_page_size freed = bp_page_size pool"
    "bp_free_list_head freed = pid" "0 \<le> pid"
    "\<exists>i. find_slot freed pid = Some i \<and> bp_dirty freed i \<and>
      agree 0 (bp_page_size pool) (bp_pages freed i) (garry_write_int32 (page_view pool pid) 0 (bp_free_list_head pool))"
proof -
  note s = find_slot_SomeD [OF slot]
  have pid: "0 \<le> pid" "pid < bp_next_page pool" using pool_invD(5,6) [OF inv] s by auto
  define w where "w = (if bp_dirty pool s then written_slot pool s else pool)"
  have w: "pool_inv w" "\<not> bp_dirty w s" "bp_pages w = bp_pages pool" "bp_page_ids w = bp_page_ids pool"
    "bp_loaded w = bp_loaded pool" "f_wok (bp_fd w) = f_wok (bp_fd pool)" "bp_next_page w = bp_next_page pool"
    "bp_page_size w = bp_page_size pool" "bp_capacity w = bp_capacity pool" "bp_pin_counts w = bp_pin_counts pool"
    "bp_free_list_head w = bp_free_list_head pool"
    using inv s wok written_slot_inv [of pool s] by (simp_all add: w_def)
  define u where "u = w\<lparr>bp_loaded := (bp_loaded w)(s := False), bp_pin_counts := (bp_pin_counts w)(s := 0)\<rparr>"
  have u: "pool_inv u" unfolding u_def by (rule unload_inv [OF w(1,2)])
  have none: "find_slot u pid = None"
    using pool_invD(10) [OF inv] s by (auto simp: find_slot_None_iff u_def w(4,5,9))
  have "agree 0 (bp_page_size pool) (bp_pages pool s) (f_pages (bp_fd w) pid)"
    using pool_invD(9) [OF w(1), of s] w s by simp
  then have vu: "agree 0 (bp_page_size pool) (page_view u pid) (page_view pool pid)"
    using none slot by (simp add: page_view_def agree_sym u_def)
  have e0: "freed = (case ensure_loaded u pid of
      (pool, None) \<Rightarrow> pool
    | (pool, Some idx) \<Rightarrow>
        pool\<lparr>bp_pages := (bp_pages pool)(idx := garry_write_int32 (bp_pages pool idx) 0 (bp_free_list_head pool)),
             bp_dirty := (bp_dirty pool)(idx := True)\<rparr>)\<lparr>bp_free_list_head := pid\<rparr>"
  proof -
    have "pool\<lparr>bp_fd := (if bp_dirty pool s
             then fst (garry_file_write_page (bp_fd pool) (bp_page_ids pool s) (bp_pages pool s) (bp_page_size pool))
             else bp_fd pool),
           bp_loaded := (bp_loaded pool)(s := False), bp_pin_counts := (bp_pin_counts pool)(s := 0),
           bp_dirty := (bp_dirty pool)(s := False)\<rparr> = u"
      by (cases pool) (auto simp: u_def w_def written_slot_def fun_upd_idem_iff)
    then show ?thesis using pid(1) slot by (simp add: freed_def garry_pool_free_page_def Let_def)
  qed
  have "s < bp_capacity u" "\<not> bp_loaded u s" using s by (simp_all add: u_def w(9))
  from eviction_candidate_exists [OF this(1)] this(2) obtain v where v: "find_eviction_candidate u = Some v" by blast
  have "\<not> bp_loaded u v"
    using eviction_candidate_Some(3) [OF v] \<open>s < bp_capacity u\<close> \<open>\<not> bp_loaded u s\<close> by blast
  then have "\<exists>p. ensure_loaded u pid = (p, Some v)" using none v by (simp add: ensure_loaded_def)
  then obtain p where e: "ensure_loaded u pid = (p, Some v)" by blast
  have "pid < bp_next_page u" using pid(2) by (simp add: u_def w(7))
  note l = ensure_loaded_spec [OF u pid(1) this e]
  have sv: "find_slot p pid = Some v" "same_view u p" "v < bp_capacity p" "bp_loaded p v"
    using l(2,6) find_slot_SomeD [OF l(6) [OF refl]] by simp_all
  have size: "bp_page_size p = bp_page_size pool" "bp_free_list_head p = bp_free_list_head pool"
    using sv(2) by (simp_all add: same_view_def u_def w(8,11))
  have fr: "freed = p\<lparr>bp_pages := (bp_pages p)(v := garry_write_int32 (bp_pages p v) 0 (bp_free_list_head pool)),
      bp_dirty := (bp_dirty p)(v := True), bp_free_list_head := pid\<rparr>"
    unfolding e0 e using size(2) by simp
  show "pool_inv freed"
    by (rule pool_inv_change [OF l(1)])
      (use sv(3,4) pool_invD(7-9) [OF l(1)] in \<open>auto simp: fr split: if_splits\<close>)
  show "f_wok (bp_fd freed) = f_wok (bp_fd pool)" using l(4) by (simp add: fr u_def w(6))
  show "bp_page_size freed = bp_page_size pool" "bp_free_list_head freed = pid" "0 \<le> pid"
    using size(1) pid(1) by (simp_all add: fr)
  have "page_view p pid = bp_pages p v" using sv(1) by (simp add: page_view_def)
  moreover have "agree 0 (bp_page_size pool) (page_view u pid) (page_view p pid)"
    using sv(2) size(1) by (simp add: same_view_def)
  ultimately have "agree 0 (bp_page_size pool) (page_view u pid) (bp_pages p v)" by simp
  with vu have "agree 0 (bp_page_size pool) (bp_pages p v) (page_view pool pid)" by (blast intro: agree_trans agree_sym)
  then have "agree 0 (bp_page_size pool) (bp_pages freed v)
      (garry_write_int32 (page_view pool pid) 0 (bp_free_list_head pool))"
    by (simp add: fr garry_write_int32_def agree_write_le32)
  moreover have "find_slot freed pid = Some v" using sv(1) by (simp add: fr find_slot_def)
  moreover have "bp_dirty freed v" by (simp add: fr)
  ultimately show "\<exists>i. find_slot freed pid = Some i \<and> bp_dirty freed i \<and>
      agree 0 (bp_page_size pool) (bp_pages freed i) (garry_write_int32 (page_view pool pid) 0 (bp_free_list_head pool))"
    by blast
qed

lemma candidate_free_list [simp]:
  "find_eviction_candidate (pool\<lparr>bp_free_list_head := h\<rparr>) = find_eviction_candidate pool"
  by (simp add: find_eviction_candidate_def lru_scan_def cong: option.case_cong if_cong)

text \<open>Where two slots hold a page, a flush leaves the image of the later one.\<close>

lemma flush_slots_last:
  assumes "\<forall>q. f_wok (bp_fd pool) q" "distinct is"
  shows "f_pages (bp_fd (flush_slots pool is)) pid =
    (case List.find (\<lambda>i. bp_loaded pool i \<and> bp_dirty pool i \<and> bp_page_ids pool i = pid) (rev is) of
       None \<Rightarrow> f_pages (bp_fd pool) pid
     | Some i \<Rightarrow> (\<lambda>k. if 0 \<le> k \<and> k < bp_page_size pool then bp_pages pool i k else 0))"
  using assms
proof (induction "is" arbitrary: pool)
  case (Cons i "is")
  have app: "List.find P (xs @ [i]) = (case List.find P xs of None \<Rightarrow> if P i then Some i else None | Some j \<Rightarrow> Some j)"
    for P xs by (induction xs) simp_all
  show ?case
  proof (cases "bp_loaded pool i \<and> bp_dirty pool i")
    case False
    then show ?thesis using Cons.IH [OF Cons.prems(1)] Cons.prems(2) by (auto simp: app split: option.split)
  next
    case True
    let ?p = "written_slot pool i"
    have e: "flush_slots pool (i # is) = flush_slots ?p is"
      using True Cons.prems(1) by (simp add: written_slot_def garry_file_write_page_def)
    have f: "List.find (\<lambda>j. bp_loaded ?p j \<and> bp_dirty ?p j \<and> bp_page_ids ?p j = pid) (rev is) =
        List.find (\<lambda>j. bp_loaded pool j \<and> bp_dirty pool j \<and> bp_page_ids pool j = pid) (rev is)"
      using Cons.prems(2) by (intro find_cong) auto
    have "f_pages (bp_fd ?p) pid = (if pid = bp_page_ids pool i
        then (\<lambda>k. if 0 \<le> k \<and> k < bp_page_size pool then bp_pages pool i k else 0) else f_pages (bp_fd pool) pid)"
      using Cons.prems(1) by (intro written_slot_file) simp
    with Cons.IH [of ?p] Cons.prems True show ?thesis
      unfolding e f by (auto simp: app split: option.split)
  qed
qed simp

lemma flush_all_last:
  assumes "\<forall>q. f_wok (bp_fd pool) q" "i < bp_capacity pool"
    and "bp_loaded pool i" "bp_dirty pool i" "bp_page_ids pool i = pid"
    and "\<And>j. i < j \<Longrightarrow> j < bp_capacity pool \<Longrightarrow> \<not> (bp_loaded pool j \<and> bp_page_ids pool j = pid)"
  shows "agree 0 (bp_page_size pool) (f_pages (bp_fd (garry_pool_flush_all pool)) pid) (bp_pages pool i)"
proof -
  let ?P = "\<lambda>i. bp_loaded pool i \<and> bp_dirty pool i \<and> bp_page_ids pool i = pid"
  have "[0..<bp_capacity pool] = [0..<i] @ i # [Suc i..<bp_capacity pool]"
    using assms(2) upt_add_eq_append [of 0 i "bp_capacity pool - i"] by (simp add: upt_conv_Cons)
  moreover have "List.find ?P (rev [Suc i..<bp_capacity pool]) = None"
    using assms(6) by (auto simp: find_None_iff)
  moreover have "List.find P (xs @ ys) = (case List.find P xs of None \<Rightarrow> List.find P ys | Some j \<Rightarrow> Some j)"
    for P :: "nat \<Rightarrow> bool" and xs ys by (induction xs) simp_all
  ultimately have "List.find ?P (rev [0..<bp_capacity pool]) = Some i" using assms(3-5) by simp
  then show ?thesis
    using flush_slots_last [OF assms(1), of "[0..<bp_capacity pool]" pid] by (simp add: garry_pool_flush_all_def agree_def)
qed

text \<open>C27. Reusing a freed page loses data. Let a page that is in the cache be freed: it stays in a slot
  of the cache, marked dirty, with the free-list pointer over its first four bytes. If the slot that
  the next allocation takes lies before that slot, the allocation returns the freed page, which now
  occupies both slots. What a client then writes to the page is read back from the cache, but
  flushing the cache leaves in the file the content that the page had before it was freed, with the
  free-list pointer, whatever was written.\<close>

theorem reuse_of_freed_page_loses_data:
  assumes "pool_inv pool" "\<forall>q. f_wok (bp_fd pool) q" "find_slot pool pid = Some s"
    and "freed = garry_pool_free_page pool pid"
    and "find_slot freed pid = Some i" "find_eviction_candidate freed = Some k" "k < i"
  shows "\<exists>reused written. garry_pool_allocate freed = (reused, pid) \<and>
    bp_loaded reused k \<and> bp_page_ids reused k = pid \<and> bp_loaded reused i \<and> bp_page_ids reused i = pid \<and>
    page_update reused pid f = (written, True) \<and> page_view written pid = f (zero_page freed k) \<and>
    agree 0 (bp_page_size pool) (f_pages (bp_fd (garry_pool_flush_all written)) pid)
      (garry_write_int32 (page_view pool pid) 0 (bp_free_list_head pool))"
proof -
  note fr = free_cached_page [OF assms(1-3), folded assms(4)]
  let ?img = "garry_write_int32 (page_view pool pid) 0 (bp_free_list_head pool)"
  have i: "i < bp_capacity freed" "bp_loaded freed i" "bp_page_ids freed i = pid" "bp_dirty freed i"
    "agree 0 (bp_page_size pool) (bp_pages freed i) ?img"
    using find_slot_SomeD [OF assms(5)] fr(6) assms(5) by auto
  have only: "j = i" if "j < bp_capacity freed" "bp_loaded freed j" "bp_page_ids freed j = pid" for j
    using pool_invD(10) [OF fr(1) that(1) i(1) that(2) i(2)] that(3) i(3) by simp
  have k: "k < bp_capacity freed" by (rule eviction_candidate_Some(1) [OF assms(6)])
  define h where "h = garry_read_int32 (bp_pages freed i) 0"
  let ?p = "freed\<lparr>bp_free_list_head := h\<rparr>"
  define fd where "fd = (if bp_dirty freed k
    then fst (garry_file_write_page (bp_fd freed) (bp_page_ids freed k) (bp_pages freed k) (bp_page_size freed))
    else bp_fd freed)"
  have e: "evict_victim ?p k = Some (?p\<lparr>bp_fd := fd\<rparr>)" "f_wok fd = f_wok (bp_fd freed)"
    using assms(2) by (simp_all add: evict_victim_def garry_file_write_page_def fr(2) fd_def)
  let ?q = "?p\<lparr>bp_fd := fd\<rparr>"
  define reused where "reused = claim_slot ?q k pid (zero_page ?q k)"
  have al: "garry_pool_allocate freed = (reused, pid)"
    using fr(4,5) assms(5,6) by (simp add: garry_pool_allocate_def e(1) reused_def Let_def flip: h_def)
  have ru: "bp_loaded reused = (bp_loaded freed)(k := True)" "bp_page_ids reused = (bp_page_ids freed)(k := pid)"
    "bp_capacity reused = bp_capacity freed" "bp_dirty reused = (bp_dirty freed)(k := False)"
    "bp_pages reused = (bp_pages freed)(k := zero_page freed k)" "f_wok (bp_fd reused) = f_wok (bp_fd freed)"
    "bp_page_size reused = bp_page_size pool"
    by (simp_all add: reused_def e(2) fr(3)) (simp add: zero_page_def cong: if_cong)
  have slot: "find_slot reused pid = Some k"
  proof -
    have "[0..<bp_capacity freed] = [0..<k] @ k # [Suc k..<bp_capacity freed]"
      using k upt_add_eq_append [of 0 k "bp_capacity freed - k"] by (simp add: upt_conv_Cons)
    moreover have "List.find (\<lambda>j. bp_loaded reused j \<and> bp_page_ids reused j = pid) [0..<k] = None"
      using only assms(7) k by (auto simp: find_None_iff ru) (metis less_trans nat_neq_iff)
    moreover have "List.find P (xs @ ys) = (case List.find P xs of None \<Rightarrow> List.find P ys | Some j \<Rightarrow> Some j)"
      for P :: "nat \<Rightarrow> bool" and xs ys by (induction xs) simp_all
    ultimately show ?thesis by (simp add: find_slot_def ru(1-3))
  qed
  define w where "w = garry_pool_mark_dirty (pool_write (touch_pin reused k) k (f (zero_page freed k))) pid"
  define written where "written = garry_pool_release_page w pid"
  have up: "page_update reused pid f = (written, True)"
    using fr(5) slot by (simp add: page_update_def garry_pool_pin_page_def ensure_loaded_def ru(5) w_def written_def Let_def)
  have "find_slot written pid = Some k" using slot by (simp add: written_def w_def)
  then have vw: "page_view written pid = f (zero_page freed k)" by (simp add: page_view_def written_def w_def)
  have "bp_pages written i = bp_pages freed i" "bp_page_size written = bp_page_size pool"
    using assms(7) by (simp_all add: written_def w_def ru)
  moreover have "agree 0 (bp_page_size written) (f_pages (bp_fd (garry_pool_flush_all written)) pid) (bp_pages written i)"
  proof (rule flush_all_last)
    show "\<forall>q. f_wok (bp_fd written) q" using assms(2) by (simp add: written_def w_def ru(6) fr(2))
    show "i < bp_capacity written" "bp_loaded written i" "bp_dirty written i" "bp_page_ids written i = pid"
      using i(1-4) assms(7) by (simp_all add: written_def w_def mark_dirty_flags ru(1-4))
    fix j assume j: "i < j" "j < bp_capacity written"
    then have "j < bp_capacity freed" "j \<noteq> k" "j \<noteq> i" using assms(7) by (simp_all add: written_def w_def ru(3))
    with only [of j] show "\<not> (bp_loaded written j \<and> bp_page_ids written j = pid)"
      by (auto simp: written_def w_def ru(1,2))
  qed
  ultimately have fl: "agree 0 (bp_page_size pool) (f_pages (bp_fd (garry_pool_flush_all written)) pid) ?img"
    using agree_trans [OF _ i(5)] by simp
  have "bp_loaded reused k" "bp_page_ids reused k = pid" "bp_loaded reused i" "bp_page_ids reused i = pid"
    using i(2,3) assms(7) by (simp_all add: ru(1,2))
  with al up vw fl show ?thesis by blast
qed

text \<open>A pool of two slots with pages 0 and 1, of which page 1 is freed.\<close>

definition two_pages :: garry_buffer_pool where
  "two_pages =
     (let pool = (the (garry_pool_create demo_file (\<lambda>_ _. 0) 2 512))\<lparr>bp_next_page := 2\<rparr>;
          pool = fst (garry_pool_pin_page pool 0);
          pool = fst (garry_pool_pin_page pool 1)
      in garry_pool_release_page (garry_pool_release_page pool 0) 1)"

lemma two_pages_sel:
  "find_slot two_pages 1 = Some 1" "find_slot (garry_pool_free_page two_pages 1) 1 = Some 1"
  "find_eviction_candidate (garry_pool_free_page two_pages 1) = Some 0" "bp_page_size two_pages = 512"
  "page_view two_pages 1 7 = 0"
  by code_simp+

lemma two_pages_inv: "pool_inv two_pages" "f_wok (bp_fd two_pages) q"
proof -
  let ?p = "(the (garry_pool_create demo_file (\<lambda>_ _. 0) 2 512))\<lparr>bp_next_page := 2\<rparr>"
  have p: "pool_inv ?p" "\<forall>q. f_wok (bp_fd ?p) q" "bp_next_page ?p = 2"
    by (simp_all add: garry_pool_create_def pool_inv_def demo_file_def inj_on_def)
  obtain a r where a: "garry_pool_pin_page ?p 0 = (a, r)" by fastforce
  note a' = pin_page_spec [OF p(1) _ _ a, unfolded p(3), simplified]
  obtain b r' where b: "garry_pool_pin_page a 1 = (b, r')" by fastforce
  have "bp_next_page a = 2" using a'(2) p(3) by (simp add: same_view_def)
  note b' = pin_page_spec [OF a'(1) _ _ b, unfolded this, simplified]
  have e: "two_pages = garry_pool_release_page (garry_pool_release_page b 0) 1"
    by (simp add: two_pages_def a b Let_def)
  show "pool_inv two_pages" unfolding e by (intro release_page_inv b'(1))
  show "f_wok (bp_fd two_pages) q" unfolding e using a'(4) b'(4) p(2) by simp
qed

theorem reuse_of_freed_page_loses_data_witness:
  "\<exists>reused written. garry_pool_allocate (garry_pool_free_page two_pages 1) = (reused, 1) \<and>
    bp_page_ids reused 0 = 1 \<and> bp_page_ids reused 1 = 1 \<and>
    page_update reused 1 (\<lambda>b. b(7 := 42)) = (written, True) \<and> page_view written 1 7 = 42 \<and>
    f_pages (bp_fd (garry_pool_flush_all written)) 1 7 = 0"
proof -
  have "\<forall>q. f_wok (bp_fd two_pages) q" by (simp add: two_pages_inv(2))
  from reuse_of_freed_page_loses_data [OF two_pages_inv(1) this two_pages_sel(1) refl two_pages_sel(2,3),
      of "\<lambda>b. b(7 := 42)"] obtain reused written where r:
    "garry_pool_allocate (garry_pool_free_page two_pages 1) = (reused, 1)"
    "bp_page_ids reused 0 = 1" "bp_page_ids reused 1 = 1"
    "page_update reused 1 (\<lambda>b. b(7 := 42)) = (written, True)"
    "page_view written 1 = (zero_page (garry_pool_free_page two_pages 1) 0)(7 := 42)"
    "agree 0 512 (f_pages (bp_fd (garry_pool_flush_all written)) 1)
      (garry_write_int32 (page_view two_pages 1) 0 (bp_free_list_head two_pages))"
    by (auto simp: two_pages_sel(4))
  have "garry_write_int32 (page_view two_pages 1) 0 (bp_free_list_head two_pages) 7 = 0"
    by (simp add: garry_write_int32_def write_le32_put_bytes put_bytes_apply le32_bytes_def two_pages_sel(5))
  with agreeD [OF r(6), of 7] have "f_pages (bp_fd (garry_pool_flush_all written)) 1 7 = 0" by simp
  with r show ?thesis by simp
qed

end
