(* ===== verification/Garry_BTreeNode.thy ===== *)
theory Garry_BTreeNode
  imports Garry_BufferPool Garry_RecordCodec Garry_KeyEncoding
begin

text \<open>
  B-tree nodes: \<open>src/src/btree_node.c\<close> and the searches within one node of
  \<open>src/src/btree_search.c\<close>.

  A node is a record with the fields of the C struct. Its arrays are functions of the index; a
  key and its length are one byte list, a value likewise. A node occupies one slotted page:
  record 0 is the metadata (the links and, in an internal node, the children), every further
  record one entry.

  \<open>node_shape\<close> is what a page says of a node: kind, level, entries, children, links. The
  lemmas show that storing a node and loading it gives the same shape, that the shapes of all
  other pages stay, and when a node fits its page.
\<close>

definition GARRY_MAX_KEYS_PER_NODE :: int where "GARRY_MAX_KEYS_PER_NODE = 3"
definition GARRY_BTREE_MIN_KEYS :: int where "GARRY_BTREE_MIN_KEYS = 1"
definition GARRY_META_SLOT :: int where "GARRY_META_SLOT = 0"
definition GARRY_PAGE_ID_BIAS :: int where "GARRY_PAGE_ID_BIAS = 100000"

lemmas node_consts = GARRY_MAX_KEYS_PER_NODE_def GARRY_BTREE_MIN_KEYS_def GARRY_META_SLOT_def
  GARRY_PAGE_ID_BIAS_def

subsection \<open>The node\<close>

record garry_btree_node =
  nd_kind :: garry_node_kind
  nd_header :: garry_page_header
  nd_keys :: "int \<Rightarrow> byte list"
  nd_values :: "int \<Rightarrow> byte list"
  nd_children :: "int \<Rightarrow> int"
  nd_next_page :: int
  nd_prev_page :: int
  nd_entry_count :: int

definition zero_header :: garry_page_header where
  "zero_header =
     \<lparr>ph_page_type = GARRY_NODE_INTERNAL, ph_page_level = 0, ph_num_records = 0, ph_free_start = 0,
      ph_free_end = 0, ph_compression = 0, ph_parent_page = 0, ph_checksum = 0\<rparr>"

text \<open>The state \<open>garry_load_node\<close> gives a node before it looks at the page.\<close>

definition blank_node :: garry_btree_node where
  "blank_node =
     \<lparr>nd_kind = GARRY_NODE_LEAF, nd_header = zero_header\<lparr>ph_page_type := GARRY_NODE_LEAF\<rparr>,
      nd_keys = (\<lambda>_. []), nd_values = (\<lambda>_. []), nd_children = (\<lambda>_. 0),
      nd_next_page = -1, nd_prev_page = -1, nd_entry_count = 0\<rparr>"

subsection \<open>Metadata\<close>

definition encode_cbor_uint :: "buffer \<Rightarrow> int \<Rightarrow> int \<Rightarrow> buffer \<times> int" where
  "encode_cbor_uint buf pos val =
     (if val < 0 then (buf, pos)
      else if val < 24 then (buf(pos := word_of_int val), pos + 1)
      else if val < 256 then (buf(pos := 24, pos + 1 := word_of_int val), pos + 2)
      else if val < 65536
      then (buf(pos := 25, pos + 1 := word_of_int ((val sdiv 256) smod 256),
                pos + 2 := word_of_int (val smod 256)), pos + 3)
      else (buf(pos := 26, pos + 1 := word_of_int ((val sdiv 16777216) smod 256),
                pos + 2 := word_of_int ((val sdiv 65536) smod 256),
                pos + 3 := word_of_int ((val sdiv 256) smod 256),
                pos + 4 := word_of_int (val smod 256)), pos + 5))"

text \<open>The last argument is the content of \<open>*val\<close>, which the short reads leave alone. The sum
  of the last branch is computed in 32 bits.\<close>

definition decode_cbor_uint :: "buffer \<Rightarrow> int \<Rightarrow> int \<Rightarrow> int \<Rightarrow> int \<times> int" where
  "decode_cbor_uint buf pos elen val =
     (if pos \<ge> elen then (pos, val)
      else
        (let fb = uint (buf pos); b = (\<lambda>i. uint (buf (pos + i)))
         in if fb < 24 then (pos + 1, fb)
            else if fb = 24 then (if pos + 1 \<ge> elen then (pos + 1, val) else (pos + 2, b 1))
            else if fb = 25
            then (if pos + 2 \<ge> elen then (pos + 1, val) else (pos + 3, b 1 * 256 + b 2))
            else if fb = 26
            then (if pos + 4 \<ge> elen then (pos + 1, val)
                  else (pos + 5, sint (word_of_int
                         (b 1 * 16777216 + b 2 * 65536 + b 3 * 256 + b 4) :: 32 word)))
            else (pos + 1, val)))"

definition encode_children :: "garry_btree_node \<Rightarrow> int list \<Rightarrow> buffer \<times> int \<Rightarrow> buffer \<times> int" where
  "encode_children node =
     fold (\<lambda>i (buf, pos). encode_cbor_uint buf pos (nd_children node i + GARRY_PAGE_ID_BIAS))"

definition garry_encode_node_meta :: "garry_btree_node \<Rightarrow> buffer \<Rightarrow> buffer \<times> int" where
  "garry_encode_node_meta node buf =
     (let num_children = (if nd_kind node = GARRY_NODE_INTERNAL then nd_entry_count node + 1 else 0);
          meta_count = 2 + num_children;
          (buf, pos) = (if meta_count < 24 then (buf(0 := word_of_int (128 + meta_count)), 1)
                        else (buf(0 := word_of_int (128 + 24), 1 := word_of_int meta_count), 2));
          (buf, pos) = encode_cbor_uint buf pos (nd_next_page node + GARRY_PAGE_ID_BIAS);
          (buf, pos) = encode_cbor_uint buf pos (nd_prev_page node + GARRY_PAGE_ID_BIAS)
      in encode_children node [0..num_children - 1] (buf, pos))"

definition decode_child :: "buffer \<Rightarrow> int \<Rightarrow> int \<Rightarrow> int \<times> int \<times> (int \<Rightarrow> int) \<Rightarrow> int \<times> int \<times> (int \<Rightarrow> int)" where
  "decode_child buf elen i st =
     (let (pos, decoded, children) = st
      in if pos < elen
         then (let (pos, decoded) = decode_cbor_uint buf pos elen decoded
               in (pos, decoded, children(i := decoded - GARRY_PAGE_ID_BIAS)))
         else (pos, decoded, children))"

text \<open>The local \<open>decoded\<close> is not initialised in C; it starts at 0 here, which shows in truncated
  metadata only.\<close>

definition garry_decode_node_meta :: "buffer \<Rightarrow> int \<Rightarrow> garry_btree_node \<Rightarrow> garry_btree_node" where
  "garry_decode_node_meta buf elen node =
     (let fb = uint (buf 0) in
      if fb < 128 \<or> fb \<ge> 160 then node
      else
        (let ai = fb smod 32 in
         if ai \<ge> 24 \<and> \<not> (ai = 24 \<and> 1 < elen) then node
         else
           (let (arr_count, pos) = (if ai < 24 then (ai, 1) else (uint (buf 1), 2));
                (pos, decoded) = decode_cbor_uint buf pos elen 0;
                node = node\<lparr>nd_next_page := decoded - GARRY_PAGE_ID_BIAS\<rparr>;
                (pos, decoded) = decode_cbor_uint buf pos elen decoded;
                node = node\<lparr>nd_prev_page := decoded - GARRY_PAGE_ID_BIAS\<rparr>;
                num_children = (if nd_kind node = GARRY_NODE_INTERNAL then arr_count - 2 else 0);
                (pos, decoded, children) =
                  fold (decode_child buf elen) [0..num_children - 1] (pos, decoded, nd_children node)
            in node\<lparr>nd_children := children\<rparr>)))"

subsection \<open>Entries of a node\<close>

text \<open>The array after the loop that moves the elements from \<open>idx\<close> to \<open>n - 1\<close> one place up.\<close>

definition shift_up :: "int \<Rightarrow> int \<Rightarrow> (int \<Rightarrow> 'a) \<Rightarrow> int \<Rightarrow> 'a" where
  "shift_up idx n f = (\<lambda>i. if idx < i \<and> i \<le> n then f (i - 1) else f i)"

definition garry_leaf_insert ::
  "garry_btree_node \<Rightarrow> byte list \<Rightarrow> byte list \<Rightarrow> int \<Rightarrow> garry_btree_node \<times> bool" where
  "garry_leaf_insert node key value idx =
     (let n = nd_entry_count node in
      if n \<ge> GARRY_MAX_KEYS_PER_NODE then (node, False)
      else (node\<lparr>nd_keys := (shift_up idx n (nd_keys node))(idx := key),
                 nd_values := (shift_up idx n (nd_values node))(idx := value),
                 nd_entry_count := n + 1\<rparr>, True))"

definition garry_leaf_find :: "garry_btree_node \<Rightarrow> byte list \<Rightarrow> int" where
  "garry_leaf_find node key =
     (case List.find (\<lambda>i. garry_byte_equal (nd_keys node i) key) [0..nd_entry_count node - 1] of
        Some i \<Rightarrow> i
      | None \<Rightarrow> -1)"

definition garry_internal_find :: "garry_btree_node \<Rightarrow> byte list \<Rightarrow> int" where
  "garry_internal_find node key =
     (case List.find (\<lambda>i. garry_byte_compare key (nd_keys node i) < 0) [0..nd_entry_count node - 1] of
        Some i \<Rightarrow> i
      | None \<Rightarrow> nd_entry_count node)"

subsection \<open>New nodes\<close>

definition allocate_node :: "garry_buffer_pool \<Rightarrow> garry_node_kind \<Rightarrow> garry_buffer_pool \<times> int" where
  "allocate_node pool kind =
     (let (pool, pid) = garry_pool_allocate pool in
      if pid < 0 then (pool, -1)
      else (case garry_pool_pin_page pool pid of
              (pool, None) \<Rightarrow> (pool, -1)
            | (pool, Some buf) \<Rightarrow>
                (let pool = pool_write pool buf
                              (garry_page_init (bp_pages pool buf) kind 0 (bp_page_size pool));
                     pool = garry_pool_mark_dirty pool pid
                 in (garry_pool_release_page pool pid, pid))))"

definition garry_allocate_leaf :: "garry_buffer_pool \<Rightarrow> garry_buffer_pool \<times> int" where
  "garry_allocate_leaf pool = allocate_node pool GARRY_NODE_LEAF"

definition garry_allocate_internal :: "garry_buffer_pool \<Rightarrow> garry_buffer_pool \<times> int" where
  "garry_allocate_internal pool = allocate_node pool GARRY_NODE_INTERNAL"

subsection \<open>Loading\<close>

definition load_entry ::
  "buffer \<Rightarrow> int \<Rightarrow> int \<Rightarrow> garry_btree_node \<times> int \<Rightarrow> garry_btree_node \<times> int" where
  "load_entry buf page_size j st =
     (let (node, entry_idx) = st in
      if entry_idx < GARRY_MAX_KEYS_PER_NODE
      then (case garry_page_get buf j page_size of
              None \<Rightarrow> (node, entry_idx)
            | Some rec \<Rightarrow>
                if rec = [] then (node, entry_idx)
                else (case garry_decode_kv (buf_of rec) (int (length rec)) of
                        None \<Rightarrow> (node, entry_idx)
                      | Some ((ckey, _), (value, _)) \<Rightarrow>
                          (node\<lparr>nd_keys := (nd_keys node)(entry_idx := ckey),
                                nd_values := (nd_values node)(entry_idx := value)\<rparr>, entry_idx + 1)))
      else (node, entry_idx))"

text \<open>The kind of a page whose type is neither leaf nor overflow counts as internal.\<close>

definition kind_of_page :: "int \<Rightarrow> garry_node_kind" where
  "kind_of_page ptype_val =
     (if ptype_val = node_kind_ord GARRY_NODE_LEAF then GARRY_NODE_LEAF
      else if ptype_val = node_kind_ord GARRY_NODE_OVERFLOW then GARRY_NODE_OVERFLOW
      else GARRY_NODE_INTERNAL)"

text \<open>What \<open>garry_load_node\<close> makes of the page it has pinned.\<close>

definition read_node :: "buffer \<Rightarrow> int \<Rightarrow> garry_btree_node" where
  "read_node buf page_size =
     (let rec_count = garry_page_record_count buf;
          kind = kind_of_page (garry_read_int32 buf 0);
          node = blank_node\<lparr>nd_kind := kind,
                   nd_header := zero_header\<lparr>ph_page_type := kind,
                                             ph_page_level := garry_read_int32 buf 4\<rparr>\<rparr>;
          node = (if rec_count > 0
                  then (case garry_page_get buf GARRY_META_SLOT page_size of
                          None \<Rightarrow> node
                        | Some rec \<Rightarrow>
                            if rec = [] then node
                            else garry_decode_node_meta (buf_of rec) (int (length rec)) node)
                  else node)
      in if rec_count > 1
         then (let (node, entry_idx) = fold (load_entry buf page_size) [1..rec_count - 1] (node, 0)
               in node\<lparr>nd_entry_count := entry_idx\<rparr>)
         else node)"

definition garry_load_node :: "garry_buffer_pool \<Rightarrow> int \<Rightarrow> garry_buffer_pool \<times> garry_btree_node" where
  "garry_load_node pool pid =
     (let (pool, buf) = (case garry_pool_try_pin pool pid of
                           (pool, Some i) \<Rightarrow> (pool, Some i)
                         | (pool, None) \<Rightarrow> garry_pool_pin_page pool pid)
      in case buf of
           None \<Rightarrow> (pool, blank_node)
         | Some i \<Rightarrow>
             (garry_pool_release_page pool pid, read_node (bp_pages pool i) (bp_page_size pool)))"

subsection \<open>Storing\<close>

text \<open>The record of one entry; an internal node has no values.\<close>

definition entry_record :: "garry_btree_node \<Rightarrow> int \<Rightarrow> byte list" where
  "entry_record node i =
     (let (rec_buf, rec_len) =
        garry_encode_kv (nd_keys node i)
          (if nd_kind node = GARRY_NODE_INTERNAL then [] else nd_values node i) (\<lambda>_. 0)
      in read_bytes rec_buf 0 rec_len)"

fun store_entries :: "garry_btree_node \<Rightarrow> int \<Rightarrow> int list \<Rightarrow> buffer \<Rightarrow> buffer \<times> bool" where
  "store_entries node page_size [] buf = (buf, True)"
| "store_entries node page_size (i # is) buf =
     (let rec = entry_record node i in
      if rec = [] then store_entries node page_size is buf
      else (let (buf, slot_idx) = garry_page_insert buf rec page_size
            in if slot_idx < 0 then (buf, False) else store_entries node page_size is buf))"

text \<open>The page \<open>garry_store_node\<close> writes, and whether all records went in.\<close>

definition write_node :: "garry_btree_node \<Rightarrow> int \<Rightarrow> buffer \<Rightarrow> buffer \<times> bool" where
  "write_node node page_size buf =
     (let buf = garry_page_init buf (nd_kind node) (ph_page_level (nd_header node)) page_size;
          node = (if nd_entry_count node > GARRY_MAX_KEYS_PER_NODE
                  then node\<lparr>nd_entry_count := GARRY_MAX_KEYS_PER_NODE\<rparr> else node);
          (meta_buf, meta_len) = garry_encode_node_meta node (\<lambda>_. 0);
          (buf, slot_idx) = garry_page_insert buf (read_bytes meta_buf 0 meta_len) page_size
      in if slot_idx < 0 then (buf, False)
         else store_entries node page_size [0..nd_entry_count node - 1] buf)"

text \<open>A node that does not fit is released without being marked dirty. No caller holds a node of
  more than three entries, so that the clamp does not reach the caller's copy.\<close>

definition garry_store_node :: "garry_buffer_pool \<Rightarrow> int \<Rightarrow> garry_btree_node \<Rightarrow> garry_buffer_pool" where
  "garry_store_node pool pid node =
     (case garry_pool_pin_page pool pid of
        (pool, None) \<Rightarrow> pool
      | (pool, Some buf) \<Rightarrow>
          (let (page, ok) = write_node node (bp_page_size pool) (bp_pages pool buf);
               pool = pool_write pool buf page;
               pool = (if ok then garry_pool_mark_dirty pool pid else pool)
           in garry_pool_release_page pool pid))"

subsection \<open>The bytes of the metadata\<close>

definition id_ok :: "int \<Rightarrow> bool" where
  "id_ok p \<longleftrightarrow> - GARRY_PAGE_ID_BIAS \<le> p \<and> p < 2 ^ 31 - GARRY_PAGE_ID_BIAS"

definition num_children :: "garry_btree_node \<Rightarrow> int" where
  "num_children nd = (if nd_kind nd = GARRY_NODE_INTERNAL then nd_entry_count nd + 1 else 0)"

definition id_bytes :: "int \<Rightarrow> byte list" where
  "id_bytes p = cbor_head 0 (p + GARRY_PAGE_ID_BIAS)"

definition meta_bytes :: "garry_btree_node \<Rightarrow> byte list" where
  "meta_bytes nd =
     byte_of (130 + num_children nd) # id_bytes (nd_next_page nd) @ id_bytes (nd_prev_page nd) @
     concat (map (\<lambda>i. id_bytes (nd_children nd i)) [0..num_children nd - 1])"

text \<open>The nodes the operations build.\<close>

definition node_ok :: "garry_btree_node \<Rightarrow> bool" where
  "node_ok nd \<longleftrightarrow>
     nd_kind nd \<in> {GARRY_NODE_LEAF, GARRY_NODE_INTERNAL} \<and> i32 (ph_page_level (nd_header nd)) \<and>
     0 \<le> nd_entry_count nd \<and> nd_entry_count nd \<le> GARRY_MAX_KEYS_PER_NODE \<and>
     id_ok (nd_next_page nd) \<and> id_ok (nd_prev_page nd) \<and>
     (\<forall>i \<in> {0..<num_children nd}. id_ok (nd_children nd i)) \<and>
     (\<forall>i \<in> {0..<nd_entry_count nd}. length (nd_keys nd i) < 256 \<and> length (nd_values nd i) < 256)"

lemma node_okD:
  assumes "node_ok nd"
  shows "nd_kind nd = GARRY_NODE_LEAF \<or> nd_kind nd = GARRY_NODE_INTERNAL"
    "i32 (ph_page_level (nd_header nd))" "0 \<le> nd_entry_count nd" "nd_entry_count nd \<le> 3"
    "id_ok (nd_next_page nd)" "id_ok (nd_prev_page nd)"
    "\<And>i. 0 \<le> i \<Longrightarrow> i < num_children nd \<Longrightarrow> id_ok (nd_children nd i)"
    "\<And>i. 0 \<le> i \<Longrightarrow> i < nd_entry_count nd \<Longrightarrow> length (nd_keys nd i) < 256"
    "\<And>i. 0 \<le> i \<Longrightarrow> i < nd_entry_count nd \<Longrightarrow> length (nd_values nd i) < 256"
    "0 \<le> num_children nd" "num_children nd \<le> 4"
  using assms by (auto simp: node_ok_def node_consts num_children_def)

lemma encode_cbor_uint_put:
  "0 \<le> v \<Longrightarrow> encode_cbor_uint b pos v = (put_bytes b pos (cbor_head 0 v), pos + int (length (cbor_head 0 v)))"
  by (simp add: encode_cbor_uint_def cbor_head_def byte_of_def add.assoc)

lemma encode_id_put:
  "id_ok p \<Longrightarrow> encode_cbor_uint b pos (p + GARRY_PAGE_ID_BIAS) =
     (put_bytes b pos (id_bytes p), pos + int (length (id_bytes p)))"
  unfolding id_bytes_def by (rule encode_cbor_uint_put) (simp add: id_ok_def)

lemma decode_cbor_uint_head:
  assumes "holds b pos (cbor_head 0 v)" "0 \<le> v" "v < 2 ^ 31" "pos + int (length (cbor_head 0 v)) \<le> elen"
  shows "decode_cbor_uint b pos elen d = (pos + int (length (cbor_head 0 v)), v)"
  using assms(2)
proof (cases rule: cbor_head_cases [where base = 0])
  case 4
  then have e: "b pos = byte_of 26" "b (pos + 1) = byte_of (v div 16777216 mod 256)"
    "b (pos + 2) = byte_of (v div 65536 mod 256)" "b (pos + 3) = byte_of (v div 256 mod 256)"
    "b (pos + 4) = byte_of (v mod 256)" "\<not> elen \<le> pos + 4" "\<not> elen \<le> pos"
    using assms(1,4) by (simp_all add: add.assoc)
  have "i32 v" using assms(2,3) by (simp add: i32_def)
  then show ?thesis
    by (simp add: decode_cbor_uint_def Let_def e 4 int_split_32 [OF assms(2,3)])
qed (use assms(1,2,4) in \<open>simp_all add: decode_cbor_uint_def add.assoc Let_def\<close>)

lemma decode_id:
  assumes "holds b pos (id_bytes p)" "id_ok p" "pos + int (length (id_bytes p)) \<le> elen"
  shows "decode_cbor_uint b pos elen d = (pos + int (length (id_bytes p)), p + GARRY_PAGE_ID_BIAS)"
  using assms unfolding id_bytes_def by (intro decode_cbor_uint_head) (simp_all add: id_ok_def)

lemma encode_children_put:
  assumes "\<forall>i \<in> set is. id_ok (nd_children nd i)"
  shows "encode_children nd is (b, pos) =
    (put_bytes b pos (concat (map (\<lambda>i. id_bytes (nd_children nd i)) is)),
     pos + int (length (concat (map (\<lambda>i. id_bytes (nd_children nd i)) is))))"
  using assms
proof (induction "is" arbitrary: b pos)
  case Nil
  then show ?case by (simp add: encode_children_def)
next
  case (Cons i "is")
  then show ?case
    by (simp add: encode_children_def encode_id_put put_bytes_append add.assoc)
qed

lemma encode_meta_put:
  assumes "node_ok nd"
  shows "garry_encode_node_meta nd b = (put_bytes b 0 (meta_bytes nd), int (length (meta_bytes nd)))"
proof -
  note d = node_okD [OF assms]
  have c: "\<forall>i \<in> set [0..num_children nd - 1]. id_ok (nd_children nd i)" using d(7) by auto
  show ?thesis
    using d(10,11)
    by (simp add: garry_encode_node_meta_def Let_def flip: num_children_def)
      (simp add: encode_id_put [OF d(5)] encode_id_put [OF d(6)] encode_children_put [OF c]
        meta_bytes_def put_bytes_append byte_of_def add.assoc)
qed

lemma id_bytes_nonempty [simp]: "id_bytes p \<noteq> []"
  by (simp add: id_bytes_def cbor_head_def)

lemma length_id_bytes: "length (id_bytes p) \<le> 5"
  by (simp add: id_bytes_def cbor_head_def)

lemma decode_children_fold:
  assumes "holds b pos (concat (map (\<lambda>i. id_bytes (c i)) is))" "\<forall>i \<in> set is. id_ok (c i)"
    and "pos + int (length (concat (map (\<lambda>i. id_bytes (c i)) is))) \<le> elen"
  shows "\<exists>pos' d'. fold (decode_child b elen) is (pos, d, ch) =
    (pos', d', \<lambda>i. if i \<in> set is then c i else ch i)"
  using assms
proof (induction "is" arbitrary: pos d ch)
  case (Cons i "is")
  have "0 < length (id_bytes (c i))" by simp
  then have "pos < elen" using Cons.prems(3) by (simp del: length_greater_0_conv)
  moreover have "decode_cbor_uint b pos elen d =
      (pos + int (length (id_bytes (c i))), c i + GARRY_PAGE_ID_BIAS)"
    using Cons.prems by (intro decode_id) simp_all
  ultimately have "fold (decode_child b elen) (i # is) (pos, d, ch) =
      fold (decode_child b elen) is
        (pos + int (length (id_bytes (c i))), c i + GARRY_PAGE_ID_BIAS, ch(i := c i))"
    by (simp add: decode_child_def)
  moreover have "\<exists>pos' d'. fold (decode_child b elen) is
      (pos + int (length (id_bytes (c i))), c i + GARRY_PAGE_ID_BIAS, ch(i := c i)) =
      (pos', d', \<lambda>j. if j \<in> set is then c j else (ch(i := c i)) j)"
    using Cons.prems by (intro Cons.IH) (simp_all add: add.assoc)
  ultimately show ?case by (auto simp: fun_eq_iff)
qed simp

lemma decode_meta:
  assumes "node_ok nd" "nd_kind node = nd_kind nd"
  shows "garry_decode_node_meta (buf_of (meta_bytes nd)) (int (length (meta_bytes nd))) node =
    node\<lparr>nd_next_page := nd_next_page nd, nd_prev_page := nd_prev_page nd,
         nd_children := (\<lambda>i. if 0 \<le> i \<and> i < num_children nd then nd_children nd i
                            else nd_children node i)\<rparr>"
proof -
  note d = node_okD [OF assms(1)]
  let ?b = "buf_of (meta_bytes nd)" and ?e = "int (length (meta_bytes nd))"
  let ?cs = "concat (map (\<lambda>i. id_bytes (nd_children nd i)) [0..num_children nd - 1])"
  let ?p1 = "1 + int (length (id_bytes (nd_next_page nd)))"
  let ?p2 = "?p1 + int (length (id_bytes (nd_prev_page nd)))"
  have "holds ?b 0 (meta_bytes nd)" by simp
  then have h: "?b 0 = byte_of (130 + num_children nd)" "holds ?b 1 (id_bytes (nd_next_page nd))"
    "holds ?b ?p1 (id_bytes (nd_prev_page nd))" "holds ?b ?p2 ?cs"
    unfolding meta_bytes_def by (simp_all add: add.assoc)
  have e: "?e = ?p2 + int (length ?cs)" by (simp add: meta_bytes_def)
  have fb: "uint (?b 0) = 130 + num_children nd" using d(10,11) by (simp add: h(1))
  have ai: "(130 + num_children nd) smod 32 = 2 + num_children nd"
    using d(10,11) by (simp add: mod_pos_geq)
  have d1: "decode_cbor_uint ?b 1 ?e 0 = (?p1, nd_next_page nd + GARRY_PAGE_ID_BIAS)"
    by (rule decode_id [OF h(2) d(5)]) (simp add: e)
  have d2: "decode_cbor_uint ?b ?p1 ?e x = (?p2, nd_prev_page nd + GARRY_PAGE_ID_BIAS)" for x
    by (rule decode_id [OF h(3) d(6)]) (simp add: e)
  obtain pos' d' where f: "fold (decode_child ?b ?e) [0..num_children nd - 1]
      (?p2, nd_prev_page nd + GARRY_PAGE_ID_BIAS, nd_children node) =
      (pos', d', \<lambda>i. if i \<in> set [0..num_children nd - 1] then nd_children nd i else nd_children node i)"
    using decode_children_fold [OF h(4), of ?e] d(7) e by fastforce
  have nc: "(if nd_kind nd = GARRY_NODE_INTERNAL then 2 + num_children nd - 2 else 0) = num_children nd"
    by (simp add: num_children_def)
  show ?thesis
    using d(10,11)
    by (simp add: garry_decode_node_meta_def fb ai d1 d2 assms(2) nc f Let_def)
qed

subsection \<open>The records of a node page\<close>

definition entry_value :: "garry_btree_node \<Rightarrow> int \<Rightarrow> byte list" where
  "entry_value nd i = (if nd_kind nd = GARRY_NODE_INTERNAL then [] else nd_values nd i)"

definition node_entries :: "garry_btree_node \<Rightarrow> (byte list \<times> byte list) list" where
  "node_entries nd = map (\<lambda>i. (nd_keys nd i, entry_value nd i)) [0..nd_entry_count nd - 1]"

definition node_records :: "garry_btree_node \<Rightarrow> byte list list" where
  "node_records nd = meta_bytes nd # map (\<lambda>(k, v). kv_bytes k v) (node_entries nd)"

definition records_size :: "byte list list \<Rightarrow> int" where
  "records_size rs = sum_list (map (\<lambda>r. int (length r) + 4) rs)"

text \<open>The node fits a page of this size.\<close>

definition node_fits :: "garry_btree_node \<Rightarrow> int \<Rightarrow> bool" where
  "node_fits nd page_size \<longleftrightarrow> 32 + records_size (node_records nd) \<le> page_size"

lemma records_size_simps [simp]:
  "records_size [] = 0" "records_size (r # rs) = int (length r) + 4 + records_size rs"
  by (simp_all add: records_size_def)

lemma records_size_nonneg: "0 \<le> records_size rs"
  by (induction rs) simp_all

lemma entry_record_bytes: "entry_record nd i = kv_bytes (nd_keys nd i) (entry_value nd i)"
  by (simp add: entry_record_def encode_kv_put entry_value_def read_put_same)

lemma kv_bytes_nonempty [simp]: "kv_bytes k v \<noteq> []"
  by (simp add: kv_bytes_def)

lemma store_entries_fits:
  assumes "page_wf buf ps" "length (page_records buf) + length is \<le> 128"
    and "records_size (map (entry_record nd) is) \<le> page_free buf"
  obtains buf' where "store_entries nd ps is buf = (buf', True)" "page_wf buf' ps"
    "page_records buf' = page_records buf @ map (entry_record nd) is"
    "garry_read_int32 buf' 0 = garry_read_int32 buf 0"
    "garry_read_int32 buf' 4 = garry_read_int32 buf 4"
  using assms
proof (induction "is" arbitrary: buf thesis)
  case Nil
  then show ?case by simp
next
  case (Cons i "is")
  let ?r = "entry_record nd i"
  have ne: "?r \<noteq> []" by (simp add: entry_record_bytes)
  have fits: "page_fits buf ?r"
    using Cons.prems(3,4) length_page_records [OF Cons.prems(2)] records_size_nonneg [of "map (entry_record nd) is"]
    by (simp add: page_fits_def)
  let ?b = "inserted_page buf ?r"
  have ins: "garry_page_insert buf ?r ps = (?b, garry_read_int32 buf 8)" "0 \<le> garry_read_int32 buf 8"
    using page_insert_fits [OF Cons.prems(2) fits] page_wfD(3) [OF Cons.prems(2)] by simp_all
  note f = inserted_page_wf [OF Cons.prems(2) fits] inserted_page_records [OF Cons.prems(2) fits]
    inserted_page_free [OF Cons.prems(2) fits] inserted_page_type [OF Cons.prems(2) fits]
  have "length (page_records ?b) + length is \<le> 128" "records_size (map (entry_record nd) is) \<le> page_free ?b"
    using Cons.prems(3,4) f(2,3) by simp_all
  from Cons.IH [OF _ f(1) this] obtain buf' where "store_entries nd ps is ?b = (buf', True)"
    "page_wf buf' ps" "page_records buf' = page_records ?b @ map (entry_record nd) is"
    "garry_read_int32 buf' 0 = garry_read_int32 ?b 0" "garry_read_int32 buf' 4 = garry_read_int32 ?b 4"
    by blast
  then show ?case
    using ins ne f by (intro Cons.prems(1) [of buf']) (simp_all add: Let_def)
qed

lemma node_entries_records: "map (\<lambda>(k, v). kv_bytes k v) (node_entries nd) =
  map (entry_record nd) [0..nd_entry_count nd - 1]"
  by (simp add: node_entries_def entry_record_bytes)

text \<open>The page holds the node: its records and its two leading fields.\<close>

definition page_of_node :: "buffer \<Rightarrow> int \<Rightarrow> garry_btree_node \<Rightarrow> bool" where
  "page_of_node buf ps nd \<longleftrightarrow>
     page_wf buf ps \<and> page_records buf = node_records nd \<and>
     garry_read_int32 buf 0 = node_kind_ord (nd_kind nd) \<and>
     garry_read_int32 buf 4 = ph_page_level (nd_header nd)"

lemma write_node_fits:
  assumes "node_ok nd" "512 \<le> ps" "ps \<le> 65536" "node_fits nd ps"
  obtains buf' where "write_node nd ps buf = (buf', True)" "page_of_node buf' ps nd"
proof -
  note d = node_okD [OF assms(1)]
  let ?b0 = "garry_page_init buf (nd_kind nd) (ph_page_level (nd_header nd)) ps"
  note i = page_init_wf [OF assms(2,3) d(2), of buf "nd_kind nd"]
    page_init_records [OF assms(2,3) d(2), of buf "nd_kind nd"]
    page_init_free [OF assms(2,3) d(2), of buf "nd_kind nd"]
    page_init_fields [OF assms(2,3) d(2), of buf "nd_kind nd"]
  have sz: "int (length (meta_bytes nd)) + 4 +
      records_size (map (entry_record nd) [0..nd_entry_count nd - 1]) \<le> ps - 32"
    using assms(4) by (simp add: node_fits_def node_records_def node_entries_records)
  then have fits: "page_fits ?b0 (meta_bytes nd)"
    using i(3,6) records_size_nonneg [of "map (entry_record nd) [0..nd_entry_count nd - 1]"]
    by (simp add: page_fits_def)
  let ?b1 = "inserted_page ?b0 (meta_bytes nd)"
  note f = inserted_page_wf [OF i(1) fits] inserted_page_records [OF i(1) fits]
    inserted_page_free [OF i(1) fits] inserted_page_type [OF i(1) fits]
  have "length (page_records ?b1) + length [0..nd_entry_count nd - 1] \<le> 128"
    "records_size (map (entry_record nd) [0..nd_entry_count nd - 1]) \<le> page_free ?b1"
    using f(2,3) i(2,3) sz d(4) by simp_all
  from store_entries_fits [OF f(1) this] obtain buf' where
    b: "store_entries nd ps [0..nd_entry_count nd - 1] ?b1 = (buf', True)" "page_wf buf' ps"
    "page_records buf' = page_records ?b1 @ map (entry_record nd) [0..nd_entry_count nd - 1]"
    "garry_read_int32 buf' 0 = garry_read_int32 ?b1 0" "garry_read_int32 buf' 4 = garry_read_int32 ?b1 4"
    by blast
  show ?thesis
  proof (rule that)
    show "write_node nd ps buf = (buf', True)"
      using d(4) b(1) i(6)
      by (simp add: write_node_def Let_def GARRY_MAX_KEYS_PER_NODE_def encode_meta_put [OF assms(1)]
          read_put_same page_insert_fits [OF i(1) fits])
    show "page_of_node buf' ps nd"
      using b f i by (simp add: page_of_node_def node_records_def node_entries_records)
  qed
qed

text \<open>Nodes with keys and values below 256 bytes fit every page of 2048 bytes or more.\<close>

lemma length_kv_bytes_le: "length k < 256 \<Longrightarrow> length v < 256 \<Longrightarrow> length (kv_bytes k v) \<le> 515"
  by (simp add: length_kv_bytes length_cbor_bytes)

lemma length_id_concat: "length (concat (map (\<lambda>i. id_bytes (f i)) is)) \<le> 5 * length is"
proof (induction "is")
  case (Cons i "is")
  with length_id_bytes [of "f i"] show ?case by simp
qed simp

lemma length_meta_bytes: "node_ok nd \<Longrightarrow> length (meta_bytes nd) \<le> 31"
  using length_id_bytes [of "nd_next_page nd"] length_id_bytes [of "nd_prev_page nd"]
    length_id_concat [of "nd_children nd" "[0..num_children nd - 1]"] node_okD(10,11) [of nd]
  by (simp add: meta_bytes_def)

lemma records_size_le:
  "\<forall>r \<in> set rs. length r \<le> n \<Longrightarrow> records_size rs \<le> int (length rs) * (int n + 4)"
  by (induction rs) (auto simp: algebra_simps)

lemma node_fits_2048:
  assumes "node_ok nd" "2048 \<le> ps"
  shows "node_fits nd ps"
proof -
  note d = node_okD [OF assms(1)]
  have "\<forall>r \<in> set (map (\<lambda>(k, v). kv_bytes k v) (node_entries nd)). length r \<le> 515"
    using d(8,9) by (auto simp: node_entries_def entry_value_def intro!: length_kv_bytes_le)
  from records_size_le [OF this] d(4)
  have "records_size (map (\<lambda>(k, v). kv_bytes k v) (node_entries nd)) \<le> 3 * 519"
    by (simp add: node_entries_def split: if_splits)
  with length_meta_bytes [OF assms(1)] assms(2) show ?thesis
    by (simp add: node_fits_def node_records_def)
qed

subsection \<open>Loading what was stored\<close>

text \<open>A node without what no page records: the array elements past the entries, the values of an
  internal node, the header fields other than type and level.\<close>

definition canon :: "garry_btree_node \<Rightarrow> garry_btree_node" where
  "canon nd =
     \<lparr>nd_kind = nd_kind nd,
      nd_header = zero_header\<lparr>ph_page_type := nd_kind nd, ph_page_level := ph_page_level (nd_header nd)\<rparr>,
      nd_keys = (\<lambda>i. if 0 \<le> i \<and> i < nd_entry_count nd then nd_keys nd i else []),
      nd_values = (\<lambda>i. if 0 \<le> i \<and> i < nd_entry_count nd then entry_value nd i else []),
      nd_children = (\<lambda>i. if 0 \<le> i \<and> i < num_children nd then nd_children nd i else 0),
      nd_next_page = nd_next_page nd, nd_prev_page = nd_prev_page nd,
      nd_entry_count = nd_entry_count nd\<rparr>"

lemma canon_simps [simp]:
  "nd_kind (canon nd) = nd_kind nd" "nd_entry_count (canon nd) = nd_entry_count nd"
  "nd_next_page (canon nd) = nd_next_page nd" "nd_prev_page (canon nd) = nd_prev_page nd"
  "ph_page_level (nd_header (canon nd)) = ph_page_level (nd_header nd)"
  "num_children (canon nd) = num_children nd"
  by (simp_all add: canon_def num_children_def)

lemma canon_entries [simp]: "node_entries (canon nd) = node_entries nd"
  by (simp add: node_entries_def canon_def entry_value_def)

lemma canon_children [simp]:
  "0 \<le> i \<Longrightarrow> i < num_children nd \<Longrightarrow> nd_children (canon nd) i = nd_children nd i"
  by (simp add: canon_def)

lemma canon_keys [simp]:
  "0 \<le> i \<Longrightarrow> i < nd_entry_count nd \<Longrightarrow> nd_keys (canon nd) i = nd_keys nd i"
  "0 \<le> i \<Longrightarrow> i < nd_entry_count nd \<Longrightarrow> nd_values (canon nd) i = entry_value nd i"
  by (simp_all add: canon_def)

lemma canon_ok: "node_ok nd \<Longrightarrow> node_ok (canon nd)"
  by (auto simp: node_ok_def canon_def num_children_def entry_value_def)

lemma load_entries_fold:
  assumes wf: "page_wf buf ps" and rs: "page_records buf = pre @ map (\<lambda>(k, v). kv_bytes k v) kvs"
    and "\<forall>(k, v) \<in> set kvs. length k < 256 \<and> length v < 256"
    and "0 \<le> e" "e + int (length kvs) \<le> 3"
  shows "fold (load_entry buf ps) [int (length pre)..int (length (page_records buf)) - 1] (nd, e) =
    (nd\<lparr>nd_keys := (\<lambda>i. if e \<le> i \<and> i < e + int (length kvs) then fst (kvs ! nat (i - e)) else nd_keys nd i),
        nd_values := (\<lambda>i. if e \<le> i \<and> i < e + int (length kvs) then snd (kvs ! nat (i - e)) else nd_values nd i)\<rparr>,
     e + int (length kvs))"
  using assms(2-)
proof (induction kvs arbitrary: pre e nd)
  case Nil
  have no: "(e \<le> i \<and> i < e) = False" for i by auto
  from Nil show ?case by (simp add: no)
next
  case (Cons kv kvs)
  obtain k v where kv: "kv = (k, v)" by (cases kv)
  let ?pre = "pre @ [kv_bytes k v]"
  let ?nd = "nd\<lparr>nd_keys := (nd_keys nd)(e := k), nd_values := (nd_values nd)(e := v)\<rparr>"
  have "garry_page_get buf (int (length pre)) ps = Some (kv_bytes k v)"
    using Cons.prems(1) by (simp add: page.get_records [OF wf] kv)
  moreover have "garry_decode_kv (buf_of (kv_bytes k v)) (int (length (kv_bytes k v))) =
      Some ((k, int (length k)), (v, int (length v)))"
    using Cons.prems(2) by (intro decode_kv) (simp_all add: kv)
  ultimately have "load_entry buf ps (int (length pre)) (nd, e) = (?nd, e + 1)"
    using Cons.prems(3,4) by (simp add: load_entry_def node_consts)
  moreover have "[int (length pre)..int (length (page_records buf)) - 1] =
      int (length pre) # [int (length ?pre)..int (length (page_records buf)) - 1]"
    using Cons.prems(1) upto_rec1 [of "int (length pre)" "int (length (page_records buf)) - 1"]
    by (simp add: add.commute)
  moreover have "fold (load_entry buf ps) [int (length ?pre)..int (length (page_records buf)) - 1] (?nd, e + 1) =
    (?nd\<lparr>nd_keys := (\<lambda>i. if e + 1 \<le> i \<and> i < e + 1 + int (length kvs) then fst (kvs ! nat (i - (e + 1))) else nd_keys ?nd i),
        nd_values := (\<lambda>i. if e + 1 \<le> i \<and> i < e + 1 + int (length kvs) then snd (kvs ! nat (i - (e + 1))) else nd_values ?nd i)\<rparr>,
     e + 1 + int (length kvs))"
    using Cons.prems by (intro Cons.IH) (simp_all add: kv)
  moreover have "nat (i - e) = Suc (nat (i - (e + 1)))" if "e + 1 \<le> i" for i using that by simp
  ultimately show ?case by (auto simp: kv fun_eq_iff)
qed

lemma node_kv_ok:
  assumes "node_ok nd"
  shows "\<forall>(k, v) \<in> set (node_entries nd). length k < 256 \<and> length v < 256"
  using node_okD(8,9) [OF assms] by (auto simp: node_entries_def entry_value_def)

lemma length_node_entries [simp]: "0 \<le> nd_entry_count nd \<Longrightarrow> int (length (node_entries nd)) = nd_entry_count nd"
  by (simp add: node_entries_def)

lemma read_node_page:
  assumes "node_ok nd" "page_of_node buf ps nd"
  shows "read_node buf ps = canon nd"
proof -
  note d = node_okD [OF assms(1)]
  have wf: "page_wf buf ps" and rs: "page_records buf = node_records nd"
    and k: "garry_read_int32 buf 0 = node_kind_ord (nd_kind nd)"
    and l: "garry_read_int32 buf 4 = ph_page_level (nd_header nd)"
    using assms(2) by (simp_all add: page_of_node_def)
  have n: "int (length (page_records buf)) = 1 + nd_entry_count nd"
    using d(3) by (simp add: rs node_records_def)
  have cnt: "garry_page_record_count buf = 1 + nd_entry_count nd"
    using length_page_records [OF wf] n by (simp add: garry_page_record_count_def)
  have meta: "garry_page_get buf 0 ps = Some (meta_bytes nd)"
    using d(3) n by (simp add: page.get_records [OF wf]) (simp add: rs node_records_def)
  have ne: "meta_bytes nd \<noteq> []" by (simp add: meta_bytes_def)
  have kind: "kind_of_page (node_kind_ord (nd_kind nd)) = nd_kind nd"
    using d(1) by (auto simp: kind_of_page_def)
  define nd0 where "nd0 = blank_node\<lparr>nd_kind := nd_kind nd, nd_header := zero_header\<lparr>ph_page_type := nd_kind nd,
      ph_page_level := ph_page_level (nd_header nd)\<rparr>\<rparr>"
  define nd1 where "nd1 = nd0\<lparr>nd_next_page := nd_next_page nd, nd_prev_page := nd_prev_page nd,
      nd_children := (\<lambda>i. if 0 \<le> i \<and> i < num_children nd then nd_children nd i else nd_children nd0 i)\<rparr>"
  have m: "garry_decode_node_meta (buf_of (meta_bytes nd)) (int (length (meta_bytes nd))) nd0 = nd1"
    unfolding nd1_def by (rule decode_meta [OF assms(1)]) (simp add: nd0_def)
  have "fold (load_entry buf ps) [1..int (length (page_records buf)) - 1] (nd1, 0) =
    (nd1\<lparr>nd_keys := (\<lambda>i. if 0 \<le> i \<and> i < 0 + int (length (node_entries nd)) then fst (node_entries nd ! nat (i - 0)) else nd_keys nd1 i),
        nd_values := (\<lambda>i. if 0 \<le> i \<and> i < 0 + int (length (node_entries nd)) then snd (node_entries nd ! nat (i - 0)) else nd_values nd1 i)\<rparr>,
     0 + int (length (node_entries nd)))"
    using load_entries_fold [OF wf, of "[meta_bytes nd]" "node_entries nd" 0 nd1] d(3,4)
      node_kv_ok [OF assms(1)] by (simp add: rs node_records_def)
  then have f: "fold (load_entry buf ps) [1..nd_entry_count nd] (nd1, 0) =
    (nd1\<lparr>nd_keys := (\<lambda>i. if 0 \<le> i \<and> i < nd_entry_count nd then nd_keys nd i else []),
        nd_values := (\<lambda>i. if 0 \<le> i \<and> i < nd_entry_count nd then entry_value nd i else [])\<rparr>,
     nd_entry_count nd)"
    using d(3) by (simp add: n node_entries_def nd1_def nd0_def blank_node_def fun_eq_iff cong: if_cong)
  have c: "canon nd = (if 0 < nd_entry_count nd
      then (let (node, n) = fold (load_entry buf ps) [1..nd_entry_count nd] (nd1, 0)
            in node\<lparr>nd_entry_count := n\<rparr>) else nd1)"
    using d(3) by (simp add: f) (auto simp: canon_def nd1_def nd0_def blank_node_def fun_eq_iff)
  have "read_node buf ps = (if 0 < nd_entry_count nd
      then (let (node, n) = fold (load_entry buf ps) [1..nd_entry_count nd] (nd1, 0)
            in node\<lparr>nd_entry_count := n\<rparr>) else nd1)"
    using d(3) by (simp add: read_node_def cnt k l kind meta ne node_consts Let_def m flip: nd0_def)
  with c show ?thesis by simp
qed

lemma page_of_node_agree:
  assumes "page_of_node b ps nd" "agree 0 ps b b'"
  shows "page_of_node b' ps nd"
  using assms agree_page_wf [of b ps b'] agree_int32 [OF assms(2), of 0] agree_int32 [OF assms(2), of 4]
    page_wfD(1) [of b ps]
  by (simp add: page_of_node_def)

subsection \<open>Nodes in the pool\<close>

text \<open>What an operation that writes only the pages of \<open>P\<close> and new ones leaves alone.\<close>

definition page_frame :: "int set \<Rightarrow> garry_buffer_pool \<Rightarrow> garry_buffer_pool \<Rightarrow> bool" where
  "page_frame P pool pool' \<longleftrightarrow>
     bp_page_size pool' = bp_page_size pool \<and> bp_free_list_head pool' = bp_free_list_head pool \<and>
     bp_next_page pool \<le> bp_next_page pool' \<and>
     (\<forall>q. q \<notin> P \<longrightarrow> agree 0 (bp_page_size pool) (page_view pool q) (page_view pool' q))"

lemma page_frame_refl [simp]: "page_frame P pool pool"
  by (simp add: page_frame_def)

lemma page_frame_trans: "page_frame P a b \<Longrightarrow> page_frame Q b c \<Longrightarrow> page_frame (P \<union> Q) a c"
  by (auto simp: page_frame_def intro: agree_trans)

lemma page_frame_mono: "page_frame P a b \<Longrightarrow> P \<subseteq> Q \<Longrightarrow> page_frame Q a b"
  by (auto simp: page_frame_def)

lemma same_view_frame: "same_view a b \<Longrightarrow> page_frame {} a b"
  by (simp add: same_view_def page_frame_def)

definition node_at :: "garry_buffer_pool \<Rightarrow> int \<Rightarrow> garry_btree_node \<Rightarrow> bool" where
  "node_at pool pid nd \<longleftrightarrow>
     0 \<le> pid \<and> pid < bp_next_page pool \<and> node_ok nd \<and>
     page_of_node (page_view pool pid) (bp_page_size pool) nd"

lemma node_at_frame:
  "node_at pool pid nd \<Longrightarrow> page_frame P pool pool' \<Longrightarrow> pid \<notin> P \<Longrightarrow> node_at pool' pid nd"
  by (auto simp: node_at_def page_frame_def intro: page_of_node_agree)

text \<open>A page that \<open>allocate_node\<close> has just initialised.\<close>

definition fresh_at :: "garry_buffer_pool \<Rightarrow> int \<Rightarrow> garry_node_kind \<Rightarrow> bool" where
  "fresh_at pool pid kind \<longleftrightarrow>
     0 \<le> pid \<and> pid < bp_next_page pool \<and>
     page_wf (page_view pool pid) (bp_page_size pool) \<and> page_records (page_view pool pid) = [] \<and>
     garry_read_int32 (page_view pool pid) 0 = node_kind_ord kind \<and>
     garry_read_int32 (page_view pool pid) 4 = 0"

definition fresh_node :: "garry_node_kind \<Rightarrow> garry_btree_node" where
  "fresh_node kind = blank_node\<lparr>nd_kind := kind, nd_header := zero_header\<lparr>ph_page_type := kind\<rparr>\<rparr>"

lemma kind_of_page_ord: "kind \<in> {GARRY_NODE_LEAF, GARRY_NODE_INTERNAL} \<Longrightarrow> kind_of_page (node_kind_ord kind) = kind"
  by (auto simp: kind_of_page_def)

lemma read_node_fresh:
  assumes "page_wf buf ps" "page_records buf = []" "garry_read_int32 buf 0 = node_kind_ord kind"
    "garry_read_int32 buf 4 = 0" "kind \<in> {GARRY_NODE_LEAF, GARRY_NODE_INTERNAL}"
  shows "read_node buf ps = fresh_node kind"
proof -
  have "garry_page_record_count buf = 0"
    using length_page_records [OF assms(1)] assms(2) by (simp add: garry_page_record_count_def)
  then show ?thesis
    using assms(3,4) by (simp add: read_node_def kind_of_page_ord [OF assms(5)] fresh_node_def Let_def)
      (simp add: zero_header_def)
qed

lemma pin_or_try: "(case garry_pool_try_pin pool pid of (pool, Some i) \<Rightarrow> (pool, Some i)
    | (pool, None) \<Rightarrow> garry_pool_pin_page pool pid) = garry_pool_pin_page pool pid"
  by (simp add: garry_pool_try_pin_def garry_pool_pin_page_def ensure_loaded_def split: option.split)

lemma load_node_look:
  "garry_load_node pool pid =
     (case page_look pool pid of
        (pool, None) \<Rightarrow> (pool, blank_node)
      | (pool, Some b) \<Rightarrow> (pool, read_node b (bp_page_size pool)))"
  by (simp add: garry_load_node_def pin_or_try page_look_def split: prod.split option.split)

lemma load_node_idle:
  assumes "pool_idle (n + 2) pool" "0 \<le> pid" "pid < bp_next_page pool"
  obtains pool' b where "garry_load_node pool pid = (pool', read_node b (bp_page_size pool))"
    "pool_idle n pool'" "page_frame {} pool pool'" "bp_next_page pool' = bp_next_page pool"
    "agree 0 (bp_page_size pool) (page_view pool pid) b"
proof -
  from assms obtain pool' b where l: "page_look pool pid = (pool', Some b)" "pool_idle n pool'"
    "same_view pool pool'" "agree 0 (bp_page_size pool) (page_view pool pid) b"
    by (rule page_look_idle)
  then show ?thesis
    by (intro that [of pool' b]) (auto simp: load_node_look same_view_frame, auto simp: same_view_def)
qed

lemma load_node_at:
  assumes "pool_idle (n + 2) pool" "node_at pool pid nd"
  obtains pool' where "garry_load_node pool pid = (pool', canon nd)"
    "pool_idle n pool'" "page_frame {} pool pool'" "bp_next_page pool' = bp_next_page pool"
proof -
  have p: "0 \<le> pid" "pid < bp_next_page pool" "node_ok nd"
    "page_of_node (page_view pool pid) (bp_page_size pool) nd"
    using assms(2) by (simp_all add: node_at_def)
  from assms(1) p(1,2) obtain pool' b where l: "garry_load_node pool pid = (pool', read_node b (bp_page_size pool))"
    "pool_idle n pool'" "page_frame {} pool pool'" "bp_next_page pool' = bp_next_page pool"
    "agree 0 (bp_page_size pool) (page_view pool pid) b"
    by (rule load_node_idle)
  from read_node_page [OF p(3) page_of_node_agree [OF p(4) l(5)]] l that show ?thesis by auto
qed

lemma load_node_fresh:
  assumes "pool_idle (n + 2) pool" "fresh_at pool pid kind" "kind \<in> {GARRY_NODE_LEAF, GARRY_NODE_INTERNAL}"
  obtains pool' where "garry_load_node pool pid = (pool', fresh_node kind)"
    "pool_idle n pool'" "page_frame {} pool pool'" "bp_next_page pool' = bp_next_page pool"
proof -
  have p: "0 \<le> pid" "pid < bp_next_page pool" using assms(2) by (simp_all add: fresh_at_def)
  from assms(1) p obtain pool' b where l: "garry_load_node pool pid = (pool', read_node b (bp_page_size pool))"
    "pool_idle n pool'" "page_frame {} pool pool'" "bp_next_page pool' = bp_next_page pool"
    "agree 0 (bp_page_size pool) (page_view pool pid) b"
    by (rule load_node_idle)
  have f: "page_wf (page_view pool pid) (bp_page_size pool)" "page_records (page_view pool pid) = []"
    "garry_read_int32 (page_view pool pid) 0 = node_kind_ord kind"
    "garry_read_int32 (page_view pool pid) 4 = 0"
    using assms(2) by (simp_all add: fresh_at_def)
  note a = agree_page_wf [OF f(1) l(5)] agree_int32 [OF l(5), of 0] agree_int32 [OF l(5), of 4]
  have "read_node b (bp_page_size pool) = fresh_node kind"
    using a f page_wfD(1) [OF f(1)] by (intro read_node_fresh [OF a(1) _ _ _ assms(3)]) simp_all
  with l that show ?thesis by simp
qed

lemma store_node_at:
  assumes "pool_idle (n + 2) pool" "0 \<le> pid" "pid < bp_next_page pool"
    and "node_ok nd" "node_fits nd (bp_page_size pool)"
  shows "pool_idle n (garry_store_node pool pid nd)"
    "node_at (garry_store_node pool pid nd) pid nd"
    "page_frame {pid} pool (garry_store_node pool pid nd)"
    "bp_next_page (garry_store_node pool pid nd) = bp_next_page pool"
proof -
  from assms(1-3) obtain p i where p: "garry_pool_pin_page pool pid = (p, Some i)"
    "pool_ready n p" "same_view pool p" "find_slot p pid = Some i"
    "bp_capacity p = bp_capacity pool"
    "agree 0 (bp_page_size pool) (page_view pool pid) (bp_pages p i)"
    "\<And>j. j < bp_capacity pool \<Longrightarrow> bp_pin_counts p j = (if j = i then 1 else 0)"
    by (rule idle_pin_cases) blast
  have sz: "bp_page_size p = bp_page_size pool" "bp_next_page p = bp_next_page pool"
    "bp_free_list_head p = bp_free_list_head pool"
    using p(3) by (simp_all add: same_view_def)
  note d = pool_invD [OF pool_idle_inv [OF assms(1)]]
  obtain page where w: "write_node nd (bp_page_size pool) (bp_pages p i) = (page, True)"
    "page_of_node page (bp_page_size pool) nd"
    by (rule write_node_fits [OF assms(4) d(2,3) assms(5)])
  define pool' where "pool' = garry_pool_release_page (garry_pool_mark_dirty (pool_write p i page) pid) pid"
  have eq: "garry_store_node pool pid nd = pool'"
    by (simp add: garry_store_node_def p(1) sz w(1) pool'_def)
  note st = store_release_idle [OF p(2,4) assms(2) _ pool'_def, unfolded p(5), OF p(7)]
  show "pool_idle n (garry_store_node pool pid nd)" using st(1) by (simp add: eq)
  show "node_at (garry_store_node pool pid nd) pid nd"
    using st sz w(2) assms(2-4) by (simp add: eq node_at_def)
  show "page_frame {pid} pool (garry_store_node pool pid nd)"
    using st sz p(3) by (simp add: eq page_frame_def same_view_def)
  show "bp_next_page (garry_store_node pool pid nd) = bp_next_page pool"
    using st sz by (simp add: eq)
qed

lemma mark_dirty_idle:
  assumes "pool_idle n pool"
  shows "pool_idle n (garry_pool_mark_dirty pool pid)"
  using assms ready_change [of n pool "garry_pool_mark_dirty pool pid"]
    mark_dirty_inv [OF pool_idle_inv [OF assms]]
  by (simp add: pool_idle_def)

lemma mark_dirty_frame [simp]:
  "page_frame P pool (garry_pool_mark_dirty pool' pid) \<longleftrightarrow> page_frame P pool pool'"
  "node_at (garry_pool_mark_dirty pool' pid) q nd \<longleftrightarrow> node_at pool' q nd"
  by (simp_all add: page_frame_def node_at_def)

text \<open>A page allocated in an idle pool.\<close>

lemma allocate_idle:
  assumes idle: "pool_idle (n + 1) pool" and free: "bp_free_list_head pool < 0"
  obtains pool' where "garry_pool_allocate pool = (pool', bp_next_page pool)" "pool_idle n pool'"
    "page_frame {} pool pool'" "bp_next_page pool' = bp_next_page pool + 1"
proof -
  note inv = pool_idle_inv [OF idle]
  note d = pool_invD [OF inv]
  have "bp_pin_counts pool 0 = 0" "0 < bp_capacity pool"
    using d(1) idle by (auto simp: pool_idle_def)
  then obtain p where a: "garry_pool_allocate pool = (p, bp_next_page pool)" and r: "pool_ready n p"
    using allocate_fresh_ready [of n pool 0] pool_idle_ready [OF idle] free by auto
  note sp = allocate_fresh_spec [OF inv free a]
  have "bp_next_page pool \<noteq> -1" using d(4) by simp
  with sp(9) have "bp_next_page p = bp_next_page pool + 1" by simp
  moreover have "page_frame {} pool p"
    using sp(3,4,6) \<open>bp_next_page p = bp_next_page pool + 1\<close> by (simp add: page_frame_def)
  moreover have "pool_idle n p" using r sp(2,7) idle by (auto simp: pool_idle_def)
  ultimately show ?thesis using a that by blast
qed

lemma allocate_node_idle:
  assumes idle: "pool_idle (n + 3) pool" and free: "bp_free_list_head pool < 0"
  obtains pool' where "allocate_node pool kind = (pool', bp_next_page pool)" "pool_idle n pool'"
    "fresh_at pool' (bp_next_page pool) kind" "page_frame {bp_next_page pool} pool pool'"
    "bp_next_page pool' = bp_next_page pool + 1"
proof -
  let ?pid = "bp_next_page pool"
  note d = pool_invD [OF pool_idle_inv [OF idle]]
  obtain p1 where a: "garry_pool_allocate pool = (p1, ?pid)" "pool_idle (n + 2) p1"
    "page_frame {} pool p1" "bp_next_page p1 = ?pid + 1"
    using allocate_idle [of "n + 2" pool] idle free by (auto simp: numeral_3_eq_3)
  from a(2) d(4) obtain p2 i where p: "garry_pool_pin_page p1 ?pid = (p2, Some i)"
    "pool_ready n p2" "same_view p1 p2" "find_slot p2 ?pid = Some i"
    "bp_capacity p2 = bp_capacity p1"
    "agree 0 (bp_page_size p1) (page_view p1 ?pid) (bp_pages p2 i)"
    "\<And>j. j < bp_capacity p1 \<Longrightarrow> bp_pin_counts p2 j = (if j = i then 1 else 0)"
    by (rule idle_pin_cases) (use a(4) in simp, blast)
  define page where "page = garry_page_init (bp_pages p2 i) kind 0 (bp_page_size p2)"
  define pool' where "pool' = garry_pool_release_page (garry_pool_mark_dirty (pool_write p2 i page) ?pid) ?pid"
  note st = store_release_idle [OF p(2,4) d(4) _ pool'_def, unfolded p(5), OF p(7)]
  have sz: "bp_page_size p2 = bp_page_size pool" "bp_next_page p2 = ?pid + 1"
    "bp_free_list_head p2 = bp_free_list_head pool"
    using p(3) a(3,4) by (simp_all add: same_view_def page_frame_def)
  note i = page_init_wf [OF d(2,3), of 0] page_init_records [OF d(2,3), of 0]
    page_init_fields [OF d(2,3), of 0]
  show ?thesis
  proof (rule that)
    show "allocate_node pool kind = (pool', ?pid)"
      using d(4) by (simp add: allocate_node_def a(1) p(1) Let_def pool'_def page_def)
    show "fresh_at pool' ?pid kind"
      using d(4) st i sz by (simp add: fresh_at_def page_def)
    show "page_frame {?pid} pool pool'"
      using st sz a(3) p(3) d(4)
      by (auto simp: page_frame_def same_view_def intro: agree_trans)
    show "bp_next_page pool' = ?pid + 1" using st sz by simp
  qed (use st in simp)
qed

lemmas allocate_leaf_idle = allocate_node_idle [where kind = GARRY_NODE_LEAF, folded garry_allocate_leaf_def]
lemmas allocate_internal_idle =
  allocate_node_idle [where kind = GARRY_NODE_INTERNAL, folded garry_allocate_internal_def]

subsection \<open>Properties\<close>

text \<open>C23. Nodes survive their pages: a node that fits is stored so that loading its page gives it
  back, up to what no page records, and every other node of the pool loads as before. With pages of
  2048 bytes or more every node of at most three entries with keys and values below 256 bytes fits.\<close>

theorem node_store_load_roundtrip:
  assumes "pool_idle 4 pool" "0 \<le> pid" "pid < bp_next_page pool" "node_ok nd"
    and "node_fits nd (bp_page_size pool) \<or> 2048 \<le> bp_page_size pool"
    and "node_at pool q other" "q \<noteq> pid"
  shows "snd (garry_load_node (garry_store_node pool pid nd) pid) = canon nd \<and>
    node_entries (canon nd) = node_entries nd \<and>
    snd (garry_load_node (garry_store_node pool pid nd) q) = snd (garry_load_node pool q)"
proof -
  have fits: "node_fits nd (bp_page_size pool)" using assms(5) node_fits_2048 [OF assms(4)] by blast
  have i: "pool_idle (2 + 2) pool" "pool_idle (0 + 2) pool" using assms(1) by (simp_all add: pool_idle_mono)
  note s = store_node_at [OF i(1) assms(2-4) fits]
  have i': "pool_idle (0 + 2) (garry_store_node pool pid nd)" using s(1) by (rule pool_idle_mono) simp
  have q: "node_at (garry_store_node pool pid nd) q other"
    using node_at_frame [OF assms(6) s(3)] assms(7) by simp
  show ?thesis
    using load_node_at [OF i' s(2)] load_node_at [OF i' q] load_node_at [OF i(2) assms(6)]
    by (metis snd_conv canon_entries)
qed

definition demo_leaf :: garry_btree_node where
  "demo_leaf = (fresh_node GARRY_NODE_LEAF)\<lparr>nd_keys := (\<lambda>_. []) (0 := [97], 1 := [98]),
     nd_values := (\<lambda>_. []) (0 := [1], 1 := [2]), nd_next_page := 5, nd_entry_count := 2\<rparr>"

lemma fresh_node_simps [simp]:
  "nd_kind (fresh_node k) = k" "nd_entry_count (fresh_node k) = 0" "nd_keys (fresh_node k) = (\<lambda>_. [])"
  "nd_values (fresh_node k) = (\<lambda>_. [])" "nd_children (fresh_node k) = (\<lambda>_. 0)"
  "nd_next_page (fresh_node k) = -1" "nd_prev_page (fresh_node k) = -1"
  "ph_page_level (nd_header (fresh_node k)) = 0"
  by (simp_all add: fresh_node_def blank_node_def zero_header_def)

lemma demo_leaf_ok: "node_ok demo_leaf" "node_ok (fresh_node GARRY_NODE_LEAF)"
  by (auto simp: node_ok_def demo_leaf_def node_consts id_ok_def num_children_def)

lemma demo_leaf_fits: "node_fits demo_leaf 512" "node_fits (fresh_node GARRY_NODE_LEAF) 512"
  by code_simp+

theorem node_store_load_roundtrip_witness:
  "node_entries (snd (garry_load_node (garry_store_node
      (garry_store_node demo_pool 1 (fresh_node GARRY_NODE_LEAF)) 0 demo_leaf) 0)) = [([97], [1]), ([98], [2])]"
proof -
  have sz: "bp_page_size demo_pool = 512" "bp_next_page demo_pool = 2" by (simp_all add: demo_pool_eq)
  let ?p = "garry_store_node demo_pool 1 (fresh_node GARRY_NODE_LEAF)"
  have s: "pool_idle 4 ?p" "node_at ?p 1 (fresh_node GARRY_NODE_LEAF)" "page_frame {1} demo_pool ?p"
    "bp_next_page ?p = bp_next_page demo_pool"
    using store_node_at [of 4 demo_pool 1 "fresh_node GARRY_NODE_LEAF"] pool_idle_mono [OF demo_pool_idle, of 6]
      demo_leaf_ok demo_leaf_fits sz by simp_all
  have "bp_page_size ?p = 512" using s(3) sz by (simp add: page_frame_def)
  with node_store_load_roundtrip [OF s(1) _ _ demo_leaf_ok(1) _ s(2), of 0] demo_leaf_fits(1) s(4) sz
  show ?thesis by (simp add: node_entries_def demo_leaf_def entry_value_def upto_rec1)
qed

end
