(* ===== verification/Garry_BTreeSpec.thy ===== *)
theory Garry_BTreeSpec
  imports Garry_BTreeNode
begin

text \<open>
  The abstract B-tree the pages of \<open>src/src/btree_modify.c\<close> and \<open>src/src/btree_search.c\<close>
  represent: a tree whose nodes carry their page numbers, its entries in key order, the order
  invariant with the separators as bounds, and the association-list insertion that the code
  implements. \<open>tree_at\<close> says that the pages of a pool hold a tree and that its leaves are chained
  by their \<open>next_page\<close> links.
\<close>

subsection \<open>Sorted association lists\<close>

type_synonym key = "byte list"
type_synonym entry = "byte list \<times> byte list"

fun ins_entry :: "key \<Rightarrow> 'v \<Rightarrow> (key \<times> 'v) list \<Rightarrow> (key \<times> 'v) list" where
  "ins_entry k v [] = [(k, v)]"
| "ins_entry k v ((k', v') # es) =
     (if k < k' then (k, v) # (k', v') # es
      else if k = k' then (k, v) # es
      else (k', v') # ins_entry k v es)"

definition keys_sorted :: "entry list \<Rightarrow> bool" where
  "keys_sorted es \<longleftrightarrow> sorted_wrt (<) (map fst es)"

lemma ins_entry_prefix: "\<forall>x \<in> set xs. fst x < k \<Longrightarrow> ins_entry k v (xs @ ys) = xs @ ins_entry k v ys"
  by (induction xs) auto

lemma ins_entry_suffix: "\<forall>y \<in> set ys. k < fst y \<Longrightarrow> ins_entry k v (xs @ ys) = ins_entry k v xs @ ys"
proof (induction xs)
  case Nil
  then show ?case by (cases ys) auto
qed auto

lemma ins_entry_map: "map (\<lambda>(k, v). (k, f v)) (ins_entry k v es) = ins_entry k (f v) (map (\<lambda>(k, v). (k, f v)) es)"
  by (induction k v es rule: ins_entry.induct) auto

lemma ins_entry_new:
  "k \<notin> fst ` set es \<Longrightarrow> \<exists>xs ys. es = xs @ ys \<and> ins_entry k v es = xs @ (k, v) # ys"
proof (induction k v es rule: ins_entry.induct)
  case (2 k v k' v' es)
  show ?case
  proof (cases "k < k'")
    case True
    then show ?thesis by (intro exI [of _ "[]"] exI [of _ "(k', v') # es"]) simp
  next
    case False
    with 2 obtain xs ys where "es = xs @ ys" "ins_entry k v es = xs @ (k, v) # ys" by auto
    with False 2(2) show ?thesis by (intro exI [of _ "(k', v') # xs"] exI [of _ ys]) simp
  qed
qed simp

lemma map_of_ins_entry: "map_of (ins_entry k v es) = (map_of es)(k \<mapsto> v)"
  by (induction k v es rule: ins_entry.induct) (auto simp: fun_eq_iff)

lemma set_ins_entry: "fst ` set (ins_entry k v es) = insert k (fst ` set es)"
  by (induction k v es rule: ins_entry.induct) auto

lemma keys_sorted_Cons: "keys_sorted (x # xs) \<longleftrightarrow> (\<forall>y \<in> set xs. fst x < fst y) \<and> keys_sorted xs"
  by (auto simp: keys_sorted_def)

lemma ins_entry_above: "\<forall>y \<in> set es. x < fst y \<Longrightarrow> x < k \<Longrightarrow> \<forall>y \<in> set (ins_entry k v es). x < fst y"
  by (induction k v es rule: ins_entry.induct) auto

lemma ins_entry_sorted: "keys_sorted es \<Longrightarrow> keys_sorted (ins_entry k v es)"
proof (induction k v es rule: ins_entry.induct)
  case (2 k v k' v' es)
  consider "k < k'" | "k = k'" | "k' < k" by (rule linorder_cases)
  then show ?case
  proof cases
    case 1
    with 2 show ?thesis by (auto simp: keys_sorted_Cons intro: order.strict_trans)
  next
    case 3
    with 2 ins_entry_above [of es k' k v] show ?thesis by (auto simp: keys_sorted_Cons)
  qed (use 2 in \<open>simp add: keys_sorted_Cons\<close>)
qed (simp add: keys_sorted_def)

text \<open>Insertion by position, as the node operations do it.\<close>

lemma ins_entry_at:
  assumes "\<forall>x \<in> set xs. fst x < k" "\<forall>y \<in> set ys. k < fst y"
  shows "ins_entry k v (xs @ ys) = xs @ (k, v) # ys"
  using ins_entry_prefix [OF assms(1), of v ys] ins_entry_suffix [OF assms(2), of v "[]"] by simp

lemma ins_entry_replace:
  assumes "\<forall>x \<in> set xs. fst x < k"
  shows "ins_entry k v (xs @ (k, v') # ys) = xs @ (k, v) # ys"
  using ins_entry_prefix [OF assms, of v "(k, v') # ys"] by simp

subsection \<open>Trees\<close>

datatype btree =
    Lf int "entry list"
  | Nd int "btree list" "key list"

fun root_page :: "btree \<Rightarrow> int" where
  "root_page (Lf p es) = p"
| "root_page (Nd p ts ks) = p"

fun inorder :: "btree \<Rightarrow> entry list" where
  "inorder (Lf p es) = es"
| "inorder (Nd p ts ks) = concat (map inorder ts)"

fun tree_pages :: "btree \<Rightarrow> int list" where
  "tree_pages (Lf p es) = [p]"
| "tree_pages (Nd p ts ks) = p # concat (map tree_pages ts)"

fun first_leaf :: "btree \<Rightarrow> int" where
  "first_leaf (Lf p es) = p"
| "first_leaf (Nd p [] ks) = p"
| "first_leaf (Nd p (t # ts) ks) = first_leaf t"

text \<open>All leaves are at the same depth.\<close>

fun balanced :: "nat \<Rightarrow> btree \<Rightarrow> bool" where
  "balanced h (Lf p es) \<longleftrightarrow> h = 0"
| "balanced h (Nd p ts ks) \<longleftrightarrow> (case h of 0 \<Rightarrow> False | Suc h' \<Rightarrow> \<forall>t \<in> set ts. balanced h' t)"

text \<open>A separator bounds the keys on its left from above and those on its right from below. The
  least key is \<open>[]\<close>, a missing upper bound is \<open>None\<close>.\<close>

definition in_range :: "key \<Rightarrow> key option \<Rightarrow> key \<Rightarrow> bool" where
  "in_range lo hi k \<longleftrightarrow> lo \<le> k \<and> (case hi of None \<Rightarrow> True | Some h \<Rightarrow> k < h)"

fun ordered :: "key \<Rightarrow> key option \<Rightarrow> btree \<Rightarrow> bool"
  and ordered_list :: "key \<Rightarrow> key option \<Rightarrow> btree list \<Rightarrow> key list \<Rightarrow> bool" where
  "ordered lo hi (Lf p es) \<longleftrightarrow> keys_sorted es \<and> (\<forall>e \<in> set es. in_range lo hi (fst e))"
| "ordered lo hi (Nd p ts ks) \<longleftrightarrow> ordered_list lo hi ts ks"
| "ordered_list lo hi [t] [] \<longleftrightarrow> ordered lo hi t"
| "ordered_list lo hi (t # ts) (k # ks) \<longleftrightarrow>
     lo < k \<and> in_range lo hi k \<and> ordered lo (Some k) t \<and> ordered_list k hi ts ks"
| "ordered_list lo hi _ _ \<longleftrightarrow> False"

lemma in_range_least [simp]: "in_range [] None k"
  by (simp add: in_range_def)

lemma ordered_list_Nil [simp]: "\<not> ordered_list lo hi [] ks"
  by (cases ks) simp_all

lemma ordered_list_Cons_Nil [simp]: "ordered_list lo hi (t # ts) [] \<longleftrightarrow> ts = [] \<and> ordered lo hi t"
  by (cases ts) simp_all

lemma ordered_list_length: "ordered_list lo hi ts ks \<Longrightarrow> length ts = Suc (length ks)"
proof (induction ks arbitrary: lo ts)
  case Nil
  then show ?case by (cases ts) auto
next
  case (Cons k ks)
  then show ?case by (cases ts) auto
qed

lemma in_range_below: "in_range lo (Some k) x \<Longrightarrow> in_range lo hi k \<Longrightarrow> in_range lo hi x"
  by (auto simp: in_range_def split: option.splits intro: order.strict_trans)

lemma in_range_above: "in_range k hi x \<Longrightarrow> in_range lo hi k \<Longrightarrow> in_range lo hi x"
  by (auto simp: in_range_def split: option.splits)

lemma ordered_in_range:
  "ordered lo hi t \<Longrightarrow> e \<in> set (inorder t) \<Longrightarrow> in_range lo hi (fst e)"
  "ordered_list lo hi ts ks \<Longrightarrow> e \<in> set (concat (map inorder ts)) \<Longrightarrow> in_range lo hi (fst e)"
proof (induction lo hi t and lo hi ts ks rule: ordered_ordered_list.induct)
  case (4 lo hi t ts k ks)
  then show ?case by (auto intro: in_range_below in_range_above)
qed auto

lemma keys_sorted_append:
  "keys_sorted (xs @ ys) \<longleftrightarrow>
     keys_sorted xs \<and> keys_sorted ys \<and> (\<forall>x \<in> set xs. \<forall>y \<in> set ys. fst x < fst y)"
  by (auto simp: keys_sorted_def sorted_wrt_append)

lemma in_range_cross: "in_range lo (Some k) x \<Longrightarrow> in_range k hi y \<Longrightarrow> x < y"
  by (auto simp: in_range_def)

lemma ordered_sorted:
  "ordered lo hi t \<Longrightarrow> keys_sorted (inorder t)"
  "ordered_list lo hi ts ks \<Longrightarrow> keys_sorted (concat (map inorder ts))"
proof (induction lo hi t and lo hi ts ks rule: ordered_ordered_list.induct)
  case (4 lo hi t ts k ks)
  then show ?case
    using ordered_in_range(1) [of lo "Some k" t] ordered_in_range(2) [of k hi ts ks]
    by (simp add: keys_sorted_append) (blast intro: in_range_cross)
qed auto

subsection \<open>Descending and replacing a child\<close>

text \<open>The upper bound of the child before the separators \<open>ks\<close>.\<close>

definition upper :: "key list \<Rightarrow> key option \<Rightarrow> key option" where
  "upper ks hi = (case ks of [] \<Rightarrow> hi | k # _ \<Rightarrow> Some k)"

lemma ordered_list_child:
  assumes "ordered_list lo hi (ts1 @ t # ts2) (ks1 @ ks2)" "length ts1 = length ks1"
  shows "ordered (last (lo # ks1)) (upper ks2 hi) t"
  using assms
proof (induction ks1 arbitrary: lo ts1)
  case Nil
  then show ?case by (cases ks2) (auto simp: upper_def)
next
  case (Cons k ks1)
  then obtain t' ts1' where "ts1 = t' # ts1'" by (cases ts1) auto
  with Cons show ?case by auto
qed

lemma ordered_list_append:
  assumes "ordered_list lo (Some k) us ss" "lo < k" "in_range lo hi k" "ordered_list k hi ts ks"
  shows "ordered_list lo hi (us @ ts) (ss @ k # ks)"
  using assms
proof (induction ss arbitrary: lo us)
  case Nil
  then show ?case by (cases us) auto
next
  case (Cons s ss)
  then obtain u us' where u: "us = u # us'" by (cases us) auto
  have s: "in_range lo (Some k) s" "ordered_list s (Some k) us' ss" "ordered lo (Some s) u" "lo < s"
    using Cons.prems(1) by (simp_all add: u)
  have "s < k" "in_range s hi k" using s(1) Cons.prems(3) by (auto simp: in_range_def)
  with Cons.IH [OF s(2)] Cons.prems(3,4) s show ?case by (simp add: u in_range_below)
qed

lemma ordered_list_splice:
  assumes "ordered_list lo hi (ts1 @ t # ts2) (ks1 @ ks2)" "length ts1 = length ks1"
    and "ordered_list (last (lo # ks1)) (upper ks2 hi) us ss"
  shows "ordered_list lo hi (ts1 @ us @ ts2) (ks1 @ ss @ ks2)"
  using assms
proof (induction ks1 arbitrary: lo ts1)
  case Nil
  show ?case
  proof (cases ks2)
    case Nil
    with Nil.prems show ?thesis by (simp add: upper_def)
  next
    case (Cons k ks)
    with Nil.prems show ?thesis by (auto simp: upper_def intro: ordered_list_append)
  qed
next
  case (Cons k ks1)
  then obtain t' ts1' where "ts1 = t' # ts1'" by (cases ts1) auto
  with Cons show ?case by auto
qed

text \<open>A node split in two: the middle separator goes up.\<close>

lemma ordered_list_split:
  assumes "ordered_list lo hi (ts1 @ ts2) (ks1 @ k # ks2)" "length ts1 = Suc (length ks1)"
  shows "ordered_list lo (Some k) ts1 ks1 \<and> lo < k \<and> in_range lo hi k \<and> ordered_list k hi ts2 ks2"
  using assms
proof (induction ks1 arbitrary: lo ts1)
  case Nil
  then show ?case by (cases ts1) auto
next
  case (Cons s ks1)
  then obtain t' ts1' where t: "ts1 = t' # ts1'" by (cases ts1) auto
  with Cons.prems have s: "lo < s" "in_range lo hi s" "ordered lo (Some s) t'"
    "ordered_list s hi (ts1' @ ts2) (ks1 @ k # ks2)" "length ts1' = Suc (length ks1)" by simp_all
  note i = Cons.IH [OF s(4,5)]
  then have "in_range lo (Some k) s" "in_range lo hi k" "lo < k"
    using s(1,2) by (auto simp: in_range_def)
  with i s show ?case by (simp add: t)
qed

text \<open>The keys before and after the child that is searched.\<close>

lemma ordered_list_before:
  assumes "ordered_list lo hi (ts1 @ t # ts2) (ks1 @ ks2)" "length ts1 = length ks1"
    and "\<forall>x \<in> set ks1. x \<le> k" "e \<in> set (concat (map inorder ts1))"
  shows "fst e < k"
  using assms
proof (induction ks1 arbitrary: lo ts1)
  case (Cons s ks1)
  then obtain t' ts1' where t: "ts1 = t' # ts1'" by (cases ts1) auto
  show ?case
  proof (cases "e \<in> set (inorder t')")
    case True
    then have "fst e < s"
      using Cons.prems(1) ordered_in_range(1) [of lo "Some s" t' e] by (auto simp: t in_range_def)
    with Cons.prems(3) show ?thesis by auto
  qed (use Cons in \<open>auto simp: t\<close>)
qed simp

lemma ordered_list_after:
  assumes "ordered_list lo hi (ts1 @ t # ts2) (ks1 @ ks2)" "length ts1 = length ks1"
    and "ks2 \<noteq> [] \<Longrightarrow> k < hd ks2" "e \<in> set (concat (map inorder ts2))"
  shows "k < fst e"
  using assms
proof (induction ks1 arbitrary: lo ts1)
  case Nil
  show ?case
  proof (cases ks2)
    case Nil
    with Nil.prems show ?thesis by simp
  next
    case (Cons s ks)
    then have "in_range s hi (fst e)" using Nil.prems ordered_in_range(2) [of s hi ts2 ks e] by simp
    with Nil.prems(3) Cons show ?thesis by (auto simp: in_range_def)
  qed
next
  case (Cons s ks1)
  then obtain t' ts1' where "ts1 = t' # ts1'" by (cases ts1) auto
  with Cons show ?case by auto
qed

lemma child_in_range:
  assumes "in_range lo hi k" "\<forall>x \<in> set ks1. x \<le> k" "ks2 \<noteq> [] \<Longrightarrow> k < hd ks2"
  shows "in_range (last (lo # ks1)) (upper ks2 hi) k"
  using assms by (auto simp: in_range_def upper_def split: list.split)

subsection \<open>Trees on pages\<close>

text \<open>The page of a node in the pool, and the links of the leaves: the leaves of a tree are
  chained in key order and the last one links to \<open>nxt\<close>.\<close>

definition arr :: "int \<Rightarrow> (int \<Rightarrow> 'a) \<Rightarrow> 'a list" where
  "arr n f = map f [0..n - 1]"

definition leaf_at :: "garry_buffer_pool \<Rightarrow> int \<Rightarrow> entry list \<Rightarrow> int \<Rightarrow> bool" where
  "leaf_at pool p es nxt \<longleftrightarrow>
     (\<exists>nd. node_at pool p nd \<and> nd_kind nd = GARRY_NODE_LEAF \<and> node_entries nd = es \<and>
           nd_next_page nd = nxt)"

definition inner_at :: "garry_buffer_pool \<Rightarrow> int \<Rightarrow> int list \<Rightarrow> key list \<Rightarrow> bool" where
  "inner_at pool p cs ks \<longleftrightarrow>
     (\<exists>nd. node_at pool p nd \<and> nd_kind nd = GARRY_NODE_INTERNAL \<and> ks \<noteq> [] \<and>
           arr (nd_entry_count nd) (nd_keys nd) = ks \<and> arr (num_children nd) (nd_children nd) = cs)"

fun tree_at :: "garry_buffer_pool \<Rightarrow> int \<Rightarrow> btree \<Rightarrow> bool"
  and forest_at :: "garry_buffer_pool \<Rightarrow> int \<Rightarrow> btree list \<Rightarrow> bool" where
  "tree_at pool nxt (Lf p es) \<longleftrightarrow> leaf_at pool p es nxt"
| "tree_at pool nxt (Nd p ts ks) \<longleftrightarrow> inner_at pool p (map root_page ts) ks \<and> forest_at pool nxt ts"
| "forest_at pool nxt [] \<longleftrightarrow> True"
| "forest_at pool nxt (t # ts) \<longleftrightarrow>
     tree_at pool (case ts of [] \<Rightarrow> nxt | u # _ \<Rightarrow> first_leaf u) t \<and> forest_at pool nxt ts"

lemma leaf_at_frame:
  "leaf_at pool p es nxt \<Longrightarrow> page_frame P pool pool' \<Longrightarrow> p \<notin> P \<Longrightarrow> leaf_at pool' p es nxt"
  unfolding leaf_at_def using node_at_frame by blast

lemma inner_at_frame:
  "inner_at pool p cs ks \<Longrightarrow> page_frame P pool pool' \<Longrightarrow> p \<notin> P \<Longrightarrow> inner_at pool' p cs ks"
  unfolding inner_at_def using node_at_frame by blast

lemma tree_at_frame:
  "tree_at pool nxt t \<Longrightarrow> page_frame P pool pool' \<Longrightarrow> set (tree_pages t) \<inter> P = {} \<Longrightarrow> tree_at pool' nxt t"
  "forest_at pool nxt ts \<Longrightarrow> page_frame P pool pool' \<Longrightarrow>
     set (concat (map tree_pages ts)) \<inter> P = {} \<Longrightarrow> forest_at pool' nxt ts"
proof (induction pool nxt t and pool nxt ts rule: tree_at_forest_at.induct)
  case (1 pool nxt p es)
  then show ?case by (auto intro: leaf_at_frame)
next
  case (2 pool nxt p ts ks)
  then show ?case by (auto intro: inner_at_frame)
next
  case (4 pool nxt t ts)
  then have "set (tree_pages t) \<inter> P = {}" "set (concat (map tree_pages ts)) \<inter> P = {}" by auto
  with 4 show ?case by simp
qed simp

lemma root_page_in [simp]: "root_page t \<in> set (tree_pages t)"
  by (cases t) simp_all

lemma tree_pages_bound:
  "tree_at pool nxt t \<Longrightarrow> p \<in> set (tree_pages t) \<Longrightarrow> 0 \<le> p \<and> p < bp_next_page pool"
  "forest_at pool nxt ts \<Longrightarrow> p \<in> set (concat (map tree_pages ts)) \<Longrightarrow> 0 \<le> p \<and> p < bp_next_page pool"
proof (induction pool nxt t and pool nxt ts rule: tree_at_forest_at.induct)
  case (1 pool nxt q es)
  then show ?case by (auto simp: leaf_at_def node_at_def)
next
  case (2 pool nxt q ts ks)
  then show ?case by (auto simp: inner_at_def node_at_def)
qed auto

definition next_of :: "int \<Rightarrow> btree list \<Rightarrow> int" where
  "next_of nxt ts = (case ts of [] \<Rightarrow> nxt | u # _ \<Rightarrow> first_leaf u)"

lemma forest_at_Cons: "forest_at pool nxt (t # ts) \<longleftrightarrow> tree_at pool (next_of nxt ts) t \<and> forest_at pool nxt ts"
  by (simp add: next_of_def)

lemma next_of_append: "next_of nxt (ts @ us) = next_of (next_of nxt us) ts"
  by (simp add: next_of_def split: list.split)

lemma forest_at_append:
  "forest_at pool nxt (ts @ us) \<longleftrightarrow> forest_at pool (next_of nxt us) ts \<and> forest_at pool nxt us"
  by (induction ts) (auto simp: forest_at_Cons next_of_append simp del: forest_at.simps(2))

end
