(* ===== verification/Garry_BTree.thy ===== *)
theory Garry_BTree
  imports Garry_BTreeSpec
begin

text \<open>
  The B-tree: search (\<open>src/src/btree_search.c\<close>), insertion and deletion
  (\<open>src/src/btree_modify.c\<close>).

  The descents follow page numbers read from pages and end only if the pages form a tree, so
  they are partial functions: \<open>None\<close> is a descent that never returns. Temporary arrays are functions of the
  index; the allocations of memory succeed.

  The lemmas show that on pages that hold an ordered tree (\<open>Garry_BTreeSpec\<close>) the search returns
  and finds what the tree maps the key to, and that insertion returns, keeps the pages an ordered
  tree with chained leaves, and inserts into its entries.
\<close>

subsection \<open>Search\<close>

partial_function (option) garry_leaf_find_search ::
  "garry_buffer_pool \<Rightarrow> int \<Rightarrow> byte list \<Rightarrow> (garry_buffer_pool \<times> byte list option) option" where
  "garry_leaf_find_search pool page key =
     (let (pool, node) = garry_load_node pool page in
      if nd_kind node = GARRY_NODE_LEAF
      then (let idx = garry_leaf_find node key in
            if idx < 0 then Some (pool, None) else Some (pool, Some (nd_values node idx)))
      else if nd_kind node \<noteq> GARRY_NODE_INTERNAL then Some (pool, None)
      else if nd_entry_count node = 0 then Some (pool, None)
      else garry_leaf_find_search pool (nd_children node (garry_internal_find node key)) key)"

subsection \<open>Insertion\<close>

text \<open>The array after \<open>x\<close> went in at \<open>pos\<close>, and the array after the loop that copies \<open>n\<close>
  elements of \<open>src\<close> from \<open>off\<close> on.\<close>

definition insert_at :: "int \<Rightarrow> 'a \<Rightarrow> (int \<Rightarrow> 'a) \<Rightarrow> int \<Rightarrow> 'a" where
  "insert_at pos x f = (\<lambda>i. if i < pos then f i else if i = pos then x else f (i - 1))"

definition copy_from :: "(int \<Rightarrow> 'a) \<Rightarrow> int \<Rightarrow> int \<Rightarrow> (int \<Rightarrow> 'a) \<Rightarrow> int \<Rightarrow> 'a" where
  "copy_from src off n dst = (\<lambda>i. if 0 \<le> i \<and> i < n then src (off + i) else dst i)"

text \<open>Splitting a leaf: the pool, the left node as the caller sees it, the separator, the new page
  and the success flag. When no page can be allocated the node is as before and the outputs are as
  the caller set them.\<close>

definition leaf_split ::
  "garry_buffer_pool \<Rightarrow> int \<Rightarrow> garry_btree_node \<Rightarrow> byte list \<Rightarrow> byte list \<Rightarrow>
   garry_buffer_pool \<times> garry_btree_node \<times> byte list \<times> int \<times> bool" where
  "leaf_split pool page node key value =
     (let n = nd_entry_count node;
          all_count = n + 1;
          mid = all_count div 2;
          insert_pos = (case List.find (\<lambda>i. garry_byte_compare key (nd_keys node i) < 0) [0..n - 1] of
                          Some i \<Rightarrow> i | None \<Rightarrow> n);
          tmp_keys = insert_at insert_pos key (nd_keys node);
          tmp_values = insert_at insert_pos value (nd_values node);
          (pool, right_page) = garry_allocate_leaf pool
      in if right_page < 0 then (pool, node, [], -1, False)
         else
           (let (pool, right) = garry_load_node pool right_page;
                right = right\<lparr>nd_kind := GARRY_NODE_LEAF, nd_entry_count := all_count - mid,
                              nd_keys := copy_from tmp_keys mid (all_count - mid) (nd_keys right),
                              nd_values := copy_from tmp_values mid (all_count - mid) (nd_values right),
                              nd_next_page := nd_next_page node, nd_prev_page := page\<rparr>;
                node = node\<lparr>nd_entry_count := mid,
                            nd_keys := copy_from tmp_keys 0 mid (nd_keys node),
                            nd_values := copy_from tmp_values 0 mid (nd_values node),
                            nd_next_page := right_page\<rparr>;
                sep = nd_keys right 0;
                pool = garry_pool_mark_dirty pool page;
                pool = garry_store_node pool right_page right;
                pool = garry_store_node pool page node
            in (pool, node, sep, right_page, True)))"

text \<open>Splitting an internal node around the new separator and child.\<close>

definition internal_split ::
  "garry_buffer_pool \<Rightarrow> int \<Rightarrow> garry_btree_node \<Rightarrow> int \<Rightarrow> byte list \<Rightarrow> int \<Rightarrow>
   garry_buffer_pool \<times> byte list \<times> int \<times> bool" where
  "internal_split pool page node insert_idx insert_key insert_child =
     (let all_count = nd_entry_count node + 1;
          mid = all_count div 2;
          tmp_keys = insert_at insert_idx insert_key (nd_keys node);
          tmp_children = insert_at (insert_idx + 1) insert_child (nd_children node);
          (pool, right_page) = garry_allocate_internal pool
      in if right_page < 0 then (pool, [], -1, False)
         else
           (let (pool, right) = garry_load_node pool right_page;
                right_count = all_count - mid - 1;
                right = right\<lparr>nd_kind := GARRY_NODE_INTERNAL,
                              nd_header := (nd_header right)\<lparr>ph_page_type := GARRY_NODE_INTERNAL,
                                 ph_page_level := ph_page_level (nd_header node)\<rparr>,
                              nd_entry_count := right_count,
                              nd_next_page := nd_next_page node, nd_prev_page := page,
                              nd_keys := copy_from tmp_keys (mid + 1) right_count (nd_keys right),
                              nd_children := copy_from tmp_children (mid + 1) (right_count + 1)
                                               (nd_children right)\<rparr>;
                node = node\<lparr>nd_entry_count := mid,
                            nd_keys := copy_from tmp_keys 0 mid (nd_keys node),
                            nd_children := copy_from tmp_children 0 (mid + 1) (nd_children node),
                            nd_next_page := right_page\<rparr>;
                pool = garry_store_node pool right_page right;
                pool = garry_store_node pool page node;
                pool = garry_pool_mark_dirty pool right_page;
                pool = garry_pool_mark_dirty pool page
            in (pool, tmp_keys mid, right_page, True)))"

text \<open>The leaf branch of \<open>btree_insert_rec\<close>: update in place, insert into a leaf with room, or
  split. The results are the pool, \<open>sep\<close>, \<open>new_child\<close> and the success flag.\<close>

definition insert_into_leaf ::
  "garry_buffer_pool \<Rightarrow> int \<Rightarrow> garry_btree_node \<Rightarrow> byte list \<Rightarrow> byte list \<Rightarrow>
   garry_buffer_pool \<times> byte list \<times> int \<times> bool" where
  "insert_into_leaf pool page node key value =
     (let idx = garry_leaf_find node key; n = nd_entry_count node in
      if idx \<ge> 0
      then (let node = node\<lparr>nd_keys := (nd_keys node)(idx := key),
                            nd_values := (nd_values node)(idx := value)\<rparr>;
                pool = garry_store_node pool page node
            in (garry_pool_mark_dirty pool page, [], -1, True))
      else if n < GARRY_MAX_KEYS_PER_NODE - 1
      then (let idx = (case List.find (\<lambda>i. garry_byte_compare key (nd_keys node i) < 0)
                              (rev [0..n - 1]) of Some i \<Rightarrow> i | None \<Rightarrow> n);
                (node, inserted) = garry_leaf_insert node key value idx;
                pool = garry_store_node pool page node
            in (garry_pool_mark_dirty pool page, [], -1, inserted))
      else (let (pool, node, sep, new_child, inserted) = leaf_split pool page node key value;
                pool = garry_store_node pool page node
            in (pool, sep, new_child, inserted)))"

text \<open>What an internal node does with the result of the recursive call.\<close>

definition insert_separator ::
  "int \<Rightarrow> garry_btree_node \<Rightarrow> int \<Rightarrow> garry_buffer_pool \<times> byte list \<times> int \<times> bool \<Rightarrow>
   garry_buffer_pool \<times> byte list \<times> int \<times> bool" where
  "insert_separator page node idx res =
     (let (pool, child_sep, child_new, inserted) = res; n = nd_entry_count node in
      if inserted \<and> child_new \<ge> 0
      then (if n < GARRY_MAX_KEYS_PER_NODE
            then (let node = node\<lparr>nd_keys := (shift_up idx n (nd_keys node))(idx := child_sep),
                                  nd_children := (shift_up (idx + 1) (n + 1) (nd_children node))
                                                   (idx + 1 := child_new),
                                  nd_entry_count := n + 1\<rparr>;
                      pool = garry_store_node pool page node
                  in (garry_pool_mark_dirty pool page, [], -1, inserted))
            else (let (pool, sep, new_child, ok) = internal_split pool page node idx child_sep child_new
                  in if \<not> ok then (pool, sep, new_child, False) else (pool, sep, new_child, inserted)))
      else (pool, [], -1, inserted))"

partial_function (option) btree_insert_rec ::
  "garry_buffer_pool \<Rightarrow> int \<Rightarrow> byte list \<Rightarrow> byte list \<Rightarrow>
   (garry_buffer_pool \<times> byte list \<times> int \<times> bool) option" where
  "btree_insert_rec pool page key value =
     (let (pool, node) = garry_load_node pool page in
      if nd_kind node = GARRY_NODE_LEAF then Some (insert_into_leaf pool page node key value)
      else
        (let idx = garry_internal_find node key in
         Option.bind (btree_insert_rec pool (nd_children node idx) key value)
           (\<lambda>res. Some (insert_separator page node idx res))))"

text \<open>The pool, the root and the success flag.\<close>

definition garry_btree_insert ::
  "garry_buffer_pool \<Rightarrow> int \<Rightarrow> byte list \<Rightarrow> byte list \<Rightarrow> (garry_buffer_pool \<times> int \<times> bool) option" where
  "garry_btree_insert pool root key value =
     (let (pool, new_root_node) = garry_load_node pool root;
          orig_root_entries = nd_entry_count new_root_node
      in Option.bind (btree_insert_rec pool root key value) (\<lambda>(pool, sep, new_child, inserted).
           if new_child \<ge> 0
           then (let (pool, new_root_node) = garry_load_node pool root in
                 if nd_entry_count new_root_node \<le> orig_root_entries
                 then (let (pool, new_root_page) = garry_allocate_internal pool in
                       if new_root_page < 0 then Some (pool, root, False)
                       else
                         (let new_root_node = new_root_node
                                \<lparr>nd_kind := GARRY_NODE_INTERNAL,
                                 nd_header := zero_header\<lparr>ph_page_type := GARRY_NODE_INTERNAL,
                                                           ph_page_level := 0\<rparr>,
                                 nd_children := (\<lambda>i. if 2 \<le> i \<and> i < GARRY_MAX_KEYS_PER_NODE + 1 then 0
                                                     else nd_children new_root_node i)
                                                  (0 := root, 1 := new_child),
                                 nd_keys := (nd_keys new_root_node)(0 := sep),
                                 nd_entry_count := 1, nd_next_page := -1, nd_prev_page := -1\<rparr>;
                              pool = garry_store_node pool new_root_page new_root_node;
                              pool = garry_pool_mark_dirty pool new_root_page
                          in Some (pool, new_root_page, inserted)))
                 else Some (pool, root, inserted))
           else Some (pool, root, inserted)))"

subsection \<open>Deletion\<close>

text \<open>The array after the loop that moves the elements above \<open>idx\<close> and below \<open>n\<close> one place down.\<close>

definition shift_down :: "int \<Rightarrow> int \<Rightarrow> (int \<Rightarrow> 'a) \<Rightarrow> int \<Rightarrow> 'a" where
  "shift_down idx n f = (\<lambda>i. if idx \<le> i \<and> i < n - 1 then f (i + 1) else f i)"

text \<open>Both branches of \<open>rebalance_child\<close> merge two neighbours into the left one: the child and its
  left sibling, or for the first child the child and its right sibling.\<close>

definition rebalance_child ::
  "garry_buffer_pool \<Rightarrow> int \<Rightarrow> garry_btree_node \<Rightarrow> int \<Rightarrow> garry_buffer_pool \<times> garry_btree_node \<times> bool" where
  "rebalance_child pool parent_page parent child_idx =
     (let l = (if child_idx > 0 then child_idx - 1 else child_idx);
          left_page = nd_children parent l;
          right_page = nd_children parent (l + 1);
          (pool, left) = garry_load_node pool left_page;
          (pool, right) = garry_load_node pool right_page;
          merged_keys = nd_entry_count left + nd_entry_count right
            + (if nd_kind left = GARRY_NODE_INTERNAL then 1 else 0)
      in if merged_keys > GARRY_MAX_KEYS_PER_NODE then (pool, parent, False)
         else
           (let left = (if nd_kind left = GARRY_NODE_INTERNAL
                        then left\<lparr>nd_keys := (nd_keys left)(nd_entry_count left := nd_keys parent l),
                                  nd_entry_count := nd_entry_count left + 1\<rparr>
                        else left);
                base = nd_entry_count left;
                n = nd_entry_count right;
                left = left\<lparr>nd_keys := (\<lambda>i. if base \<le> i \<and> i < base + n then nd_keys right (i - base)
                                            else nd_keys left i),
                            nd_values := (\<lambda>i. if base \<le> i \<and> i < base + n then nd_values right (i - base)
                                              else nd_values left i),
                            nd_children := (if nd_kind right = GARRY_NODE_INTERNAL
                              then (\<lambda>i. if base \<le> i \<and> i \<le> base + n then nd_children right (i - base)
                                        else nd_children left i)
                              else nd_children left),
                            nd_entry_count := base + n,
                            nd_next_page := nd_next_page right\<rparr>;
                pool = garry_store_node pool left_page left;
                pool = garry_pool_mark_dirty pool left_page;
                m = nd_entry_count parent;
                parent = parent\<lparr>nd_keys := shift_down l m (nd_keys parent),
                                nd_children := shift_down (l + 1) (m + 1) (nd_children parent),
                                nd_entry_count := m - 1\<rparr>;
                pool = garry_store_node pool parent_page parent;
                pool = garry_pool_mark_dirty pool parent_page
            in (pool, parent, True)))"

definition delete_from_leaf ::
  "garry_buffer_pool \<Rightarrow> int \<Rightarrow> garry_btree_node \<Rightarrow> byte list \<Rightarrow> garry_buffer_pool \<times> garry_btree_node" where
  "delete_from_leaf pool page node key =
     (let idx = garry_leaf_find node key; n = nd_entry_count node in
      if idx \<ge> 0
      then (let node = node\<lparr>nd_keys := shift_down idx n (nd_keys node),
                            nd_values := shift_down idx n (nd_values node),
                            nd_entry_count := n - 1\<rparr>;
                pool = garry_store_node pool page node
            in (garry_pool_mark_dirty pool page, node))
      else (pool, node))"

text \<open>The pool and whether the node underflowed.\<close>

partial_function (option) btree_delete_rec ::
  "garry_buffer_pool \<Rightarrow> int \<Rightarrow> byte list \<Rightarrow> (garry_buffer_pool \<times> bool) option" where
  "btree_delete_rec pool page key =
     (let (pool, node) = garry_load_node pool page in
      if nd_kind node = GARRY_NODE_LEAF
      then (let (pool, node) = delete_from_leaf pool page node key
            in Some (pool, nd_entry_count node < GARRY_BTREE_MIN_KEYS))
      else
        (let idx = garry_internal_find node key in
         Option.bind (btree_delete_rec pool (nd_children node idx) key) (\<lambda>(pool, underflowed).
           let (pool, node) = (if underflowed
                               then (let (pool, node, _) = rebalance_child pool page node idx in (pool, node))
                               else (pool, node))
           in Some (pool, nd_entry_count node < GARRY_BTREE_MIN_KEYS))))"

definition garry_btree_delete ::
  "garry_buffer_pool \<Rightarrow> int \<Rightarrow> byte list \<Rightarrow> (garry_buffer_pool \<times> int) option" where
  "garry_btree_delete pool root key =
     Option.bind (btree_delete_rec pool root key) (\<lambda>(pool, underflowed).
       if underflowed
       then (let (pool, rnode) = garry_load_node pool root in
             if nd_kind rnode = GARRY_NODE_INTERNAL \<and> nd_entry_count rnode = 0
             then Some (garry_pool_free_page pool root, nd_children rnode 0)
             else Some (pool, root))
       else Some (pool, root))"

subsection \<open>Arrays as lists\<close>

lemma length_arr [simp]: "length (arr n f) = nat n"
  by (simp add: arr_def)

lemma nth_arr [simp]: "i < nat n \<Longrightarrow> arr n f ! i = f (int i)"
  by (simp add: arr_def)

lemma arr_cong: "(\<And>i. 0 \<le> i \<Longrightarrow> i < n \<Longrightarrow> f i = g i) \<Longrightarrow> arr n f = arr n g"
  by (simp add: arr_def)

lemma find_upto_Some:
  "List.find P [0..n - 1] = Some i \<Longrightarrow> 0 \<le> i \<and> i < n \<and> P i \<and> (\<forall>j. 0 \<le> j \<and> j < i \<longrightarrow> \<not> P j)"
proof -
  assume "List.find P [0..n - 1] = Some i"
  then obtain m where m: "m < length [0..n - 1]" "P ([0..n - 1] ! m)" "i = [0..n - 1] ! m"
    "\<And>j. j < m \<Longrightarrow> \<not> P ([0..n - 1] ! j)"
    by (auto simp: find_Some_iff)
  from m(1) have "int m < n" "i = int m" by (simp_all add: m(3) split: if_splits)
  moreover have "\<not> P j" if "0 \<le> j" "j < i" for j
    using m(4) [of "nat j"] that \<open>i = int m\<close> \<open>int m < n\<close> by simp
  ultimately show ?thesis using m by auto
qed

lemma find_upto_None: "List.find P [0..n - 1] = None \<Longrightarrow> 0 \<le> j \<Longrightarrow> j < n \<Longrightarrow> \<not> P j"
  by (auto simp: find_None_iff)

lemma arr_split: "0 \<le> i \<Longrightarrow> i \<le> n \<Longrightarrow> arr n f = arr i f @ arr (n - i) (\<lambda>j. f (i + j))"
  by (rule nth_equalityI) (auto simp: nth_append nat_diff_distrib)

lemma arr_Suc: "0 \<le> n \<Longrightarrow> arr (n + 1) f = f 0 # arr n (\<lambda>j. f (1 + j))"
  by (rule nth_equalityI) (auto simp: nth_Cons split: nat.split)

lemma arr_mid: "0 \<le> i \<Longrightarrow> i < n \<Longrightarrow> arr n f = arr i f @ f i # arr (n - i - 1) (\<lambda>j. f (i + 1 + j))"
  using arr_split [of i n f] arr_Suc [of "n - i - 1" "\<lambda>j. f (i + j)"] by (simp add: add.assoc)

subsection \<open>Searching a node\<close>

lemma first_greater:
  assumes "0 \<le> n" "idx = (case List.find (\<lambda>i. garry_byte_compare key (f i) < 0) [0..n - 1] of
    Some i \<Rightarrow> i | None \<Rightarrow> n)"
  shows "0 \<le> idx" "idx \<le> n" "\<forall>x \<in> set (arr idx f). x \<le> key"
    "arr (n - idx) (\<lambda>j. f (idx + j)) \<noteq> [] \<Longrightarrow> key < hd (arr (n - idx) (\<lambda>j. f (idx + j)))"
proof -
  have "0 \<le> idx \<and> idx \<le> n \<and> (\<forall>j. 0 \<le> j \<and> j < idx \<longrightarrow> \<not> key < f j) \<and> (idx < n \<longrightarrow> key < f idx)"
  proof (cases "List.find (\<lambda>i. garry_byte_compare key (f i) < 0) [0..n - 1]")
    case None
    have "\<not> key < f j" if "0 \<le> j" "j < n" for j
      using find_upto_None [OF None that] by (auto simp: byte_compare_lexicographic)
    with None assms show ?thesis by simp
  next
    case (Some i)
    with find_upto_Some [OF this] assms(2) show ?thesis
      by (auto simp: byte_compare_lexicographic split: if_splits)
  qed
  then show "0 \<le> idx" "idx \<le> n" "\<forall>x \<in> set (arr idx f). x \<le> key"
    "arr (n - idx) (\<lambda>j. f (idx + j)) \<noteq> [] \<Longrightarrow> key < hd (arr (n - idx) (\<lambda>j. f (idx + j)))"
    by (auto simp: arr_def not_less upto_rec1)
qed

text \<open>The child an internal node sends a key to.\<close>

lemma internal_find_split:
  assumes "0 \<le> nd_entry_count nd" "garry_internal_find nd key = idx"
  shows "0 \<le> idx" "idx \<le> nd_entry_count nd"
    "\<forall>x \<in> set (arr idx (nd_keys nd)). x \<le> key"
    "arr (nd_entry_count nd - idx) (\<lambda>j. nd_keys nd (idx + j)) \<noteq> [] \<Longrightarrow>
       key < hd (arr (nd_entry_count nd - idx) (\<lambda>j. nd_keys nd (idx + j)))"
  using first_greater [OF assms(1) assms(2) [symmetric, unfolded garry_internal_find_def]] by blast+

lemma leaf_find_cases:
  assumes "garry_leaf_find nd key = idx"
  obtains "idx < 0" "\<forall>i. 0 \<le> i \<and> i < nd_entry_count nd \<longrightarrow> nd_keys nd i \<noteq> key"
  | "0 \<le> idx" "idx < nd_entry_count nd" "nd_keys nd idx = key"
    "\<forall>j. 0 \<le> j \<and> j < idx \<longrightarrow> nd_keys nd j \<noteq> key"
proof (cases "List.find (\<lambda>i. garry_byte_equal (nd_keys nd i) key) [0..nd_entry_count nd - 1]")
  case None
  with find_upto_None [OF this] assms that(1) show ?thesis
    by (simp add: garry_leaf_find_def byte_equal_eq)
next
  case (Some i)
  with find_upto_Some [OF this] assms that(2) show ?thesis
    by (simp add: garry_leaf_find_def byte_equal_eq)
qed

lemma node_entries_arr: "node_entries nd = arr (nd_entry_count nd) (\<lambda>i. (nd_keys nd i, entry_value nd i))"
  by (simp add: node_entries_def arr_def)

lemma keys_of_entries: "map fst (node_entries nd) = arr (nd_entry_count nd) (nd_keys nd)"
  by (simp add: node_entries_arr arr_def)

lemma leaf_find_lookup:
  assumes "nd_kind nd = GARRY_NODE_LEAF"
  shows "map_of (node_entries nd) key =
    (let idx = garry_leaf_find nd key in if idx < 0 then None else Some (nd_values nd idx))"
proof (rule leaf_find_cases [OF refl, of nd key])
  assume "garry_leaf_find nd key < 0" "\<forall>i. 0 \<le> i \<and> i < nd_entry_count nd \<longrightarrow> nd_keys nd i \<noteq> key"
  then show ?thesis by (auto simp: map_of_eq_None_iff node_entries_def)
next
  let ?i = "garry_leaf_find nd key"
  assume i: "0 \<le> ?i" "?i < nd_entry_count nd" "nd_keys nd ?i = key"
    "\<forall>j. 0 \<le> j \<and> j < ?i \<longrightarrow> nd_keys nd j \<noteq> key"
  have "map_of (arr ?i (\<lambda>i. (nd_keys nd i, entry_value nd i))) key = None"
    using i(4) by (auto simp: map_of_eq_None_iff arr_def)
  then show ?thesis
    using i(1,3) by (simp add: node_entries_arr arr_mid [OF i(1,2)] entry_value_def assms map_add_def)
qed

lemma canon_find [simp]:
  "garry_leaf_find (canon nd) key = garry_leaf_find nd key"
  "garry_internal_find (canon nd) key = garry_internal_find nd key"
proof -
  have k: "nd_keys (canon nd) i = nd_keys nd i" if "i \<in> set [0..nd_entry_count nd - 1]" for i
    using that by simp
  have "List.find (\<lambda>i. garry_byte_equal (nd_keys (canon nd) i) key) [0..nd_entry_count nd - 1] =
      List.find (\<lambda>i. garry_byte_equal (nd_keys nd i) key) [0..nd_entry_count nd - 1]"
    by (rule find_cong [OF refl]) (simp only: k)
  moreover have "List.find (\<lambda>i. garry_byte_compare key (nd_keys (canon nd) i) < 0) [0..nd_entry_count nd - 1] =
      List.find (\<lambda>i. garry_byte_compare key (nd_keys nd i) < 0) [0..nd_entry_count nd - 1]"
    by (rule find_cong [OF refl]) (simp only: k)
  ultimately show "garry_leaf_find (canon nd) key = garry_leaf_find nd key"
    "garry_internal_find (canon nd) key = garry_internal_find nd key"
    by (simp_all add: garry_leaf_find_def garry_internal_find_def cong: option.case_cong)
qed

subsection \<open>Search on a tree\<close>

text \<open>A descent into the child for a key, on the tree and on the page of the node.\<close>

lemma inner_at_descend:
  assumes "inner_at pool p (map root_page ts) ks" "forest_at pool nxt ts" "ordered_list lo hi ts ks"
  obtains nd ts1 t ts2 ks1 ks2 where "node_at pool p nd" "nd_kind nd = GARRY_NODE_INTERNAL"
    "0 < nd_entry_count nd" "ks = ks1 @ ks2" "ts = ts1 @ t # ts2" "length ts1 = length ks1"
    "length ts2 = length ks2" "garry_internal_find nd key = int (length ks1)"
    "nd_entry_count nd = int (length ks)"
    "nd_children (canon nd) (int (length ks1)) = root_page t"
    "\<forall>x \<in> set ks1. x \<le> key" "ks2 \<noteq> [] \<Longrightarrow> key < hd ks2"
    "arr (nd_entry_count nd) (nd_keys nd) = ks" "arr (nd_entry_count nd + 1) (nd_children nd) = map root_page ts"
proof -
  obtain nd where nd: "node_at pool p nd" "nd_kind nd = GARRY_NODE_INTERNAL" "ks \<noteq> []"
    "arr (nd_entry_count nd) (nd_keys nd) = ks" "arr (num_children nd) (nd_children nd) = map root_page ts"
    using assms(1) by (auto simp: inner_at_def)
  have ok: "node_ok nd" using nd(1) by (simp add: node_at_def)
  note d = node_okD [OF ok]
  let ?n = "nd_entry_count nd"
  have c: "num_children nd = ?n + 1" using nd(2) by (simp add: num_children_def)
  have len: "?n = int (length ks)" using nd(4) d(3) by auto
  define idx where "idx = garry_internal_find nd key"
  note f = internal_find_split [OF d(3) idx_def [symmetric]]
  let ?i = "nat idx"
  have sp: "ks = arr idx (nd_keys nd) @ arr (?n - idx) (\<lambda>j. nd_keys nd (idx + j))"
    using arr_split [OF f(1,2), of "nd_keys nd"] nd(4) by simp
  have lt: "length ts = Suc (length ks)" by (rule ordered_list_length [OF assms(3)])
  have i: "?i < length ts" using f(1,2) len lt by simp
  have "map root_page ts ! ?i = nd_children nd idx"
    using i f(1) len lt unfolding nd(5) [symmetric] c by simp
  then have child: "nd_children (canon nd) idx = root_page (ts ! ?i)"
    using i f(1,2) c by simp
  show ?thesis
  proof (rule that [OF nd(1,2) _ sp id_take_nth_drop [OF i]])
    show "0 < ?n" using nd(3) len by simp
    show "length (take ?i ts) = length (arr idx (nd_keys nd))" using i by simp
    show "length (drop (Suc ?i) ts) = length (arr (?n - idx) (\<lambda>j. nd_keys nd (idx + j)))"
      using f(1,2) len lt by simp
    show "garry_internal_find nd key = int (length (arr idx (nd_keys nd)))"
      using f(1) by (simp add: idx_def)
    show "nd_children (canon nd) (int (length (arr idx (nd_keys nd)))) = root_page (ts ! ?i)"
      using child f(1) by simp
  qed (use f(3,4) len nd(4,5) c in simp_all)
qed

lemma map_of_child:
  assumes "ordered_list lo hi (ts1 @ t # ts2) (ks1 @ ks2)" "length ts1 = length ks1"
    and "\<forall>x \<in> set ks1. x \<le> key" "ks2 \<noteq> [] \<Longrightarrow> key < hd ks2"
  shows "map_of (concat (map inorder (ts1 @ t # ts2))) key = map_of (inorder t) key"
proof -
  have "map_of (concat (map inorder ts1)) key = None" "map_of (concat (map inorder ts2)) key = None"
    using ordered_list_before [OF assms(1-3)] ordered_list_after [OF assms(1,2,4)]
    by (force simp: map_of_eq_None_iff)+
  then show ?thesis by (auto simp: map_add_def split: option.split)
qed

lemma search_tree:
  assumes "pool_idle (n + 2 * Suc h) pool" "tree_at pool nxt t" "ordered lo hi t" "balanced h t"
  shows "\<exists>pool'. garry_leaf_find_search pool (root_page t) key = Some (pool', map_of (inorder t) key) \<and>
    pool_idle n pool' \<and> page_frame {} pool pool' \<and> bp_next_page pool' = bp_next_page pool"
  using assms
proof (induction h arbitrary: pool nxt t lo hi)
  case 0
  then obtain p es where t: "t = Lf p es" by (cases t) auto
  obtain nd where nd: "node_at pool p nd" "nd_kind nd = GARRY_NODE_LEAF" "node_entries nd = es"
    using "0.prems"(2) by (auto simp: t leaf_at_def)
  have i: "pool_idle (n + 2) pool" using "0.prems"(1) by simp
  obtain pool' where l: "garry_load_node pool p = (pool', canon nd)" "pool_idle n pool'"
    "page_frame {} pool pool'" "bp_next_page pool' = bp_next_page pool"
    by (rule load_node_at [OF i nd(1)])
  have "map_of (node_entries (canon nd)) key =
      (let idx = garry_leaf_find (canon nd) key in if idx < 0 then None else Some (nd_values (canon nd) idx))"
    by (rule leaf_find_lookup) (simp add: nd(2))
  then show ?case
    using l(2-4) nd(2,3) by (subst garry_leaf_find_search.simps) (simp add: t l(1) Let_def)
next
  case (Suc h)
  from Suc.prems(4) obtain p ts ks where t: "t = Nd p ts ks" and b: "\<forall>t \<in> set ts. balanced h t"
    by (cases t) auto
  have at: "inner_at pool p (map root_page ts) ks" "forest_at pool nxt ts" "ordered_list lo hi ts ks"
    using Suc.prems(2,3) by (simp_all add: t)
  obtain nd ts1 u ts2 ks1 ks2 where nd: "node_at pool p nd" "nd_kind nd = GARRY_NODE_INTERNAL"
    "0 < nd_entry_count nd" and sp: "ks = ks1 @ ks2" "ts = ts1 @ u # ts2" "length ts1 = length ks1"
    and f: "garry_internal_find nd key = int (length ks1)"
    "nd_children (canon nd) (int (length ks1)) = root_page u"
    "\<forall>x \<in> set ks1. x \<le> key" "ks2 \<noteq> [] \<Longrightarrow> key < hd ks2"
    by (rule inner_at_descend [OF at, of key]) blast
  have i: "pool_idle (n + 2 * Suc h + 2) pool" using Suc.prems(1) by simp
  obtain p1 where l: "garry_load_node pool p = (p1, canon nd)" "pool_idle (n + 2 * Suc h) p1"
    "page_frame {} pool p1" "bp_next_page p1 = bp_next_page pool"
    by (rule load_node_at [OF i nd(1)])
  have "tree_at p1 (next_of nxt ts2) u"
    using at(2) tree_at_frame(1) [OF _ l(3), of "next_of nxt ts2" u]
    by (simp add: sp forest_at_append forest_at_Cons del: forest_at.simps(2))
  moreover have "ordered (last (lo # ks1)) (upper ks2 hi) u"
    using ordered_list_child [of lo hi ts1 u ts2 ks1 ks2] at(3) sp by simp
  moreover have "balanced h u" using b sp(2) by simp
  ultimately obtain p2 where s: "garry_leaf_find_search p1 (root_page u) key = Some (p2, map_of (inorder u) key)"
    "pool_idle n p2" "page_frame {} p1 p2" "bp_next_page p2 = bp_next_page p1"
    using Suc.IH [OF l(2)] by blast
  have "map_of (inorder t) key = map_of (inorder u) key"
    using map_of_child [of lo hi ts1 u ts2 ks1 ks2 key] at(3) sp f(3,4) by (simp add: t)
  moreover have "garry_leaf_find_search pool (root_page t) key = garry_leaf_find_search p1 (root_page u) key"
    using nd(2,3) f(1,2) by (subst garry_leaf_find_search.simps) (simp add: t l(1))
  ultimately show ?case
    using s l(3,4) page_frame_trans [OF l(3) s(3)] by auto
qed

subsection \<open>Nodes after an update\<close>

lemma arr_shift_up:
  "0 \<le> i \<Longrightarrow> i \<le> n \<Longrightarrow> arr (n + 1) ((shift_up i n f)(i := x)) = arr i f @ x # arr (n - i) (\<lambda>j. f (i + j))"
  by (subst arr_mid [of i]) (auto simp: shift_up_def intro!: arr_cong)

lemma arr_insert_at:
  "0 \<le> i \<Longrightarrow> i \<le> n \<Longrightarrow> arr (n + 1) (insert_at i x f) = arr i f @ x # arr (n - i) (\<lambda>j. f (i + j))"
  by (subst arr_mid [of i]) (auto simp: insert_at_def intro!: arr_cong)

lemma arr_update:
  "0 \<le> i \<Longrightarrow> i < n \<Longrightarrow> arr n (f(i := x)) = arr i f @ x # arr (n - i - 1) (\<lambda>j. f (i + 1 + j))"
  by (subst arr_mid [of i]) (auto intro!: arr_cong)

lemma arr_copy_from: "arr n (copy_from src off n dst) = arr n (\<lambda>j. src (off + j))"
  by (rule arr_cong) (simp add: copy_from_def)

lemma arr_pair: "arr n (\<lambda>i. (f i, g i)) = zip (arr n f) (arr n g)"
  by (rule nth_equalityI) auto

lemma leaf_entries_zip:
  "nd_kind nd = GARRY_NODE_LEAF \<Longrightarrow>
     node_entries nd = arr (nd_entry_count nd) (\<lambda>i. (nd_keys nd i, nd_values nd i))"
  by (simp add: node_entries_arr entry_value_def)

lemma leaf_node_ok:
  assumes "nd_kind nd = GARRY_NODE_LEAF" "i32 (ph_page_level (nd_header nd))"
    and "0 \<le> nd_entry_count nd" "nd_entry_count nd \<le> 3" "id_ok (nd_next_page nd)" "id_ok (nd_prev_page nd)"
    and "\<forall>(k, v) \<in> set (node_entries nd). length k < 256 \<and> length v < 256"
  shows "node_ok nd"
proof -
  have "length (nd_keys nd i) < 256 \<and> length (nd_values nd i) < 256" if "0 \<le> i" "i < nd_entry_count nd" for i
  proof -
    have "(nd_keys nd i, nd_values nd i) \<in> set (node_entries nd)"
      using that by (auto simp: leaf_entries_zip [OF assms(1)] arr_def)
    with assms(7) show ?thesis by auto
  qed
  with assms(1-6) show ?thesis by (auto simp: node_ok_def num_children_def node_consts)
qed

lemma inner_node_ok:
  assumes "nd_kind nd = GARRY_NODE_INTERNAL" "i32 (ph_page_level (nd_header nd))"
    and "0 \<le> nd_entry_count nd" "nd_entry_count nd \<le> 3" "id_ok (nd_next_page nd)" "id_ok (nd_prev_page nd)"
    and "\<forall>c \<in> set (arr (nd_entry_count nd + 1) (nd_children nd)). id_ok c"
    and "\<forall>k \<in> set (arr (nd_entry_count nd) (nd_keys nd)). length k < 256"
    and "\<forall>i. length (nd_values nd i) < 256"
  shows "node_ok nd"
  using assms by (auto simp: node_ok_def num_children_def node_consts arr_def)

lemma node_at_leaf:
  "node_at pool p nd \<Longrightarrow> nd_kind nd = GARRY_NODE_LEAF \<Longrightarrow> leaf_at pool p (node_entries nd) (nd_next_page nd)"
  unfolding leaf_at_def by blast

lemma node_at_inner:
  "node_at pool p nd \<Longrightarrow> nd_kind nd = GARRY_NODE_INTERNAL \<Longrightarrow> 0 < nd_entry_count nd \<Longrightarrow>
     inner_at pool p (arr (nd_entry_count nd + 1) (nd_children nd)) (arr (nd_entry_count nd) (nd_keys nd))"
  unfolding inner_at_def by (rule exI [of _ nd]) (auto simp: num_children_def arr_def)

text \<open>The resources of an operation: no page is pinned, \<open>n\<close> more steps of the access counter and
  \<open>m\<close> more pages are available, no page is on the free list, and nodes fit pages.\<close>

definition tree_pool :: "nat \<Rightarrow> nat \<Rightarrow> garry_buffer_pool \<Rightarrow> bool" where
  "tree_pool n m pool \<longleftrightarrow>
     pool_idle n pool \<and> bp_free_list_head pool = -1 \<and> 2048 \<le> bp_page_size pool \<and>
     bp_next_page pool + int m \<le> 2 ^ 31 - GARRY_PAGE_ID_BIAS"

lemma tree_poolD:
  assumes "tree_pool n m pool"
  shows "pool_idle n pool" "bp_free_list_head pool < 0" "2048 \<le> bp_page_size pool"
    "bp_next_page pool + int m \<le> 2 ^ 31 - GARRY_PAGE_ID_BIAS" "bp_free_list_head pool = -1"
  using assms by (simp_all add: tree_pool_def)

lemma tree_pool_mono: "tree_pool n m pool \<Longrightarrow> n' \<le> n \<Longrightarrow> m' \<le> m \<Longrightarrow> tree_pool n' m' pool"
  by (auto simp: tree_pool_def intro: pool_idle_mono)

lemma load_tree_node:
  assumes "tree_pool (n + 2) m pool" "node_at pool pid nd"
  obtains pool' where "garry_load_node pool pid = (pool', canon nd)" "tree_pool n m pool'"
    "page_frame {} pool pool'" "bp_next_page pool' = bp_next_page pool"
proof -
  from tree_poolD(1) [OF assms(1)] assms(2) obtain pool' where
    "garry_load_node pool pid = (pool', canon nd)" "pool_idle n pool'" "page_frame {} pool pool'"
    "bp_next_page pool' = bp_next_page pool" by (rule load_node_at)
  with assms(1) that show ?thesis by (auto simp: tree_pool_def page_frame_def)
qed

lemma store_tree_node:
  assumes "tree_pool (n + 2) m pool" "0 \<le> pid" "pid < bp_next_page pool" "node_ok nd"
  shows "tree_pool n m (garry_store_node pool pid nd)" "node_at (garry_store_node pool pid nd) pid nd"
    "page_frame {pid} pool (garry_store_node pool pid nd)"
    "bp_next_page (garry_store_node pool pid nd) = bp_next_page pool"
proof -
  note d = tree_poolD [OF assms(1)]
  note s = store_node_at [OF d(1) assms(2-4) node_fits_2048 [OF assms(4) d(3)]]
  show "tree_pool n m (garry_store_node pool pid nd)"
    using s d by (auto simp: tree_pool_def page_frame_def)
qed (use store_node_at [OF tree_poolD(1) [OF assms(1)] assms(2-4)
      node_fits_2048 [OF assms(4) tree_poolD(3) [OF assms(1)]]] in blast)+

lemma mark_dirty_tree [simp]: "tree_pool n m pool \<Longrightarrow> tree_pool n m (garry_pool_mark_dirty pool pid)"
  by (simp add: tree_pool_def mark_dirty_idle)

lemma id_ok_page: "0 \<le> p \<Longrightarrow> p < 2 ^ 31 - GARRY_PAGE_ID_BIAS \<Longrightarrow> id_ok p"
  by (simp add: id_ok_def node_consts)

lemma id_ok_below: "tree_pool n m pool \<Longrightarrow> 0 \<le> p \<Longrightarrow> p < bp_next_page pool \<Longrightarrow> id_ok p"
  using tree_poolD(4) [of n m pool] by (intro id_ok_page) simp_all

text \<open>Allocating a node and loading it.\<close>

lemma allocate_load:
  assumes "tree_pool (n + 5) (Suc m) pool" "kind \<in> {GARRY_NODE_LEAF, GARRY_NODE_INTERNAL}"
  obtains p1 p2 where "allocate_node pool kind = (p1, bp_next_page pool)"
    "garry_load_node p1 (bp_next_page pool) = (p2, fresh_node kind)" "tree_pool n m p2"
    "page_frame {bp_next_page pool} pool p2" "bp_next_page p2 = bp_next_page pool + 1"
    "id_ok (bp_next_page pool)" "0 \<le> bp_next_page pool"
proof -
  note d = tree_poolD [OF assms(1)]
  let ?pid = "bp_next_page pool"
  have nn: "0 \<le> ?pid" using pool_invD(4) [OF pool_idle_inv [OF d(1)]] .
  have "pool_idle (n + 2 + 3) pool" using d(1) by (rule pool_idle_mono) simp
  from this d(2) obtain p1 where p1: "allocate_node pool kind = (p1, ?pid)" "pool_idle (n + 2) p1"
    "fresh_at p1 ?pid kind" "page_frame {?pid} pool p1" "bp_next_page p1 = ?pid + 1"
    by (rule allocate_node_idle)
  from p1(2,3) assms(2) obtain p2 where p2: "garry_load_node p1 ?pid = (p2, fresh_node kind)"
    "pool_idle n p2" "page_frame {} p1 p2" "bp_next_page p2 = bp_next_page p1"
    by (rule load_node_fresh)
  have fr: "page_frame {?pid} pool p2" using page_frame_trans [OF p1(4) p2(3)] by simp
  show ?thesis
  proof (rule that [OF p1(1) p2(1) _ fr])
    show "tree_pool n m p2" using d p2(2,4) p1(5) fr by (simp add: tree_pool_def page_frame_def)
    show "id_ok ?pid" using nn d(4) by (intro id_ok_page) simp_all
  qed (use p2(4) p1(5) nn in simp_all)
qed

subsection \<open>Insertion into a leaf\<close>

text \<open>The position the code finds is where the sorted list takes the entry.\<close>

lemma leaf_position:
  assumes "0 \<le> n" "keys_sorted (arr n f)" "\<forall>i. 0 \<le> i \<and> i < n \<longrightarrow> fst (f i) \<noteq> key"
    and "idx = (case List.find (\<lambda>i. garry_byte_compare key (fst (f i)) < 0) [0..n - 1] of
      Some i \<Rightarrow> i | None \<Rightarrow> n)"
  shows "0 \<le> idx" "idx \<le> n"
    "arr idx f @ (key, v) # arr (n - idx) (\<lambda>j. f (idx + j)) = ins_entry key v (arr n f)"
proof -
  note g = first_greater [OF assms(1,4)]
  show "0 \<le> idx" "idx \<le> n" by (rule g(1), rule g(2))
  let ?xs = "arr idx f" and ?ys = "arr (n - idx) (\<lambda>j. f (idx + j))"
  have sp: "arr n f = ?xs @ ?ys" by (rule arr_split [OF g(1,2)])
  have "fst x < key" if x: "x \<in> set ?xs" for x
  proof -
    obtain i where i: "0 \<le> i" "i < idx" "x = f i" using x by (auto simp: arr_def)
    then have "fst x \<le> key" using g(3) by (auto simp: arr_def)
    moreover have "fst x \<noteq> key" using assms(3) i g(2) by auto
    ultimately show ?thesis by simp
  qed
  moreover have "key < fst y" if y: "y \<in> set ?ys" for y
  proof -
    have "key < fst (hd ?ys)" "?ys \<noteq> []"
      using g(4) y by (auto simp: arr_def upto_rec1)
    moreover have "keys_sorted ?ys" using assms(2) by (simp add: sp keys_sorted_append)
    ultimately show ?thesis using y
      by (cases ?ys) (auto simp: keys_sorted_Cons intro: order.strict_trans)
  qed
  ultimately show "?xs @ (key, v) # ?ys = ins_entry key v (arr n f)"
    unfolding sp by (subst ins_entry_at) auto
qed

lemma entries_at_ok:
  assumes "node_ok nd" "length key < 256" "length value < 256"
  shows "\<forall>(k, v) \<in> set (ins_entry key value (node_entries nd)). length k < 256 \<and> length v < 256"
proof -
  have "set (ins_entry k v es) \<subseteq> insert (k, v) (set es)" for k v es
    by (induction k v es rule: ins_entry.induct) auto
  with node_kv_ok [OF assms(1)] assms(2,3) show ?thesis by fastforce
qed

lemma canon_leaf_entries:
  assumes "nd_kind nd = GARRY_NODE_LEAF"
  shows "arr (nd_entry_count nd) (\<lambda>i. (nd_keys (canon nd) i, nd_values (canon nd) i)) = node_entries nd"
  using leaf_entries_zip [of "canon nd"] assms by simp

text \<open>Updating in place and inserting where there is room store one node.\<close>

lemma insert_leaf_one:
  assumes tp: "tree_pool (n + 2) m pool" and nd: "node_at pool p nd" "nd_kind nd = GARRY_NODE_LEAF"
    and srt: "keys_sorted (node_entries nd)" and len: "length key < 256" "length value < 256"
    and room: "0 \<le> garry_leaf_find nd key \<or> nd_entry_count nd < 2"
  obtains pool' where "insert_into_leaf pool p (canon nd) key value = (pool', [], -1, True)"
    "tree_pool n m pool'" "leaf_at pool' p (ins_entry key value (node_entries nd)) (nd_next_page nd)"
    "page_frame {p} pool pool'" "bp_next_page pool' = bp_next_page pool"
proof -
  let ?c = "canon nd" and ?n = "nd_entry_count nd" and ?idx = "garry_leaf_find nd key"
  have ok: "node_ok nd" and p: "0 \<le> p" "p < bp_next_page pool" using nd(1) by (simp_all add: node_at_def)
  note d = node_okD [OF ok]
  define f where "f = (\<lambda>i. (nd_keys ?c i, nd_values ?c i))"
  have es: "arr ?n f = node_entries nd" unfolding f_def by (rule canon_leaf_entries [OF nd(2)])
  note result = that
  have finish: thesis
    if eq: "insert_into_leaf pool p ?c key value = (garry_pool_mark_dirty (garry_store_node pool p nd') p, [], -1, True)"
      and nd': "nd_kind nd' = GARRY_NODE_LEAF" "nd_header nd' = nd_header ?c" "nd_next_page nd' = nd_next_page nd"
        "nd_prev_page nd' = nd_prev_page nd" "0 \<le> nd_entry_count nd'" "nd_entry_count nd' \<le> 3"
        "node_entries nd' = ins_entry key value (node_entries nd)" for nd'
  proof -
    have ok': "node_ok nd'"
      using d(2,5,6) nd' entries_at_ok [OF ok len] by (intro leaf_node_ok) simp_all
    note s = store_tree_node [OF tp p ok']
    have "leaf_at (garry_store_node pool p nd') p (ins_entry key value (node_entries nd)) (nd_next_page nd)"
      using node_at_leaf [OF s(2) nd'(1)] nd'(3,7) by simp
    then show thesis
      using s by (intro result [OF eq]) (auto simp: leaf_at_def)
  qed
  show thesis
  proof (rule leaf_find_cases [OF refl, of nd key])
    assume i: "0 \<le> ?idx" "?idx < ?n" "nd_keys nd ?idx = key" "\<forall>j. 0 \<le> j \<and> j < ?idx \<longrightarrow> nd_keys nd j \<noteq> key"
    let ?nd' = "?c\<lparr>nd_keys := (nd_keys ?c)(?idx := key), nd_values := (nd_values ?c)(?idx := value)\<rparr>"
    have fi: "f ?idx = (key, nd_values nd ?idx)" using i nd(2) by (simp add: f_def entry_value_def)
    let ?ys = "arr (?n - ?idx - 1) (\<lambda>j. f (?idx + 1 + j))"
    have sp: "arr ?n f = arr ?idx f @ f ?idx # ?ys" by (rule arr_mid [OF i(1,2)])
    have "\<forall>x \<in> set (arr ?idx f). fst x < key"
      using srt unfolding es [symmetric] sp by (simp add: keys_sorted_append fi)
    then have "ins_entry key value (node_entries nd) = arr ?idx f @ (key, value) # ?ys"
      unfolding es [symmetric] sp fi by (rule ins_entry_replace)
    moreover have "node_entries ?nd' = arr ?n (f(?idx := (key, value)))"
      by (simp add: leaf_entries_zip nd(2) f_def fun_upd_def if_distrib [of "\<lambda>x. (x, _)"]) (auto intro!: arr_cong)
    ultimately have "node_entries ?nd' = ins_entry key value (node_entries nd)"
      by (simp add: arr_update [OF i(1,2)])
    then show thesis
      using i(1,2) nd(2) d(3,4) by (intro finish [of ?nd']) (simp_all add: insert_into_leaf_def Let_def)
  next
    assume i: "?idx < 0" "\<forall>i. 0 \<le> i \<and> i < ?n \<longrightarrow> nd_keys nd i \<noteq> key"
    with room have n2: "?n < 2" by simp
    define j where "j = (case List.find (\<lambda>i. garry_byte_compare key (fst (f i)) < 0) [0..?n - 1] of
      Some i \<Rightarrow> i | None \<Rightarrow> ?n)"
    have j: "0 \<le> j" "j \<le> ?n" and ins: "arr j f @ (key, value) # arr (?n - j) (\<lambda>i. f (j + i)) =
        ins_entry key value (arr ?n f)"
      using leaf_position [OF d(3) _ _ j_def] srt i(2) by (simp_all add: es) (simp_all add: f_def)
    have "?n = 0 \<or> ?n = 1" using n2 d(3) by linarith
    then have "[0..?n - 1] = [] \<or> [0..?n - 1] = [0]" by auto
    then have r: "rev [0..?n - 1] = [0..?n - 1]" by auto
    let ?nd' = "?c\<lparr>nd_keys := (shift_up j ?n (nd_keys ?c))(j := key),
        nd_values := (shift_up j ?n (nd_values ?c))(j := value), nd_entry_count := ?n + 1\<rparr>"
    have "node_entries ?nd' = arr (?n + 1) ((shift_up j ?n f)(j := (key, value)))"
      by (simp add: leaf_entries_zip nd(2)) (auto simp: f_def shift_up_def intro!: arr_cong)
    then have "node_entries ?nd' = ins_entry key value (node_entries nd)"
      using arr_shift_up [OF j, of f "(key, value)"] ins by (simp add: es)
    moreover have "insert_into_leaf pool p ?c key value =
        (garry_pool_mark_dirty (garry_store_node pool p ?nd') p, [], -1, True)"
      using i(1) n2 j_def by (simp add: insert_into_leaf_def r f_def garry_leaf_insert_def Let_def node_consts)
    ultimately show thesis
      using nd(2) d(3) n2 by (intro finish [of ?nd']) simp_all
  qed
qed

text \<open>A full leaf is split: the left half stays on its page, the right half gets a new one, and
  the links of the leaves include it.\<close>

lemma insert_leaf_split:
  assumes tp: "tree_pool (n + 11) (Suc m) pool" and nd: "node_at pool p nd" "nd_kind nd = GARRY_NODE_LEAF"
    and srt: "keys_sorted (node_entries nd)" and len: "length key < 256" "length value < 256"
    and full: "garry_leaf_find nd key < 0" "2 \<le> nd_entry_count nd"
  obtains pool' es1 es2 where
    "insert_into_leaf pool p (canon nd) key value = (pool', fst (hd es2), bp_next_page pool, True)"
    "tree_pool n m pool'" "leaf_at pool' p es1 (bp_next_page pool)"
    "leaf_at pool' (bp_next_page pool) es2 (nd_next_page nd)"
    "es1 @ es2 = ins_entry key value (node_entries nd)" "es1 \<noteq> []" "es2 \<noteq> []"
    "page_frame {p, bp_next_page pool} pool pool'" "bp_next_page pool' = bp_next_page pool + 1"
proof -
  let ?c = "canon nd" and ?n = "nd_entry_count nd" and ?new = "bp_next_page pool"
  have ok: "node_ok nd" and p: "0 \<le> p" "p < ?new" using nd(1) by (simp_all add: node_at_def)
  note d = node_okD [OF ok]
  define f where "f = (\<lambda>i. (nd_keys ?c i, nd_values ?c i))"
  have es: "arr ?n f = node_entries nd" unfolding f_def by (rule canon_leaf_entries [OF nd(2)])
  have absent: "\<forall>i. 0 \<le> i \<and> i < ?n \<longrightarrow> nd_keys nd i \<noteq> key"
    using full(1) by (rule_tac leaf_find_cases [OF refl, of nd key]) auto
  define j where "j = (case List.find (\<lambda>i. garry_byte_compare key (fst (f i)) < 0) [0..?n - 1] of
    Some i \<Rightarrow> i | None \<Rightarrow> ?n)"
  have j: "0 \<le> j" "j \<le> ?n" and ins: "arr j f @ (key, value) # arr (?n - j) (\<lambda>i. f (j + i)) =
      ins_entry key value (arr ?n f)"
    using leaf_position [OF d(3) _ _ j_def] srt absent by (simp_all add: es) (simp_all add: f_def)
  define g where "g = insert_at j (key, value) f"
  let ?mid = "(?n + 1) div 2"
  have mid: "1 \<le> ?mid" "?mid \<le> 2" "?mid \<le> ?n" "?n + 1 - ?mid \<le> 2" "1 \<le> ?n + 1 - ?mid"
    using full(2) d(4) by auto
  have all: "arr (?n + 1) g = ins_entry key value (node_entries nd)"
    unfolding g_def arr_insert_at [OF j] ins es ..
  define es1 where "es1 = arr ?mid g"
  define es2 where "es2 = arr (?n + 1 - ?mid) (\<lambda>i. g (?mid + i))"
  have sp: "es1 @ es2 = ins_entry key value (node_entries nd)"
    unfolding es1_def es2_def all [symmetric] using mid by (intro arr_split [symmetric]) auto
  have sub: "\<forall>(k, v) \<in> set es1. length k < 256 \<and> length v < 256" "\<forall>(k, v) \<in> set es2. length k < 256 \<and> length v < 256"
    using entries_at_ok [OF ok len] unfolding sp [symmetric] by auto
  obtain p1 p2 where al: "garry_allocate_leaf pool = (p1, ?new)"
    "garry_load_node p1 ?new = (p2, fresh_node GARRY_NODE_LEAF)" "tree_pool (n + 6) m p2"
    "page_frame {?new} pool p2" "bp_next_page p2 = ?new + 1" "id_ok ?new" "0 \<le> ?new"
    using allocate_load [of "n + 6" m pool GARRY_NODE_LEAF] tp
    by (auto simp: garry_allocate_leaf_def add.commute)
  define right where "right = (fresh_node GARRY_NODE_LEAF)\<lparr>nd_kind := GARRY_NODE_LEAF,
    nd_entry_count := ?n + 1 - ?mid,
    nd_keys := copy_from (insert_at j key (nd_keys ?c)) ?mid (?n + 1 - ?mid) (nd_keys (fresh_node GARRY_NODE_LEAF)),
    nd_values := copy_from (insert_at j value (nd_values ?c)) ?mid (?n + 1 - ?mid) (nd_values (fresh_node GARRY_NODE_LEAF)),
    nd_next_page := nd_next_page nd, nd_prev_page := p\<rparr>"
  define left where "left = ?c\<lparr>nd_entry_count := ?mid,
    nd_keys := copy_from (insert_at j key (nd_keys ?c)) 0 ?mid (nd_keys ?c),
    nd_values := copy_from (insert_at j value (nd_values ?c)) 0 ?mid (nd_values ?c), nd_next_page := ?new\<rparr>"
  have gpair: "g i = (insert_at j key (nd_keys ?c) i, insert_at j value (nd_values ?c) i)" for i
    by (simp add: g_def insert_at_def f_def)
  have re: "node_entries right = es2" and le: "node_entries left = es1"
    using nd(2) by (simp_all add: right_def left_def leaf_entries_zip es1_def es2_def)
      (auto simp: copy_from_def gpair intro!: arr_cong)
  have "id_ok p" using id_ok_below [OF tp p] .
  have r: "nd_kind right = GARRY_NODE_LEAF" "ph_page_level (nd_header right) = 0"
    "nd_entry_count right = ?n + 1 - ?mid" "nd_next_page right = nd_next_page nd" "nd_prev_page right = p"
    by (simp_all add: right_def)
  have l: "nd_kind left = GARRY_NODE_LEAF" "ph_page_level (nd_header left) = ph_page_level (nd_header nd)"
    "nd_entry_count left = ?mid" "nd_next_page left = ?new" "nd_prev_page left = nd_prev_page nd"
    using nd(2) by (simp_all add: left_def)
  have okr: "node_ok right"
    using mid d(5) \<open>id_ok p\<close> sub(2) by (intro leaf_node_ok) (simp_all add: r re)
  have okl: "node_ok left"
    using mid d(2,6) al(6) sub(1) by (intro leaf_node_ok) (simp_all add: l le)
  let ?p2 = "garry_pool_mark_dirty p2 p"
  let ?p3 = "garry_store_node ?p2 ?new right"
  let ?p4 = "garry_store_node ?p3 p left"
  let ?p5 = "garry_store_node ?p4 p left"
  have t2: "tree_pool (n + 4 + 2) m ?p2" by (rule mark_dirty_tree) (rule tree_pool_mono [OF al(3)], simp_all)
  have n2: "bp_next_page ?p2 = ?new + 1" "page_frame {?new} pool ?p2" using al(4,5) by simp_all
  note s3 = store_tree_node [OF t2 al(7) _ okr, unfolded n2(1)]
  have t3: "tree_pool (n + 2 + 2) m ?p3" using s3(1) by (rule tree_pool_mono) simp_all
  note s4 = store_tree_node [OF t3 p(1) _ okl]
  note s5 = store_tree_node [OF s4(1) p(1) _ okl]
  have n: "bp_next_page ?p3 = ?new + 1" "bp_next_page ?p4 = ?new + 1" "bp_next_page ?p5 = ?new + 1"
    using s3(4) s4(4) s5(4) p(2) by simp_all
  have fr: "page_frame {p} ?p3 ?p5"
    using page_frame_trans [OF s4(3) s5(3)] n p(2) by simp
  have at: "node_at ?p5 ?new right" "node_at ?p5 p left"
    using node_at_frame [OF s3(2) fr] s5(2) n p(2) by simp_all
  have "insert_into_leaf pool p ?c key value = (?p5, nd_keys right 0, ?new, True)"
    using full d(3,4) al(1,2) p j_def
    by (simp add: insert_into_leaf_def leaf_split_def node_consts Let_def f_def)
      (simp add: right_def left_def)
  moreover have "nd_keys right 0 = fst (hd es2)"
    unfolding re [symmetric] using mid by (simp add: node_entries_arr right_def arr_def upto_rec1)
  ultimately have eq: "insert_into_leaf pool p ?c key value = (?p5, fst (hd es2), ?new, True)" by simp
  show ?thesis
  proof (rule that [OF eq _ _ _ sp])
    show "tree_pool n m ?p5" using s5(1) n p(2) by simp
    show "leaf_at ?p5 p es1 ?new" using node_at_leaf [OF at(2)] nd(2) le by (simp add: left_def)
    show "leaf_at ?p5 ?new es2 (nd_next_page nd)" using node_at_leaf [OF at(1)] re by (simp add: right_def)
    show "es1 \<noteq> []" "es2 \<noteq> []" using mid by (auto simp: es1_def es2_def arr_def)
    show "page_frame {p, ?new} pool ?p5"
      using page_frame_trans [OF page_frame_trans [OF n2(2) s3(3)] fr] by (simp add: insert_commute)
    show "bp_next_page ?p5 = ?new + 1" by (rule n(3))
  qed
qed

subsection \<open>A new separator in an internal node\<close>

lemma inner_parts:
  assumes "node_ok nd" "nd_kind nd = GARRY_NODE_INTERNAL" "0 \<le> i" "i \<le> nd_entry_count nd"
  shows "\<forall>k \<in> set (arr (nd_entry_count nd) (nd_keys nd)). length k < 256"
    "\<forall>c \<in> set (arr (nd_entry_count nd + 1) (nd_children nd)). id_ok c"
    "arr i (nd_keys (canon nd)) = arr i (nd_keys nd)"
    "arr (nd_entry_count nd - i) (\<lambda>j. nd_keys (canon nd) (i + j)) =
       arr (nd_entry_count nd - i) (\<lambda>j. nd_keys nd (i + j))"
    "arr (i + 1) (nd_children (canon nd)) = arr (i + 1) (nd_children nd)"
    "arr (nd_entry_count nd - i) (\<lambda>j. nd_children (canon nd) (i + 1 + j)) =
       arr (nd_entry_count nd - i) (\<lambda>j. nd_children nd (i + 1 + j))"
    "\<forall>j. nd_values (canon nd) j = []"
  using node_okD [OF assms(1)] assms(2-4)
  by (auto simp: arr_def num_children_def canon_def entry_value_def)

lemma insert_separator_room:
  assumes tp: "tree_pool (n + 2) m pool" and nd: "node_at pool p nd" "nd_kind nd = GARRY_NODE_INTERNAL"
    and idx: "0 \<le> idx" "idx \<le> nd_entry_count nd" "nd_entry_count nd < 3"
    and new: "id_ok c" "0 \<le> c" "length s < 256"
  obtains pool' where "insert_separator p (canon nd) idx (pool, s, c, True) = (pool', [], -1, True)"
    "tree_pool n m pool'" "page_frame {p} pool pool'" "bp_next_page pool' = bp_next_page pool"
    "inner_at pool' p
       (arr (idx + 1) (nd_children nd) @ c # arr (nd_entry_count nd - idx) (\<lambda>j. nd_children nd (idx + 1 + j)))
       (arr idx (nd_keys nd) @ s # arr (nd_entry_count nd - idx) (\<lambda>j. nd_keys nd (idx + j)))"
proof -
  let ?c = "canon nd" and ?n = "nd_entry_count nd"
  have ok: "node_ok nd" and p: "0 \<le> p" "p < bp_next_page pool" using nd(1) by (simp_all add: node_at_def)
  note d = node_okD [OF ok] and ip = inner_parts [OF ok nd(2) idx(1,2)]
  define nd' where "nd' = ?c\<lparr>nd_keys := (shift_up idx ?n (nd_keys ?c))(idx := s),
    nd_children := (shift_up (idx + 1) (?n + 1) (nd_children ?c))(idx + 1 := c), nd_entry_count := ?n + 1\<rparr>"
  have k: "arr (?n + 1) (nd_keys nd') = arr idx (nd_keys nd) @ s # arr (?n - idx) (\<lambda>j. nd_keys nd (idx + j))"
    using ip idx by (simp add: nd'_def arr_shift_up)
  have c: "arr (?n + 1 + 1) (nd_children nd') =
      arr (idx + 1) (nd_children nd) @ c # arr (?n - idx) (\<lambda>j. nd_children nd (idx + 1 + j))"
    using ip idx arr_shift_up [of "idx + 1" "?n + 1" "nd_children ?c" c] by (simp add: nd'_def)
  have sp: "arr ?n (nd_keys nd) = arr idx (nd_keys nd) @ arr (?n - idx) (\<lambda>j. nd_keys nd (idx + j))"
    "arr (?n + 1) (nd_children nd) =
      arr (idx + 1) (nd_children nd) @ arr (?n - idx) (\<lambda>j. nd_children nd (idx + 1 + j))"
    using arr_split [of idx ?n] arr_split [of "idx + 1" "?n + 1" "nd_children nd"] idx by simp_all
  have n': "nd_kind nd' = GARRY_NODE_INTERNAL" "ph_page_level (nd_header nd') = ph_page_level (nd_header nd)"
    "nd_entry_count nd' = ?n + 1" "nd_next_page nd' = nd_next_page nd" "nd_prev_page nd' = nd_prev_page nd"
    "nd_values nd' = nd_values ?c"
    using nd(2) by (simp_all add: nd'_def)
  have kk: "\<forall>k \<in> set (arr (?n + 1) (nd_keys nd')). length k < 256"
    using ip(1) new(3) unfolding k sp by auto
  have cc: "\<forall>c \<in> set (arr (?n + 1 + 1) (nd_children nd')). id_ok c"
    using ip(2) new(1) unfolding c sp by auto
  have ok': "node_ok nd'"
    using d(2,3,5,6) idx(3) ip(7) kk cc by (intro inner_node_ok) (simp_all only: n', simp_all)
  note st = store_tree_node [OF tp p ok']
  have eq: "insert_separator p ?c idx (pool, s, c, True) =
      (garry_pool_mark_dirty (garry_store_node pool p nd') p, [], -1, True)"
    using new(2) idx(3) by (simp add: insert_separator_def node_consts Let_def nd'_def)
  show ?thesis
  proof (rule that [OF eq])
    have "inner_at (garry_pool_mark_dirty (garry_store_node pool p nd') p) p
        (arr (nd_entry_count nd' + 1) (nd_children nd')) (arr (nd_entry_count nd') (nd_keys nd'))"
      using st(2) d(3) by (intro node_at_inner) (simp_all add: n')
    then show "inner_at (garry_pool_mark_dirty (garry_store_node pool p nd') p) p
       (arr (idx + 1) (nd_children nd) @ c # arr (?n - idx) (\<lambda>j. nd_children nd (idx + 1 + j)))
       (arr idx (nd_keys nd) @ s # arr (?n - idx) (\<lambda>j. nd_keys nd (idx + j)))"
      by (simp only: n'(3) k c)
  qed (use st in simp_all)
qed

lemma insert_separator_split:
  assumes tp: "tree_pool (n + 9) (Suc m) pool" and nd: "node_at pool p nd" "nd_kind nd = GARRY_NODE_INTERNAL"
    and idx: "0 \<le> idx" "idx \<le> nd_entry_count nd" "nd_entry_count nd = 3"
    and new: "id_ok c" "0 \<le> c" "length s < 256"
  obtains pool' k1 k2 k3 k4 c1 c2 c3 c4 c5 where
    "insert_separator p (canon nd) idx (pool, s, c, True) = (pool', k3, bp_next_page pool, True)"
    "tree_pool n m pool'" "page_frame {p, bp_next_page pool} pool pool'"
    "bp_next_page pool' = bp_next_page pool + 1"
    "inner_at pool' p [c1, c2, c3] [k1, k2]" "inner_at pool' (bp_next_page pool) [c4, c5] [k4]"
    "[c1, c2, c3, c4, c5] =
       arr (idx + 1) (nd_children nd) @ c # arr (nd_entry_count nd - idx) (\<lambda>j. nd_children nd (idx + 1 + j))"
    "[k1, k2, k3, k4] = arr idx (nd_keys nd) @ s # arr (nd_entry_count nd - idx) (\<lambda>j. nd_keys nd (idx + j))"
proof -
  let ?c = "canon nd" and ?new = "bp_next_page pool"
  have ok: "node_ok nd" and p: "0 \<le> p" "p < bp_next_page pool" using nd(1) by (simp_all add: node_at_def)
  note d = node_okD [OF ok] and ip = inner_parts [OF ok nd(2) idx(1,2)]
  define K where "K = insert_at idx s (nd_keys ?c)"
  define C where "C = insert_at (idx + 1) c (nd_children ?c)"
  have k: "arr 4 K = arr idx (nd_keys nd) @ s # arr (nd_entry_count nd - idx) (\<lambda>j. nd_keys nd (idx + j))"
    using ip(3,4) idx arr_insert_at [of idx 3 s "nd_keys ?c"] by (simp add: K_def)
  have cs: "arr 5 C = arr (idx + 1) (nd_children nd) @ c # arr (nd_entry_count nd - idx) (\<lambda>j. nd_children nd (idx + 1 + j))"
    using ip(5,6) idx arr_insert_at [of "idx + 1" 4 c "nd_children ?c"] by (simp add: C_def)
  have sp: "arr 3 (nd_keys nd) = arr idx (nd_keys nd) @ arr (3 - idx) (\<lambda>j. nd_keys nd (idx + j))"
    "arr 4 (nd_children nd) = arr (idx + 1) (nd_children nd) @ arr (3 - idx) (\<lambda>j. nd_children nd (idx + 1 + j))"
    using arr_split [of idx 3] arr_split [of "idx + 1" 4 "nd_children nd"] idx by simp_all
  have "\<forall>k \<in> set (arr 4 K). length k < 256" "\<forall>c \<in> set (arr 5 C). id_ok c"
    using ip(1,2) new(1,3) unfolding k cs by (auto simp: idx(3) sp)
  then have b: "length (K 0) < 256" "length (K 1) < 256" "length (K 3) < 256"
    "id_ok (C 0)" "id_ok (C 1)" "id_ok (C 2)" "id_ok (C 3)" "id_ok (C 4)"
    by (simp_all add: arr_def upto_rec1)
  have tp': "tree_pool (n + 4 + 5) (Suc m) pool" by (rule tree_pool_mono [OF tp]) simp_all
  obtain p1 p2 where al: "garry_allocate_internal pool = (p1, ?new)"
    "garry_load_node p1 ?new = (p2, fresh_node GARRY_NODE_INTERNAL)" "tree_pool (n + 4) m p2"
    "page_frame {?new} pool p2" "bp_next_page p2 = ?new + 1" "id_ok ?new" "0 \<le> ?new"
    using allocate_load [OF tp', of GARRY_NODE_INTERNAL] by (auto simp: garry_allocate_internal_def)
  define fr where "fr = fresh_node GARRY_NODE_INTERNAL"
  define right where "right = fr\<lparr>nd_kind := GARRY_NODE_INTERNAL,
    nd_header := (nd_header fr)\<lparr>ph_page_type := GARRY_NODE_INTERNAL, ph_page_level := ph_page_level (nd_header ?c)\<rparr>,
    nd_entry_count := 1, nd_next_page := nd_next_page ?c, nd_prev_page := p,
    nd_keys := copy_from K 3 1 (nd_keys fr), nd_children := copy_from C 3 2 (nd_children fr)\<rparr>"
  define left where "left = ?c\<lparr>nd_entry_count := 2, nd_keys := copy_from K 0 2 (nd_keys ?c),
    nd_children := copy_from C 0 3 (nd_children ?c), nd_next_page := ?new\<rparr>"
  have r: "nd_kind right = GARRY_NODE_INTERNAL" "ph_page_level (nd_header right) = ph_page_level (nd_header nd)"
    "nd_entry_count right = 1" "nd_next_page right = nd_next_page nd" "nd_prev_page right = p"
    "nd_values right = (\<lambda>_. [])" "arr 1 (nd_keys right) = [K 3]" "arr 2 (nd_children right) = [C 3, C 4]"
    by (simp_all add: right_def fr_def arr_def copy_from_def upto_rec1)
  have l: "nd_kind left = GARRY_NODE_INTERNAL" "ph_page_level (nd_header left) = ph_page_level (nd_header nd)"
    "nd_entry_count left = 2" "nd_next_page left = ?new" "nd_prev_page left = nd_prev_page nd"
    "nd_values left = nd_values ?c" "arr 2 (nd_keys left) = [K 0, K 1]" "arr 3 (nd_children left) = [C 0, C 1, C 2]"
    using nd(2) by (simp_all add: left_def arr_def copy_from_def upto_rec1)
  have "id_ok p" using id_ok_below [OF tp p] .
  then have okr: "node_ok right" using d(2,5) b by (intro inner_node_ok) (simp_all add: r)
  have okl: "node_ok left" using d(2,6) b al(6) ip(7) by (intro inner_node_ok) (simp_all add: l)
  let ?p3 = "garry_store_node p2 ?new right"
  let ?p4 = "garry_store_node ?p3 p left"
  have t2: "tree_pool (n + 2 + 2) m p2" by (rule tree_pool_mono [OF al(3)]) simp_all
  note s3 = store_tree_node [OF t2 al(7) _ okr, unfolded al(5)]
  note s4 = store_tree_node [OF s3(1) p(1) _ okl]
  have n: "bp_next_page ?p3 = ?new + 1" "bp_next_page ?p4 = ?new + 1" using s3(4) s4(4) p(2) by simp_all
  have fr4: "page_frame {p} ?p3 ?p4" using s4(3) n p(2) by simp
  have at: "node_at ?p4 ?new right" "node_at ?p4 p left"
    using node_at_frame [OF s3(2) fr4] s4(2) n p(2) by simp_all
  let ?p5 = "garry_pool_mark_dirty (garry_pool_mark_dirty ?p4 ?new) p"
  have "ph_page_level (nd_header ?c) = ph_page_level (nd_header nd)" by simp
  have eq: "insert_separator p ?c idx (pool, s, c, True) = (?p5, K 2, ?new, True)"
    using new(2) idx(3) al(1,2,7)
    by (simp add: insert_separator_def internal_split_def node_consts Let_def flip: K_def C_def)
      (simp add: right_def left_def fr_def)
  show ?thesis
  proof (rule that [OF eq])
    have "inner_at ?p5 p (arr (nd_entry_count left + 1) (nd_children left)) (arr (nd_entry_count left) (nd_keys left))"
      using at(2) by (intro node_at_inner) (simp_all add: l)
    then show "inner_at ?p5 p [C 0, C 1, C 2] [K 0, K 1]" by (simp add: l)
    have "inner_at ?p5 ?new (arr (nd_entry_count right + 1) (nd_children right)) (arr (nd_entry_count right) (nd_keys right))"
      using at(1) by (intro node_at_inner) (simp_all add: r)
    then show "inner_at ?p5 ?new [C 3, C 4] [K 3]" by (simp add: r)
    show "page_frame {p, ?new} pool ?p5"
      using page_frame_trans [OF page_frame_trans [OF al(4) s3(3)] fr4] by (simp add: insert_commute)
    show "tree_pool n m ?p5" using s4(1) n p(2) by simp
    show "[C 0, C 1, C 2, C 3, C 4] = arr (idx + 1) (nd_children nd) @ c #
        arr (nd_entry_count nd - idx) (\<lambda>j. nd_children nd (idx + 1 + j))"
      unfolding cs [symmetric] by (simp add: arr_def upto_rec1)
    show "[K 0, K 1, K 2, K 3] = arr idx (nd_keys nd) @ s # arr (nd_entry_count nd - idx) (\<lambda>j. nd_keys nd (idx + j))"
      unfolding k [symmetric] by (simp add: arr_def upto_rec1)
  qed (use n in simp_all)
qed

subsection \<open>Insertion into a tree\<close>

text \<open>The trees that take the place of \<open>t\<close>, with the separators between them.\<close>

definition grown ::
  "nat \<Rightarrow> garry_buffer_pool \<Rightarrow> int \<Rightarrow> key \<Rightarrow> key option \<Rightarrow> btree \<Rightarrow> entry list \<Rightarrow>
   garry_buffer_pool \<Rightarrow> btree list \<Rightarrow> key list \<Rightarrow> bool" where
  "grown h pool nxt lo hi t es pool' us ss \<longleftrightarrow>
     forest_at pool' nxt us \<and> ordered_list lo hi us ss \<and> (\<forall>u \<in> set us. balanced h u) \<and>
     concat (map inorder us) = es \<and> distinct (concat (map tree_pages us)) \<and>
     set (concat (map tree_pages us)) \<subseteq> set (tree_pages t) \<union> {bp_next_page pool..} \<and>
     first_leaf (hd us) = first_leaf t"

text \<open>What the code hands to the parent: nothing new, or a separator and a new page. A node that
  was split has no more keys than before.\<close>

fun width :: "btree \<Rightarrow> nat" where
  "width (Lf p es) = length es"
| "width (Nd p ts ks) = length ks"

definition handed_up :: "btree \<Rightarrow> key \<Rightarrow> int \<Rightarrow> btree list \<Rightarrow> key list \<Rightarrow> bool" where
  "handed_up t sep new us ss \<longleftrightarrow>
     (new = -1 \<and> ss = [] \<and> (\<exists>u. us = [u] \<and> root_page u = root_page t)) \<or>
     (0 \<le> new \<and> ss = [sep] \<and> length sep < 256 \<and>
        (\<exists>u1 u2. us = [u1, u2] \<and> root_page u1 = root_page t \<and> root_page u2 = new \<and>
                 width u1 \<le> width t))"

lemma grownD:
  assumes "grown h pool nxt lo hi t es pool' us ss"
  shows "forest_at pool' nxt us" "ordered_list lo hi us ss" "\<forall>u \<in> set us. balanced h u"
    "concat (map inorder us) = es" "distinct (concat (map tree_pages us))"
    "set (concat (map tree_pages us)) \<subseteq> set (tree_pages t) \<union> {bp_next_page pool..}"
    "first_leaf (hd us) = first_leaf t" "us \<noteq> []"
  using assms by (auto simp: grown_def)

lemma next_of_hd: "us \<noteq> [] \<Longrightarrow> next_of nxt us = first_leaf (hd us)"
  by (cases us) (simp_all add: next_of_def)

lemma first_leaf_append: "ts \<noteq> [] \<Longrightarrow> first_leaf (Nd p ts ks) = first_leaf (hd ts)"
  by (cases ts) simp_all

lemma ins_entry_child:
  assumes "ordered_list lo hi (ts1 @ u # ts2) (ks1 @ ks2)" "length ts1 = length ks1"
    and "\<forall>x \<in> set ks1. x \<le> key" "ks2 \<noteq> [] \<Longrightarrow> key < hd ks2"
  shows "ins_entry key v (concat (map inorder (ts1 @ u # ts2))) =
    concat (map inorder ts1) @ ins_entry key v (inorder u) @ concat (map inorder ts2)"
proof -
  have "\<forall>x \<in> set (concat (map inorder ts1)). fst x < key"
    using ordered_list_before [OF assms(1-3)] by blast
  moreover have "\<forall>y \<in> set (concat (map inorder ts2)). key < fst y"
    using ordered_list_after [OF assms(1,2,4)] by blast
  ultimately show ?thesis by (simp add: ins_entry_prefix ins_entry_suffix)
qed

text \<open>The children of a node after one of them grew.\<close>

lemma splice_children:
  assumes t: "t = Nd p ts ks" "ts = ts1 @ u # ts2" "ks = ks1 @ ks2" "length ts1 = length ks1"
    and at: "forest_at pool nxt ts" "ordered_list lo hi ts ks" "\<forall>t \<in> set ts. balanced h t"
      "distinct (tree_pages t)"
    and key: "\<forall>x \<in> set ks1. x \<le> key" "ks2 \<noteq> [] \<Longrightarrow> key < hd ks2"
    and fr: "page_frame (set (tree_pages u) \<union> {bp_next_page pool..}) pool pool'"
    and p: "p < bp_next_page pool"
    and g: "grown h pool (next_of nxt ts2) (last (lo # ks1)) (upper ks2 hi) u
      (ins_entry key v (inorder u)) pool' us ss"
  shows "grown h pool nxt lo hi t (ins_entry key v (inorder t)) pool' (ts1 @ us @ ts2) (ks1 @ ss @ ks2)"
    "p \<notin> set (concat (map tree_pages (ts1 @ us @ ts2)))"
proof -
  note G = grownD [OF g]
  have dis: "p \<notin> set (concat (map tree_pages ts1))" "p \<notin> set (tree_pages u)" "p \<notin> set (concat (map tree_pages ts2))"
    "distinct (concat (map tree_pages ts1))" "distinct (concat (map tree_pages ts2))"
    "set (concat (map tree_pages ts1)) \<inter> set (tree_pages u) = {}"
    "set (concat (map tree_pages ts2)) \<inter> set (tree_pages u) = {}"
    "set (concat (map tree_pages ts1)) \<inter> set (concat (map tree_pages ts2)) = {}"
    using at(4) unfolding t(1,2) by (auto simp del: set_concat)
  have f: "forest_at pool (next_of nxt (u # ts2)) ts1" "tree_at pool (next_of nxt ts2) u" "forest_at pool nxt ts2"
    using at(1) by (simp_all add: t(2) forest_at_append forest_at_Cons del: forest_at.simps(2))
  have old: "set (concat (map tree_pages ts1)) \<inter> {bp_next_page pool..} = {}"
    "set (concat (map tree_pages ts2)) \<inter> {bp_next_page pool..} = {}"
    using tree_pages_bound(2) [OF f(1)] tree_pages_bound(2) [OF f(3)] by force+
  have f1: "forest_at pool' (next_of nxt (u # ts2)) ts1"
    using dis(6) old(1) by (intro tree_at_frame(2) [OF f(1) fr]) blast
  have f2: "forest_at pool' nxt ts2"
    using dis(7) old(2) by (intro tree_at_frame(2) [OF f(3) fr]) blast
  have "next_of nxt (us @ ts2) = next_of nxt (u # ts2)"
    using G(7,8) by (cases us) (simp_all add: next_of_def)
  with f1 f2 G(1) have "forest_at pool' nxt (ts1 @ us @ ts2)" by (simp add: forest_at_append)
  moreover have "ordered_list lo hi (ts1 @ us @ ts2) (ks1 @ ss @ ks2)"
    using at(2) G(2) t(4) by (intro ordered_list_splice [of lo hi ts1 u ts2 ks1 ks2]) (simp_all add: t(2,3))
  moreover have "\<forall>u \<in> set (ts1 @ us @ ts2). balanced h u" using at(3) G(3) by (auto simp: t(2))
  moreover have "concat (map inorder (ts1 @ us @ ts2)) = ins_entry key v (inorder t)"
    using ins_entry_child [of lo hi ts1 u ts2 ks1 ks2 key v] at(2) key t(4) G(4) by (simp add: t(1-3))
  moreover have "distinct (concat (map tree_pages (ts1 @ us @ ts2)))"
  proof -
    have "set (concat (map tree_pages ts1)) \<inter> set (concat (map tree_pages us)) = {}"
      "set (concat (map tree_pages us)) \<inter> set (concat (map tree_pages ts2)) = {}"
      using G(6) dis(6,7) old by blast+
    with G(5) dis(4,5,8) show ?thesis by (auto simp del: set_concat)
  qed
  moreover have "set (concat (map tree_pages (ts1 @ us @ ts2))) \<subseteq> set (tree_pages t) \<union> {bp_next_page pool..}"
    using G(6) by (auto simp: t(1,2))
  moreover have "first_leaf (hd (ts1 @ us @ ts2)) = first_leaf t"
    using G(7,8) by (cases ts1) (simp_all add: t(1,2) first_leaf_append)
  ultimately show "grown h pool nxt lo hi t (ins_entry key v (inorder t)) pool' (ts1 @ us @ ts2) (ks1 @ ss @ ks2)"
    by (simp add: grown_def)
  show "p \<notin> set (concat (map tree_pages (ts1 @ us @ ts2)))"
    using dis(1-3) G(6) p by auto
qed

text \<open>The children go on one page.\<close>

lemma grown_one:
  assumes g: "grown h pool nxt lo hi t es pool' F S" and t: "t = Nd p ts ks"
    and p: "p \<notin> set (concat (map tree_pages F))"
    and fr: "page_frame {p} pool' pool''" and inner: "inner_at pool'' p (map root_page F) S"
  shows "grown (Suc h) pool nxt lo hi t es pool'' [Nd p F S] [] \<and> handed_up t sep (-1) [Nd p F S] []"
proof -
  note G = grownD [OF g]
  have "forest_at pool'' nxt F" using p by (intro tree_at_frame(2) [OF G(1) fr]) simp
  then have "grown (Suc h) pool nxt lo hi t es pool'' [Nd p F S] []"
    unfolding grown_def using G inner p by (auto simp: t first_leaf_append)
  then show ?thesis by (simp add: handed_up_def t)
qed

text \<open>The children go on two pages.\<close>

lemma grown_two:
  assumes g: "grown h pool nxt lo hi t es pool' (F1 @ F2) (S1 @ sep # S2)" and t: "t = Nd p ts ks"
    and p: "p \<notin> set (concat (map tree_pages (F1 @ F2)))" "p < bp_next_page pool" "0 \<le> p"
    and new: "new = bp_next_page pool'" "bp_next_page pool \<le> bp_next_page pool'"
    and fr: "page_frame {p, new} pool' pool''"
    and len: "length F1 = Suc (length S1)" "F1 \<noteq> []" "F2 \<noteq> []" "length sep < 256" "length S1 \<le> length ks"
    and inner: "inner_at pool'' p (map root_page F1) S1" "inner_at pool'' new (map root_page F2) S2"
  shows "grown (Suc h) pool nxt lo hi t es pool'' [Nd p F1 S1, Nd new F2 S2] [sep] \<and>
    handed_up t sep new [Nd p F1 S1, Nd new F2 S2] [sep]"
proof -
  note G = grownD [OF g]
  have below: "q < new" if "q \<in> set (concat (map tree_pages (F1 @ F2)))" for q
    using tree_pages_bound(2) [OF G(1) that] new(1) by simp
  then have notin: "new \<notin> set (concat (map tree_pages F1))" "new \<notin> set (concat (map tree_pages F2))"
    "p \<notin> set (concat (map tree_pages F1))" "p \<notin> set (concat (map tree_pages F2))"
    using p(1) by (fastforce simp: Ball_def)+
  have "forest_at pool'' nxt (F1 @ F2)"
    using notin by (intro tree_at_frame(2) [OF G(1) fr]) auto
  then have f: "forest_at pool'' (next_of nxt F2) F1" "forest_at pool'' nxt F2" by (simp_all add: forest_at_append)
  have n2: "next_of nxt F2 = first_leaf (Nd new F2 S2)"
    using len(3) by (simp add: next_of_hd first_leaf_append)
  have fo: "forest_at pool'' nxt [Nd p F1 S1, Nd new F2 S2]"
    using f inner n2 by (simp add: first_leaf_append [OF len(3)])
  have ord: "ordered_list lo hi [Nd p F1 S1, Nd new F2 S2] [sep]"
    using ordered_list_split [OF G(2) len(1)] by simp
  have "p \<noteq> new" using p(2) new by simp
  then have dis: "distinct (concat (map tree_pages [Nd p F1 S1, Nd new F2 S2]))"
    using G(5) notin by (auto simp del: set_concat)
  have sub: "set (concat (map tree_pages [Nd p F1 S1, Nd new F2 S2])) \<subseteq> set (tree_pages t) \<union> {bp_next_page pool..}"
    using G(6) new by (auto simp: t)
  have "first_leaf (hd [Nd p F1 S1, Nd new F2 S2]) = first_leaf t"
    using G(7) len(2) by (simp add: first_leaf_append)
  with fo ord dis sub G(3,4) have "grown (Suc h) pool nxt lo hi t es pool'' [Nd p F1 S1, Nd new F2 S2] [sep]"
    by (simp add: grown_def)
  moreover have "0 \<le> new" using p new by simp
  ultimately show ?thesis using len(4,5) by (simp add: handed_up_def t)
qed

lemma leaf_grown_one:
  assumes "ordered lo hi (Lf p es)" "in_range lo hi key" "leaf_at pool' p (ins_entry key v es) nxt"
  shows "grown 0 pool nxt lo hi (Lf p es) (ins_entry key v es) pool' [Lf p (ins_entry key v es)] [] \<and>
    handed_up (Lf p es) sep (-1) [Lf p (ins_entry key v es)] []"
proof -
  have "in_range lo hi (fst e)" if "e \<in> set (ins_entry key v es)" for e
  proof -
    have "fst e \<in> insert key (fst ` set es)" using that set_ins_entry [of key v es] by blast
    with assms(1,2) show ?thesis by auto
  qed
  with assms show ?thesis by (simp add: grown_def handed_up_def ins_entry_sorted)
qed

lemma leaf_grown_two:
  assumes "ordered lo hi (Lf p es)" "in_range lo hi key" "es1 @ es2 = ins_entry key v es" "es1 \<noteq> []" "es2 \<noteq> []"
    and "leaf_at pool' p es1 new" "leaf_at pool' new es2 nxt" "p < new" "new = bp_next_page pool"
    and "length (fst (hd es2)) < 256" "0 \<le> p"
  shows "grown 0 pool nxt lo hi (Lf p es) (ins_entry key v es) pool' [Lf p es1, Lf new es2] [fst (hd es2)] \<and>
    handed_up (Lf p es) (fst (hd es2)) new [Lf p es1, Lf new es2] [fst (hd es2)]"
proof -
  let ?sep = "fst (hd es2)"
  have rng: "in_range lo hi (fst e)" if "e \<in> set es1 \<or> e \<in> set es2" for e
  proof -
    have "e \<in> set (ins_entry key v es)" using that unfolding assms(3) [symmetric] by auto
    then have "fst e \<in> insert key (fst ` set es)" using set_ins_entry [of key v es] by blast
    with assms(1,2) show ?thesis by auto
  qed
  have srt: "keys_sorted (es1 @ es2)" using assms(1,3) by (simp add: ins_entry_sorted)
  then have s: "keys_sorted es1" "keys_sorted es2" "\<forall>x \<in> set es1. fst x < ?sep"
    using assms(5) by (simp_all add: keys_sorted_append)
  have "\<forall>y \<in> set es2. ?sep \<le> fst y"
    using s(2) assms(5) by (cases es2) (auto simp: keys_sorted_Cons)
  then have o2: "ordered ?sep hi (Lf new es2)" using s(2) rng by (auto simp: in_range_def)
  have o1: "ordered lo (Some ?sep) (Lf p es1)" using s(1,3) rng by (auto simp: in_range_def)
  obtain x where x: "x \<in> set es1" using assms(4) by (cases es1) auto
  then have "lo \<le> fst x" "fst x < ?sep" using rng s(3) by (auto simp: in_range_def)
  then have "lo < ?sep" by simp
  moreover have "in_range lo hi ?sep" using rng assms(5) by simp
  moreover have "length es1 \<le> length es"
  proof -
    have "length (ins_entry key v es) \<le> Suc (length es)"
      by (induction key v es rule: ins_entry.induct) auto
    moreover have "0 < length es2" using assms(5) by simp
    ultimately show ?thesis unfolding assms(3) [symmetric] length_append by linarith
  qed
  ultimately show ?thesis
    using o1 o2 assms(3,6-11) by (auto simp: grown_def handed_up_def)
qed

lemma insert_rec_leaf:
  assumes "tree_pool (n + 13) (Suc m) pool" "leaf_at pool p es nxt" "ordered lo hi (Lf p es)" "in_range lo hi key"
    and len: "length key < 256" "length value < 256"
  shows "\<exists>pool' sep new us ss. btree_insert_rec pool p key value = Some (pool', sep, new, True) \<and>
    tree_pool n m pool' \<and> page_frame ({p} \<union> {bp_next_page pool..}) pool pool' \<and>
    grown 0 pool nxt lo hi (Lf p es) (ins_entry key value es) pool' us ss \<and> handed_up (Lf p es) sep new us ss"
proof -
  obtain nd where nd: "node_at pool p nd" "nd_kind nd = GARRY_NODE_LEAF" "node_entries nd = es" "nd_next_page nd = nxt"
    using assms(2) by (auto simp: leaf_at_def)
  have ok: "node_ok nd" and p: "0 \<le> p" "p < bp_next_page pool" using nd(1) by (simp_all add: node_at_def)
  have "tree_pool (n + 11 + 2) (Suc m) pool" by (rule tree_pool_mono [OF assms(1)]) simp_all
  from this nd(1) obtain p1 where p1: "garry_load_node pool p = (p1, canon nd)" "tree_pool (n + 11) (Suc m) p1"
    "page_frame {} pool p1" "bp_next_page p1 = bp_next_page pool" by (rule load_tree_node)
  have nd1: "node_at p1 p nd" by (rule node_at_frame [OF nd(1) p1(3)]) simp
  have step: "btree_insert_rec pool p key value = Some (insert_into_leaf p1 p (canon nd) key value)"
    using nd(2) by (subst btree_insert_rec.simps) (simp add: p1(1))
  have srt: "keys_sorted (node_entries nd)" using assms(3) nd(3) by simp
  show ?thesis
  proof (cases "0 \<le> garry_leaf_find nd key \<or> nd_entry_count nd < 2")
    case True
    have "tree_pool (n + 2) m p1" by (rule tree_pool_mono [OF p1(2)]) simp_all
    from this nd1 nd(2) srt len True obtain p2 where
      p2: "insert_into_leaf p1 p (canon nd) key value = (p2, [], -1, True)" "tree_pool n m p2"
      "leaf_at p2 p (ins_entry key value (node_entries nd)) (nd_next_page nd)" "page_frame {p} p1 p2"
      by (rule insert_leaf_one)
    have "page_frame ({p} \<union> {bp_next_page pool..}) pool p2"
      by (rule page_frame_mono [OF page_frame_trans [OF p1(3) p2(4)]]) simp
    moreover have "leaf_at p2 p (ins_entry key value es) nxt" using p2(3) by (simp add: nd)
    ultimately show ?thesis
      using step p2(1,2) leaf_grown_one [OF assms(3,4), of p2 "value" nxt pool "[]"] by auto
  next
    case False
    then have full: "garry_leaf_find nd key < 0" "2 \<le> nd_entry_count nd" by auto
    from p1(2) nd1 nd(2) srt len full obtain p2 es1 es2 where
      p2: "insert_into_leaf p1 p (canon nd) key value = (p2, fst (hd es2), bp_next_page p1, True)"
      "tree_pool n m p2" "leaf_at p2 p es1 (bp_next_page p1)" "leaf_at p2 (bp_next_page p1) es2 (nd_next_page nd)"
      "es1 @ es2 = ins_entry key value (node_entries nd)" "es1 \<noteq> []" "es2 \<noteq> []"
      "page_frame {p, bp_next_page p1} p1 p2"
      by (rule insert_leaf_split)
    have "page_frame ({p} \<union> {bp_next_page pool..}) pool p2"
      by (rule page_frame_mono [OF page_frame_trans [OF p1(3) p2(8)]]) (simp add: p1(4))
    moreover have "length (fst (hd es2)) < 256"
    proof -
      have "hd es2 \<in> set (ins_entry key value (node_entries nd))"
        using p2(7) unfolding p2(5) [symmetric] by simp
      with entries_at_ok [OF ok len] show ?thesis by (cases "hd es2") auto
    qed
    ultimately show ?thesis
      using step p2(1,2) leaf_grown_two [OF assms(3,4) p2(5) [unfolded nd(3)] p2(6,7) p2(3) [unfolded p1(4)]
          p2(4) [unfolded p1(4) nd(4)] p(2) refl _ p(1)] p1(4) by auto
  qed
qed

lemma insert_rec_tree:
  assumes "tree_pool (n + 13 * Suc h) (Suc h + m) pool" "tree_at pool nxt t" "ordered lo hi t" "balanced h t"
    and "distinct (tree_pages t)" "in_range lo hi key" "length key < 256" "length value < 256"
  shows "\<exists>pool' sep new us ss. btree_insert_rec pool (root_page t) key value = Some (pool', sep, new, True) \<and>
    tree_pool n m pool' \<and> page_frame (set (tree_pages t) \<union> {bp_next_page pool..}) pool pool' \<and>
    grown h pool nxt lo hi t (ins_entry key value (inorder t)) pool' us ss \<and> handed_up t sep new us ss"
  using assms
proof (induction h arbitrary: n m pool nxt t lo hi)
  case 0
  then obtain p es where t: "t = Lf p es" by (cases t) auto
  have "tree_pool (n + 13) (Suc m) pool" using "0.prems"(1) by simp
  from insert_rec_leaf [OF this, of p es nxt lo hi key "value"] "0.prems" show ?case by (simp add: t)
next
  case (Suc h)
  from Suc.prems(4) obtain p ts ks where t: "t = Nd p ts ks" and b: "\<forall>t \<in> set ts. balanced h t"
    by (cases t) auto
  have at: "inner_at pool p (map root_page ts) ks" "forest_at pool nxt ts" "ordered_list lo hi ts ks"
    using Suc.prems(2,3) by (simp_all add: t)
  obtain nd ts1 u ts2 ks1 ks2 where nd: "node_at pool p nd" "nd_kind nd = GARRY_NODE_INTERNAL"
    "0 < nd_entry_count nd" and sp: "ks = ks1 @ ks2" "ts = ts1 @ u # ts2" "length ts1 = length ks1"
    "length ts2 = length ks2"
    and f: "garry_internal_find nd key = int (length ks1)" "nd_entry_count nd = int (length ks)"
    "nd_children (canon nd) (int (length ks1)) = root_page u"
    "\<forall>x \<in> set ks1. x \<le> key" "ks2 \<noteq> [] \<Longrightarrow> key < hd ks2"
    and arrs: "arr (nd_entry_count nd) (nd_keys nd) = ks" "arr (nd_entry_count nd + 1) (nd_children nd) = map root_page ts"
    by (rule inner_at_descend [OF at, of key]) blast
  have ok: "node_ok nd" and p: "0 \<le> p" "p < bp_next_page pool" using nd(1) by (simp_all add: node_at_def)
  have "tree_pool (n + 11 + 13 * Suc h + 2) (Suc h + Suc m) pool"
    by (rule tree_pool_mono [OF Suc.prems(1)]) simp_all
  from this nd(1) obtain p1 where p1: "garry_load_node pool p = (p1, canon nd)"
    "tree_pool (n + 11 + 13 * Suc h) (Suc h + Suc m) p1" "page_frame {} pool p1" "bp_next_page p1 = bp_next_page pool"
    by (rule load_tree_node)
  have fo1: "forest_at p1 nxt ts" by (rule tree_at_frame(2) [OF at(2) p1(3)]) simp
  have ord: "ordered (last (lo # ks1)) (upper ks2 hi) u"
    using ordered_list_child [of lo hi ts1 u ts2 ks1 ks2] at(3) sp by simp
  have "tree_at p1 (next_of nxt ts2) u"
    using fo1 by (simp add: sp forest_at_append forest_at_Cons del: forest_at.simps(2))
  moreover have "balanced h u" "distinct (tree_pages u)" using b sp(2) Suc.prems(5) by (auto simp: t)
  moreover have "in_range (last (lo # ks1)) (upper ks2 hi) key"
    using Suc.prems(6) f(4,5) by (rule child_in_range)
  ultimately obtain p2 s c us ss where rec: "btree_insert_rec p1 (root_page u) key value = Some (p2, s, c, True)"
    "tree_pool (n + 11) (Suc m) p2" "page_frame (set (tree_pages u) \<union> {bp_next_page p1..}) p1 p2"
    "grown h p1 (next_of nxt ts2) (last (lo # ks1)) (upper ks2 hi) u (ins_entry key value (inorder u)) p2 us ss"
    "handed_up u s c us ss"
    using Suc.IH [OF p1(2) _ ord] Suc.prems(7,8) by blast
  let ?F = "ts1 @ us @ ts2" and ?S = "ks1 @ ss @ ks2"
  have dist: "distinct (tree_pages t)" by (rule Suc.prems(5))
  have p': "p < bp_next_page p1" using p(2) p1(4) by simp
  note spl = splice_children [OF t sp(2,1,3) fo1 at(3) b dist f(4,5) rec(3) p' rec(4)]
  have g: "grown h pool nxt lo hi t (ins_entry key value (inorder t)) p2 ?F ?S"
    using spl(1) by (simp add: grown_def p1(4))
  have pin: "p \<notin> set (tree_pages u) \<union> {bp_next_page p1..}"
    using dist p' by (auto simp: t sp(2))
  have nd2: "node_at p2 p nd"
    using node_at_frame [OF node_at_frame [OF nd(1) p1(3)] rec(3) pin] by simp
  have fr2: "page_frame (set (tree_pages t) \<union> {bp_next_page pool..}) pool p2"
    by (rule page_frame_mono [OF page_frame_trans [OF p1(3) rec(3)]]) (auto simp: t sp(2) p1(4))
  have n12: "bp_next_page pool \<le> bp_next_page p2" using fr2 by (simp add: page_frame_def)
  have step: "btree_insert_rec pool p key value =
      Some (insert_separator p (canon nd) (int (length ks1)) (p2, s, c, True))"
    using nd(2) rec(1) f(1,3) by (subst btree_insert_rec.simps) (simp add: p1(1))
  let ?i = "int (length ks1)"
  have i: "0 \<le> ?i" "?i \<le> nd_entry_count nd" using f(2) sp(1) by simp_all
  show ?case
  proof (cases "c < 0")
    case True
    then obtain u' where u: "us = [u']" "ss = []" "root_page u' = root_page u" "c = -1"
      using rec(5) by (auto simp: handed_up_def)
    have S: "?S = ks" using u by (simp add: sp(1))
    have "inner_at p2 p (map root_page ?F) ?S"
      unfolding S inner_at_def
      by (rule exI [of _ nd]) (use nd2 nd(2,3) arrs f(2) in \<open>auto simp: num_children_def sp(2) u\<close>)
    moreover have "page_frame {p} p2 p2" by simp
    ultimately have "grown (Suc h) pool nxt lo hi t (ins_entry key value (inorder t)) p2 [Nd p ?F ?S] [] \<and>
        handed_up t [] (-1) [Nd p ?F ?S] []"
      using grown_one [OF g t spl(2)] by blast
    moreover have "btree_insert_rec pool p key value = Some (p2, [], -1, True)"
      unfolding step using u(4) by (simp add: insert_separator_def)
    moreover have "tree_pool n m p2" by (rule tree_pool_mono [OF rec(2)]) simp_all
    ultimately show ?thesis using fr2 by (auto simp: t)
  next
    case False
    then obtain u1 u2 where u: "us = [u1, u2]" "ss = [s]" "root_page u1 = root_page u" "root_page u2 = c"
      "0 \<le> c" "length s < 256"
      using rec(5) by (auto simp: handed_up_def)
    have "c \<in> set (concat (map tree_pages us))" using u(1,4) by auto
    then have "c < bp_next_page p2" using tree_pages_bound(2) [OF grownD(1) [OF rec(4)]] by blast
    then have cok: "id_ok c" by (rule id_ok_below [OF rec(2) u(5)])
    have ks: "arr ?i (nd_keys nd) = ks1" "arr (nd_entry_count nd - ?i) (\<lambda>j. nd_keys nd (?i + j)) = ks2"
      using arr_split [OF i, of "nd_keys nd"] arrs(1) by (simp_all add: sp(1) append_eq_append_conv)
    have a: "arr (?i + 1) (nd_children nd) @ arr (nd_entry_count nd - ?i) (\<lambda>j. nd_children nd (?i + 1 + j)) =
        map root_page (ts1 @ [u]) @ map root_page ts2"
      using arr_split [of "?i + 1" "nd_entry_count nd + 1" "nd_children nd"] arrs(2) i by (simp add: sp(2))
    have al: "length (arr (?i + 1) (nd_children nd)) = length (map root_page (ts1 @ [u]))"
      using sp(3) by simp
    have cs: "arr (?i + 1) (nd_children nd) = map root_page (ts1 @ [u])"
      "arr (nd_entry_count nd - ?i) (\<lambda>j. nd_children nd (?i + 1 + j)) = map root_page ts2"
      using iffD1 [OF append_eq_append_conv [OF disjI1, OF al] a] by blast+
    have F: "map root_page ?F = arr (?i + 1) (nd_children nd) @ c #
        arr (nd_entry_count nd - ?i) (\<lambda>j. nd_children nd (?i + 1 + j))"
      unfolding cs using u by simp
    have S: "?S = arr ?i (nd_keys nd) @ s # arr (nd_entry_count nd - ?i) (\<lambda>j. nd_keys nd (?i + j))"
      unfolding ks using u(2) by simp
    show ?thesis
    proof (cases "nd_entry_count nd < 3")
      case True
      have "tree_pool (n + 2) m p2" by (rule tree_pool_mono [OF rec(2)]) simp_all
      from this nd2 nd(2) i True cok u(5,6) obtain p3 where
        p3: "insert_separator p (canon nd) ?i (p2, s, c, True) = (p3, [], -1, True)"
        "tree_pool n m p3" "page_frame {p} p2 p3"
        and inner: "inner_at p3 p (map root_page ?F) ?S"
        unfolding F S by (rule insert_separator_room)
      have "grown (Suc h) pool nxt lo hi t (ins_entry key value (inorder t)) p3 [Nd p ?F ?S] [] \<and>
          handed_up t [] (-1) [Nd p ?F ?S] []"
        by (rule grown_one [OF g t spl(2) p3(3) inner])
      moreover have "page_frame (set (tree_pages t) \<union> {bp_next_page pool..}) pool p3"
        by (rule page_frame_mono [OF page_frame_trans [OF fr2 p3(3)]]) (auto simp: t)
      ultimately show ?thesis using step p3(1,2) by (auto simp: t)
    next
      case False
      then have n3: "nd_entry_count nd = 3" using node_okD(4) [OF ok] by simp
      have "tree_pool (n + 9) (Suc m) p2" by (rule tree_pool_mono [OF rec(2)]) simp_all
      from this nd2 nd(2) i n3 cok u(5,6) obtain p3 k1 k2 k3 k4 c1 c2 c3 c4 c5 where
        p3: "insert_separator p (canon nd) ?i (p2, s, c, True) = (p3, k3, bp_next_page p2, True)"
        "tree_pool n m p3" "page_frame {p, bp_next_page p2} p2 p3"
        and inner: "inner_at p3 p [c1, c2, c3] [k1, k2]" "inner_at p3 (bp_next_page p2) [c4, c5] [k4]"
        and FS: "map root_page ?F = [c1, c2, c3, c4, c5]" "?S = [k1, k2, k3, k4]"
        unfolding F S by (rule insert_separator_split) metis
      have lenF: "length ?F = 5" using arg_cong [OF FS(1), of length] by simp
      define F1 where "F1 = take 3 ?F"
      define F2 where "F2 = drop 3 ?F"
      have FF: "?F = F1 @ F2" unfolding F1_def F2_def by (rule append_take_drop_id [symmetric])
      have r: "map root_page F1 = [c1, c2, c3]" "map root_page F2 = [c4, c5]"
        unfolding F1_def F2_def take_map [symmetric] drop_map [symmetric] FS(1) by simp_all
      have l: "length F1 = 3" "F1 \<noteq> []" "F2 \<noteq> []" using r by (auto dest: arg_cong [of _ _ length])
      have g': "grown h pool nxt lo hi t (ins_entry key value (inorder t)) p2 (F1 @ F2) ([k1, k2] @ k3 # [k4])"
        using g unfolding FF FS(2) by simp
      have pF: "p \<notin> set (concat (map tree_pages (F1 @ F2)))" using spl(2) unfolding FF .
      have "\<forall>k \<in> set ?S. length k < 256"
        using inner_parts(1) [OF ok nd(2) i] u(6) arrs(1) unfolding S ks by (auto simp: sp(1))
      then have "length k3 < 256" by (simp add: FS(2))
      then have "grown (Suc h) pool nxt lo hi t (ins_entry key value (inorder t)) p3
          [Nd p F1 [k1, k2], Nd (bp_next_page p2) F2 [k4]] [k3] \<and>
        handed_up t k3 (bp_next_page p2) [Nd p F1 [k1, k2], Nd (bp_next_page p2) F2 [k4]] [k3]"
        using l inner n3 f(2) by (intro grown_two [OF g' t pF p(2,1) refl n12 p3(3)]) (simp_all add: r)
      moreover have "page_frame (set (tree_pages t) \<union> {bp_next_page pool..}) pool p3"
        by (rule page_frame_mono [OF page_frame_trans [OF fr2 p3(3)]]) (use n12 in \<open>auto simp: t\<close>)
      ultimately show ?thesis using step p3(1,2) by (auto simp: t)
    qed
  qed
qed

subsection \<open>The tree as an ordered map\<close>

text \<open>The pages from \<open>root\<close> on hold an ordered tree of height \<open>h\<close> with these entries; the tree is
  on the pages of \<open>P\<close>.\<close>

definition btree_on :: "nat \<Rightarrow> garry_buffer_pool \<Rightarrow> int \<Rightarrow> entry list \<Rightarrow> int set \<Rightarrow> bool" where
  "btree_on h pool root es P \<longleftrightarrow>
     (\<exists>t. tree_at pool (-1) t \<and> ordered [] None t \<and> balanced h t \<and> distinct (tree_pages t) \<and>
          root_page t = root \<and> inorder t = es \<and> set (tree_pages t) = P)"

definition btree_holds :: "nat \<Rightarrow> garry_buffer_pool \<Rightarrow> int \<Rightarrow> entry list \<Rightarrow> bool" where
  "btree_holds h pool root es \<longleftrightarrow>
     (\<exists>t. tree_at pool (-1) t \<and> ordered [] None t \<and> balanced h t \<and> distinct (tree_pages t) \<and>
          root_page t = root \<and> inorder t = es)"

lemma btree_on_holds: "btree_on h pool root es P \<Longrightarrow> btree_holds h pool root es"
  by (auto simp: btree_on_def btree_holds_def)

lemma btree_holds_on: "btree_holds h pool root es \<longleftrightarrow> (\<exists>P. btree_on h pool root es P)"
  by (auto simp: btree_on_def btree_holds_def)

lemma btree_on_frame:
  "btree_on h pool root es P \<Longrightarrow> page_frame Q pool pool' \<Longrightarrow> P \<inter> Q = {} \<Longrightarrow> btree_on h pool' root es P"
  unfolding btree_on_def using tree_at_frame(1) by blast

lemma btree_on_bound: "btree_on h pool root es P \<Longrightarrow> p \<in> P \<Longrightarrow> 0 \<le> p \<and> p < bp_next_page pool"
  unfolding btree_on_def using tree_pages_bound(1) by blast

lemma btree_holds_sorted: "btree_holds h pool root es \<Longrightarrow> keys_sorted es"
  unfolding btree_holds_def using ordered_sorted(1) by blast

lemma btree_holds_search:
  assumes "pool_idle (n + 2 * Suc h) pool" "btree_holds h pool root es"
  shows "\<exists>pool'. garry_leaf_find_search pool root key = Some (pool', map_of es key) \<and>
    pool_idle n pool' \<and> page_frame {} pool pool' \<and> bp_next_page pool' = bp_next_page pool"
  using assms(2) search_tree [OF assms(1)] unfolding btree_holds_def by blast

lemma allocate_inner_tree:
  assumes "tree_pool (n + 3) (Suc m) pool"
  obtains pool' where "garry_allocate_internal pool = (pool', bp_next_page pool)" "tree_pool n m pool'"
    "page_frame {bp_next_page pool} pool pool'" "bp_next_page pool' = bp_next_page pool + 1"
    "0 \<le> bp_next_page pool"
proof -
  note d = tree_poolD [OF assms]
  have nn: "0 \<le> bp_next_page pool" using pool_invD(4) [OF pool_idle_inv [OF d(1)]] .
  from d(1,2) obtain p1 where p1: "allocate_node pool GARRY_NODE_INTERNAL = (p1, bp_next_page pool)"
    "pool_idle n p1" "fresh_at p1 (bp_next_page pool) GARRY_NODE_INTERNAL"
    "page_frame {bp_next_page pool} pool p1" "bp_next_page p1 = bp_next_page pool + 1"
    by (rule allocate_node_idle)
  show ?thesis
    by (rule that [of p1]) (use p1 d nn in \<open>simp_all add: garry_allocate_internal_def tree_pool_def page_frame_def\<close>)
qed

lemma tree_root_node:
  assumes "tree_at pool nxt t"
  obtains nd where "node_at pool (root_page t) nd" "nd_entry_count nd = int (width t)"
proof (cases t)
  case (Lf p es)
  with assms that show ?thesis by (auto simp: leaf_at_def node_at_def node_okD(3))
next
  case (Nd p ts ks)
  then obtain nd where nd: "node_at pool p nd" "arr (nd_entry_count nd) (nd_keys nd) = ks"
    using assms by (auto simp: inner_at_def)
  moreover have "0 \<le> nd_entry_count nd" using nd(1) by (simp add: node_at_def node_okD(3))
  ultimately show ?thesis using that Nd by auto
qed

text \<open>The root is split: a new root over both halves.\<close>

lemma new_root:
  assumes "tree_pool (n + 7) (Suc m) pool" and g: "grown h pool0 (-1) [] None t es pool us ss"
    and up: "handed_up t sep new us ss" "0 \<le> new" and wd: "width t \<le> w"
  shows "\<exists>p1 nd p2. garry_load_node pool (root_page t) = (p1, nd) \<and> nd_entry_count nd \<le> int w \<and>
    garry_allocate_internal p1 = (p2, bp_next_page pool) \<and> 0 \<le> bp_next_page pool \<and>
    (let nd = nd\<lparr>nd_kind := GARRY_NODE_INTERNAL,
           nd_header := zero_header\<lparr>ph_page_type := GARRY_NODE_INTERNAL, ph_page_level := 0\<rparr>,
           nd_children := (\<lambda>i. if 2 \<le> i \<and> i < GARRY_MAX_KEYS_PER_NODE + 1 then 0 else nd_children nd i)
             (0 := root_page t, 1 := new),
           nd_keys := (nd_keys nd)(0 := sep), nd_entry_count := 1, nd_next_page := -1, nd_prev_page := -1\<rparr>;
         p3 = garry_pool_mark_dirty (garry_store_node p2 (bp_next_page pool) nd) (bp_next_page pool)
     in tree_pool n m p3 \<and> page_frame {bp_next_page pool} pool p3 \<and>
        btree_on (Suc h) p3 (bp_next_page pool) es
          (insert (bp_next_page pool) (set (concat (map tree_pages us)))))"
proof -
  obtain u1 u2 where u: "us = [u1, u2]" "ss = [sep]" "root_page u1 = root_page t" "root_page u2 = new"
    "width u1 \<le> width t" "length sep < 256"
    using up by (auto simp: handed_up_def)
  note G = grownD [OF g, unfolded u]
  have t1: "tree_at pool (first_leaf u2) u1" using G(1) by simp
  obtain nd where nd: "node_at pool (root_page t) nd" "nd_entry_count nd = int (width u1)"
    using tree_root_node [OF t1] u(3) by metis
  have ok: "node_ok nd" using nd(1) by (simp add: node_at_def)
  have "tree_pool (n + 5 + 2) (Suc m) pool" by (rule tree_pool_mono [OF assms(1)]) simp_all
  from this nd(1) obtain p1 where p1: "garry_load_node pool (root_page t) = (p1, canon nd)"
    "tree_pool (n + 5) (Suc m) p1" "page_frame {} pool p1" "bp_next_page p1 = bp_next_page pool"
    by (rule load_tree_node)
  let ?new = "bp_next_page pool"
  have "tree_pool (n + 2 + 3) (Suc m) p1" by (rule tree_pool_mono [OF p1(2)]) simp_all
  then obtain p2 where p2: "garry_allocate_internal p1 = (p2, ?new)" "tree_pool (n + 2) m p2"
    "page_frame {?new} p1 p2" "bp_next_page p2 = ?new + 1" "0 \<le> ?new"
    unfolding p1(4) [symmetric] by (rule allocate_inner_tree)
  define r where "r = (canon nd)\<lparr>nd_kind := GARRY_NODE_INTERNAL,
    nd_header := zero_header\<lparr>ph_page_type := GARRY_NODE_INTERNAL, ph_page_level := 0\<rparr>,
    nd_children := (\<lambda>i. if 2 \<le> i \<and> i < GARRY_MAX_KEYS_PER_NODE + 1 then 0 else nd_children (canon nd) i)
      (0 := root_page t, 1 := new),
    nd_keys := (nd_keys (canon nd))(0 := sep), nd_entry_count := 1, nd_next_page := -1, nd_prev_page := -1\<rparr>"
  have bnd: "0 \<le> q \<and> q < ?new" if "q \<in> set (concat (map tree_pages [u1, u2]))" for q
    using tree_pages_bound(2) [OF G(1) that] .
  have "root_page u1 \<in> set (tree_pages u1)" "root_page u2 \<in> set (tree_pages u2)" by simp_all
  then have "0 \<le> root_page t \<and> root_page t < ?new" "0 \<le> new \<and> new < ?new"
    unfolding u(3,4) by (intro bnd; simp)+
  then have ids: "id_ok (root_page t)" "id_ok new" using id_ok_below [OF assms(1)] by blast+
  have rf: "nd_kind r = GARRY_NODE_INTERNAL" "nd_entry_count r = 1" "ph_page_level (nd_header r) = 0"
    "nd_next_page r = -1" "nd_prev_page r = -1" "arr 2 (nd_children r) = [root_page t, new]"
    "arr 1 (nd_keys r) = [sep]" "nd_values r = nd_values (canon nd)"
    by (simp_all add: r_def arr_def upto_rec1)
  have "length (nd_values (canon nd) i) < 256" for i
    using node_okD(9) [OF ok, of i] by (auto simp: canon_def entry_value_def)
  then have okr: "node_ok r"
    using ids u(6) by (intro inner_node_ok) (simp_all add: rf, simp_all add: id_ok_def node_consts)
  let ?p3 = "garry_pool_mark_dirty (garry_store_node p2 ?new r) ?new"
  note st = store_tree_node [OF p2(2,5) _ okr, unfolded p2(4)]
  have fr: "page_frame {?new} pool ?p3"
    using page_frame_trans [OF page_frame_trans [OF p1(3) p2(3)] st(3)] by simp
  moreover have "set (concat (map tree_pages [u1, u2])) \<inter> {?new} = {}" using bnd by fastforce
  ultimately have fo: "forest_at ?p3 (-1) [u1, u2]" by (intro tree_at_frame(2) [OF G(1)])
  have "node_at ?p3 ?new r" using st(2) by simp
  from node_at_inner [OF this rf(1)] have inn: "inner_at ?p3 ?new (map root_page [u1, u2]) [sep]"
    by (simp add: rf u(3,4))
  have "?new \<notin> set (concat (map tree_pages [u1, u2]))" using bnd by fastforce
  then have "btree_on (Suc h) ?p3 ?new es (insert ?new (set (concat (map tree_pages us))))"
    unfolding btree_on_def using fo inn G
    by (intro exI [of _ "Nd ?new [u1, u2] [sep]"]) (simp add: u(1))
  moreover have "tree_pool n m ?p3" using st(1) by simp
  ultimately show ?thesis
    using p1(1) p2(1,5) nd(2) u(5) wd fr unfolding r_def by (auto simp: Let_def)
qed

lemma btree_on_insert:
  assumes "tree_pool (n + 22 + 13 * h) (Suc (Suc h) + m) pool" "btree_on h pool root es P"
    and "length key < 256" "length value < 256"
  shows "\<exists>pool' root' h' P'. garry_btree_insert pool root key value = Some (pool', root', True) \<and>
    h' \<le> Suc h \<and> tree_pool n m pool' \<and> btree_on h' pool' root' (ins_entry key value es) P' \<and>
    P' \<subseteq> P \<union> {bp_next_page pool..} \<and> page_frame (P \<union> {bp_next_page pool..}) pool pool'"
proof -
  obtain t where t: "tree_at pool (-1) t" "ordered [] None t" "balanced h t" "distinct (tree_pages t)"
    "root_page t = root" "inorder t = es" "set (tree_pages t) = P"
    using assms(2) by (auto simp: btree_on_def)
  obtain nd where nd: "node_at pool root nd" "nd_entry_count nd = int (width t)"
    using tree_root_node [OF t(1)] t(5) by metis
  have "tree_pool (n + 7 + 13 * Suc h + 2) (Suc h + Suc m) pool"
    by (rule tree_pool_mono [OF assms(1)]) simp_all
  from this nd(1) obtain p1 where p1: "garry_load_node pool root = (p1, canon nd)"
    "tree_pool (n + 7 + 13 * Suc h) (Suc h + Suc m) p1" "page_frame {} pool p1" "bp_next_page p1 = bp_next_page pool"
    by (rule load_tree_node)
  have "tree_at p1 (-1) t" by (rule tree_at_frame(1) [OF t(1) p1(3)]) simp
  from insert_rec_tree [OF p1(2) this t(2-4) _ assms(3,4)] obtain p2 sep new us ss where
    rec: "btree_insert_rec p1 root key value = Some (p2, sep, new, True)" "tree_pool (n + 7) (Suc m) p2"
    "page_frame (P \<union> {bp_next_page p1..}) p1 p2"
    "grown h p1 (-1) [] None t (ins_entry key value es) p2 us ss" "handed_up t sep new us ss"
    by (auto simp: t(5-7))
  have fr: "page_frame (P \<union> {bp_next_page pool..}) pool p2"
    using page_frame_trans [OF p1(3) rec(3)] by (simp add: p1(4))
  have np: "bp_next_page pool \<le> bp_next_page p2" using fr by (simp add: page_frame_def)
  have us: "set (concat (map tree_pages us)) \<subseteq> P \<union> {bp_next_page pool..}"
    using grownD(6) [OF rec(4)] by (simp only: t(7) p1(4))
  show ?thesis
  proof (cases "new < 0")
    case True
    then obtain u where u: "us = [u]" "ss = []" "root_page u = root" "new = -1"
      using rec(5) t(5) by (auto simp: handed_up_def)
    have "btree_on h p2 root (ins_entry key value es) (set (tree_pages u))"
      unfolding btree_on_def using grownD [OF rec(4), unfolded u] u(3) by (intro exI [of _ u]) simp
    moreover have "garry_btree_insert pool root key value = Some (p2, root, True)"
      using u(4) by (simp add: garry_btree_insert_def p1(1) rec(1))
    moreover have "tree_pool n m p2" by (rule tree_pool_mono [OF rec(2)]) simp_all
    ultimately show ?thesis using fr us u(1)
      by (intro exI [of _ p2] exI [of _ root] exI [of _ h] exI [of _ "set (tree_pages u)"]) simp
  next
    case False
    then have nn: "0 \<le> new" by simp
    from new_root [OF rec(2,4,5) nn order_refl, unfolded t(5)] nd(2) False obtain p3 where
      p3: "garry_btree_insert pool root key value = Some (p3, bp_next_page p2, True)" "tree_pool n m p3"
      "page_frame {bp_next_page p2} p2 p3"
      "btree_on (Suc h) p3 (bp_next_page p2) (ins_entry key value es)
         (insert (bp_next_page p2) (set (concat (map tree_pages us))))"
      unfolding garry_btree_insert_def p1(1) by (auto simp: rec(1) Let_def)
    have "page_frame (P \<union> {bp_next_page pool..}) pool p3"
      by (rule page_frame_mono [OF page_frame_trans [OF fr p3(3)]]) (use np in auto)
    moreover have "insert (bp_next_page p2) (set (concat (map tree_pages us))) \<subseteq> P \<union> {bp_next_page pool..}"
      using us np by blast
    ultimately show ?thesis using p3(1,2,4) by blast
  qed
qed

lemma btree_holds_insert:
  assumes "tree_pool (n + 22 + 13 * h) (Suc (Suc h) + m) pool" "btree_holds h pool root es"
    and "length key < 256" "length value < 256"
  shows "\<exists>pool' root' h'. garry_btree_insert pool root key value = Some (pool', root', True) \<and>
    h' \<le> Suc h \<and> tree_pool n m pool' \<and> btree_holds h' pool' root' (ins_entry key value es)"
  using assms btree_on_insert [OF assms(1) _ assms(3,4)] unfolding btree_holds_on by blast

subsection \<open>The interface of the index\<close>

text \<open>A sequence of insertions.\<close>

fun insert_all :: "('s \<Rightarrow> key \<Rightarrow> byte list \<Rightarrow> ('s \<times> bool) option) \<Rightarrow> 's \<Rightarrow> entry list \<Rightarrow> 's option" where
  "insert_all ins s [] = Some s"
| "insert_all ins s ((k, v) # kvs) =
     (case ins s k v of
        Some (s', True) \<Rightarrow> insert_all ins s' kvs
      | _ \<Rightarrow> None)"

text \<open>What the storage layer relies on. The number is how many more operations the resources of the
  state are enough for.\<close>

locale ordered_index =
  fixes holding :: "nat \<Rightarrow> 's \<Rightarrow> entry list \<Rightarrow> bool"
    and find :: "'s \<Rightarrow> key \<Rightarrow> ('s \<times> byte list option) option"
    and insert :: "'s \<Rightarrow> key \<Rightarrow> byte list \<Rightarrow> ('s \<times> bool) option"
    and storable :: "key \<Rightarrow> byte list \<Rightarrow> bool"
  assumes find_law: "holding (Suc n) s es \<Longrightarrow> \<exists>s'. find s k = Some (s', map_of es k) \<and> holding n s' es"
    and insert_law: "holding (Suc n) s es \<Longrightarrow> storable k v \<Longrightarrow>
      \<exists>s'. insert s k v = Some (s', True) \<and> holding n s' (ins_entry k v es)"
begin

lemma insert_all_holds:
  assumes "holding (length kvs + n) s es" "\<forall>(k, v) \<in> set kvs. storable k v"
  shows "\<exists>s'. insert_all insert s kvs = Some s' \<and> holding n s' (fold (\<lambda>(k, v). ins_entry k v) kvs es)"
  using assms
proof (induction kvs arbitrary: s es)
  case (Cons kv kvs)
  obtain k v where kv: "kv = (k, v)" by (cases kv)
  have "holding (Suc (length kvs + n)) s es" "storable k v" using Cons.prems by (simp_all add: kv)
  then obtain s' where s': "insert s k v = Some (s', True)" "holding (length kvs + n) s' (ins_entry k v es)"
    using insert_law by blast
  with Cons.IH [OF s'(2)] Cons.prems(2) show ?case by (simp add: kv)
qed simp

lemma map_of_fold_ins: "map_of (fold (\<lambda>(k, v). ins_entry k v) kvs es) = map_of (rev kvs @ es)"
proof (induction kvs arbitrary: es)
  case (Cons kv kvs)
  show ?case
    by (cases kv) (simp add: Cons.IH map_of_ins_entry fun_eq_iff map_add_def split: option.split)
qed simp

text \<open>A search returns what the last insertion of the key put there.\<close>

lemma find_after_inserts:
  assumes "holding (Suc (length kvs)) s es" "\<forall>(k, v) \<in> set kvs. storable k v"
  shows "\<exists>s' s''. insert_all insert s kvs = Some s' \<and> find s' k = Some (s'', map_of (rev kvs @ es) k)"
proof -
  have "holding (length kvs + 1) s es" using assms(1) by simp
  from insert_all_holds [OF this assms(2)] obtain s' where s': "insert_all insert s kvs = Some s'"
    "holding (Suc 0) s' (fold (\<lambda>(k, v). ins_entry k v) kvs es)" by auto
  with find_law [OF s'(2), of k] show ?thesis by (auto simp: map_of_fold_ins)
qed

end

text \<open>The B-tree keeps the contract: every operation may add a level, so the resources are counted
  for the height the tree can reach.\<close>

definition index_holding :: "nat \<Rightarrow> garry_buffer_pool \<times> int \<Rightarrow> entry list \<Rightarrow> bool" where
  "index_holding n s es \<longleftrightarrow>
     (\<exists>h H. h + n \<le> H \<and> btree_holds h (fst s) (snd s) es \<and>
            tree_pool (n * (22 + 13 * H)) (n * (2 + H)) (fst s))"

definition index_find :: "garry_buffer_pool \<times> int \<Rightarrow> key \<Rightarrow> ((garry_buffer_pool \<times> int) \<times> byte list option) option" where
  "index_find s key =
     map_option (\<lambda>(pool, r). ((pool, snd s), r)) (garry_leaf_find_search (fst s) (snd s) key)"

definition index_insert ::
  "garry_buffer_pool \<times> int \<Rightarrow> key \<Rightarrow> byte list \<Rightarrow> ((garry_buffer_pool \<times> int) \<times> bool) option" where
  "index_insert s key value =
     map_option (\<lambda>(pool, root, ok). ((pool, root), ok)) (garry_btree_insert (fst s) (snd s) key value)"

definition index_storable :: "key \<Rightarrow> byte list \<Rightarrow> bool" where
  "index_storable k v \<longleftrightarrow> length k < 256 \<and> length v < 256"

lemma tree_pool_frame:
  "tree_pool n m pool \<Longrightarrow> pool_idle n' pool' \<Longrightarrow> page_frame P pool pool' \<Longrightarrow>
     bp_next_page pool' = bp_next_page pool \<Longrightarrow> tree_pool n' m pool'"
  by (simp add: tree_pool_def page_frame_def)

lemma btree_holds_frame:
  "btree_holds h pool root es \<Longrightarrow> page_frame {} pool pool' \<Longrightarrow> btree_holds h pool' root es"
  unfolding btree_holds_def using tree_at_frame(1) [of pool "-1" _ "{}" pool'] by fastforce

interpretation btree_index: ordered_index index_holding index_find index_insert index_storable
proof unfold_locales
  fix n s es k
  assume "index_holding (Suc n) s es"
  then obtain h H where h: "h + Suc n \<le> H" "btree_holds h (fst s) (snd s) es"
    "tree_pool (Suc n * (22 + 13 * H)) (Suc n * (2 + H)) (fst s)"
    by (auto simp: index_holding_def)
  have "pool_idle (n * (22 + 13 * H) + 2 * Suc h) (fst s)"
    using tree_poolD(1) [OF h(3)] h(1) by (elim pool_idle_mono) simp
  from btree_holds_search [OF this h(2), of k] obtain pool' where
    s: "garry_leaf_find_search (fst s) (snd s) k = Some (pool', map_of es k)"
    "pool_idle (n * (22 + 13 * H)) pool'" "page_frame {} (fst s) pool'" "bp_next_page pool' = bp_next_page (fst s)"
    by blast
  have "tree_pool (n * (22 + 13 * H)) (n * (2 + H)) pool'"
    using tree_pool_mono [OF tree_pool_frame [OF h(3) s(2-4)] order_refl, of "n * (2 + H)"] by simp
  then have "index_holding n (pool', snd s) es"
    unfolding index_holding_def using btree_holds_frame [OF h(2) s(3)] h(1)
    by (intro exI [of _ h] exI [of _ H]) simp
  then show "\<exists>s'. index_find s k = Some (s', map_of es k) \<and> index_holding n s' es"
    by (simp add: index_find_def s(1))
next
  fix n s es k v
  assume "index_holding (Suc n) s es" and kv: "index_storable k v"
  then obtain h H where h: "h + Suc n \<le> H" "btree_holds h (fst s) (snd s) es"
    "tree_pool (Suc n * (22 + 13 * H)) (Suc n * (2 + H)) (fst s)"
    by (auto simp: index_holding_def)
  have "tree_pool (n * (22 + 13 * H) + 22 + 13 * h) (Suc (Suc h) + n * (2 + H)) (fst s)"
    by (rule tree_pool_mono [OF h(3)]) (use h(1) in simp_all)
  from btree_holds_insert [OF this h(2), of k v] kv obtain pool' root' h' where
    s: "garry_btree_insert (fst s) (snd s) k v = Some (pool', root', True)" "h' \<le> Suc h"
    "tree_pool (n * (22 + 13 * H)) (n * (2 + H)) pool'" "btree_holds h' pool' root' (ins_entry k v es)"
    by (auto simp: index_storable_def)
  then have "index_holding n (pool', root') (ins_entry k v es)"
    unfolding index_holding_def using h(1) by (intro exI [of _ h'] exI [of _ H]) simp
  then show "\<exists>s'. index_insert s k v = Some (s', True) \<and> index_holding n s' (ins_entry k v es)"
    by (simp add: index_insert_def s(1))
qed

subsection \<open>Properties\<close>

text \<open>C12. A search of a well-formed tree returns: the descent ends at a leaf and finds the value the
  tree holds for the key, or nothing if there is none. No page changes, of the tree or of anything
  else: every page reads afterwards as it did, no page is allocated, and the tree is the same.\<close>

theorem btree_search_returns:
  assumes "btree_holds h pool root es" "pool_idle (2 * Suc h) pool"
  shows "\<exists>pool'. garry_leaf_find_search pool root key = Some (pool', map_of es key) \<and>
    (\<forall>q. agree 0 (bp_page_size pool) (page_view pool q) (page_view pool' q)) \<and>
    bp_page_size pool' = bp_page_size pool \<and> bp_next_page pool' = bp_next_page pool \<and>
    bp_free_list_head pool' = bp_free_list_head pool \<and> btree_holds h pool' root es"
proof -
  from btree_holds_search [of 0 h pool root es key] assms obtain pool' where
    s: "garry_leaf_find_search pool root key = Some (pool', map_of es key)" "page_frame {} pool pool'"
      "bp_next_page pool' = bp_next_page pool" by auto
  with btree_holds_frame [OF assms(1) s(2)] show ?thesis by (simp add: page_frame_def)
qed

text \<open>C9. Insertion implements the map update: on a well-formed tree it returns successfully,
  whatever nodes it splits, and leaves a well-formed tree, in key order, of the same height or one
  more, whose entries are the old ones with the key bound to the new value; a search for any key
  then finds exactly that.\<close>

theorem btree_insert_refines_update:
  assumes "btree_holds h pool root es" "tree_pool (37 + 15 * h) (h + 2) pool"
    and "length key < 256" "length value < 256"
  shows "\<exists>pool' root' h' es'. garry_btree_insert pool root key value = Some (pool', root', True) \<and>
    btree_holds h' pool' root' es' \<and> h' \<le> Suc h \<and> keys_sorted es' \<and> map_of es' = (map_of es)(key \<mapsto> value) \<and>
    (\<exists>pool''. garry_leaf_find_search pool' root' k = Some (pool'', ((map_of es)(key \<mapsto> value)) k))"
proof -
  have "tree_pool (2 * Suc (Suc h) + 22 + 13 * h) (Suc (Suc h) + 0) pool"
    by (rule tree_pool_mono [OF assms(2)]) simp_all
  from btree_holds_insert [OF this assms(1,3,4)] obtain pool' root' h' where
    i: "garry_btree_insert pool root key value = Some (pool', root', True)" "h' \<le> Suc h"
    "tree_pool (2 * Suc (Suc h)) 0 pool'" "btree_holds h' pool' root' (ins_entry key value es)"
    by blast
  have "pool_idle (0 + 2 * Suc h') pool'"
    using tree_poolD(1) [OF i(3)] i(2) by (elim pool_idle_mono) simp
  from btree_holds_search [OF this i(4), of k] i btree_holds_sorted [OF i(4)] show ?thesis
    by (intro exI [of _ pool'] exI [of _ root'] exI [of _ h'] exI [of _ "ins_entry key value es"])
      (auto simp: map_of_ins_entry)
qed

text \<open>A new tree: one empty leaf on page 1.\<close>

definition tree_file_pool :: garry_buffer_pool where
  "tree_file_pool = (the (garry_pool_create demo_file (\<lambda>_ _. 0) 4 4096))
     \<lparr>bp_next_page := 2, bp_free_list_head := -1\<rparr>"

definition empty_tree :: garry_buffer_pool where
  "empty_tree = garry_store_node tree_file_pool 1 (fresh_node GARRY_NODE_LEAF)"

lemma tree_file_pool_eq:
  "tree_file_pool = \<lparr>bp_capacity = 4, bp_page_size = 4096, bp_pages = (\<lambda>_ _. 0),
     bp_page_ids = (\<lambda>_. 0), bp_pin_counts = (\<lambda>_. 0), bp_dirty = (\<lambda>_. False),
     bp_loaded = (\<lambda>_. False), bp_last_access = (\<lambda>_. 0), bp_fd = demo_file,
     bp_next_page = 2, bp_free_list_head = -1, bp_access_counter = 0\<rparr>"
  by (simp add: tree_file_pool_def garry_pool_create_def)

lemma tree_file_pool_ready: "n < 2 ^ 31 \<Longrightarrow> m < 2 ^ 30 \<Longrightarrow> tree_pool n m tree_file_pool"
  by (simp add: tree_file_pool_eq tree_pool_def pool_idle_def pool_ready_def pool_inv_def demo_file_def node_consts)

lemma empty_tree_holds: "n < 2 ^ 30 \<Longrightarrow> m < 2 ^ 30 \<Longrightarrow> tree_pool n m empty_tree"
  "btree_holds 0 empty_tree 1 []"
proof -
  have ok: "node_ok (fresh_node GARRY_NODE_LEAF)" by (rule demo_leaf_ok(2))
  have nx: "bp_next_page tree_file_pool = 2" by (simp add: tree_file_pool_eq)
  have s: "tree_pool n m empty_tree" "node_at empty_tree 1 (fresh_node GARRY_NODE_LEAF)"
    if "n < 2 ^ 30" "m < 2 ^ 30" for n m
  proof -
    have "n + 2 < 2 ^ 31" using that(1) by simp
    note st = store_tree_node [OF tree_file_pool_ready [OF this that(2)] _ _ ok, of 1, unfolded nx]
    show "tree_pool n m empty_tree" "node_at empty_tree 1 (fresh_node GARRY_NODE_LEAF)"
      unfolding empty_tree_def by (rule st; simp)+
  qed
  show "n < 2 ^ 30 \<Longrightarrow> m < 2 ^ 30 \<Longrightarrow> tree_pool n m empty_tree" by (rule s(1))
  have "node_at empty_tree 1 (fresh_node GARRY_NODE_LEAF)" by (rule s(2) [of 0 0]) simp_all
  from node_at_leaf [OF this] have "leaf_at empty_tree 1 [] (-1)" by (simp add: node_entries_def)
  then show "btree_holds 0 empty_tree 1 []"
    unfolding btree_holds_def by (intro exI [of _ "Lf 1 []"]) (simp add: keys_sorted_def)
qed

theorem btree_search_returns_witness:
  "\<exists>pool'. garry_leaf_find_search empty_tree 1 [97] = Some (pool', None) \<and> bp_next_page pool' = bp_next_page empty_tree \<and>
    (\<forall>q. agree 0 (bp_page_size empty_tree) (page_view empty_tree q) (page_view pool' q))"
proof -
  have "pool_idle (2 * Suc 0) empty_tree" using tree_poolD(1) [OF empty_tree_holds(1) [of 2 0]] by simp
  with btree_search_returns [OF empty_tree_holds(2), of "[97]"] show ?thesis by auto
qed

theorem btree_insert_refines_update_witness:
  "\<exists>pool' root' pool''. garry_btree_insert empty_tree 1 [97] [1, 2] = Some (pool', root', True) \<and>
    garry_leaf_find_search pool' root' [97] = Some (pool'', Some [1, 2])"
proof -
  have "tree_pool (37 + 15 * 0) (0 + 2) empty_tree" by (rule empty_tree_holds(1)) simp_all
  from btree_insert_refines_update [OF empty_tree_holds(2) this, of "[97]" "[1, 2]" "[97]"]
  show ?thesis by auto
qed

text \<open>C10. The B-tree is a finite map: after any sequence of insertions, each of which succeeds, a
  search returns the value the key was last inserted with, or what the tree held before.\<close>

theorem btree_inserts_then_search:
  assumes "index_holding (Suc (length kvs)) s es" "\<forall>(k, v) \<in> set kvs. length k < 256 \<and> length v < 256"
  shows "\<exists>s' s''. insert_all index_insert s kvs = Some s' \<and>
    index_find s' k = Some (s'', map_of (rev kvs @ es) k)"
  by (rule btree_index.find_after_inserts [OF assms(1)])
    (use assms(2) in \<open>simp add: index_storable_def\<close>)

lemma empty_index: "index_holding (Suc (Suc (Suc (Suc (Suc (Suc 0)))))) (empty_tree, 1) []"
  unfolding index_holding_def using empty_tree_holds(2) empty_tree_holds(1) [of 600 48]
  by (intro exI [of _ 0] exI [of _ 6]) simp

theorem btree_inserts_then_search_witness:
  "\<exists>s' s''. insert_all index_insert (empty_tree, 1)
       [([98], [1]), ([97], [2]), ([99], [3]), ([98], [4]), ([100], [5])] = Some s' \<and>
     index_find s' [98] = Some (s'', Some [4])"
  using btree_inserts_then_search
    [of "[([98], [1]), ([97], [2]), ([99], [3]), ([98], [4]), ([100], [5])]" "(empty_tree, 1)" "[]" "[98]"]
    empty_index
  by (simp del: insert_all.simps)

end
