(* ===== verification/Garry_BTreeCursor.thy ===== *)
theory Garry_BTreeCursor
  imports Garry_BTree
begin

text \<open>
  Cursors over the leaves of the B-tree: \<open>src/src/btree_cursor.c\<close>.

  A cursor holds a leaf page and a slot; it follows the \<open>next_page\<close> links of the leaves, so that
  opening and advancing are partial functions like the descents of \<open>Garry_BTree\<close>. Unsigned fields
  hold small non-negative integers.

  The lemmas relate a cursor to the list of entries it has yet to deliver. On a well-formed tree a
  scan delivers exactly the entries whose key starts with the prefix, in key order, and ends.
\<close>

subsection \<open>The cursor\<close>

record garry_btree_cursor_handle =
  cu_root :: int
  cu_prefix :: buffer
  cu_prefix_len :: int
  cu_current_page :: int
  cu_current_slot :: int
  cu_current :: "byte list"
  cu_current_value :: "byte list"
  cu_exhausted :: bool
  cu_saved_key :: "byte list"
  cu_has_saved :: bool
  cu_node_loaded :: bool
  cu_current_node :: garry_btree_node

text \<open>\<open>prefix_match key klen pfx plen\<close>; the prefix is an array with its length.\<close>

definition prefix_match :: "byte list \<Rightarrow> buffer \<Rightarrow> int \<Rightarrow> bool" where
  "prefix_match key pfx plen =
     (if plen > int (length key) then False
      else list_all (\<lambda>i. key ! nat i = pfx i) [0..plen - 1])"

definition new_cursor :: "int \<Rightarrow> buffer option \<Rightarrow> int \<Rightarrow> garry_btree_cursor_handle" where
  "new_cursor root pfx plen =
     \<lparr>cu_root = root, cu_prefix = (case pfx of None \<Rightarrow> (\<lambda>_. 0) | Some p \<Rightarrow> p), cu_prefix_len = plen,
      cu_current_page = 0, cu_current_slot = 0, cu_current = [], cu_current_value = [],
      cu_exhausted = False, cu_saved_key = [], cu_has_saved = False, cu_node_loaded = False,
      cu_current_node = blank_node\<rparr>"

text \<open>The descent of \<open>garry_btree_cursor_open\<close>.\<close>

partial_function (option) cursor_descend ::
  "garry_buffer_pool \<Rightarrow> garry_btree_cursor_handle \<Rightarrow> buffer option \<Rightarrow> int \<Rightarrow> int \<Rightarrow>
   (garry_buffer_pool \<times> garry_btree_cursor_handle) option" where
  "cursor_descend pool cur pfx plen page =
     (let (pool, node) = garry_load_node pool page in
      if nd_kind node = GARRY_NODE_LEAF
      then Some (pool, cur\<lparr>cu_current_page := page, cu_current_slot := 0\<rparr>)
      else if nd_entry_count node > 0
      then (let idx = (if plen > 0 \<and> pfx \<noteq> None
                       then (let idx = garry_internal_find node (read_bytes (the pfx) 0 plen)
                             in if idx \<ge> nd_entry_count node then nd_entry_count node - 1 else idx)
                       else 0)
            in cursor_descend pool cur pfx plen (nd_children node idx))
      else Some (pool, cur\<lparr>cu_exhausted := True\<rparr>))"

definition garry_btree_cursor_open ::
  "garry_buffer_pool \<Rightarrow> int \<Rightarrow> buffer option \<Rightarrow> int \<Rightarrow>
   (garry_buffer_pool \<times> garry_btree_cursor_handle) option" where
  "garry_btree_cursor_open pool root pfx plen =
     cursor_descend pool (new_cursor root pfx plen) pfx plen root"

definition entry_matches :: "garry_btree_cursor_handle \<Rightarrow> byte list \<Rightarrow> bool" where
  "entry_matches cur key \<longleftrightarrow>
     (cu_prefix_len cur > 0 \<and> prefix_match key (cu_prefix cur) (cu_prefix_len cur)) \<or> cu_prefix_len cur = 0"

text \<open>The loop of \<open>garry_btree_cursor_next\<close>.\<close>

partial_function (option) cursor_advance ::
  "garry_buffer_pool \<Rightarrow> garry_btree_cursor_handle \<Rightarrow>
   (garry_buffer_pool \<times> garry_btree_cursor_handle \<times> byte list option) option" where
  "cursor_advance pool cur =
     (let (pool, node) = garry_load_node pool (cu_current_page cur);
          cur = cur\<lparr>cu_current_node := node, cu_node_loaded := True\<rparr>
      in case List.find (\<lambda>i. entry_matches cur (nd_keys node i))
                [cu_current_slot cur..nd_entry_count node - 1] of
           Some i \<Rightarrow>
             Some (pool, cur\<lparr>cu_current := nd_keys node i, cu_current_value := nd_values node i,
                             cu_current_slot := i + 1\<rparr>, Some (nd_keys node i))
         | None \<Rightarrow>
             if nd_next_page node \<ge> 0
             then cursor_advance pool (cur\<lparr>cu_current_page := nd_next_page node,
                                           cu_current_slot := 0, cu_node_loaded := False\<rparr>)
             else Some (pool, cur\<lparr>cu_exhausted := True, cu_node_loaded := False\<rparr>, None))"

text \<open>\<open>None\<close> in the result is \<open>GARRY_FALSE\<close>.\<close>

definition garry_btree_cursor_next ::
  "garry_buffer_pool \<Rightarrow> garry_btree_cursor_handle \<Rightarrow>
   (garry_buffer_pool \<times> garry_btree_cursor_handle \<times> byte list option) option" where
  "garry_btree_cursor_next pool cur =
     (if cu_exhausted cur then Some (pool, cur, None)
      else if cu_has_saved cur
      then Some (pool, cur\<lparr>cu_current := cu_saved_key cur, cu_has_saved := False, cu_saved_key := []\<rparr>, Some (cu_saved_key cur))
      else cursor_advance pool cur)"

definition garry_btree_cursor_peek ::
  "garry_buffer_pool \<Rightarrow> garry_btree_cursor_handle \<Rightarrow> garry_buffer_pool \<times> byte list option" where
  "garry_btree_cursor_peek pool cur =
     (if cu_exhausted cur then (pool, None)
      else if cu_current cur \<noteq> [] then (pool, Some (cu_current cur))
      else (let (pool, node) = garry_load_node pool (cu_current_page cur)
            in if cu_current_slot cur < nd_entry_count node
               then (pool, Some (nd_keys node (cu_current_slot cur)))
               else (pool, None)))"

definition garry_btree_cursor_value :: "garry_btree_cursor_handle \<Rightarrow> byte list" where
  "garry_btree_cursor_value cur = cu_current_value cur"

definition garry_btree_cursor_close :: "garry_btree_cursor_handle \<Rightarrow> garry_btree_cursor_handle" where
  "garry_btree_cursor_close cur = cur\<lparr>cu_exhausted := True\<rparr>"

subsection \<open>Prefixes\<close>

lemma take_prefix: "Sublist.prefix xs ys \<longleftrightarrow> length xs \<le> length ys \<and> take (length xs) ys = xs"
  by (metis append_eq_conv_conj append_take_drop_id prefixE prefix_length_le prefixI)

lemma prefix_match_iff:
  assumes "0 \<le> plen"
  shows "prefix_match key pfx plen \<longleftrightarrow> Sublist.prefix (read_bytes pfx 0 plen) key"
proof -
  have "list_all (\<lambda>i. key ! nat i = pfx i) [0..plen - 1] \<longleftrightarrow> (\<forall>j < nat plen. key ! j = pfx (int j))"
  proof
    assume l: "list_all (\<lambda>i. key ! nat i = pfx i) [0..plen - 1]"
    show "\<forall>j < nat plen. key ! j = pfx (int j)"
    proof (intro allI impI)
      fix j assume "j < nat plen"
      then have "int j \<in> set [0..plen - 1]" by simp
      with l show "key ! j = pfx (int j)" unfolding list_all_iff by fastforce
    qed
  next
    assume r: "\<forall>j < nat plen. key ! j = pfx (int j)"
    show "list_all (\<lambda>i. key ! nat i = pfx i) [0..plen - 1]"
      unfolding list_all_iff
    proof
      fix i assume "i \<in> set [0..plen - 1]"
      then have "nat i < nat plen" "int (nat i) = i" by simp_all
      with r show "key ! nat i = pfx i" by metis
    qed
  qed
  moreover have "take (nat plen) key = read_bytes pfx 0 plen \<longleftrightarrow> (\<forall>j < nat plen. key ! j = pfx (int j))"
    if "nat plen \<le> length key"
    using that by (simp add: list_eq_iff_nth_eq)
  moreover have "plen > int (length key) \<longleftrightarrow> \<not> nat plen \<le> length key" using assms by linarith
  ultimately have "prefix_match key pfx plen \<longleftrightarrow> nat plen \<le> length key \<and> take (nat plen) key = read_bytes pfx 0 plen"
    unfolding prefix_match_def by presburger
  then show ?thesis by (simp add: take_prefix)
qed

subsection \<open>The chain of leaves\<close>

fun leaf_lists :: "btree \<Rightarrow> entry list list" where
  "leaf_lists (Lf p es) = [es]"
| "leaf_lists (Nd p ts ks) = concat (map leaf_lists ts)"

text \<open>From page \<open>p\<close> on the leaves hold these lists of entries and the last one has no successor.\<close>

fun chain_at :: "garry_buffer_pool \<Rightarrow> int \<Rightarrow> entry list list \<Rightarrow> bool" where
  "chain_at pool p [] \<longleftrightarrow> p = -1"
| "chain_at pool p (es # ess) \<longleftrightarrow> (\<exists>nxt. leaf_at pool p es nxt \<and> chain_at pool nxt ess)"

lemma concat_leaf_lists: "concat (leaf_lists t) = inorder t"
proof (induction t)
  case (Nd p ts ks)
  then show ?case by (induction ts) simp_all
qed simp

lemma concat_leaf_forest: "concat (concat (map leaf_lists ts)) = concat (map inorder ts)"
  by (induction ts) (simp_all add: concat_leaf_lists)

lemma tree_chain:
  "tree_at pool nxt t \<Longrightarrow> ordered lo hi t \<Longrightarrow> chain_at pool nxt ess \<Longrightarrow> chain_at pool (first_leaf t) (leaf_lists t @ ess)"
  "forest_at pool nxt ts \<Longrightarrow> ordered_list lo hi ts ks \<Longrightarrow> chain_at pool nxt ess \<Longrightarrow>
     chain_at pool (next_of nxt ts) (concat (map leaf_lists ts) @ ess)"
proof (induction lo hi t and lo hi ts ks arbitrary: nxt ess and nxt ess rule: ordered_ordered_list.induct)
  case (2 lo hi p ts ks)
  then have "ts \<noteq> []" by auto
  moreover have "forest_at pool nxt ts" "ordered_list lo hi ts ks" using 2 by simp_all
  ultimately show ?case
    using "2.IH" [OF _ _ "2.prems"(3)] by (simp add: next_of_hd first_leaf_append)
next
  case (4 lo hi t ts k ks)
  then have "chain_at pool (next_of nxt ts) (concat (map leaf_lists ts) @ ess)" by simp
  moreover have "tree_at pool (next_of nxt ts) t"
    using "4.prems"(1) by (simp add: forest_at_Cons del: forest_at.simps(2))
  ultimately have "chain_at pool (first_leaf t) (leaf_lists t @ concat (map leaf_lists ts) @ ess)"
    using 4 by simp
  then show ?case by (simp add: next_of_def)
qed (auto simp: next_of_def)

lemma forest_chain:
  assumes "forest_at pool nxt (ts1 @ t # ts2)" "ordered_list lo hi (ts1 @ t # ts2) (ks1 @ ks2)"
    and "length ts1 = length ks1" "chain_at pool nxt ess"
  shows "chain_at pool (next_of nxt ts2) (concat (map leaf_lists ts2) @ ess)"
  using assms
proof (induction ks1 arbitrary: lo ts1)
  case Nil
  show ?case
  proof (cases ks2)
    case Nil
    with Nil.prems show ?thesis by (simp add: next_of_def)
  next
    case (Cons k ks)
    with Nil.prems tree_chain(2) [of pool nxt ts2 k hi ks ess] show ?thesis by simp
  qed
next
  case (Cons k ks1)
  then obtain t' ts1' where t: "ts1 = t' # ts1'" by (cases ts1) auto
  have "forest_at pool nxt (ts1' @ t # ts2)" "ordered_list k hi (ts1' @ t # ts2) (ks1 @ ks2)"
    "length ts1' = length ks1" using Cons.prems(1-3) by (simp_all add: t)
  then show ?case using Cons.IH Cons.prems(4) by blast
qed

lemma chain_at_frame: "chain_at pool p ess \<Longrightarrow> page_frame {} pool pool' \<Longrightarrow> chain_at pool' p ess"
proof (induction ess arbitrary: p)
  case (Cons es ess)
  then show ?case using leaf_at_frame [of pool p es _ "{}" pool'] by auto
qed simp

subsection \<open>Opening\<close>

definition wanted :: "buffer option \<Rightarrow> int \<Rightarrow> entry \<Rightarrow> bool" where
  "wanted pfx plen e \<longleftrightarrow> plen = 0 \<or> Sublist.prefix (read_bytes (the pfx) 0 plen) (fst e)"

lemma prefix_le: "Sublist.prefix xs ys \<Longrightarrow> xs \<le> (ys :: byte list)"
  by (induction xs ys rule: list_induct2') auto

lemma descend_split:
  assumes "ordered_list lo hi ts ks" "i < length ts"
  shows "\<exists>ts1 t ts2 ks1 ks2. ts = ts1 @ t # ts2 \<and> ks = ks1 @ ks2 \<and> length ts1 = i \<and> length ks1 = i \<and>
    length ts2 = length ks2"
proof -
  have l: "length ts = Suc (length ks)" by (rule ordered_list_length [OF assms(1)])
  show ?thesis
    by (rule exI [of _ "take i ts"], rule exI [of _ "ts ! i"], rule exI [of _ "drop (Suc i) ts"],
        rule exI [of _ "take i ks"], rule exI [of _ "drop i ks"])
      (use assms(2) l in \<open>simp add: id_take_nth_drop [symmetric]\<close>)
qed

lemma cursor_descend_tree:
  assumes "pool_idle (n + 2 * Suc h) pool" "tree_at pool nxt t" "ordered lo hi t" "balanced h t"
    and "chain_at pool nxt ess" "0 \<le> plen" "plen = 0 \<or> pfx \<noteq> None"
  shows "\<exists>pool' p es ess'. cursor_descend pool cur pfx plen (root_page t) =
      Some (pool', cur\<lparr>cu_current_page := p, cu_current_slot := 0\<rparr>) \<and>
    pool_idle n pool' \<and> page_frame {} pool pool' \<and> chain_at pool' p (es # ess') \<and>
    filter (wanted pfx plen) (concat (es # ess')) = filter (wanted pfx plen) (inorder t @ concat ess) \<and>
    length ess' < length (leaf_lists t) + length ess"
  using assms
proof (induction h arbitrary: pool nxt t lo hi ess)
  case 0
  then obtain p es where t: "t = Lf p es" by (cases t) auto
  obtain nd where nd: "node_at pool p nd" "nd_kind nd = GARRY_NODE_LEAF"
    using "0.prems"(2) by (auto simp: t leaf_at_def)
  have i: "pool_idle (n + 2) pool" using "0.prems"(1) by simp
  obtain pool' where l: "garry_load_node pool p = (pool', canon nd)" "pool_idle n pool'"
    "page_frame {} pool pool'" by (rule load_node_at [OF i nd(1)])
  have "chain_at pool' p (es # ess)"
    using "0.prems"(2,5) by (intro chain_at_frame [OF _ l(3)]) (auto simp: t)
  moreover have "cursor_descend pool cur pfx plen (root_page t) =
      Some (pool', cur\<lparr>cu_current_page := p, cu_current_slot := 0\<rparr>)"
    using nd(2) by (subst cursor_descend.simps) (simp add: t l(1))
  ultimately show ?case using l(2,3)
    by (intro exI [of _ pool'] exI [of _ p] exI [of _ es] exI [of _ ess]) (simp add: t)
next
  case (Suc h)
  from Suc.prems(4) obtain p ts ks where t: "t = Nd p ts ks" and b: "\<forall>t \<in> set ts. balanced h t"
    by (cases t) auto
  have at: "inner_at pool p (map root_page ts) ks" "forest_at pool nxt ts" "ordered_list lo hi ts ks"
    using Suc.prems(2,3) by (simp_all add: t)
  have lt: "length ts = Suc (length ks)" by (rule ordered_list_length [OF at(3)])
  obtain nd where nd: "node_at pool p nd" "nd_kind nd = GARRY_NODE_INTERNAL" "ks \<noteq> []"
    "arr (nd_entry_count nd) (nd_keys nd) = ks" "arr (num_children nd) (nd_children nd) = map root_page ts"
    using at(1) by (auto simp: inner_at_def)
  have ok: "node_ok nd" using nd(1) by (simp add: node_at_def)
  note d = node_okD [OF ok]
  have "nd_entry_count nd \<noteq> 0" using nd(3,4) by (auto simp: arr_def)
  then have cnt: "nd_entry_count nd = int (length ks)" "0 < nd_entry_count nd" using nd(4) d(3) by auto
  have nc: "num_children nd = nd_entry_count nd + 1" using nd(2) by (simp add: num_children_def)
  let ?k = "read_bytes (the pfx) 0 plen"
  define idx where "idx = (if plen > 0 \<and> pfx \<noteq> None
    then (let idx = garry_internal_find (canon nd) ?k in if idx \<ge> nd_entry_count (canon nd) then nd_entry_count (canon nd) - 1 else idx) else 0)"
  note f = internal_find_split [OF d(3) refl, of ?k]
  have i0: "0 \<le> idx" "idx < nd_entry_count nd" using f(1) cnt(2) by (auto simp: idx_def Let_def)
  have le: "plen > 0 \<Longrightarrow> idx \<le> garry_internal_find nd ?k" using f(1) Suc.prems(7) by (auto simp: idx_def Let_def)
  have "nat idx < length ts" using i0 cnt lt by simp
  from descend_split [OF at(3) this] obtain ts1 u ts2 ks1 ks2 where sp: "ts = ts1 @ u # ts2" "ks = ks1 @ ks2"
    "length ts1 = nat idx" "length ks1 = nat idx" "length ts2 = length ks2" by blast
  have child: "nd_children (canon nd) idx = root_page u"
  proof -
    have "arr (num_children nd) (nd_children nd) ! nat idx = root_page u"
      unfolding nd(5) by (simp add: sp(1,3) nth_append)
    then show ?thesis using i0 nc by simp
  qed
  have small: "filter (wanted pfx plen) (concat (map inorder ts1)) = []"
  proof (cases "plen > 0")
    case True
    have "ks1 = arr idx (nd_keys nd)"
      using nd(4) arr_split [of idx "nd_entry_count nd" "nd_keys nd"] i0 sp(4) by (simp add: sp(2) append_eq_append_conv)
    then have "\<forall>x \<in> set ks1. x \<le> ?k"
      using f(3) le [OF True] by (auto simp: arr_def)
    then have lt: "fst e < ?k" if "e \<in> set (concat (map inorder ts1))" for e
      using ordered_list_before [of lo hi ts1 u ts2 ks1 ks2 ?k e] at(3) sp that by simp
    have "\<not> wanted pfx plen e" if "e \<in> set (concat (map inorder ts1))" for e
      using lt [OF that] prefix_le [of ?k "fst e"] True by (auto simp: wanted_def)
    then show ?thesis by (auto simp: filter_empty_conv)
  next
    case False
    then have "idx = 0" by (simp add: idx_def)
    then show ?thesis using sp(3) by simp
  qed
  have i: "pool_idle (n + 2 * Suc h + 2) pool" using Suc.prems(1) by simp
  obtain p1 where l: "garry_load_node pool p = (p1, canon nd)" "pool_idle (n + 2 * Suc h) p1"
    "page_frame {} pool p1" by (rule load_node_at [OF i nd(1)])
  have fo: "forest_at p1 nxt (ts1 @ u # ts2)" using tree_at_frame(2) [OF at(2) l(3)] by (simp add: sp(1))
  have "chain_at p1 (next_of nxt ts2) (concat (map leaf_lists ts2) @ ess)"
    using forest_chain [OF fo, of lo hi ks1 ks2 ess] at(3) sp chain_at_frame [OF Suc.prems(5) l(3)] by simp
  moreover have "tree_at p1 (next_of nxt ts2) u"
    using fo by (simp add: forest_at_append forest_at_Cons del: forest_at.simps(2))
  moreover have "ordered (last (lo # ks1)) (upper ks2 hi) u"
    using ordered_list_child [of lo hi ts1 u ts2 ks1 ks2] at(3) sp by simp
  moreover have "balanced h u" using b sp(1) by simp
  ultimately obtain p2 q es ess' where r: "cursor_descend p1 cur pfx plen (root_page u) =
      Some (p2, cur\<lparr>cu_current_page := q, cu_current_slot := 0\<rparr>)" "pool_idle n p2" "page_frame {} p1 p2"
    "chain_at p2 q (es # ess')"
    "filter (wanted pfx plen) (concat (es # ess')) =
       filter (wanted pfx plen) (inorder u @ concat (concat (map leaf_lists ts2) @ ess))"
    "length ess' < length (leaf_lists u) + length (concat (map leaf_lists ts2) @ ess)"
    using Suc.IH [OF l(2)] Suc.prems(6,7) by blast
  have "cursor_descend pool cur pfx plen (root_page t) = cursor_descend p1 cur pfx plen (nd_children (canon nd) idx)"
    using nd(2) cnt(2) by (subst cursor_descend.simps) (simp add: t l(1) idx_def Let_def)
  then have "cursor_descend pool cur pfx plen (root_page t) = cursor_descend p1 cur pfx plen (root_page u)"
    by (simp add: child)
  moreover have "filter (wanted pfx plen) (concat (es # ess')) = filter (wanted pfx plen) (inorder t @ concat ess)"
    using r(5) small by (simp add: t sp(1) concat_leaf_forest)
  moreover have "length ess' < length (leaf_lists t) + length ess" using r(6) by (simp add: t sp(1))
  moreover have "page_frame {} pool p2" using page_frame_trans [OF l(3) r(3)] by simp
  ultimately show ?case using r(1,2,4) by auto
qed

subsection \<open>Advancing\<close>

lemma find_from_Some:
  assumes "List.find P [s..n - 1] = Some i"
  shows "s \<le> i" "i < n" "P i" "\<And>j. s \<le> j \<Longrightarrow> j < i \<Longrightarrow> \<not> P j"
proof -
  obtain m where m: "m < length [s..n - 1]" "P ([s..n - 1] ! m)" "i = [s..n - 1] ! m"
    "\<And>j. j < m \<Longrightarrow> \<not> P ([s..n - 1] ! j)"
    using assms by (auto simp: find_Some_iff)
  from m(1) have b: "s + int m < n" by simp
  with m(3) have i: "i = s + int m" by simp
  show "s \<le> i" "i < n" using b by (simp_all add: i)
  show "P i" using m(2,3) by simp
  show "\<not> P j" if "s \<le> j" "j < i" for j
    using m(4) [of "nat (j - s)"] that b by (simp add: i)
qed

lemma find_from_None: "List.find P [s..n - 1] = None \<Longrightarrow> s \<le> j \<Longrightarrow> j < n \<Longrightarrow> \<not> P j"
  by (auto simp: find_None_iff)

lemma filter_not_found:
  assumes "\<And>j. s \<le> j \<Longrightarrow> j < i \<Longrightarrow> \<not> W (es ! j)" "i \<le> length es"
  shows "filter W (take (i - s) (drop s es)) = []"
proof -
  have "\<not> W e" if e: "e \<in> set (take (i - s) (drop s es))" for e
  proof -
    obtain j where j: "j < length (take (i - s) (drop s es))" "take (i - s) (drop s es) ! j = e"
      using e by (auto simp: in_set_conv_nth)
    then have "s \<le> length es" "j < i - s" by auto
    then have "e = es ! (s + j)" using j(2) by simp
    with assms(1) [of "s + j"] \<open>j < i - s\<close> show ?thesis by simp
  qed
  then show ?thesis by (auto simp: filter_empty_conv)
qed

lemma filter_found:
  assumes "s \<le> i" "i < length es" "W (es ! i)" "\<And>j. s \<le> j \<Longrightarrow> j < i \<Longrightarrow> \<not> W (es ! j)"
  shows "filter W (drop s es) = es ! i # filter W (drop (Suc i) es)"
proof -
  have "drop s es = take (i - s) (drop s es) @ es ! i # drop (Suc i) es"
    using assms(1,2) id_take_nth_drop [of "i - s" "drop s es"] by simp
  then have "filter W (drop s es) = filter W (take (i - s) (drop s es)) @ filter W (es ! i # drop (Suc i) es)"
    by (metis filter_append)
  then show ?thesis using filter_not_found [of s i W es, OF assms(4)] assms(2,3) by simp
qed

text \<open>The cursor has these entries left, before filtering.\<close>

definition cursor_at ::
  "garry_buffer_pool \<Rightarrow> garry_btree_cursor_handle \<Rightarrow> nat \<Rightarrow> entry list \<Rightarrow> entry list list \<Rightarrow> bool" where
  "cursor_at pool cur s es ess \<longleftrightarrow>
     chain_at pool (cu_current_page cur) (es # ess) \<and> cu_current_slot cur = int s \<and>
     \<not> cu_exhausted cur \<and> \<not> cu_has_saved cur \<and> 0 \<le> cu_prefix_len cur"

definition cursor_wants :: "garry_btree_cursor_handle \<Rightarrow> entry \<Rightarrow> bool" where
  "cursor_wants cur = wanted (Some (cu_prefix cur)) (cu_prefix_len cur)"

lemma entry_matches_wanted: "0 \<le> cu_prefix_len cur \<Longrightarrow> entry_matches cur k \<longleftrightarrow> cursor_wants cur (k, v)"
  by (auto simp: entry_matches_def cursor_wants_def wanted_def prefix_match_iff)

definition same_prefix :: "garry_btree_cursor_handle \<Rightarrow> garry_btree_cursor_handle \<Rightarrow> bool" where
  "same_prefix cur cur' \<longleftrightarrow> cu_prefix cur' = cu_prefix cur \<and> cu_prefix_len cur' = cu_prefix_len cur"

lemma same_prefix_wants: "same_prefix cur cur' \<Longrightarrow> cursor_wants cur' = cursor_wants cur"
  by (simp add: same_prefix_def cursor_wants_def)

text \<open>The cursor stands behind an entry with this value.\<close>

definition stands_on :: "garry_btree_cursor_handle \<Rightarrow> byte list \<Rightarrow> bool" where
  "stands_on cur v \<longleftrightarrow>
     cu_node_loaded cur \<and> 0 \<le> cu_current_slot cur - 1 \<and>
     cu_current_slot cur - 1 < nd_entry_count (cu_current_node cur) \<and>
     nd_values (cu_current_node cur) (cu_current_slot cur - 1) = v"

text \<open>What one call delivers.\<close>

definition delivered ::
  "garry_btree_cursor_handle \<Rightarrow> nat \<Rightarrow> entry list \<Rightarrow> garry_buffer_pool \<Rightarrow> garry_btree_cursor_handle \<Rightarrow>
   byte list option \<Rightarrow> bool" where
  "delivered cur k left pool' cur' r \<longleftrightarrow>
     same_prefix cur cur' \<and>
     (case filter (cursor_wants cur) left of
        [] \<Rightarrow> r = None \<and> cu_exhausted cur'
      | e # rest \<Rightarrow> r = Some (fst e) \<and> garry_btree_cursor_value cur' = snd e \<and> stands_on cur' (snd e) \<and>
          (\<exists>s' es' ess'. cursor_at pool' cur' s' es' ess' \<and> length ess' \<le> k \<and>
             filter (cursor_wants cur) (drop s' es' @ concat ess') = rest))"

lemma cursor_advance_step:
  assumes "pool_idle (n + 2) pool" "cursor_at pool cur s es ess"
  shows "(\<exists>pool' cur' r. cursor_advance pool cur = Some (pool', cur', r) \<and> pool_idle n pool' \<and>
      page_frame {} pool pool' \<and> delivered cur (length ess) (drop s es @ concat ess) pool' cur' r) \<or>
    (\<exists>pool' cur' es2 ess2. cursor_advance pool cur = cursor_advance pool' cur' \<and> pool_idle n pool' \<and>
      page_frame {} pool pool' \<and> ess = es2 # ess2 \<and> cursor_at pool' cur' 0 es2 ess2 \<and> same_prefix cur cur' \<and>
      filter (cursor_wants cur) (drop s es) = [])"
proof -
  let ?p = "cu_current_page cur"
  obtain nxt where lf: "leaf_at pool ?p es nxt" "chain_at pool nxt ess" and c: "cu_current_slot cur = int s"
    "\<not> cu_exhausted cur" "\<not> cu_has_saved cur" "0 \<le> cu_prefix_len cur"
    using assms(2) by (auto simp: cursor_at_def)
  obtain nd where nd: "node_at pool ?p nd" "nd_kind nd = GARRY_NODE_LEAF" "node_entries nd = es" "nd_next_page nd = nxt"
    using lf(1) by (auto simp: leaf_at_def)
  obtain p1 where l: "garry_load_node pool ?p = (p1, canon nd)" "pool_idle n p1" "page_frame {} pool p1"
    by (rule load_node_at [OF assms(1) nd(1)])
  let ?n = "nd_entry_count nd"
  have "0 \<le> ?n" using nd(1) by (simp add: node_at_def node_okD(3))
  then have len: "int (length es) = ?n" using nd(3) by auto
  have nth: "es ! nat i = (nd_keys (canon nd) i, nd_values (canon nd) i)" if "0 \<le> i" "i < ?n" for i
    using that nd(2,3) by (auto simp: node_entries_arr entry_value_def)
  let ?c = "cur\<lparr>cu_current_node := canon nd, cu_node_loaded := True\<rparr>"
  have m: "entry_matches ?c (nd_keys (canon nd) i) \<longleftrightarrow> cursor_wants cur (es ! nat i)" if "0 \<le> i" "i < ?n" for i
    using entry_matches_wanted [of cur] c(4) that by (simp add: nth entry_matches_def)
  show ?thesis
  proof (cases "List.find (\<lambda>i. entry_matches ?c (nd_keys (canon nd) i)) [int s..?n - 1]")
    case (Some i)
    note f = find_from_Some [OF Some]
    have i0: "0 \<le> i" using f(1) by simp
    have "filter (cursor_wants cur) (drop s es) = es ! nat i # filter (cursor_wants cur) (drop (Suc (nat i)) es)"
    proof (rule filter_found)
      show "s \<le> nat i" "nat i < length es" using f(1,2) len by simp_all
      show "cursor_wants cur (es ! nat i)" using f(3) m [OF i0 f(2)] by simp
      show "\<not> cursor_wants cur (es ! j)" if "s \<le> j" "j < nat i" for j
        using f(4) [of "int j"] m [of "int j"] that f(2) by simp
    qed
    moreover let ?cur' = "?c\<lparr>cu_current := nd_keys (canon nd) i, cu_current_value := nd_values (canon nd) i,
      cu_current_slot := i + 1\<rparr>"
    have "cursor_advance pool cur = Some (p1, ?cur', Some (nd_keys (canon nd) i))"
      by (subst cursor_advance.simps) (simp add: l(1) c(1) Some Let_def)
    moreover have "chain_at p1 ?p (es # ess)"
      using lf by (intro chain_at_frame [OF _ l(3)]) auto
    then have "cursor_at p1 ?cur' (Suc (nat i)) es ess" using c i0 by (simp add: cursor_at_def)
    ultimately have "delivered cur (length ess) (drop s es @ concat ess) p1 ?cur' (Some (nd_keys (canon nd) i))"
      using nth [OF i0 f(2)] i0 f(2)
      by (auto simp: delivered_def stands_on_def same_prefix_def garry_btree_cursor_value_def intro!: exI [of _ "Suc (nat i)"] exI [of _ es] exI [of _ ess])
    with \<open>cursor_advance pool cur = _\<close> l(2,3) show ?thesis by blast
  next
    case None
    have none: "filter (cursor_wants cur) (drop s es) = []"
    proof -
      have "\<not> cursor_wants cur (es ! j)" if "s \<le> j" "j < length es" for j
        using find_from_None [OF None, of "int j"] m [of "int j"] that len by simp
      from filter_not_found [of s "length es" "cursor_wants cur" es, OF this] show ?thesis by simp
    qed
    show ?thesis
    proof (cases ess)
      case Nil
      then have "nxt = -1" using lf(2) by simp
      then have "cursor_advance pool cur = Some (p1, ?c\<lparr>cu_exhausted := True, cu_node_loaded := False\<rparr>, None)"
        by (subst cursor_advance.simps) (simp add: l(1) c(1) None Let_def nd(4))
      then show ?thesis
        using l(2,3) none Nil by (intro disjI1) (auto simp: delivered_def same_prefix_def)
    next
      case (Cons es2 ess2)
      then have "0 \<le> nxt" using lf(2) by (auto simp: leaf_at_def node_at_def)
      then have "cursor_advance pool cur = cursor_advance p1
          (?c\<lparr>cu_current_page := nxt, cu_current_slot := 0, cu_node_loaded := False\<rparr>)"
        by (subst cursor_advance.simps) (simp add: l(1) c(1) None Let_def nd(4))
      moreover have "chain_at p1 nxt (es2 # ess2)" using lf(2) Cons chain_at_frame [OF _ l(3)] by blast
      then have "cursor_at p1 (?c\<lparr>cu_current_page := nxt, cu_current_slot := 0, cu_node_loaded := False\<rparr>) 0 es2 ess2"
        using c by (simp add: cursor_at_def)
      moreover have "same_prefix cur (?c\<lparr>cu_current_page := nxt, cu_current_slot := 0, cu_node_loaded := False\<rparr>)"
        by (simp add: same_prefix_def)
      ultimately show ?thesis using l(2,3) none Cons by blast
    qed
  qed
qed

lemma cursor_advance_chain:
  assumes "pool_idle (n + 2 * Suc (length ess)) pool" "cursor_at pool cur s es ess"
  shows "\<exists>pool' cur' r. cursor_advance pool cur = Some (pool', cur', r) \<and> pool_idle n pool' \<and>
    page_frame {} pool pool' \<and> delivered cur (length ess) (drop s es @ concat ess) pool' cur' r"
  using assms
proof (induction "length ess" arbitrary: pool cur s es ess)
  case 0
  then have "pool_idle (n + 2) pool" by simp
  from cursor_advance_step [OF this "0.prems"(2)] 0 show ?case by auto
next
  case (Suc k)
  have "pool_idle (n + 2 * Suc k + 2) pool" using Suc.prems(1) by (simp add: Suc.hyps(2) [symmetric])
  from cursor_advance_step [OF this Suc.prems(2)] show ?case
  proof (elim disjE exE conjE)
    fix pool' cur' r
    assume "cursor_advance pool cur = Some (pool', cur', r)" "pool_idle (n + 2 * Suc k) pool'"
      "page_frame {} pool pool'" "delivered cur (length ess) (drop s es @ concat ess) pool' cur' r"
    then show ?thesis by (auto intro: pool_idle_mono)
  next
    fix pool' cur' es2 ess2
    assume a: "cursor_advance pool cur = cursor_advance pool' cur'" "pool_idle (n + 2 * Suc k) pool'"
      "page_frame {} pool pool'" "ess = es2 # ess2" "cursor_at pool' cur' 0 es2 ess2" "same_prefix cur cur'"
      "filter (cursor_wants cur) (drop s es) = []"
    have k: "k = length ess2" using Suc.hyps(2) a(4) by simp
    from Suc.hyps(1) [OF k _ a(5)] a(2) k obtain p2 cur2 r where r: "cursor_advance pool' cur' = Some (p2, cur2, r)"
      "pool_idle n p2" "page_frame {} pool' p2" "delivered cur' (length ess2) (drop 0 es2 @ concat ess2) p2 cur2 r"
      by auto
    have "filter (cursor_wants cur') (drop 0 es2 @ concat ess2) = filter (cursor_wants cur) (drop s es @ concat ess)"
      using a(4,7) by (simp add: same_prefix_wants [OF a(6)])
    then have "delivered cur (length ess) (drop s es @ concat ess) p2 cur2 r"
      using r(4) a(4,6) unfolding delivered_def same_prefix_wants [OF a(6)]
      by (auto simp: same_prefix_def split: list.splits intro: le_SucI)
    with r(1-3) a(1) page_frame_trans [OF a(3) r(3)] show ?thesis by auto
  qed
qed

subsection \<open>Scanning\<close>

text \<open>Calling \<open>garry_btree_cursor_next\<close> until it returns false, at most \<open>k\<close> times, with the value
  of each entry.\<close>

fun cursor_collect :: "nat \<Rightarrow> garry_buffer_pool \<Rightarrow> garry_btree_cursor_handle \<Rightarrow> entry list option" where
  "cursor_collect 0 pool cur = Some []"
| "cursor_collect (Suc k) pool cur =
     (case garry_btree_cursor_next pool cur of
        None \<Rightarrow> None
      | Some (pool, cur, None) \<Rightarrow> Some []
      | Some (pool, cur, Some key) \<Rightarrow>
          map_option (\<lambda>es. (key, garry_btree_cursor_value cur) # es) (cursor_collect k pool cur))"

lemma collect_rest:
  assumes "pool_idle (k * (2 * m)) pool" "cursor_at pool cur s es ess" "Suc (length ess) \<le> m"
    and "length (filter (cursor_wants cur) (drop s es @ concat ess)) < k"
  shows "cursor_collect k pool cur = Some (filter (cursor_wants cur) (drop s es @ concat ess))"
  using assms
proof (induction k arbitrary: pool cur s es ess)
  case (Suc k)
  have "pool_idle (k * (2 * m) + 2 * Suc (length ess)) pool"
    using Suc.prems(1) by (rule pool_idle_mono) (use Suc.prems(3) in simp)
  from cursor_advance_chain [OF this Suc.prems(2)] obtain pool' cur' r where
    a: "cursor_advance pool cur = Some (pool', cur', r)" "pool_idle (k * (2 * m)) pool'"
    "delivered cur (length ess) (drop s es @ concat ess) pool' cur' r" by blast
  have nx: "garry_btree_cursor_next pool cur = Some (pool', cur', r)"
    using Suc.prems(2) a(1) by (simp add: garry_btree_cursor_next_def cursor_at_def)
  show ?case
  proof (cases "filter (cursor_wants cur) (drop s es @ concat ess)")
    case Nil
    with a(3) have "r = None" by (simp add: delivered_def)
    then show ?thesis unfolding Nil by (simp add: nx)
  next
    case (Cons e rest)
    with a(3) obtain s' es' ess' where d: "r = Some (fst e)" "garry_btree_cursor_value cur' = snd e"
      "cursor_at pool' cur' s' es' ess'" "length ess' \<le> length ess"
      "filter (cursor_wants cur) (drop s' es' @ concat ess') = rest" "same_prefix cur cur'"
      by (auto simp: delivered_def)
    have w: "cursor_wants cur' = cursor_wants cur" by (rule same_prefix_wants [OF d(6)])
    have "Suc (length ess') \<le> m" using d(4) Suc.prems(3) by simp
    moreover have "length (filter (cursor_wants cur') (drop s' es' @ concat ess')) < k"
      using Suc.prems(4) unfolding w d(5) Cons by simp
    ultimately have "cursor_collect k pool' cur' = Some rest"
      using Suc.IH [OF a(2) d(3)] unfolding w d(5) by blast
    then show ?thesis unfolding Cons by (simp add: nx d(1,2))
  qed
qed simp

lemma cursor_at_frame: "cursor_at pool cur s es ess \<Longrightarrow> page_frame {} pool pool' \<Longrightarrow> cursor_at pool' cur s es ess"
  unfolding cursor_at_def using chain_at_frame by blast

lemma concat_length_le:
  assumes "\<forall>x \<in> set xs. length (f x) \<le> m" "length xs \<le> n"
  shows "length (concat (map f xs)) \<le> n * m"
proof -
  have "length (concat (map f xs)) \<le> length xs * m"
    using assms(1) by (induction xs) auto
  also have "\<dots> \<le> n * m" using assms(2) by simp
  finally show ?thesis .
qed

lemma leaves_bound:
  "tree_at pool nxt t \<Longrightarrow> balanced h t \<Longrightarrow> ordered lo hi t \<Longrightarrow> length (leaf_lists t) \<le> 4 ^ h"
proof (induction h arbitrary: nxt t lo hi)
  case 0
  then show ?case by (cases t) auto
next
  case (Suc h)
  then obtain p ts ks where t: "t = Nd p ts ks" and b: "\<forall>t \<in> set ts. balanced h t" by (cases t) auto
  have at: "inner_at pool p (map root_page ts) ks" "forest_at pool nxt ts" "ordered_list lo hi ts ks"
    using Suc.prems(1,3) by (simp_all add: t)
  obtain nd where nd: "node_at pool p nd" "arr (nd_entry_count nd) (nd_keys nd) = ks"
    using at(1) by (auto simp: inner_at_def)
  have "nd_entry_count nd \<le> 3" using nd(1) by (simp add: node_at_def node_okD(4))
  then have "length ks \<le> 3" using nd(2) by auto
  then have lt: "length ts \<le> 4" using ordered_list_length [OF at(3)] by simp
  have "length (leaf_lists u) \<le> 4 ^ h" if u: "u \<in> set ts" for u
  proof -
    obtain ts1 ts2 where sp: "ts = ts1 @ u # ts2" using split_list [OF u] by blast
    have "length ts1 \<le> length ks" using ordered_list_length [OF at(3)] by (simp add: sp)
    then have "ordered (last (lo # take (length ts1) ks)) (upper (drop (length ts1) ks) hi) u"
      using ordered_list_child [of lo hi ts1 u ts2 "take (length ts1) ks" "drop (length ts1) ks"] at(3) by (simp add: sp)
    moreover have "tree_at pool (next_of nxt ts2) u"
      using at(2) by (simp add: sp forest_at_append forest_at_Cons del: forest_at.simps(2))
    ultimately show ?thesis using Suc.IH b u by blast
  qed
  with lt show ?case using concat_length_le [of ts leaf_lists "4 ^ h" 4] by (simp add: t)
qed

text \<open>After opening, the entries the cursor has left and wants are those of the tree with the prefix.\<close>

lemma cursor_open_tree:
  assumes "btree_holds h pool root es" "pool_idle (n + 2 * Suc h) pool"
    and "0 \<le> plen" "plen = 0 \<or> pfx \<noteq> None"
  obtains pool' cur es1 ess where "garry_btree_cursor_open pool root pfx plen = Some (pool', cur)"
    "pool_idle n pool'" "page_frame {} pool pool'" "cursor_at pool' cur 0 es1 ess" "Suc (length ess) \<le> 4 ^ h"
    "filter (cursor_wants cur) (drop 0 es1 @ concat ess) = filter (wanted pfx plen) es"
proof -
  obtain t where t: "tree_at pool (-1) t" "ordered [] None t" "balanced h t" "root_page t = root" "inorder t = es"
    using assms(1) by (auto simp: btree_holds_def)
  have "chain_at pool (-1) []" by simp
  from cursor_descend_tree [OF assms(2) t(1-3) this assms(3,4), of "new_cursor root pfx plen"]
  obtain pool' p es1 ess where c:
    "cursor_descend pool (new_cursor root pfx plen) pfx plen (root_page t) =
       Some (pool', (new_cursor root pfx plen)\<lparr>cu_current_page := p, cu_current_slot := 0\<rparr>)"
    "pool_idle n pool'" "page_frame {} pool pool'" "chain_at pool' p (es1 # ess)"
    "filter (wanted pfx plen) (concat (es1 # ess)) = filter (wanted pfx plen) (inorder t @ concat [])"
    "length ess < length (leaf_lists t) + length ([] :: entry list list)"
    by blast
  let ?cur = "(new_cursor root pfx plen)\<lparr>cu_current_page := p, cu_current_slot := 0\<rparr>"
  have at: "cursor_at pool' ?cur 0 es1 ess" using c(4) assms(3) by (simp add: cursor_at_def new_cursor_def)
  have w: "cursor_wants ?cur = wanted pfx plen"
    using assms(4) by (cases pfx) (auto simp: cursor_wants_def new_cursor_def wanted_def fun_eq_iff)
  have m: "Suc (length ess) \<le> 4 ^ h" using c(6) leaves_bound [OF t(1,3,2)] by simp
  have eq: "filter (cursor_wants ?cur) (drop 0 es1 @ concat ess) = filter (wanted pfx plen) es"
    using c(5) by (simp add: w t(5))
  show ?thesis
    by (rule that [OF _ c(2,3) at m eq]) (use c(1) in \<open>simp add: garry_btree_cursor_open_def t(4)\<close>)
qed

text \<open>C11. A scan is exact: opening a cursor on a well-formed tree with a prefix and advancing it
  until it reports the end returns, and delivers precisely the entries of the tree whose key starts
  with the prefix, each once, in key order.\<close>

theorem cursor_scan_exact:
  assumes "btree_holds h pool root es" "pool_idle (Suc (length es) * (2 * 4 ^ h) + 2 * Suc h) pool"
    and "0 \<le> plen" "plen = 0 \<or> pfx \<noteq> None"
  shows "\<exists>pool' cur. garry_btree_cursor_open pool root pfx plen = Some (pool', cur) \<and>
    cursor_collect (Suc (length es)) pool' cur = Some (filter (wanted pfx plen) es) \<and> keys_sorted es"
proof -
  from assms obtain pool' cur es1 ess where o:
    "garry_btree_cursor_open pool root pfx plen = Some (pool', cur)"
    "pool_idle (Suc (length es) * (2 * 4 ^ h)) pool'" "cursor_at pool' cur 0 es1 ess" "Suc (length ess) \<le> 4 ^ h"
    "filter (cursor_wants cur) (drop 0 es1 @ concat ess) = filter (wanted pfx plen) es"
    by (rule cursor_open_tree) blast
  have "cursor_collect (Suc (length es)) pool' cur = Some (filter (wanted pfx plen) es)"
    using collect_rest [OF o(2-4)] unfolding o(5) by (simp add: le_imp_less_Suc del: cursor_collect.simps)
  with o(1) btree_holds_sorted [OF assms(1)] show ?thesis by blast
qed

theorem cursor_scan_exact_witness:
  "\<exists>pool root pool' cur. garry_btree_insert empty_tree 1 [97, 98] [1] = Some (pool, root, True) \<and>
    garry_btree_cursor_open pool root (Some (buf_of [97])) 1 = Some (pool', cur) \<and>
    cursor_collect 2 pool' cur = Some [([97, 98], [1])]"
proof -
  have tp: "tree_pool (100 + 22 + 13 * 0) (Suc (Suc 0) + 0) empty_tree"
    by (rule empty_tree_holds(1)) simp_all
  from btree_holds_insert [OF tp empty_tree_holds(2), of "[97, 98]" "[1]"] obtain pool root h where
    i: "garry_btree_insert empty_tree 1 [97, 98] [1] = Some (pool, root, True)" "h \<le> Suc 0"
    "tree_pool 100 0 pool" "btree_holds h pool root [([97, 98], [1])]"
    by auto
  have "h = 0 \<or> h = 1" using i(2) by auto
  then have "pool_idle (Suc (length [([97 :: byte, 98], [1 :: byte])]) * (2 * 4 ^ h) + 2 * Suc h) pool"
    using tree_poolD(1) [OF i(3)] by (auto elim!: pool_idle_mono)
  from cursor_scan_exact [OF i(4) this, of 1 "Some (buf_of [97])"] i(1) show ?thesis
    by (auto simp: wanted_def read_bytes_def buf_of_def numeral_2_eq_2)
qed

end
