(* ===== verification/Garry_LockTable.thy ===== *)
theory Garry_LockTable
  imports Garry_Prelude
begin

text \<open>
  The lock table: \<open>src/src/lock_table.c\<close>. The linked list of lock nodes is a list, its head
  first; whether \<open>malloc\<close> returns a node is an argument of the operation that calls it. The
  invariant is mutual exclusion: two transactions that hold the same key both hold it shared.
  \<open>lock_step\<close> interleaves the requests of any number of transactions, and mutual exclusion
  holds in every state that is reached. The locale \<open>lock_service\<close> is the contract that the
  transactions rely on.
\<close>

subsection \<open>lock_table.c\<close>

datatype garry_lock_mode = GARRY_LOCK_SHARED | GARRY_LOCK_EXCLUSIVE

record garry_lock_node =
  ln_key :: "byte list"
  ln_txn :: int
  ln_mode :: garry_lock_mode

record garry_lock_manager =
  lm_head :: "garry_lock_node list"
  lm_count :: int

definition garry_create_lock_manager :: garry_lock_manager where
  "garry_create_lock_manager = \<lparr>lm_head = [], lm_count = 0\<rparr>"

text \<open>The comparison loop on two keys of the same length.\<close>

fun same_key :: "byte list \<Rightarrow> byte list \<Rightarrow> bool" where
  "same_key (a # as) (b # bs) = (if a \<noteq> b then False else same_key as bs)"
| "same_key _ _ = True"

fun lock_held_nodes :: "garry_lock_node list \<Rightarrow> int \<Rightarrow> byte list \<Rightarrow> bool" where
  "lock_held_nodes [] txn key = False"
| "lock_held_nodes (p # ps) txn key =
     (if ln_txn p = txn \<and> length (ln_key p) = length key \<and> same_key (ln_key p) key then True
      else lock_held_nodes ps txn key)"

definition garry_lock_held :: "garry_lock_manager \<Rightarrow> int \<Rightarrow> byte list \<Rightarrow> bool" where
  "garry_lock_held mgr txn key = lock_held_nodes (lm_head mgr) txn key"

fun conflict_nodes :: "garry_lock_node list \<Rightarrow> int \<Rightarrow> byte list \<Rightarrow> garry_lock_mode \<Rightarrow> bool" where
  "conflict_nodes [] txn key mode = False"
| "conflict_nodes (p # ps) txn key mode =
     (if length (ln_key p) = length key \<and> same_key (ln_key p) key \<and> ln_txn p \<noteq> txn \<and>
         (ln_mode p = GARRY_LOCK_EXCLUSIVE \<or> mode = GARRY_LOCK_EXCLUSIVE)
      then True else conflict_nodes ps txn key mode)"

definition garry_has_conflict :: "garry_lock_manager \<Rightarrow> int \<Rightarrow> byte list \<Rightarrow> garry_lock_mode \<Rightarrow> bool" where
  "garry_has_conflict mgr txn key mode = conflict_nodes (lm_head mgr) txn key mode"

definition garry_lock_acquire ::
  "bool \<Rightarrow> garry_lock_manager \<Rightarrow> int \<Rightarrow> byte list \<Rightarrow> garry_lock_mode \<Rightarrow> garry_lock_manager \<times> bool" where
  "garry_lock_acquire malloc_ok mgr txn key mode =
     (if garry_lock_held mgr txn key then (mgr, True)
      else if garry_has_conflict mgr txn key mode then (mgr, False)
      else if \<not> malloc_ok then (mgr, False)
      else if length key > 256 then (mgr, False)
      else (\<lparr>lm_head = \<lparr>ln_key = key, ln_txn = txn, ln_mode = mode\<rparr> # lm_head mgr,
             lm_count = lm_count mgr + 1\<rparr>, True))"

fun release_nodes :: "garry_lock_node list \<Rightarrow> int \<Rightarrow> int \<Rightarrow> garry_lock_node list \<times> int" where
  "release_nodes [] txn count = ([], count)"
| "release_nodes (p # ps) txn count =
     (if ln_txn p = txn then release_nodes ps txn (count - 1)
      else (let (ps, count) = release_nodes ps txn count in (p # ps, count)))"

definition garry_lock_release :: "garry_lock_manager \<Rightarrow> int \<Rightarrow> garry_lock_manager" where
  "garry_lock_release mgr txn =
     (let (nodes, count) = release_nodes (lm_head mgr) txn (lm_count mgr)
      in \<lparr>lm_head = nodes, lm_count = count\<rparr>)"

subsection \<open>What the loops compute\<close>

text \<open>The lock relation: transaction \<open>txn\<close> holds \<open>key\<close> in \<open>mode\<close>.\<close>

definition lock_holds :: "garry_lock_manager \<Rightarrow> int \<Rightarrow> byte list \<Rightarrow> garry_lock_mode \<Rightarrow> bool" where
  "lock_holds mgr txn key mode \<longleftrightarrow> \<lparr>ln_key = key, ln_txn = txn, ln_mode = mode\<rparr> \<in> set (lm_head mgr)"

definition lock_inv :: "garry_lock_manager \<Rightarrow> bool" where
  "lock_inv mgr \<longleftrightarrow>
     lm_count mgr = int (length (lm_head mgr)) \<and>
     distinct (map (\<lambda>n. (ln_txn n, ln_key n)) (lm_head mgr)) \<and>
     (\<forall>t t' k m m'. lock_holds mgr t k m \<and> lock_holds mgr t' k m' \<and> t \<noteq> t' \<longrightarrow>
        m = GARRY_LOCK_SHARED \<and> m' = GARRY_LOCK_SHARED)"

lemma same_key_eq: "length a = length b \<Longrightarrow> same_key a b \<longleftrightarrow> a = b"
  by (induction a b rule: same_key.induct) auto

lemma same_key_conj: "length a = length b \<and> same_key a b \<longleftrightarrow> a = b"
  by (metis same_key_eq)

lemma lock_holds_node:
  "lock_holds mgr t k m \<longleftrightarrow>
     (\<exists>p \<in> set (lm_head mgr). ln_txn p = t \<and> ln_key p = k \<and> ln_mode p = m)"
proof -
  have "p = \<lparr>ln_key = k, ln_txn = t, ln_mode = m\<rparr> \<longleftrightarrow> ln_txn p = t \<and> ln_key p = k \<and> ln_mode p = m"
    for p :: garry_lock_node
    by (cases p) auto
  then show ?thesis unfolding lock_holds_def by (metis (no_types, lifting))
qed

lemma lock_held_nodes_iff:
  "lock_held_nodes ps txn key \<longleftrightarrow> (\<exists>p \<in> set ps. ln_txn p = txn \<and> ln_key p = key)"
  by (induction ps) (auto simp: same_key_eq)

lemma lock_held_iff: "garry_lock_held mgr txn key \<longleftrightarrow> (\<exists>m. lock_holds mgr txn key m)"
  by (auto simp: garry_lock_held_def lock_held_nodes_iff lock_holds_node)

lemma conflict_nodes_iff:
  "conflict_nodes ps txn key mode \<longleftrightarrow>
     (\<exists>p \<in> set ps. ln_key p = key \<and> ln_txn p \<noteq> txn \<and>
        (ln_mode p = GARRY_LOCK_EXCLUSIVE \<or> mode = GARRY_LOCK_EXCLUSIVE))"
  by (induction ps) (auto simp: same_key_eq)

lemma has_conflict_iff:
  "garry_has_conflict mgr txn key mode \<longleftrightarrow>
     (\<exists>t m. lock_holds mgr t key m \<and> t \<noteq> txn \<and>
        (m = GARRY_LOCK_EXCLUSIVE \<or> mode = GARRY_LOCK_EXCLUSIVE))"
  by (auto simp: garry_has_conflict_def conflict_nodes_iff lock_holds_node)

lemma release_nodes_filter:
  "release_nodes ps txn count =
     (filter (\<lambda>p. ln_txn p \<noteq> txn) ps, count - int (length (filter (\<lambda>p. ln_txn p = txn) ps)))"
  by (induction ps arbitrary: count) auto

lemma release_holds:
  "lock_holds (garry_lock_release mgr txn) t k m \<longleftrightarrow> lock_holds mgr t k m \<and> t \<noteq> txn"
  by (simp add: garry_lock_release_def release_nodes_filter lock_holds_def)

lemma acquire_holds:
  assumes "garry_lock_acquire mo mgr txn key mode = (mgr', ok)"
  shows "lock_holds mgr' t k m \<longleftrightarrow> lock_holds mgr t k m \<or>
    ok \<and> \<not> garry_lock_held mgr txn key \<and> t = txn \<and> k = key \<and> m = mode"
  using assms by (auto simp: garry_lock_acquire_def lock_holds_def split: if_splits)

lemma acquire_inv:
  assumes "lock_inv mgr" "garry_lock_acquire mo mgr txn key mode = (mgr', ok)"
  shows "lock_inv mgr'"
proof (cases "mgr' = mgr")
  case False
  then have new: "mgr' = \<lparr>lm_head = \<lparr>ln_key = key, ln_txn = txn, ln_mode = mode\<rparr> # lm_head mgr,
      lm_count = lm_count mgr + 1\<rparr>" "\<not> garry_lock_held mgr txn key" "\<not> garry_has_conflict mgr txn key mode"
    using assms(2) by (auto simp: garry_lock_acquire_def split: if_splits)
  have h: "lock_holds mgr' t k m \<longleftrightarrow> lock_holds mgr t k m \<or> t = txn \<and> k = key \<and> m = mode" for t k m
    by (auto simp: new(1) lock_holds_def)
  have "m = GARRY_LOCK_SHARED \<and> m' = GARRY_LOCK_SHARED"
    if "lock_holds mgr' t k m" "lock_holds mgr' t' k m'" "t \<noteq> t'" for t t' k m m'
    using that assms(1) new(3) unfolding h lock_inv_def has_conflict_iff
    by (metis garry_lock_mode.exhaust)
  moreover have "(txn, key) \<notin> (\<lambda>n. (ln_txn n, ln_key n)) ` set (lm_head mgr)"
    using new(2) by (auto simp: garry_lock_held_def lock_held_nodes_iff)
  then have "distinct (map (\<lambda>n. (ln_txn n, ln_key n)) (lm_head mgr'))"
    "lm_count mgr' = int (length (lm_head mgr'))"
    using assms(1) by (simp_all add: new(1) lock_inv_def)
  ultimately show ?thesis unfolding lock_inv_def by blast
qed (simp add: assms)

lemma release_inv:
  assumes "lock_inv mgr"
  shows "lock_inv (garry_lock_release mgr txn)"
proof -
  have "lm_count (garry_lock_release mgr txn) = int (length (lm_head (garry_lock_release mgr txn)))"
    using assms sum_length_filter_compl [of "\<lambda>p. ln_txn p = txn" "lm_head mgr"]
    by (simp add: garry_lock_release_def release_nodes_filter lock_inv_def)
  moreover have "distinct (map (\<lambda>n. (ln_txn n, ln_key n)) (lm_head (garry_lock_release mgr txn)))"
    using assms by (simp add: garry_lock_release_def release_nodes_filter lock_inv_def distinct_map_filter)
  ultimately show ?thesis
    using assms unfolding lock_inv_def release_holds by blast
qed

subsection \<open>The contract of a lock service\<close>

locale lock_service =
  fixes inv :: "'m \<Rightarrow> bool"
    and has :: "'m \<Rightarrow> 't \<Rightarrow> 'k \<Rightarrow> garry_lock_mode \<Rightarrow> bool"
    and acquire :: "'m \<Rightarrow> 't \<Rightarrow> 'k \<Rightarrow> garry_lock_mode \<Rightarrow> 'm \<times> bool"
    and release :: "'m \<Rightarrow> 't \<Rightarrow> 'm"
  assumes acquire_keeps: "inv m \<Longrightarrow> inv (fst (acquire m t k l))"
    and release_keeps: "inv m \<Longrightarrow> inv (release m t)"
    and acquire_has: "inv m \<Longrightarrow> snd (acquire m t k l) \<Longrightarrow> \<exists>l'. has (fst (acquire m t k l)) t k l'"
    and acquire_frame: "inv m \<Longrightarrow> t' \<noteq> t \<or> k' \<noteq> k \<Longrightarrow>
      has (fst (acquire m t k l)) t' k' l' \<longleftrightarrow> has m t' k' l'"
    and release_has: "has (release m t) t' k l \<longleftrightarrow> has m t' k l \<and> t' \<noteq> t"
    and exclusion: "inv m \<Longrightarrow> has m t k l \<Longrightarrow> has m t' k l' \<Longrightarrow> t \<noteq> t' \<Longrightarrow>
      l = GARRY_LOCK_SHARED \<and> l' = GARRY_LOCK_SHARED"
begin

lemma one_writer:
  "inv m \<Longrightarrow> has m t k GARRY_LOCK_EXCLUSIVE \<Longrightarrow> has m t' k l \<Longrightarrow> t' = t"
  using exclusion [of m t k GARRY_LOCK_EXCLUSIVE t' l] by auto

lemma release_drops: "\<not> has (release m t) t k l"
  by (simp add: release_has)

fun requests :: "'m \<Rightarrow> ('t \<times> 'k \<times> garry_lock_mode) list \<Rightarrow> 'm" where
  "requests m [] = m"
| "requests m ((t, k, l) # rs) = requests (fst (acquire m t k l)) rs"

lemma requests_keep: "inv m \<Longrightarrow> inv (requests m rs)"
  by (induction m rs rule: requests.induct) (simp_all add: acquire_keeps)

lemma requests_frame:
  "inv m \<Longrightarrow> \<forall>(t', k', l') \<in> set rs. t' \<noteq> t \<Longrightarrow> has (requests m rs) t k l \<longleftrightarrow> has m t k l"
  by (induction m rs rule: requests.induct) (auto simp: acquire_keeps acquire_frame)

end

interpretation locks: lock_service lock_inv lock_holds "garry_lock_acquire malloc_ok" garry_lock_release
  for malloc_ok
proof (unfold_locales, goal_cases)
  case (1 m t k l)
  then show ?case by (metis acquire_inv prod.collapse)
next
  case (2 m t)
  then show ?case by (rule release_inv)
next
  case (3 m t k l)
  obtain m' ok where e: "garry_lock_acquire malloc_ok m t k l = (m', ok)" by fastforce
  with 3 acquire_holds [OF e, of t k] show ?case by (auto simp: lock_held_iff)
next
  case (4 m t' t k' k l l')
  then show ?case
    using acquire_holds [of malloc_ok m t k l "fst (garry_lock_acquire malloc_ok m t k l)"
        "snd (garry_lock_acquire malloc_ok m t k l)" t' k' l']
    by auto
next
  case (5 m t t' k l)
  show ?case by (rule release_holds)
next
  case (6 m t k l t' l')
  then show ?case unfolding lock_inv_def by blast
qed

subsection \<open>Interleaved requests\<close>

inductive lock_step :: "garry_lock_manager \<Rightarrow> garry_lock_manager \<Rightarrow> bool" where
  acquire: "garry_lock_acquire mo mgr txn key mode = (mgr', ok) \<Longrightarrow> lock_step mgr mgr'"
| release: "lock_step mgr (garry_lock_release mgr txn)"

inductive lock_reachable :: "garry_lock_manager \<Rightarrow> bool" where
  start: "lock_reachable garry_create_lock_manager"
| step: "lock_reachable mgr \<Longrightarrow> lock_step mgr mgr' \<Longrightarrow> lock_reachable mgr'"

inductive_cases lock_stepE: "lock_step mgr mgr'"

lemma lock_create_inv: "lock_inv garry_create_lock_manager"
  by (simp add: lock_inv_def garry_create_lock_manager_def lock_holds_def)

lemma lock_reachable_inv: "lock_reachable mgr \<Longrightarrow> lock_inv mgr"
  by (induction rule: lock_reachable.induct) (auto elim!: lock_stepE intro: lock_create_inv acquire_inv release_inv)

subsection \<open>Properties\<close>

text \<open>C30. Mutual exclusion: whatever requests and releases the transactions interleave, a key that
  one transaction holds exclusively is held by no other, and the count is the number of locks.\<close>

theorem locks_mutually_exclusive:
  assumes "lock_reachable mgr" "lock_holds mgr t k GARRY_LOCK_EXCLUSIVE"
  shows "(\<forall>t' m. lock_holds mgr t' k m \<longrightarrow> t' = t) \<and> lm_count mgr = int (length (lm_head mgr))"
  using locks.one_writer [OF lock_reachable_inv [OF assms(1)] assms(2)] lock_reachable_inv [OF assms(1)]
  by (auto simp: lock_inv_def)

theorem locks_mutually_exclusive_witness:
  "\<not> lock_holds (fst (garry_lock_acquire True garry_create_lock_manager 1 [7] GARRY_LOCK_EXCLUSIVE))
     2 [7] GARRY_LOCK_SHARED"
proof -
  let ?m = "fst (garry_lock_acquire True garry_create_lock_manager 1 [7] GARRY_LOCK_EXCLUSIVE)"
  have "lock_reachable ?m"
    by (rule lock_reachable.step [OF lock_reachable.start])
      (rule lock_step.acquire [of True _ 1 "[7]" GARRY_LOCK_EXCLUSIVE _ True], code_simp)
  moreover have "lock_holds ?m 1 [7] GARRY_LOCK_EXCLUSIVE" by code_simp
  ultimately show ?thesis using locks_mutually_exclusive [of ?m 1 "[7]"] by fastforce
qed

text \<open>An acquisition succeeds exactly if the transaction already holds the key in some mode, or
  no other transaction holds it in a conflicting mode, memory is there and the key has at most 256
  bytes; a refused acquisition changes nothing.\<close>

theorem lock_acquire_exact:
  "garry_lock_acquire mo mgr txn key mode = (mgr', ok) \<Longrightarrow>
     (ok \<longleftrightarrow> (\<exists>m. lock_holds mgr txn key m) \<or>
        \<not> (\<exists>t m. lock_holds mgr t key m \<and> t \<noteq> txn \<and>
             (m = GARRY_LOCK_EXCLUSIVE \<or> mode = GARRY_LOCK_EXCLUSIVE)) \<and> mo \<and> length key \<le> 256) \<and>
     (\<not> ok \<longrightarrow> mgr' = mgr)"
  unfolding garry_lock_acquire_def has_conflict_iff [symmetric] lock_held_iff [symmetric]
  by (auto split: if_splits)

theorem lock_acquire_exact_witness:
  "\<not> snd (garry_lock_acquire True
      (fst (garry_lock_acquire True garry_create_lock_manager 1 [7] GARRY_LOCK_SHARED))
      2 [7] GARRY_LOCK_EXCLUSIVE)"
proof -
  let ?m = "fst (garry_lock_acquire True garry_create_lock_manager 1 [7] GARRY_LOCK_SHARED)"
  obtain m' ok where e: "garry_lock_acquire True ?m 2 [7] GARRY_LOCK_EXCLUSIVE = (m', ok)" by fastforce
  have "lock_holds ?m 1 [7] GARRY_LOCK_SHARED" by code_simp
  moreover have "\<not> lock_holds ?m 2 [7] m" for m by (cases m) code_simp+
  ultimately show ?thesis using lock_acquire_exact [OF e] e by auto
qed

text \<open>Ending a transaction releases all its locks and no other lock.\<close>

theorem lock_release_exact:
  "lock_holds (garry_lock_release mgr txn) t k m \<longleftrightarrow> lock_holds mgr t k m \<and> t \<noteq> txn"
  by (rule locks.release_has)

definition shared_twice :: garry_lock_manager where
  "shared_twice =
     fst (garry_lock_acquire True
       (fst (garry_lock_acquire True garry_create_lock_manager 1 [7] GARRY_LOCK_SHARED))
       2 [7] GARRY_LOCK_SHARED)"

text \<open>There is no lock upgrade: a transaction that holds a key shared and asks for it
  exclusively is told that it succeeded, with the shared lock of another transaction still in
  place.\<close>

theorem lock_upgrade_not_checked:
  "let (mgr, ok) = garry_lock_acquire True shared_twice 1 [7] GARRY_LOCK_EXCLUSIVE
   in ok \<and> lock_holds mgr 2 [7] GARRY_LOCK_SHARED \<and> \<not> lock_holds mgr 1 [7] GARRY_LOCK_EXCLUSIVE"
  by code_simp

end
