(* ===== verification/Garry_VersionChain.thy ===== *)
theory Garry_VersionChain
  imports Garry_BufferPool
begin

text \<open>
  Version chains: \<open>src/src/version_chain.c\<close>. A chain page is a slotted page whose records are
  the versions of one key in the order they were written; a value too long for the page lives
  in a chain of overflow pages.

  \<open>chain_rep\<close> abstracts a chain page to the list of its versions and \<open>visible_value\<close> says
  what a snapshot reads from the list. The lemmas show that appending and reading refine these,
  and what pruning keeps. Memory allocation succeeds. The code assembles and reads a version in a
  local array of 16384 bytes without checking its length; the model has the bytes themselves, and
  \<open>version_ok\<close> holds of the versions the array has room for.
\<close>

subsection \<open>Chain pages\<close>

definition garry_chain_page_init :: "buffer \<Rightarrow> int \<Rightarrow> buffer" where
  "garry_chain_page_init buf page_size = garry_page_init buf GARRY_NODE_CHAIN 0 page_size"

definition garry_overflow_chunk_size :: "int \<Rightarrow> int" where
  "garry_overflow_chunk_size page_size = page_size - 32 - 4"

definition garry_chain_inline_capacity :: "int \<Rightarrow> int" where
  "garry_chain_inline_capacity page_size = page_size - 32 - 4 - 14"

text \<open>The four assignments that store an integer in \<open>entry_buf\<close>.\<close>

definition entry_le :: "int \<Rightarrow> byte list" where
  "entry_le v = [word_of_int (v AND 255), word_of_int (drop_bit 8 v AND 255),
                 word_of_int (drop_bit 16 v AND 255), word_of_int (drop_bit 24 v AND 255)]"

definition garry_chain_page_append :: "buffer \<Rightarrow> int \<Rightarrow> int \<Rightarrow> byte list \<Rightarrow> buffer \<times> bool" where
  "garry_chain_page_append buf page_size txn value =
     (let vlen = int (length value) in
      if vlen > garry_chain_inline_capacity page_size then (buf, False)
      else
        (let entry_buf = entry_le txn @ [0, 0, 0, 0] @ entry_le vlen @ [0] @ [0] @ value;
             (buf, slot_idx) = garry_page_insert buf entry_buf page_size
         in (buf, \<not> slot_idx < 0)))"

definition garry_chain_page_append_tombstone :: "buffer \<Rightarrow> int \<Rightarrow> int \<Rightarrow> buffer \<times> bool" where
  "garry_chain_page_append_tombstone buf page_size txn =
     (let entry_buf = entry_le txn @ [0, 0, 0, 0] @ [0, 0, 0, 0] @ [1] @ [0];
          (buf, slot_idx) = garry_page_insert buf entry_buf page_size
      in (buf, \<not> slot_idx < 0))"

definition garry_chain_page_append_overflow ::
  "buffer \<Rightarrow> int \<Rightarrow> int \<Rightarrow> int \<Rightarrow> int \<Rightarrow> buffer \<times> bool" where
  "garry_chain_page_append_overflow buf page_size txn total_len head =
     (let entry_buf = entry_le txn @ [0, 0, 0, 0] @ entry_le total_len @ [0] @ [1] @ entry_le head;
          (buf, slot_idx) = garry_page_insert buf entry_buf page_size
      in (buf, \<not> slot_idx < 0))"

subsection \<open>Overflow pages\<close>

text \<open>Every pool has pages of at least 512 bytes, so the chunk size is positive; the loops test it
  to be total for other sizes as well.\<close>

function overflow_write_loop ::
  "garry_buffer_pool \<Rightarrow> byte list \<Rightarrow> int \<Rightarrow> int \<Rightarrow> int \<Rightarrow> garry_buffer_pool \<times> int \<times> int \<times> bool" where
  "overflow_write_loop pool value offset head prev_pid =
     (let vlen = int (length value); chunk_cap = garry_overflow_chunk_size (bp_page_size pool)
      in if offset < vlen \<and> 0 < chunk_cap
         then
           (case garry_pool_allocate pool of
              (pool1, this_pid) \<Rightarrow>
                if this_pid < 0 then (pool1, -1, prev_pid, False)
                else
                  (case garry_pool_pin_page pool1 this_pid of
                     (pool2, None) \<Rightarrow> (garry_pool_free_page pool2 this_pid, -1, prev_pid, False)
                   | (pool2, Some idx) \<Rightarrow>
                       (let pool3 = pool_write pool2 idx
                              (garry_page_init (bp_pages pool2 idx) GARRY_NODE_OVERFLOW 0
                                (bp_page_size pool2));
                            pool4 =
                              (if prev_pid \<ge> 0
                               then (case garry_pool_pin_page pool3 prev_pid of
                                       (p, None) \<Rightarrow> p
                                     | (p, Some pidx) \<Rightarrow>
                                         (let p = pool_write p pidx
                                                (garry_write_int32 (bp_pages p pidx) 32 this_pid);
                                              p = garry_pool_mark_dirty p prev_pid;
                                              p = garry_pool_release_page p prev_pid
                                          in fst (garry_pool_flush_page p prev_pid)))
                               else pool3);
                            this_chunk = (if vlen - offset < chunk_cap then vlen - offset else chunk_cap);
                            pool5 = pool_write pool4 idx
                              (garry_write_int32
                                (put_bytes (bp_pages pool4 idx) 36
                                  (take (nat this_chunk) (drop (nat offset) value))) 32 (-1));
                            pool6 = garry_pool_mark_dirty pool5 this_pid;
                            pool7 = garry_pool_release_page pool6 this_pid
                        in overflow_write_loop pool7 value (offset + this_chunk)
                             (if head = -1 then this_pid else head) this_pid)))
         else (pool, head, prev_pid, True))"
  by pat_completeness auto
termination
  by (relation "measure (\<lambda>(pool, value, offset, _). nat (int (length value) - offset))")
    (auto simp: nat_less_iff Let_def split: if_splits)

declare overflow_write_loop.simps [simp del]

definition garry_overflow_write :: "garry_buffer_pool \<Rightarrow> byte list \<Rightarrow> garry_buffer_pool \<times> int" where
  "garry_overflow_write pool value =
     (case overflow_write_loop pool value 0 (-1) (-1) of
        (pool, head, prev_pid, ok) \<Rightarrow>
          if \<not> ok then (pool, -1)
          else (if prev_pid \<ge> 0 then fst (garry_pool_flush_page pool prev_pid) else pool, head))"

function overflow_read_loop ::
  "garry_buffer_pool \<Rightarrow> int \<Rightarrow> int \<Rightarrow> byte list \<Rightarrow> garry_buffer_pool \<times> byte list \<times> bool" where
  "overflow_read_loop pool pid total_len out_buf =
     (let chunk_cap = garry_overflow_chunk_size (bp_page_size pool); copied = int (length out_buf)
      in if pid \<ge> 0 \<and> copied < total_len \<and> 0 < chunk_cap
         then
           (case garry_pool_pin_page pool pid of
              (pool, None) \<Rightarrow> (pool, out_buf, False)
            | (pool, Some idx) \<Rightarrow>
                (let next_pid = garry_read_int32 (bp_pages pool idx) 32;
                     this_chunk = (if total_len - copied < chunk_cap then total_len - copied else chunk_cap);
                     chunk = read_bytes (bp_pages pool idx) 36 this_chunk
                 in overflow_read_loop (garry_pool_release_page pool pid) next_pid total_len
                      (out_buf @ chunk)))
         else (pool, out_buf, copied = total_len))"
  by pat_completeness auto
termination
  by (relation "measure (\<lambda>(pool, pid, total_len, out_buf). nat (total_len - int (length out_buf)))")
    (auto simp: nat_less_iff Let_def split: if_splits)

declare overflow_read_loop.simps [simp del]

definition garry_overflow_read ::
  "garry_buffer_pool \<Rightarrow> int \<Rightarrow> int \<Rightarrow> garry_buffer_pool \<times> byte list option" where
  "garry_overflow_read pool head total_len =
     (case overflow_read_loop pool head total_len [] of
        (pool, out, ok) \<Rightarrow> (pool, if ok then Some out else None))"

text \<open>Freed pages keep the link at offset 32, so a cyclic chain is walked forever; \<open>None\<close> is not
  returning.\<close>

partial_function (option) garry_overflow_free :: "garry_buffer_pool \<Rightarrow> int \<Rightarrow> garry_buffer_pool option" where
  "garry_overflow_free pool pid =
     (if pid \<ge> 0
      then (case garry_pool_try_pin pool pid of
              (pool, None) \<Rightarrow> Some pool
            | (pool, Some idx) \<Rightarrow>
                (let next_pid = garry_read_int32 (bp_pages pool idx) 32;
                     pool = garry_pool_release_page pool pid
                 in garry_overflow_free (garry_pool_free_page pool pid) next_pid))
      else Some pool)"

subsection \<open>Reading a chain\<close>

text \<open>The header of an entry, as the reading loops decode it.\<close>

record chain_entry =
  ce_created :: int
  ce_deleted :: int
  ce_value_len :: int
  ce_tombstone :: bool
  ce_overflow :: bool

definition read_entry :: "buffer \<Rightarrow> chain_entry" where
  "read_entry rec_data =
     \<lparr>ce_created = garry_read_le32 rec_data 0, ce_deleted = garry_read_le32 rec_data 4,
      ce_value_len = garry_read_le32 rec_data 8, ce_tombstone = (rec_data 12 \<noteq> 0),
      ce_overflow = (uint (rec_data 13) AND 1 = 1)\<rparr>"

definition entry_visible :: "int \<Rightarrow> int \<Rightarrow> int \<Rightarrow> int list \<Rightarrow> bool" where
  "entry_visible txid_created txid_deleted snap_txid active =
     (if txid_created > snap_txid then False
      else if txid_deleted \<noteq> 0 \<and> txid_deleted \<le> snap_txid then False
      else \<not> list_ex (\<lambda>a. a = txid_created \<and> a \<noteq> snap_txid) active)"

text \<open>The loop runs from the newest record down; the argument is the number of records left. A
  negative length makes the allocation of the result fail.\<close>

fun find_visible_loop ::
  "garry_buffer_pool \<Rightarrow> buffer \<Rightarrow> int \<Rightarrow> int \<Rightarrow> int list \<Rightarrow> nat \<Rightarrow> garry_buffer_pool \<times> byte list option" where
  "find_visible_loop pool local page_size snap_txid active 0 = (pool, None)"
| "find_visible_loop pool local page_size snap_txid active (Suc i) =
     (case garry_page_get local (int i) page_size of
        None \<Rightarrow> find_visible_loop pool local page_size snap_txid active i
      | Some r \<Rightarrow>
          if length r < 14 then find_visible_loop pool local page_size snap_txid active i
          else
            (let rec_data = buf_of r; e = read_entry rec_data
             in if entry_visible (ce_created e) (ce_deleted e) snap_txid active
                then
                  (if ce_tombstone e then (pool, None)
                   else if ce_overflow e
                   then
                     (if ce_value_len e < -1 then find_visible_loop pool local page_size snap_txid active i
                      else
                        (case garry_overflow_read pool (garry_read_le32 rec_data 14) (ce_value_len e) of
                           (pool, Some v) \<Rightarrow> (pool, Some v)
                         | (pool, None) \<Rightarrow> find_visible_loop pool local page_size snap_txid active i))
                   else if ce_value_len e < -1 then find_visible_loop pool local page_size snap_txid active i
                   else (pool, Some (read_bytes rec_data 14 (ce_value_len e))))
                else find_visible_loop pool local page_size snap_txid active i))"

definition garry_chain_page_find_visible ::
  "garry_buffer_pool \<Rightarrow> buffer \<Rightarrow> int \<Rightarrow> int \<Rightarrow> int list \<Rightarrow> garry_buffer_pool \<times> byte list option" where
  "garry_chain_page_find_visible pool buf page_size snap_txid active =
     find_visible_loop pool buf page_size snap_txid active (nat (garry_page_record_count buf))"

fun has_visible_loop :: "buffer \<Rightarrow> int \<Rightarrow> int \<Rightarrow> int list \<Rightarrow> nat \<Rightarrow> bool" where
  "has_visible_loop local page_size snap_txid active 0 = False"
| "has_visible_loop local page_size snap_txid active (Suc i) =
     (case garry_page_get local (int i) page_size of
        None \<Rightarrow> has_visible_loop local page_size snap_txid active i
      | Some r \<Rightarrow>
          if length r < 14 then has_visible_loop local page_size snap_txid active i
          else
            (let e = read_entry (buf_of r);
                 visible = entry_visible (ce_created e) (ce_deleted e) snap_txid active
             in if visible \<and> \<not> ce_tombstone e then True
                else if visible \<and> ce_tombstone e then False
                else has_visible_loop local page_size snap_txid active i))"

definition garry_chain_page_has_visible :: "buffer \<Rightarrow> int \<Rightarrow> int \<Rightarrow> int list \<Rightarrow> bool" where
  "garry_chain_page_has_visible buf page_size snap_txid active =
     has_visible_loop buf page_size snap_txid active (nat (garry_page_record_count buf))"

definition garry_chain_page_has_version :: "buffer \<Rightarrow> int \<Rightarrow> int \<Rightarrow> bool" where
  "garry_chain_page_has_version buf page_size txn =
     list_ex (\<lambda>i. case garry_page_get buf (int i) page_size of
                    None \<Rightarrow> False
                  | Some r \<Rightarrow> length r \<ge> 4 \<and> garry_read_le32 (buf_of r) 0 = txn)
       [0..<nat (garry_page_record_count buf)]"

subsection \<open>Pruning\<close>

definition prune_keep :: "int list \<Rightarrow> bool \<Rightarrow> byte list \<Rightarrow> bool" where
  "prune_keep active is_last r =
     (if length r \<ge> 8
      then (let txid_created = garry_read_le32 (buf_of r) 0;
                txid_deleted = garry_read_le32 (buf_of r) 4
            in if is_last then True
               else list_ex (\<lambda>snap. txid_created \<le> snap \<and>
                               \<not> (txid_deleted \<noteq> 0 \<and> txid_deleted \<le> snap) \<and>
                               \<not> list_ex (\<lambda>a. a = txid_created) active) active)
      else True)"

fun prune_free ::
  "garry_buffer_pool \<Rightarrow> buffer \<Rightarrow> int \<Rightarrow> (int \<Rightarrow> bool) \<Rightarrow> nat list \<Rightarrow> garry_buffer_pool option" where
  "prune_free pool local page_size keep [] = Some pool"
| "prune_free pool local page_size keep (i # is) =
     (case (if keep (int i) then None else garry_page_get local (int i) page_size) of
        None \<Rightarrow> prune_free pool local page_size keep is
      | Some r \<Rightarrow>
          if length r \<ge> 18 \<and> uint (buf_of r 13) AND 1 \<noteq> 0 \<and> garry_read_le32 (buf_of r) 14 \<ge> 0
          then (case garry_overflow_free pool (garry_read_le32 (buf_of r) 14) of
                  None \<Rightarrow> None
                | Some pool \<Rightarrow> prune_free pool local page_size keep is)
          else prune_free pool local page_size keep is)"

fun prune_copy :: "buffer \<Rightarrow> int \<Rightarrow> (int \<Rightarrow> bool) \<Rightarrow> nat list \<Rightarrow> buffer \<Rightarrow> buffer option" where
  "prune_copy local page_size keep [] tmp = Some tmp"
| "prune_copy local page_size keep (i # is) tmp =
     (if keep (int i)
      then (case garry_page_get local (int i) page_size of
              None \<Rightarrow> None
            | Some r \<Rightarrow>
                (case garry_page_insert tmp r page_size of
                   (tmp, idx) \<Rightarrow> if idx < 0 then None else prune_copy local page_size keep is tmp))
      else prune_copy local page_size keep is tmp)"

text \<open>\<open>tmp\<close> is the content of the scratch page as allocated. A record that cannot be fetched, which
  a well-formed page does not have, stops the copy here. The array \<open>keep\<close> of the code has
  \<open>GARRY_MAX_VERSIONS_PER_PAGE\<close> elements and its index is not checked; the model gives no result
  where it would be overrun, which a well-formed page, with its at most 128 records, never does.\<close>

definition GARRY_MAX_VERSIONS_PER_PAGE :: int where "GARRY_MAX_VERSIONS_PER_PAGE = 128"

definition garry_chain_page_prune ::
  "garry_buffer_pool \<Rightarrow> buffer \<Rightarrow> int \<Rightarrow> int list \<Rightarrow> buffer \<Rightarrow> (garry_buffer_pool \<times> buffer) option" where
  "garry_chain_page_prune pool buf page_size active tmp =
     (let rec_count = garry_page_record_count buf
      in if rec_count \<le> 1 then Some (pool, buf)
         else if rec_count > GARRY_MAX_VERSIONS_PER_PAGE then None
         else
           (let keep = (\<lambda>i. case garry_page_get buf i page_size of
                             None \<Rightarrow> True
                           | Some r \<Rightarrow> prune_keep active (i = rec_count - 1) r);
                is = [0..<nat rec_count]
            in case prune_free pool buf page_size keep is of
                 None \<Rightarrow> None
               | Some pool \<Rightarrow>
                   (case prune_copy buf page_size keep is
                           (garry_page_init tmp GARRY_NODE_CHAIN 0 page_size) of
                      None \<Rightarrow> Some (pool, buf)
                    | Some tmp \<Rightarrow> Some (pool, \<lambda>j. if 0 \<le> j \<and> j < page_size then tmp j else buf j))))"

subsection \<open>The versions of a page\<close>

text \<open>The entries the three append functions write.\<close>

datatype chain_version =
    Inline int "byte list"
  | Tombstone int
  | Spilled int int int

fun cv_txn :: "chain_version \<Rightarrow> int" where
  "cv_txn (Inline t v) = t"
| "cv_txn (Tombstone t) = t"
| "cv_txn (Spilled t n h) = t"

fun entry_bytes :: "chain_version \<Rightarrow> byte list" where
  "entry_bytes (Inline t v) = le32_bytes t @ [0, 0, 0, 0] @ le32_bytes (int (length v)) @ [0, 0] @ v"
| "entry_bytes (Tombstone t) = le32_bytes t @ [0, 0, 0, 0] @ [0, 0, 0, 0] @ [1, 0]"
| "entry_bytes (Spilled t n h) = le32_bytes t @ [0, 0, 0, 0] @ le32_bytes n @ [0, 1] @ le32_bytes h"

fun version_ok :: "chain_version \<Rightarrow> bool" where
  "version_ok (Inline t v) = (i32 t \<and> 14 + length v \<le> 16384)"
| "version_ok (Tombstone t) = i32 t"
| "version_ok (Spilled t n h) = (i32 t \<and> i32 n \<and> 0 \<le> n \<and> i32 h)"

definition chain_room :: "chain_version list \<Rightarrow> int" where
  "chain_room vs = sum_list (map (\<lambda>v. int (length (entry_bytes v)) + 4) vs)"

definition chain_rep :: "buffer \<Rightarrow> int \<Rightarrow> chain_version list \<Rightarrow> bool" where
  "chain_rep buf ps vs \<longleftrightarrow>
     page_wf buf ps \<and> page_records buf = map entry_bytes vs \<and> list_all version_ok vs \<and>
     page_free buf = ps - 32 - chain_room vs"

lemma entry_le_bytes: "entry_le v = le32_bytes v"
  by (simp add: entry_le_def le32_bytes_def)

lemma length_entry_bytes: "14 \<le> length (entry_bytes v)"
  by (cases v) simp_all

lemma read_le32_holds: "holds b off (le32_bytes v) \<Longrightarrow> i32 v \<Longrightarrow> garry_read_le32 b off = v"
  by (rule read_le32_of_bytes) (simp_all add: holds_read)

lemma i32_zero [simp]: "i32 0"
  by (simp add: i32_def)

lemma le32_bytes_zero: "le32_bytes 0 = [0, 0, 0, 0]"
  by (simp add: le32_bytes_def)

lemma i32_length: "length d \<le> 16370 \<Longrightarrow> i32 (int (length d))"
  by (simp add: i32_def)

lemma read_entry_bytes:
  assumes "version_ok v"
  shows "read_entry (buf_of (entry_bytes v)) =
    \<lparr>ce_created = cv_txn v, ce_deleted = 0,
     ce_value_len = (case v of Inline t d \<Rightarrow> int (length d) | Tombstone t \<Rightarrow> 0 | Spilled t n h \<Rightarrow> n),
     ce_tombstone = (case v of Tombstone t \<Rightarrow> True | _ \<Rightarrow> False),
     ce_overflow = (case v of Spilled t n h \<Rightarrow> True | _ \<Rightarrow> False)\<rparr>"
proof -
  let ?b = "buf_of (entry_bytes v)"
  have h: "holds ?b 0 (entry_bytes v)" by (rule holds_buf_of)
  have "garry_read_le32 ?b 0 = cv_txn v" "garry_read_le32 ?b 4 = 0"
    using h assms by (cases v; simp add: read_le32_holds le32_bytes_zero [symmetric] del: holds_Cons)+
  then show ?thesis
    using h assms
    by (cases v; simp add: read_entry_def read_le32_holds i32_length le32_bytes_zero [symmetric])
qed

lemma inline_payload:
  "version_ok (Inline t d) \<Longrightarrow> read_bytes (buf_of (entry_bytes (Inline t d))) 14 (int (length d)) = d"
  using holds_buf_of [of "entry_bytes (Inline t d)"] by (simp add: holds_read)

lemma chain_rep_get:
  assumes "chain_rep buf ps vs"
  shows "garry_page_get buf (int i) ps = (if i < length vs then Some (entry_bytes (vs ! i)) else None)"
  using assms page.get_records [of buf ps "int i"] by (simp add: chain_rep_def)

lemma chain_rep_count: "chain_rep buf ps vs \<Longrightarrow> garry_page_record_count buf = int (length vs)"
  using length_page_records [of buf ps] by (simp add: chain_rep_def garry_page_record_count_def)

lemma chain_rep_init: "512 \<le> ps \<Longrightarrow> ps \<le> 65536 \<Longrightarrow> chain_rep (garry_chain_page_init buf ps) ps []"
  by (simp add: chain_rep_def chain_room_def garry_chain_page_init_def page_init_wf page_init_records page_init_free)

lemma chain_insert:
  assumes "chain_rep buf ps vs" "version_ok v"
  shows "case garry_page_insert buf (entry_bytes v) ps of (buf', idx) \<Rightarrow>
    if page_fits buf (entry_bytes v) then \<not> idx < 0 \<and> chain_rep buf' ps (vs @ [v])
    else idx < 0 \<and> buf' = buf"
proof (cases "page_fits buf (entry_bytes v)")
  case True
  have "page_free (fst (garry_page_insert buf (entry_bytes v) ps)) =
      page_free buf - int (length (entry_bytes v)) - 4"
    using assms(1) True inserted_page_free [of buf ps "entry_bytes v"]
    by (simp add: chain_rep_def page_insert_fits)
  with True assms page.insert_records [of buf ps "entry_bytes v"] page.insert_index [of buf ps "entry_bytes v"]
    page.insert_wf [of buf ps "entry_bytes v"]
  show ?thesis by (auto simp: chain_rep_def chain_room_def case_prod_unfold)
next
  case False
  with assms page.insert_full [of buf ps "entry_bytes v"] show ?thesis by (auto simp: chain_rep_def)
qed

lemma append_inline:
  assumes "chain_rep buf ps vs" "i32 txn" "int (length value) \<le> garry_chain_inline_capacity ps"
    "14 + length value \<le> 16384"
  shows "case garry_chain_page_append buf ps txn value of (buf', ok) \<Rightarrow>
    ok = page_fits buf (entry_bytes (Inline txn value)) \<and>
    (if ok then chain_rep buf' ps (vs @ [Inline txn value]) else buf' = buf)"
proof -
  have "version_ok (Inline txn value)" using assms(2,4) by simp
  from chain_insert [OF assms(1) this] assms(3) show ?thesis
    by (auto simp: garry_chain_page_append_def entry_le_bytes Let_def case_prod_unfold split: if_splits)
qed

lemma append_tombstone:
  assumes "chain_rep buf ps vs" "i32 txn"
  shows "case garry_chain_page_append_tombstone buf ps txn of (buf', ok) \<Rightarrow>
    ok = page_fits buf (entry_bytes (Tombstone txn)) \<and>
    (if ok then chain_rep buf' ps (vs @ [Tombstone txn]) else buf' = buf)"
  using chain_insert [OF assms(1), of "Tombstone txn"] assms(2)
  by (auto simp: garry_chain_page_append_tombstone_def entry_le_bytes Let_def case_prod_unfold split: if_splits)

lemma append_overflow:
  assumes "chain_rep buf ps vs" "i32 txn" "i32 n" "0 \<le> n" "i32 head"
  shows "case garry_chain_page_append_overflow buf ps txn n head of (buf', ok) \<Rightarrow>
    ok = page_fits buf (entry_bytes (Spilled txn n head)) \<and>
    (if ok then chain_rep buf' ps (vs @ [Spilled txn n head]) else buf' = buf)"
  using chain_insert [OF assms(1), of "Spilled txn n head"] assms(2-)
  by (auto simp: garry_chain_page_append_overflow_def entry_le_bytes Let_def case_prod_unfold split: if_splits)

subsection \<open>What a snapshot reads\<close>

definition seen :: "int \<Rightarrow> int list \<Rightarrow> chain_version \<Rightarrow> bool" where
  "seen snap active v \<longleftrightarrow> cv_txn v \<le> snap \<and> (cv_txn v \<in> set active \<longrightarrow> cv_txn v = snap)"

lemma entry_visible_seen: "entry_visible (cv_txn v) 0 snap active = seen snap active v"
  by (auto simp: entry_visible_def seen_def list_ex_iff)

text \<open>The newest version the snapshot sees.\<close>

definition latest_seen :: "int \<Rightarrow> int list \<Rightarrow> chain_version list \<Rightarrow> chain_version option" where
  "latest_seen snap active vs = List.find (seen snap active) (rev vs)"

fun not_spilled :: "chain_version \<Rightarrow> bool" where
  "not_spilled (Spilled t n h) = False"
| "not_spilled _ = True"

definition visible_value :: "int \<Rightarrow> int list \<Rightarrow> chain_version list \<Rightarrow> byte list option" where
  "visible_value snap active vs =
     (case latest_seen snap active vs of Some (Inline t v) \<Rightarrow> Some v | _ \<Rightarrow> None)"

lemma latest_seen_snoc:
  "latest_seen snap active (vs @ [v]) = (if seen snap active v then Some v else latest_seen snap active vs)"
  by (simp add: latest_seen_def)

lemma latest_seen_Nil [simp]: "latest_seen snap active [] = None"
  by (simp add: latest_seen_def)

lemma find_visible_loop_seen:
  assumes "chain_rep buf ps vs" "i \<le> length vs" "list_all not_spilled vs"
  shows "find_visible_loop pool buf ps snap active i = (pool, visible_value snap active (take i vs))"
  using assms(2)
proof (induction i)
  case 0
  then show ?case by (simp add: visible_value_def)
next
  case (Suc i)
  let ?v = "vs ! i"
  have ok: "version_ok ?v" "not_spilled ?v" using Suc.prems assms by (auto simp: chain_rep_def list_all_length)
  have tk: "take (Suc i) vs = take i vs @ [?v]" using Suc.prems by (simp add: take_Suc_conv_app_nth)
  have g: "garry_page_get buf (int i) ps = Some (entry_bytes ?v)"
    using chain_rep_get [OF assms(1), of i] Suc.prems by simp
  have "find_visible_loop pool buf ps snap active (Suc i) =
      (if seen snap active ?v
       then (pool, case ?v of Inline t d \<Rightarrow> Some d | _ \<Rightarrow> None)
       else find_visible_loop pool buf ps snap active i)"
    using length_entry_bytes [of ?v] ok(2) inline_payload ok(1)
    by (simp add: g read_entry_bytes [OF ok(1)] Let_def entry_visible_seen split: chain_version.split
        del: entry_bytes.simps version_ok.simps) (auto simp del: entry_bytes.simps version_ok.simps)
  with Suc ok(2) show ?case
    unfolding tk by (auto simp: visible_value_def latest_seen_snoc split: chain_version.split)
qed

lemma has_visible_loop_seen:
  assumes "chain_rep buf ps vs" "i \<le> length vs"
  shows "has_visible_loop buf ps snap active i =
    (case latest_seen snap active (take i vs) of None \<Rightarrow> False | Some (Tombstone t) \<Rightarrow> False | _ \<Rightarrow> True)"
  using assms(2)
proof (induction i)
  case (Suc i)
  let ?v = "vs ! i"
  have ok: "version_ok ?v" using Suc.prems assms by (auto simp: chain_rep_def list_all_length)
  have tk: "take (Suc i) vs = take i vs @ [?v]" using Suc.prems by (simp add: take_Suc_conv_app_nth)
  have g: "garry_page_get buf (int i) ps = Some (entry_bytes ?v)"
    using chain_rep_get [OF assms(1), of i] Suc.prems by simp
  have "has_visible_loop buf ps snap active (Suc i) =
      (if seen snap active ?v then (case ?v of Tombstone t \<Rightarrow> False | _ \<Rightarrow> True)
       else has_visible_loop buf ps snap active i)"
    using length_entry_bytes [of ?v]
    by (simp add: g read_entry_bytes [OF ok] Let_def entry_visible_seen split: chain_version.split
        del: entry_bytes.simps)
  with Suc show ?case
    unfolding tk by (auto simp: latest_seen_snoc split: chain_version.split)
qed simp

lemma find_visible_seen:
  assumes "chain_rep buf ps vs" "list_all not_spilled vs"
  shows "garry_chain_page_find_visible pool buf ps snap active = (pool, visible_value snap active vs)"
  using find_visible_loop_seen [OF assms(1) order_refl assms(2)]
  by (simp add: garry_chain_page_find_visible_def chain_rep_count [OF assms(1)])

lemma has_visible_seen:
  assumes "chain_rep buf ps vs"
  shows "garry_chain_page_has_visible buf ps snap active \<longleftrightarrow>
    (\<exists>v. latest_seen snap active vs = Some v \<and> (\<forall>t. v \<noteq> Tombstone t))"
  using has_visible_loop_seen [OF assms order_refl, of snap active]
  by (auto simp: garry_chain_page_has_visible_def chain_rep_count [OF assms]
      split: option.splits chain_version.splits)

lemma has_version_txn:
  assumes "chain_rep buf ps vs"
  shows "garry_chain_page_has_version buf ps txn \<longleftrightarrow> txn \<in> cv_txn ` set vs"
proof -
  have "garry_read_le32 (buf_of (entry_bytes v)) 0 = cv_txn v \<and> 4 \<le> length (entry_bytes v)"
    if "version_ok v" for v
    using read_entry_bytes [OF that] length_entry_bytes [of v] by (simp add: read_entry_def)
  then show ?thesis
    using assms unfolding garry_chain_page_has_version_def chain_rep_count [OF assms]
    by (force simp: list_ex_iff chain_rep_get [OF assms] in_set_conv_nth chain_rep_def list_all_length)
qed

subsection \<open>What pruning keeps\<close>

definition keep_old :: "int list \<Rightarrow> chain_version \<Rightarrow> bool" where
  "keep_old active v \<longleftrightarrow> (\<exists>snap \<in> set active. cv_txn v \<le> snap) \<and> cv_txn v \<notin> set active"

definition pruned :: "int list \<Rightarrow> chain_version list \<Rightarrow> chain_version list" where
  "pruned active vs = filter (keep_old active) (butlast vs) @ [last vs]"

lemma prune_keep_entry:
  assumes "version_ok v"
  shows "prune_keep active is_last (entry_bytes v) \<longleftrightarrow> is_last \<or> keep_old active v"
proof -
  have "garry_read_le32 (buf_of (entry_bytes v)) 0 = cv_txn v"
    "garry_read_le32 (buf_of (entry_bytes v)) 4 = 0"
    using read_entry_bytes [OF assms] by (simp_all add: read_entry_def)
  then show ?thesis
    using length_entry_bytes [of v] by (auto simp: prune_keep_def keep_old_def list_ex_iff Let_def)
qed

lemma prune_copy_rep:
  assumes "chain_rep buf ps vs" "set is \<subseteq> {..<length vs}" "chain_rep tmp ps acc"
    and "prune_copy buf ps keep is tmp = Some tmp'"
  shows "chain_rep tmp' ps (acc @ map ((!) vs) (filter (\<lambda>i. keep (int i)) is))"
  using assms(2-)
proof (induction "is" arbitrary: tmp acc)
  case (Cons i "is")
  show ?case
  proof (cases "keep (int i)")
    case False
    with Cons show ?thesis by simp
  next
    case True
    have i: "i < length vs" "version_ok (vs ! i)"
      using Cons.prems(1) assms(1) by (auto simp: chain_rep_def list_all_length)
    obtain t k where e: "garry_page_insert tmp (entry_bytes (vs ! i)) ps = (t, k)" by fastforce
    with True Cons.prems(3) i have "\<not> k < 0" "prune_copy buf ps keep is t = Some tmp'"
      by (auto simp: chain_rep_get [OF assms(1)] split: if_splits)
    moreover have "chain_rep t ps (acc @ [vs ! i])"
      using chain_insert [OF Cons.prems(2) i(2)] e \<open>\<not> k < 0\<close> by (auto split: if_splits)
    ultimately show ?thesis using Cons.IH [of t "acc @ [vs ! i]"] Cons.prems(1) True by simp
  qed
qed simp

lemma prune_free_none:
  assumes "chain_rep buf ps vs" "list_all not_spilled vs" "set is \<subseteq> {..<length vs}"
  shows "prune_free pool buf ps keep is = Some pool"
  using assms(3)
proof (induction "is")
  case (Cons i "is")
  have "version_ok (vs ! i)" "not_spilled (vs ! i)"
    using Cons.prems assms(1,2) by (auto simp: chain_rep_def list_all_length)
  then have "\<not> (uint (buf_of (entry_bytes (vs ! i)) 13) AND 1 \<noteq> 0)"
    using read_entry_bytes [of "vs ! i"]
    by (cases "vs ! i") (simp_all add: read_entry_def buf_of_def nth_append)
  with Cons show ?case
    by (auto simp: chain_rep_get [OF assms(1)] split: option.split)
qed simp

lemma filter_upt_last:
  assumes "vs \<noteq> []"
  shows "map ((!) vs) (filter (\<lambda>i. i = length vs - 1 \<or> P (vs ! i)) [0..<length vs]) =
    filter P (butlast vs) @ [last vs]"
proof -
  obtain us u where vs: "vs = us @ [u]" using assms by (cases vs rule: rev_cases) auto
  have "filter (\<lambda>i. i = length us \<or> P ((us @ [u]) ! i)) [0..<length us] =
      filter (\<lambda>i. P (us ! i)) [0..<length us]"
    by (intro filter_cong) (auto simp: nth_append)
  moreover have "map ((!) (us @ [u])) (filter (\<lambda>i. P (us ! i)) [0..<length us]) = filter P us"
  proof -
    have "map ((!) (us @ [u])) (filter (\<lambda>i. P (us ! i)) [0..<length us]) =
        map ((!) us) (filter (\<lambda>i. P (us ! i)) [0..<length us])"
      by (intro map_cong) (auto simp: nth_append)
    also have "\<dots> = filter P (map ((!) us) [0..<length us])"
      by (simp add: filter_map o_def)
    finally show ?thesis by (simp add: map_nth)
  qed
  ultimately show ?thesis by (simp add: vs)
qed

text \<open>The copy of the kept records always finds room, since all of them had room before.\<close>

lemma chain_room_append [simp]: "chain_room (vs @ ws) = chain_room vs + chain_room ws"
  by (simp add: chain_room_def)

lemma chain_room_Cons [simp]: "chain_room (v # vs) = int (length (entry_bytes v)) + 4 + chain_room vs"
  by (simp add: chain_room_def)

lemma chain_room_Nil [simp]: "chain_room [] = 0"
  by (simp add: chain_room_def)

lemma chain_room_nonneg: "0 \<le> chain_room vs"
  by (induction vs) (simp_all add: chain_room_def)

lemma chain_rep_bounds:
  assumes "chain_rep buf ps vs"
  shows "length vs \<le> 128" "chain_room vs \<le> ps - 32"
proof -
  have wf: "page_wf buf ps" "page_records buf = map entry_bytes vs" "page_free buf = ps - 32 - chain_room vs"
    using assms by (simp_all add: chain_rep_def)
  have "int (length (page_records buf)) \<le> 128" using length_page_records [OF wf(1)] page_wfD [OF wf(1)] by simp
  then show "length vs \<le> 128" by (simp add: wf(2))
  have "0 \<le> page_free buf" using page_wfD [OF wf(1)] by (simp add: page_free_def)
  then show "chain_room vs \<le> ps - 32" by (simp add: wf(3))
qed

lemma prune_copy_total:
  assumes "chain_rep buf ps vs" "set is \<subseteq> {..<length vs}" "chain_rep tmp ps acc"
    and "length acc + length is \<le> 128" "chain_room acc + chain_room (map ((!) vs) is) \<le> ps - 32"
  shows "prune_copy buf ps keep is tmp \<noteq> None"
  using assms(2-)
proof (induction "is" arbitrary: tmp acc)
  case (Cons i "is")
  show ?case
  proof (cases "keep (int i)")
    case False
    then show ?thesis using Cons.IH [OF _ Cons.prems(2)] Cons.prems(1,3,4) by simp
  next
    case True
    have i: "i < length vs" "version_ok (vs ! i)"
      using Cons.prems(1) assms(1) by (auto simp: chain_rep_def list_all_length)
    have c: "page_wf tmp ps" "page_records tmp = map entry_bytes acc" "page_free tmp = ps - 32 - chain_room acc"
      using Cons.prems(2) by (simp_all add: chain_rep_def)
    have "garry_read_int32 tmp 8 = int (length acc)" using length_page_records [OF c(1)] by (simp add: c(2))
    then have fits: "page_fits tmp (entry_bytes (vs ! i))"
      using Cons.prems(3,4) chain_room_nonneg [of "map ((!) vs) is"] by (simp add: page_fits_def c(3))
    obtain t k where e: "garry_page_insert tmp (entry_bytes (vs ! i)) ps = (t, k)" by fastforce
    have "\<not> k < 0" "chain_rep t ps (acc @ [vs ! i])"
      using chain_insert [OF Cons.prems(2) i(2)] e fits by auto
    moreover have "prune_copy buf ps keep is t \<noteq> None"
      using Cons.IH [of t "acc @ [vs ! i]"] Cons.prems(1,3,4) calculation(2) by simp
    ultimately show ?thesis using True e i(1) by (simp add: chain_rep_get [OF assms(1)])
  qed
qed simp

lemma pruned_single: "length vs \<le> 1 \<Longrightarrow> vs \<noteq> [] \<Longrightarrow> pruned active vs = vs"
  by (cases vs) (simp_all add: pruned_def)

text \<open>Pruning always returns, and leaves the page with the last version and those kept before it.\<close>

lemma prune_rep:
  assumes "chain_rep buf ps vs" "list_all not_spilled vs"
  obtains buf' where "garry_chain_page_prune pool buf ps active tmp = Some (pool, buf')"
    "chain_rep buf' ps (if vs = [] then [] else pruned active vs)"
proof (cases "length vs \<le> 1")
  case True
  then have "(if vs = [] then [] else pruned active vs) = vs" by (simp add: pruned_single)
  with True assms(1) show ?thesis
    by (intro that [of buf]) (simp_all add: garry_chain_page_prune_def chain_rep_count [OF assms(1)])
next
  case False
  let ?keep = "\<lambda>i. case garry_page_get buf i ps of None \<Rightarrow> True
     | Some r \<Rightarrow> prune_keep active (i = int (length vs) - 1) r"
  let ?is = "[0..<length vs]" and ?tmp = "garry_page_init tmp GARRY_NODE_CHAIN 0 ps"
  have wf: "512 \<le> ps" "ps \<le> 65536" using assms(1) page_wfD [of buf ps] by (auto simp: chain_rep_def)
  have init: "chain_rep ?tmp ps []"
    using chain_rep_init [OF wf, of tmp] by (simp add: garry_chain_page_init_def)
  have pf: "prune_free pool buf ps ?keep ?is = Some pool"
    by (rule prune_free_none [OF assms(1,2)]) auto
  obtain t where t: "prune_copy buf ps ?keep ?is ?tmp = Some t"
    using prune_copy_total [OF assms(1) _ init, of ?is ?keep] chain_rep_bounds [OF assms(1)]
    by (auto simp: map_nth lessThan_atLeast0)
  let ?b = "\<lambda>j. if 0 \<le> j \<and> j < ps then t j else buf j"
  have keep: "?keep (int i) \<longleftrightarrow> i = length vs - 1 \<or> keep_old active (vs ! i)" if "i < length vs" for i
  proof -
    have "version_ok (vs ! i)" using assms(1) that by (auto simp: chain_rep_def list_all_length)
    moreover have "int i = int (length vs) - 1 \<longleftrightarrow> i = length vs - 1" using that by linarith
    ultimately show ?thesis using that by (simp add: chain_rep_get [OF assms(1)] prune_keep_entry)
  qed
  have "chain_rep t ps ([] @ map ((!) vs) (filter (\<lambda>i. ?keep (int i)) ?is))"
    by (rule prune_copy_rep [OF assms(1) _ init t]) auto
  also have "filter (\<lambda>i. ?keep (int i)) ?is =
      filter (\<lambda>i. i = length vs - 1 \<or> keep_old active (vs ! i)) ?is"
    by (intro filter_cong) (auto simp: keep)
  also have "map ((!) vs) \<dots> = pruned active vs"
    unfolding pruned_def by (rule filter_upt_last) (use False in auto)
  finally have "chain_rep t ps (pruned active vs)" by simp
  then have "chain_rep ?b ps (pruned active vs)"
    using agree_page_wf [of t ps ?b] by (simp add: chain_rep_def agree_def)
  moreover have "length vs \<le> 128" by (rule chain_rep_bounds(1) [OF assms(1)])
  ultimately show ?thesis using False pf t
    by (intro that [of ?b])
      (auto simp: garry_chain_page_prune_def chain_rep_count [OF assms(1)] Let_def
        GARRY_MAX_VERSIONS_PER_PAGE_def)
qed

lemma pruned_not_spilled: "list_all not_spilled vs \<Longrightarrow> vs \<noteq> [] \<Longrightarrow> list_all not_spilled (pruned active vs)"
  by (auto simp: pruned_def list_all_iff dest: in_set_butlastD)

lemma find_rev_filter:
  assumes "\<And>x. x \<in> set xs \<Longrightarrow> p x \<Longrightarrow> q x"
  shows "List.find p (rev (filter q xs)) = List.find p (rev xs)"
  using assms
proof (induction xs rule: rev_induct)
  case (snoc x xs)
  then show ?case by (cases "p x") auto
qed simp

lemma pruned_latest_seen:
  assumes "vs \<noteq> []"
    and "\<And>v. v \<in> set (butlast vs) \<Longrightarrow> seen s active v \<Longrightarrow> seen s active (last vs) \<or> keep_old active v"
  shows "latest_seen s active (pruned active vs) = latest_seen s active vs"
proof -
  have "vs = butlast vs @ [last vs]" using assms(1) by simp
  then have e: "latest_seen s active vs =
      (if seen s active (last vs) then Some (last vs) else latest_seen s active (butlast vs))"
    by (metis latest_seen_snoc)
  show ?thesis
  proof (cases "seen s active (last vs)")
    case True
    with e show ?thesis by (simp add: pruned_def latest_seen_snoc)
  next
    case False
    then have "latest_seen s active (filter (keep_old active) (butlast vs)) = latest_seen s active (butlast vs)"
      using assms(2) unfolding latest_seen_def by (intro find_rev_filter) blast
    with e False show ?thesis by (simp add: pruned_def latest_seen_snoc)
  qed
qed

subsection \<open>The contract of a version log\<close>

text \<open>What the transactions rely on: writes append, a full log refuses, and a snapshot reads the
  newest write it may see.\<close>

definition may_see :: "int \<Rightarrow> int list \<Rightarrow> int \<Rightarrow> bool" where
  "may_see snap active t \<longleftrightarrow> t \<le> snap \<and> (t \<in> set active \<longrightarrow> t = snap)"

locale version_log =
  fixes rep :: "'c \<Rightarrow> (int \<times> 'v option) list \<Rightarrow> bool"
    and fits :: "int \<Rightarrow> 'v option \<Rightarrow> bool"
    and append_v :: "'c \<Rightarrow> int \<Rightarrow> 'v option \<Rightarrow> 'c \<times> bool"
    and read_v :: "'c \<Rightarrow> int \<Rightarrow> int list \<Rightarrow> 'v option"
  assumes append_rep: "rep c vs \<Longrightarrow> fits t v \<Longrightarrow> append_v c t v = (c', True) \<Longrightarrow> rep c' (vs @ [(t, v)])"
    and append_refused: "rep c vs \<Longrightarrow> fits t v \<Longrightarrow> append_v c t v = (c', False) \<Longrightarrow> c' = c"
    and read_rep: "rep c vs \<Longrightarrow> read_v c s active =
      (case List.find (\<lambda>(t, v). may_see s active t) (rev vs) of None \<Rightarrow> None | Some (t, v) \<Rightarrow> v)"
begin

lemma read_after_append:
  assumes "rep c vs" "fits t v" "append_v c t v = (c', ok)"
  shows "read_v c' s active = (if ok \<and> may_see s active t then v else read_v c s active)"
  using assms append_rep [of c vs t v c'] append_refused [of c vs t v c']
  by (cases ok) (auto simp: read_rep [of c vs] read_rep [of c' "vs @ [(t, v)]"])

lemma read_own_write: "rep c vs \<Longrightarrow> fits t v \<Longrightarrow> append_v c t v = (c', True) \<Longrightarrow> read_v c' t active = v"
  by (simp add: read_after_append may_see_def)

lemma read_hides_active:
  "rep c vs \<Longrightarrow> fits t v \<Longrightarrow> append_v c t v = (c', ok) \<Longrightarrow> t \<in> set active \<Longrightarrow> s \<noteq> t \<Longrightarrow>
     read_v c' s active = read_v c s active"
  by (simp add: read_after_append may_see_def)

lemma read_hides_later:
  "rep c vs \<Longrightarrow> fits t v \<Longrightarrow> append_v c t v = (c', ok) \<Longrightarrow> s < t \<Longrightarrow>
     read_v c' s active = read_v c s active"
  by (simp add: read_after_append may_see_def)

lemma read_committed:
  "rep c vs \<Longrightarrow> fits t v \<Longrightarrow> append_v c t v = (c', True) \<Longrightarrow> t \<le> s \<Longrightarrow> t \<notin> set active \<Longrightarrow>
     read_v c' s active = v"
  by (simp add: read_after_append may_see_def)

end

fun cv_pair :: "chain_version \<Rightarrow> int \<times> byte list option" where
  "cv_pair (Inline t v) = (t, Some v)"
| "cv_pair (Tombstone t) = (t, None)"
| "cv_pair (Spilled t n h) = (t, None)"

definition page_log :: "int \<Rightarrow> buffer \<Rightarrow> (int \<times> byte list option) list \<Rightarrow> bool" where
  "page_log ps buf xs \<longleftrightarrow>
     (\<exists>vs. chain_rep buf ps vs \<and> list_all not_spilled vs \<and> xs = map cv_pair vs)"

definition log_fits :: "int \<Rightarrow> int \<Rightarrow> byte list option \<Rightarrow> bool" where
  "log_fits ps t v \<longleftrightarrow>
     i32 t \<and> (case v of None \<Rightarrow> True | Some d \<Rightarrow> int (length d) \<le> garry_chain_inline_capacity ps \<and> 14 + length d \<le> 16384)"

definition log_append :: "int \<Rightarrow> buffer \<Rightarrow> int \<Rightarrow> byte list option \<Rightarrow> buffer \<times> bool" where
  "log_append ps buf t v =
     (case v of None \<Rightarrow> garry_chain_page_append_tombstone buf ps t
      | Some d \<Rightarrow> garry_chain_page_append buf ps t d)"

lemma cv_pair_txn: "fst (cv_pair v) = cv_txn v"
  by (cases v) simp_all

lemma visible_value_pairs:
  "list_all not_spilled vs \<Longrightarrow> visible_value s active vs =
     (case List.find (\<lambda>(t, v). may_see s active t) (rev (map cv_pair vs)) of
        None \<Rightarrow> None | Some (t, v) \<Rightarrow> v)"
proof (induction vs rule: rev_induct)
  case (snoc v vs)
  have "seen s active v \<longleftrightarrow> may_see s active (cv_txn v)" by (simp add: seen_def may_see_def)
  with snoc show ?case by (cases v) (simp_all add: visible_value_def latest_seen_snoc)
qed (simp add: visible_value_def)

interpretation chain_log: version_log "page_log ps" "log_fits ps" "log_append ps"
  "\<lambda>buf s active. snd (garry_chain_page_find_visible pool buf ps s active)" for ps pool
proof (unfold_locales, goal_cases)
  case (1 c xs t v c')
  then obtain vs where vs: "chain_rep c ps vs" "list_all not_spilled vs" "xs = map cv_pair vs"
    by (auto simp: page_log_def)
  show ?case
  proof (cases v)
    case None
    with 1 append_tombstone [OF vs(1), of t]
    have "chain_rep c' ps (vs @ [Tombstone t])" by (auto simp: log_append_def log_fits_def split: if_splits)
    with vs None show ?thesis unfolding page_log_def by (intro exI [of _ "vs @ [Tombstone t]"]) simp
  next
    case (Some d)
    with 1 append_inline [OF vs(1), of t d]
    have "chain_rep c' ps (vs @ [Inline t d])" by (auto simp: log_append_def log_fits_def split: if_splits)
    with vs Some show ?thesis unfolding page_log_def by (intro exI [of _ "vs @ [Inline t d]"]) simp
  qed
next
  case (2 c xs t v c')
  then obtain vs where vs: "chain_rep c ps vs" by (auto simp: page_log_def)
  from 2 append_tombstone [OF vs, of t] append_inline [OF vs, of t "the v"] show ?case
    by (cases v) (auto simp: log_append_def log_fits_def split: if_splits)
next
  case (3 c xs s active)
  then show ?case by (auto simp: page_log_def find_visible_seen visible_value_pairs)
qed

text \<open>What a snapshot reads from a log, and the log of an equal page.\<close>

definition read_log :: "int \<Rightarrow> int list \<Rightarrow> (int \<times> byte list option) list \<Rightarrow> byte list option" where
  "read_log s active xs =
     (case List.find (\<lambda>(t, v). may_see s active t) (rev xs) of None \<Rightarrow> None | Some (t, v) \<Rightarrow> v)"

lemma read_log_snoc:
  "read_log s active (xs @ [(t, v)]) = (if may_see s active t then v else read_log s active xs)"
  by (simp add: read_log_def)

lemma find_visible_log:
  assumes "page_log ps buf xs"
  shows "garry_chain_page_find_visible pool buf ps s active = (pool, read_log s active xs)"
  using assms by (auto simp: page_log_def read_log_def find_visible_seen visible_value_pairs)

lemma find_in_set: "List.find P xs = Some x \<Longrightarrow> x \<in> set xs"
  by (auto simp: find_Some_iff)

lemma has_visible_log:
  assumes "page_log ps buf xs"
  shows "garry_chain_page_has_visible buf ps s active \<longleftrightarrow> read_log s active xs \<noteq> None"
proof -
  obtain vs where vs: "chain_rep buf ps vs" "list_all not_spilled vs" "xs = map cv_pair vs"
    using assms by (auto simp: page_log_def)
  have "not_spilled v" if "latest_seen s active vs = Some v" for v
    using that vs(2) by (auto simp: latest_seen_def list_all_iff dest: find_in_set)
  then have "garry_chain_page_has_visible buf ps s active \<longleftrightarrow> visible_value s active vs \<noteq> None"
    by (auto simp: has_visible_seen [OF vs(1)] visible_value_def split: option.splits chain_version.splits)
  with vs(2,3) show ?thesis by (simp add: read_log_def visible_value_pairs)
qed

lemma page_log_agree: "page_log ps b xs \<Longrightarrow> agree 0 ps b b' \<Longrightarrow> page_log ps b' xs"
  unfolding page_log_def chain_rep_def using agree_page_wf by metis

text \<open>When a write succeeds: the page has 128 slots, and a record takes its bytes and a slot of 4.\<close>

definition log_room :: "int \<Rightarrow> (int \<times> byte list option) list \<Rightarrow> byte list option \<Rightarrow> bool" where
  "log_room ps xs v \<longleftrightarrow>
     length xs < 128 \<and>
     (\<Sum>x \<leftarrow> xs @ [(0, v)]. 18 + (case snd x of None \<Rightarrow> 0 | Some d \<Rightarrow> int (length d))) \<le> ps - 32"

lemma chain_room_log:
  "list_all not_spilled vs \<Longrightarrow>
     chain_room vs = (\<Sum>x \<leftarrow> map cv_pair vs. 18 + (case snd x of None \<Rightarrow> 0 | Some d \<Rightarrow> int (length d)))"
proof (induction vs)
  case (Cons v vs)
  then show ?case by (cases v) (simp_all add: chain_room_def)
qed (simp add: chain_room_def)

lemma log_append_succeeds:
  assumes "page_log ps b xs" "log_fits ps t v" "log_append ps b t v = (b', ok)"
  shows "ok \<longleftrightarrow> log_room ps xs v"
proof -
  obtain vs where vs: "chain_rep b ps vs" "list_all not_spilled vs" "xs = map cv_pair vs"
    using assms(1) by (auto simp: page_log_def)
  let ?new = "case v of None \<Rightarrow> Tombstone t | Some d \<Rightarrow> Inline t d"
  have "ok \<longleftrightarrow> page_fits b (entry_bytes ?new)"
    using assms(2,3) append_tombstone [OF vs(1), of t] append_inline [OF vs(1), of t "the v"]
    by (auto simp: log_append_def log_fits_def split: option.splits)
  moreover have "garry_read_int32 b 8 = int (length xs)"
    using chain_rep_count [OF vs(1)] vs(3) by (simp add: garry_page_record_count_def)
  moreover have "page_free b = ps - 32 - chain_room vs" using vs(1) by (simp add: chain_rep_def)
  ultimately show ?thesis
    unfolding chain_room_log [OF vs(2)] page_fits_def log_room_def vs(3) [symmetric] by (auto split: option.splits)
qed

lemma log_append_rep:
  assumes "page_log ps b xs" "log_fits ps t v" "log_append ps b t v = (b', ok)"
  shows "if ok then page_log ps b' (xs @ [(t, v)]) else b' = b"
  using chain_log.append_rep [OF assms(1,2)] chain_log.append_refused [OF assms(1,2)] assms(3) by simp

subsection \<open>Properties\<close>

text \<open>C28. What a snapshot reads after a write: on a chain page whose values are stored in the page, a
  value or tombstone written by transaction \<open>t\<close> is what the snapshot \<open>s\<close> reads exactly if the
  page had room, \<open>t\<close> is not after \<open>s\<close>, and \<open>t\<close> is \<open>s\<close> itself or no longer active; otherwise
  the snapshot reads what it read before. So a transaction reads its own writes, and the writes
  of others appear only once they have ended.\<close>

theorem mvcc_read_after_write:
  assumes "page_log ps buf vs" "log_fits ps t v" "log_append ps buf t v = (buf', ok)"
  shows "snd (garry_chain_page_find_visible pool buf' ps s active) =
    (if ok \<and> t \<le> s \<and> (t \<in> set active \<longrightarrow> t = s) then v
     else snd (garry_chain_page_find_visible pool buf ps s active))"
  using chain_log.read_after_append [OF assms] by (simp add: may_see_def)

definition demo_chain :: buffer where
  "demo_chain = garry_chain_page_init (\<lambda>_. 0) 512"

lemma demo_chain_log: "page_log 512 demo_chain []"
  unfolding page_log_def demo_chain_def by (intro exI [of _ "[]"]) (simp add: chain_rep_init)

theorem mvcc_read_after_write_witness:
  "snd (garry_chain_page_find_visible demo_pool
     (fst (garry_chain_page_append demo_chain 512 3 [65, 66])) 512 5 [4]) = Some [65, 66]"
proof -
  obtain b ok where e: "log_append 512 demo_chain 3 (Some [65, 66]) = (b, ok)" by fastforce
  have "snd (log_append 512 demo_chain 3 (Some [65, 66]))" by code_simp
  with e have ok by simp
  with mvcc_read_after_write [OF demo_chain_log _ e, of demo_pool 5 "[4]"] e show ?thesis
    by (simp add: log_fits_def i32_def garry_chain_inline_capacity_def log_append_def)
qed

text \<open>Existence agrees with reading: for versions stored in the page, a key exists for a snapshot
  exactly if reading it returns a value.\<close>

theorem has_visible_iff_find_visible:
  assumes "chain_rep buf ps vs" "list_all not_spilled vs"
  shows "garry_chain_page_has_visible buf ps s active \<longleftrightarrow>
    snd (garry_chain_page_find_visible pool buf ps s active) \<noteq> None"
proof -
  have log: "page_log ps buf (map cv_pair vs)" using assms by (auto simp: page_log_def)
  show ?thesis by (simp add: find_visible_log [OF log] has_visible_log [OF log])
qed

theorem has_visible_iff_find_visible_witness:
  "\<not> garry_chain_page_has_visible demo_chain 512 5 [4]"
proof -
  have "chain_rep demo_chain 512 []" by (simp add: demo_chain_def chain_rep_init)
  from has_visible_iff_find_visible [OF this, of 5 "[4]" demo_pool] show ?thesis
    by (simp add: find_visible_seen [OF \<open>chain_rep demo_chain 512 []\<close>] visible_value_def)
qed

text \<open>C29. Pruning preserves reads: on a page whose values are stored in it, pruning with the list of
  active transactions returns and leaves a well-formed chain page, with the newest version and, in
  their order, the older ones that an active transaction other than their writers may need. Two kinds of readers read from it what they read before: an
  active transaction that did not write one of the older versions itself, and, when the newest
  version is committed, every snapshot that is not older than its transaction.\<close>

theorem prune_preserves_reads:
  assumes "chain_rep buf ps vs" "list_all not_spilled vs"
    and "s \<in> set active \<and> s \<notin> cv_txn ` set (butlast vs) \<or>
      vs \<noteq> [] \<and> cv_txn (last vs) \<le> s \<and> cv_txn (last vs) \<notin> set active"
  shows "\<exists>buf' vs'. garry_chain_page_prune pool buf ps active tmp = Some (pool, buf') \<and>
    chain_rep buf' ps vs' \<and> vs' = (if vs = [] then [] else pruned active vs) \<and> list_all not_spilled vs' \<and>
    snd (garry_chain_page_find_visible pool buf' ps s active) =
      snd (garry_chain_page_find_visible pool buf ps s active)"
proof -
  let ?vs' = "if vs = [] then [] else pruned active vs"
  from prune_rep [OF assms(1,2)] obtain buf' where
    b: "garry_chain_page_prune pool buf ps active tmp = Some (pool, buf')" "chain_rep buf' ps ?vs'" .
  have ns: "list_all not_spilled ?vs'" using pruned_not_spilled [OF assms(2)] by simp
  have "latest_seen s active ?vs' = latest_seen s active vs"
    using assms(3) pruned_latest_seen by (auto simp: keep_old_def seen_def)
  then have "snd (garry_chain_page_find_visible pool buf' ps s active) =
      snd (garry_chain_page_find_visible pool buf ps s active)"
    by (simp only: find_visible_seen [OF b(2) ns] find_visible_seen [OF assms(1,2)] visible_value_def snd_conv)
  with b ns show ?thesis by blast
qed

definition two_versions :: buffer where
  "two_versions = fst (garry_chain_page_append
     (fst (garry_chain_page_append demo_chain 512 3 [65])) 512 4 [66])"

lemma two_versions_rep: "chain_rep two_versions 512 [Inline 3 [65], Inline 4 [66]]"
proof -
  have c: "chain_rep demo_chain 512 []" by (simp add: demo_chain_def chain_rep_init)
  let ?a = "garry_chain_page_append demo_chain 512 3 [65]"
  have "snd ?a" by code_simp
  then have a: "chain_rep (fst ?a) 512 [Inline 3 [65]]"
    using append_inline [OF c, of 3 "[65]"]
    by (auto simp: i32_def garry_chain_inline_capacity_def case_prod_unfold)
  let ?b = "garry_chain_page_append (fst ?a) 512 4 [66]"
  have "snd ?b" by code_simp
  then show ?thesis
    using append_inline [OF a, of 4 "[66]"]
    by (auto simp: i32_def garry_chain_inline_capacity_def case_prod_unfold two_versions_def)
qed

theorem prune_preserves_reads_witness:
  "\<exists>buf'. garry_chain_page_prune demo_pool two_versions 512 [6] (\<lambda>_. 0) = Some (demo_pool, buf') \<and>
    snd (garry_chain_page_find_visible demo_pool buf' 512 6 [6]) = Some [66]"
  using prune_preserves_reads [OF two_versions_rep, of 6 "[6]" demo_pool "\<lambda>_. 0"]
  by (auto simp: find_visible_seen [OF two_versions_rep] visible_value_def latest_seen_def seen_def)

text \<open>C33. Pruning can lose a committed value. Let the transaction that wrote the newest version still
  be active, and let every active transaction be older than the writers of the versions before it:
  the newest version was overtaken by the commits of younger transactions. Then whatever a reader
  that is not active before reads from the page, after pruning it reads nothing, although the value
  it read was not overwritten by a committed transaction.\<close>

theorem prune_loses_committed_value:
  assumes "chain_rep buf ps (vs @ [x])" "list_all not_spilled (vs @ [x])"
    and "cv_txn x \<in> set active" "\<forall>v \<in> set vs. \<forall>a \<in> set active. a < cv_txn v" "s \<notin> set active"
  shows "snd (garry_chain_page_find_visible pool buf ps s (active @ [s])) = visible_value s (active @ [s]) vs \<and>
    (\<exists>buf'. garry_chain_page_prune pool buf ps active tmp = Some (pool, buf') \<and> chain_rep buf' ps [x] \<and>
      snd (garry_chain_page_find_visible pool buf' ps s (active @ [s])) = None)"
proof -
  have ns: "\<not> seen s (active @ [s]) x" using assms(3,5) by (auto simp: seen_def)
  have "\<not> keep_old active v" if "v \<in> set vs" for v
    using assms(4) that by (auto simp: keep_old_def linorder_not_le)
  then have pr: "(if vs @ [x] = [] then [] else pruned active (vs @ [x])) = [x]"
    by (simp add: pruned_def filter_empty_conv)
  from prune_rep [OF assms(1,2), of pool active tmp, unfolded pr] obtain buf' where
    b: "garry_chain_page_prune pool buf ps active tmp = Some (pool, buf')" "chain_rep buf' ps [x]" .
  moreover have "list_all not_spilled [x]" using assms(2) by simp
  ultimately show ?thesis
    using ns by (simp add: find_visible_seen [OF assms(1,2)] find_visible_seen [OF b(2)] visible_value_def
        latest_seen_snoc latest_seen_def)
qed

text \<open>Transaction 7 commits a value while transaction 5, which writes last, is active.\<close>

definition overtaken_chain :: buffer where
  "overtaken_chain = fst (garry_chain_page_append
     (fst (garry_chain_page_append demo_chain 512 7 [65])) 512 5 [66])"

lemma overtaken_chain_rep: "chain_rep overtaken_chain 512 ([Inline 7 [65]] @ [Inline 5 [66]])"
proof -
  have c: "chain_rep demo_chain 512 []" by (simp add: demo_chain_def chain_rep_init)
  let ?a = "garry_chain_page_append demo_chain 512 7 [65]"
  have "snd ?a" by code_simp
  then have a: "chain_rep (fst ?a) 512 [Inline 7 [65]]"
    using append_inline [OF c, of 7 "[65]"]
    by (auto simp: i32_def garry_chain_inline_capacity_def case_prod_unfold)
  let ?b = "garry_chain_page_append (fst ?a) 512 5 [66]"
  have "snd ?b" by code_simp
  then show ?thesis
    using append_inline [OF a, of 5 "[66]"]
    by (auto simp: i32_def garry_chain_inline_capacity_def case_prod_unfold overtaken_chain_def)
qed

theorem prune_loses_committed_value_witness:
  "snd (garry_chain_page_find_visible demo_pool overtaken_chain 512 8 [5, 8]) = Some [65] \<and>
   (\<exists>buf'. garry_chain_page_prune demo_pool overtaken_chain 512 [5] (\<lambda>_. 0) = Some (demo_pool, buf') \<and>
      snd (garry_chain_page_find_visible demo_pool buf' 512 8 [5, 8]) = None)"
  using prune_loses_committed_value [OF overtaken_chain_rep, of "[5]" 8 demo_pool "\<lambda>_. 0"]
  by (auto simp: visible_value_def latest_seen_def seen_def)

end
