(* ===== verification/Garry_Wal.thy ===== *)
theory Garry_Wal
  imports Garry_Header Garry_VersionChain
begin

text \<open>
  The write-ahead log: \<open>src/src/wal_record.h\<close>, \<open>src/src/wal_record.c\<close>, \<open>src/src/wal_log.c\<close>, the
  stream operations of \<open>src/platform_src/posix/file_io.c\<close> that it uses, and the first pass of
  \<open>garry_wal_recover\<close> (\<open>src/src/wal_recovery.c\<close>), which collects the committed transactions.

  The log is a file of records of 792 bytes. \<open>journal\<close> is its contract: what was appended is what
  a scan from the start delivers. The lemmas show that a scan of a well-formed log, torn tail or
  not, finds the appended records in order, and the properties that the commits it collects are
  the logged ones, until records are appended behind a torn one. Memory allocation succeeds; the
  append mutex has no effect on one thread. The code copies integers in the byte order of the machine and reads them as little-endian; the
  model is of a little-endian machine.
\<close>

subsection \<open>Streams\<close>

text \<open>The operations of \<open>file_io.c\<close> on a file position. A write is cut off where the room of the
  device ends, and fails when nothing can be written; \<open>st_synced\<close> is what the last sync made
  durable.\<close>

record garry_stream =
  st_data :: "byte list"
  st_pos :: nat
  st_room :: nat
  st_is_open :: bool
  st_synced :: "byte list"

definition garry_file_open :: "byte list \<Rightarrow> nat \<Rightarrow> bool \<Rightarrow> garry_stream" where
  "garry_file_open data room ok =
     \<lparr>st_data = data, st_pos = 0, st_room = room, st_is_open = ok, st_synced = data\<rparr>"

definition zero_extend :: "nat \<Rightarrow> byte list \<Rightarrow> byte list" where
  "zero_extend n bs = bs @ replicate (n - length bs) 0"

definition garry_file_read :: "garry_stream \<Rightarrow> nat \<Rightarrow> garry_stream \<times> byte list" where
  "garry_file_read fd count =
     (let bs = take count (drop (st_pos fd) (st_data fd))
      in (fd\<lparr>st_pos := st_pos fd + length bs\<rparr>, bs))"

definition garry_file_write_bytes :: "garry_stream \<Rightarrow> byte list \<Rightarrow> garry_stream \<times> int" where
  "garry_file_write_bytes fd buf =
     (let n = min (length buf) (st_room fd - st_pos fd);
          data = zero_extend (st_pos fd) (st_data fd)
      in if n = 0 \<and> buf \<noteq> [] then (fd, -1)
         else (fd\<lparr>st_data := take (st_pos fd) data @ take n buf @ drop (st_pos fd + n) data,
                  st_pos := st_pos fd + n\<rparr>, int n))"

definition garry_file_seek :: "garry_stream \<Rightarrow> int \<Rightarrow> int \<Rightarrow> garry_stream \<times> int" where
  "garry_file_seek fd offset whence =
     (let r = (if whence = 0 then offset
               else if whence = 1 then int (st_pos fd) + offset
               else int (length (st_data fd)) + offset)
      in if r < 0 then (fd, -1) else (fd\<lparr>st_pos := nat r\<rparr>, r))"

definition garry_file_sync :: "garry_stream \<Rightarrow> garry_stream" where
  "garry_file_sync fd = fd\<lparr>st_synced := st_data fd\<rparr>"

definition garry_file_close :: "garry_stream \<Rightarrow> garry_stream" where
  "garry_file_close fd = fd\<lparr>st_is_open := False\<rparr>"

definition garry_file_truncate :: "garry_stream \<Rightarrow> nat \<Rightarrow> garry_stream" where
  "garry_file_truncate fd len = fd\<lparr>st_data := take len (zero_extend len (st_data fd))\<rparr>"

subsection \<open>wal\_record.h, wal\_record.c\<close>

datatype garry_wal_record_kind =
    GARRY_WAL_UPDATE
  | GARRY_WAL_COMMIT
  | GARRY_WAL_ABORT
  | GARRY_WAL_CHECKPOINT
  | GARRY_WAL_DELETE

fun wal_kind_code :: "garry_wal_record_kind \<Rightarrow> int" where
  "wal_kind_code GARRY_WAL_UPDATE = 0"
| "wal_kind_code GARRY_WAL_COMMIT = 1"
| "wal_kind_code GARRY_WAL_ABORT = 2"
| "wal_kind_code GARRY_WAL_CHECKPOINT = 3"
| "wal_kind_code GARRY_WAL_DELETE = 4"

record garry_wal_record =
  wr_kind :: garry_wal_record_kind
  wr_txid :: int
  wr_key :: buffer
  wr_key_len :: int
  wr_value_len :: int
  wr_old_data :: buffer
  wr_new_data :: buffer
  wr_new_is_overflow :: bool
  wr_new_overflow_head :: int

text \<open>\<open>malloc\<close>, \<open>memset\<close> and the assignments of the kind and the transaction.\<close>

definition empty_record :: "garry_wal_record_kind \<Rightarrow> int \<Rightarrow> garry_wal_record" where
  "empty_record kind txn =
     \<lparr>wr_kind = kind, wr_txid = txn, wr_key = (\<lambda>_. 0), wr_key_len = 0, wr_value_len = 0,
      wr_old_data = (\<lambda>_. 0), wr_new_data = (\<lambda>_. 0), wr_new_is_overflow = False,
      wr_new_overflow_head = 0\<rparr>"

text \<open>The key is copied without a check; a key of more than 256 bytes overruns the record.\<close>

definition garry_make_update_record ::
  "garry_buffer_pool \<Rightarrow> int \<Rightarrow> byte list \<Rightarrow> byte list \<Rightarrow> garry_buffer_pool \<times> garry_wal_record option" where
  "garry_make_update_record pool txn key new_val =
     (let rec = empty_record GARRY_WAL_UPDATE txn;
          rec = rec\<lparr>wr_key := put_bytes (wr_key rec) 0 key, wr_key_len := int (length key),
                    wr_value_len := int (length new_val)\<rparr>
      in if length new_val > 0
         then
           (if length new_val \<le> 256
            then (pool, Some (rec\<lparr>wr_new_data := put_bytes (wr_new_data rec) 0 new_val\<rparr>))
            else
              (case garry_overflow_write pool new_val of
                 (pool, head) \<Rightarrow>
                   if head < 0 then (pool, None)
                   else (pool, Some (rec\<lparr>wr_new_is_overflow := True, wr_new_overflow_head := head\<rparr>))))
         else (pool, Some rec))"

definition garry_make_delete_record :: "int \<Rightarrow> byte list \<Rightarrow> garry_wal_record" where
  "garry_make_delete_record txn key =
     (let rec = empty_record GARRY_WAL_DELETE txn
      in rec\<lparr>wr_key := put_bytes (wr_key rec) 0 key, wr_key_len := int (length key), wr_value_len := 0\<rparr>)"

definition garry_make_commit_record :: "int \<Rightarrow> garry_wal_record" where
  "garry_make_commit_record txn = empty_record GARRY_WAL_COMMIT txn"

definition garry_make_abort_record :: "int \<Rightarrow> garry_wal_record" where
  "garry_make_abort_record txn = empty_record GARRY_WAL_ABORT txn"

definition garry_make_checkpoint_record :: "int \<Rightarrow> garry_wal_record" where
  "garry_make_checkpoint_record txn = empty_record GARRY_WAL_CHECKPOINT txn"

subsection \<open>wal\_log.c\<close>

record garry_wal_log =
  wl_fd :: garry_stream
  wl_last_lsn :: int

text \<open>\<open>fd\<close> is what opening the log file gives; the two paths are \<open>None\<close> for null pointers and are
  only stored.\<close>

definition garry_wal_log_init ::
  "garry_wal_log \<Rightarrow> garry_stream \<Rightarrow> string option \<Rightarrow> string option \<Rightarrow> garry_wal_log \<times> garry_status" where
  "garry_wal_log_init wal fd log_path checkpoint_path =
     (if log_path = None \<or> checkpoint_path = None then (wal, GARRY_ERR_INVALID_ARG)
      else if \<not> st_is_open fd then (wal, GARRY_ERR_IO)
      else (wal\<lparr>wl_fd := fd, wl_last_lsn := 0\<rparr>, GARRY_OK))"

definition wal_image :: "garry_wal_record \<Rightarrow> buffer" where
  "wal_image rec =
     (let buf = (\<lambda>_. 0);
          buf = put_bytes buf 0 (le32_bytes (wal_kind_code (wr_kind rec)));
          buf = put_bytes buf 4 (le32_bytes (wr_txid rec));
          buf = put_bytes buf 8 (le32_bytes (wr_key_len rec));
          buf = put_bytes buf 12 (le32_bytes (wr_value_len rec));
          buf = put_bytes buf 16 (read_bytes (wr_key rec) 0 256);
          buf = put_bytes buf 272 (read_bytes (wr_old_data rec) 0 256);
          buf = put_bytes buf 528 (read_bytes (wr_new_data rec) 0 256);
          buf = put_bytes buf 784 (le32_bytes (if wr_new_is_overflow rec then 1 else 0))
      in put_bytes buf 788 (le32_bytes (wr_new_overflow_head rec)))"

definition wal_write_record :: "garry_wal_log \<Rightarrow> garry_wal_record \<Rightarrow> garry_wal_log \<times> bool" where
  "wal_write_record wal rec =
     (case garry_file_write_bytes (wl_fd wal) (read_bytes (wal_image rec) 0 792) of
        (fd, n) \<Rightarrow> (wal\<lparr>wl_fd := fd\<rparr>, n = 792))"

definition garry_wal_log_append :: "garry_wal_log \<Rightarrow> garry_wal_record \<Rightarrow> garry_wal_log \<times> int" where
  "garry_wal_log_append wal rec =
     (if \<not> st_is_open (wl_fd wal) then (wal, -1)
      else
        (let lsn = wl_last_lsn wal + 1
         in case wal_write_record wal rec of
              (wal, ok) \<Rightarrow> if \<not> ok then (wal, -1) else (wal\<lparr>wl_last_lsn := lsn\<rparr>, lsn)))"

definition garry_wal_log_flush :: "garry_wal_log \<Rightarrow> garry_wal_log" where
  "garry_wal_log_flush wal =
     (if \<not> st_is_open (wl_fd wal) then wal else wal\<lparr>wl_fd := garry_file_sync (wl_fd wal)\<rparr>)"

definition garry_wal_log_close :: "garry_wal_log \<Rightarrow> garry_wal_log" where
  "garry_wal_log_close wal =
     (if \<not> st_is_open (wl_fd wal) then wal
      else wal\<lparr>wl_fd := garry_file_close (garry_file_sync (wl_fd wal))\<rparr>)"

subsection \<open>wal\_recovery.c, the first pass\<close>

text \<open>The loop that collects the transactions with a commit record and moves \<open>next_txid\<close> past them.
  Growing the array of identifiers succeeds.\<close>

function collect_committed :: "garry_stream \<Rightarrow> int list \<Rightarrow> int \<Rightarrow> garry_stream \<times> int list \<times> int" where
  "collect_committed fd committed next_txid =
     (case garry_file_read fd 792 of
        (fd', rec) \<Rightarrow>
          if length rec < 792 then (fd', committed, next_txid)
          else
            (let kind = garry_read_int32 (buf_of rec) 0;
                 txid = garry_read_int32 (buf_of rec) 4
             in if kind = 1
                then collect_committed fd' (committed @ [txid])
                       (if txid + 1 > next_txid then txid + 1 else next_txid)
                else collect_committed fd' committed next_txid))"
  by pat_completeness auto
termination
  by (relation "measure (\<lambda>(fd, _). length (st_data fd) - st_pos fd)")
    (auto simp: garry_file_read_def Let_def)

declare collect_committed.simps [simp del]

subsection \<open>The bytes of a record\<close>

definition wal_bytes :: "garry_wal_record \<Rightarrow> byte list" where
  "wal_bytes rec =
     le32_bytes (wal_kind_code (wr_kind rec)) @ le32_bytes (wr_txid rec) @
     le32_bytes (wr_key_len rec) @ le32_bytes (wr_value_len rec) @
     read_bytes (wr_key rec) 0 256 @ read_bytes (wr_old_data rec) 0 256 @
     read_bytes (wr_new_data rec) 0 256 @
     le32_bytes (if wr_new_is_overflow rec then 1 else 0) @ le32_bytes (wr_new_overflow_head rec)"

definition record_ok :: "garry_wal_record \<Rightarrow> bool" where
  "record_ok rec \<longleftrightarrow> i32 (wr_txid rec) \<and> i32 (wr_key_len rec) \<and> i32 (wr_value_len rec) \<and>
     i32 (wr_new_overflow_head rec)"

lemma length_wal_bytes [simp]: "length (wal_bytes rec) = 792"
  by (simp add: wal_bytes_def)

lemma wal_image_bytes: "wal_image rec = put_bytes (\<lambda>_. 0) 0 (wal_bytes rec)"
  by (simp add: wal_image_def wal_bytes_def Let_def put_bytes_append)

lemma wal_image_read: "read_bytes (wal_image rec) 0 792 = wal_bytes rec"
  by (simp add: wal_image_bytes read_put_same)

lemma kind_code_i32 [simp]: "i32 (wal_kind_code k)"
  by (cases k) (simp_all add: i32_def)

lemma wal_bytes_fields:
  assumes "record_ok rec"
  shows "garry_read_int32 (buf_of (wal_bytes rec)) 0 = wal_kind_code (wr_kind rec)"
    "garry_read_int32 (buf_of (wal_bytes rec)) 4 = wr_txid rec"
    "garry_read_int32 (buf_of (wal_bytes rec)) 8 = wr_key_len rec"
    "garry_read_int32 (buf_of (wal_bytes rec)) 12 = wr_value_len rec"
    "read_bytes (buf_of (wal_bytes rec)) 16 256 = read_bytes (wr_key rec) 0 256"
    "read_bytes (buf_of (wal_bytes rec)) 528 256 = read_bytes (wr_new_data rec) 0 256"
    "garry_read_int32 (buf_of (wal_bytes rec)) 784 = (if wr_new_is_overflow rec then 1 else 0)"
    "garry_read_int32 (buf_of (wal_bytes rec)) 788 = wr_new_overflow_head rec"
proof -
  have "holds (buf_of (wal_bytes rec)) 0 (wal_bytes rec)" by (rule holds_buf_of)
  then have h: "holds (buf_of (wal_bytes rec)) 0 (le32_bytes (wal_kind_code (wr_kind rec)))"
    "holds (buf_of (wal_bytes rec)) 4 (le32_bytes (wr_txid rec))"
    "holds (buf_of (wal_bytes rec)) 8 (le32_bytes (wr_key_len rec))"
    "holds (buf_of (wal_bytes rec)) 12 (le32_bytes (wr_value_len rec))"
    "holds (buf_of (wal_bytes rec)) 16 (read_bytes (wr_key rec) 0 256)"
    "holds (buf_of (wal_bytes rec)) 528 (read_bytes (wr_new_data rec) 0 256)"
    "holds (buf_of (wal_bytes rec)) 784 (le32_bytes (if wr_new_is_overflow rec then 1 else 0))"
    "holds (buf_of (wal_bytes rec)) 788 (le32_bytes (wr_new_overflow_head rec))"
    unfolding wal_bytes_def by (simp_all del: holds_Cons)
  have "i32 (if wr_new_is_overflow rec then 1 else 0)" by (simp add: i32_def)
  note r = read_le32_holds [OF h(1)] read_le32_holds [OF h(2)] read_le32_holds [OF h(3)]
    read_le32_holds [OF h(4)] read_le32_holds [OF h(7) this] read_le32_holds [OF h(8)]
  show "garry_read_int32 (buf_of (wal_bytes rec)) 0 = wal_kind_code (wr_kind rec)"
    "garry_read_int32 (buf_of (wal_bytes rec)) 4 = wr_txid rec"
    "garry_read_int32 (buf_of (wal_bytes rec)) 8 = wr_key_len rec"
    "garry_read_int32 (buf_of (wal_bytes rec)) 12 = wr_value_len rec"
    "garry_read_int32 (buf_of (wal_bytes rec)) 784 = (if wr_new_is_overflow rec then 1 else 0)"
    "garry_read_int32 (buf_of (wal_bytes rec)) 788 = wr_new_overflow_head rec"
    using r assms by (simp_all add: garry_read_int32_def record_ok_def)
  show "read_bytes (buf_of (wal_bytes rec)) 16 256 = read_bytes (wr_key rec) 0 256"
    "read_bytes (buf_of (wal_bytes rec)) 528 256 = read_bytes (wr_new_data rec) 0 256"
    using h(5,6) by (auto intro: holds_read)
qed

subsection \<open>Scanning the log\<close>

text \<open>The whole records of a file, and what the first pass takes from them.\<close>

function chunks :: "byte list \<Rightarrow> byte list list" where
  "chunks d = (if length d < 792 then [] else take 792 d # chunks (drop 792 d))"
  by pat_completeness auto
termination
  by (relation "measure length") auto

declare chunks.simps [simp del]

definition commit_ids :: "byte list list \<Rightarrow> int list" where
  "commit_ids cs = map (\<lambda>r. garry_read_int32 (buf_of r) 4)
     (filter (\<lambda>r. garry_read_int32 (buf_of r) 0 = 1) cs)"

definition bump_txid :: "int \<Rightarrow> int \<Rightarrow> int" where
  "bump_txid n t = (if t + 1 > n then t + 1 else n)"

lemma chunks_short: "length d < 792 \<Longrightarrow> chunks d = []"
  by (simp add: chunks.simps)

lemma chunks_append: "length r = 792 \<Longrightarrow> chunks (r @ d) = r # chunks d"
  by (simp add: chunks.simps [of "r @ d"])

lemma chunks_concat:
  "\<forall>r \<in> set rs. length r = 792 \<Longrightarrow> length torn < 792 \<Longrightarrow> chunks (concat rs @ torn) = rs"
  by (induction rs) (simp_all add: chunks_short chunks_append)

lemma commit_ids_simps [simp]:
  "commit_ids [] = []"
  "commit_ids (r # rs) = (if garry_read_int32 (buf_of r) 0 = 1
     then garry_read_int32 (buf_of r) 4 # commit_ids rs else commit_ids rs)"
  by (simp_all add: commit_ids_def)

lemma collect_chunks:
  assumes "st_pos fd \<le> length (st_data fd)"
  shows "collect_committed fd c n =
    (fd\<lparr>st_pos := length (st_data fd)\<rparr>,
     c @ commit_ids (chunks (drop (st_pos fd) (st_data fd))),
     foldl bump_txid n (commit_ids (chunks (drop (st_pos fd) (st_data fd)))))"
  using assms
proof (induction fd c n rule: collect_committed.induct)
  case (1 fd c n)
  let ?d = "drop (st_pos fd) (st_data fd)"
  let ?r = "take 792 ?d"
  let ?fd = "fd\<lparr>st_pos := st_pos fd + length ?r\<rparr>"
  have read: "garry_file_read fd 792 = (?fd, ?r)" by (simp add: garry_file_read_def)
  show ?case
  proof (cases "length ?r < 792")
    case True
    then have "length ?d < 792" "st_pos fd + length ?r = length (st_data fd)"
      using "1.prems" by auto
    with True read show ?thesis by (simp add: collect_committed.simps [of fd] chunks_short)
  next
    case False
    then have c: "chunks ?d = ?r # chunks (drop 792 ?d)"
      by (simp add: chunks.simps [of ?d])
    have p: "st_pos ?fd \<le> length (st_data ?fd)" "drop (st_pos ?fd) (st_data ?fd) = drop 792 ?d"
      using False "1.prems" by (auto simp: add.commute min_def split: if_splits)
    show ?thesis
    proof (cases "garry_read_int32 (buf_of ?r) 0 = 1")
      case True
      from "1.IH"(1) [OF read [symmetric] False refl refl True] p
      show ?thesis
        unfolding collect_committed.simps [of fd] read c using False True
        by (simp add: bump_txid_def Let_def)
    next
      case f: False
      from "1.IH"(2) [OF read [symmetric] False refl refl f] p
      show ?thesis
        unfolding collect_committed.simps [of fd] read c using False f
        by (simp add: Let_def)
    qed
  qed
qed

lemma bump_txid_ge: "n \<le> foldl bump_txid n ts"
proof (induction ts arbitrary: n)
  case (Cons t ts)
  from Cons.IH [of "bump_txid n t"] show ?case by (simp add: bump_txid_def split: if_splits)
qed simp

lemma bump_txid_greater: "t \<in> set ts \<Longrightarrow> t < foldl bump_txid n ts"
proof (induction ts arbitrary: n)
  case (Cons u ts)
  have "u < bump_txid n u" by (simp add: bump_txid_def)
  with bump_txid_ge [of "bump_txid n u" ts] Cons show ?case by auto
qed simp

subsection \<open>The log as a journal\<close>

text \<open>Appending until the first failure; the number counts the acknowledged records.\<close>

fun append_all :: "('s \<Rightarrow> 'r \<Rightarrow> 's \<times> int) \<Rightarrow> 's \<Rightarrow> 'r list \<Rightarrow> 's \<times> nat" where
  "append_all app s [] = (s, 0)"
| "append_all app s (r # rs) =
     (case app s r of
        (s', lsn) \<Rightarrow>
          if lsn < 0 then (s', 0)
          else (case append_all app s' rs of (s'', n) \<Rightarrow> (s'', Suc n)))"

locale journal =
  fixes rep :: "'s \<Rightarrow> 'r list \<Rightarrow> bool"
    and ok :: "'r \<Rightarrow> bool"
    and app :: "'s \<Rightarrow> 'r \<Rightarrow> 's \<times> int"
    and scan :: "'s \<Rightarrow> 'v list"
    and view :: "'r \<Rightarrow> 'v"
  assumes append_ok: "rep s rs \<Longrightarrow> ok r \<Longrightarrow> app s r = (s', lsn) \<Longrightarrow> 0 \<le> lsn \<Longrightarrow> rep s' (rs @ [r])"
    and append_failed: "rep s rs \<Longrightarrow> ok r \<Longrightarrow> app s r = (s', lsn) \<Longrightarrow> lsn < 0 \<Longrightarrow>
      scan s' = map view rs"
    and scan_rep: "rep s rs \<Longrightarrow> scan s = map view rs"
begin

lemma scan_append_all:
  "rep s rs \<Longrightarrow> list_all ok recs \<Longrightarrow> append_all app s recs = (s', n) \<Longrightarrow>
     scan s' = map view (rs @ take n recs)"
proof (induction recs arbitrary: s rs n)
  case Nil
  then show ?case by (simp add: scan_rep)
next
  case (Cons r recs)
  obtain s1 lsn where a: "app s r = (s1, lsn)" by fastforce
  show ?case
  proof (cases "lsn < 0")
    case True
    with Cons.prems(2,3) a append_failed [OF Cons.prems(1) _ a True] show ?thesis by simp
  next
    case False
    then obtain m where m: "append_all app s1 recs = (s', m)" "n = Suc m"
      using Cons.prems(3) a by (auto split: prod.splits)
    from False Cons.prems(1,2) a have "rep s1 (rs @ [r])" by (simp add: append_ok)
    from Cons.IH [OF this _ m(1)] Cons.prems(2) m(2) show ?thesis by simp
  qed
qed

end

definition wal_rep :: "garry_wal_log \<Rightarrow> garry_wal_record list \<Rightarrow> bool" where
  "wal_rep wal rs \<longleftrightarrow> st_is_open (wl_fd wal) \<and> st_data (wl_fd wal) = concat (map wal_bytes rs) \<and>
     st_pos (wl_fd wal) = length (st_data (wl_fd wal)) \<and> 0 \<le> wl_last_lsn wal"

definition wal_scan :: "garry_wal_log \<Rightarrow> byte list list" where
  "wal_scan wal = chunks (st_data (wl_fd wal))"

lemma write_at_end:
  "st_pos fd = length (st_data fd) \<Longrightarrow> bs \<noteq> [] \<Longrightarrow>
     garry_file_write_bytes fd bs =
       (if st_room fd \<le> st_pos fd then (fd, -1)
        else (let n = min (length bs) (st_room fd - st_pos fd)
              in (fd\<lparr>st_data := st_data fd @ take n bs, st_pos := st_pos fd + n\<rparr>, int n)))"
  by (auto simp: garry_file_write_bytes_def zero_extend_def Let_def min_def)

lemma wal_bytes_not_Nil [simp]: "wal_bytes rec \<noteq> []"
  using length_wal_bytes [of rec] by (metis list.size(3) zero_neq_numeral)

lemma append_at_end:
  assumes "wal_rep wal rs" "garry_wal_log_append wal rec = (wal', lsn)"
  shows "if 0 \<le> lsn then wal_rep wal' (rs @ [rec]) \<and> lsn = wl_last_lsn wal + 1
    else \<exists>torn. length torn < 792 \<and> st_data (wl_fd wal') = concat (map wal_bytes rs) @ torn"
proof -
  let ?fd = "wl_fd wal" and ?bs = "wal_bytes rec"
  have e: "st_pos ?fd = length (st_data ?fd)" using assms(1) by (simp add: wal_rep_def)
  have app: "garry_wal_log_append wal rec =
      (case garry_file_write_bytes ?fd ?bs of
         (fd, n) \<Rightarrow> if n \<noteq> 792 then (wal\<lparr>wl_fd := fd\<rparr>, -1)
                   else (wal\<lparr>wl_fd := fd, wl_last_lsn := wl_last_lsn wal + 1\<rparr>, wl_last_lsn wal + 1))"
    using assms(1)
    by (simp add: garry_wal_log_append_def wal_write_record_def wal_image_read wal_rep_def case_prod_unfold Let_def)
  define k where "k = min 792 (st_room ?fd - st_pos ?fd)"
  then have w: "garry_file_write_bytes ?fd ?bs =
      (if st_room ?fd \<le> st_pos ?fd then (?fd, -1)
       else (?fd\<lparr>st_data := st_data ?fd @ take k ?bs, st_pos := st_pos ?fd + k\<rparr>, int k))"
    by (simp add: write_at_end [OF e wal_bytes_not_Nil] Let_def)
  have "k \<le> 792" by (simp add: k_def)
  consider (full) "st_room ?fd \<le> st_pos ?fd"
    | (cut) "st_pos ?fd < st_room ?fd" "k < 792"
    | (fits) "st_pos ?fd < st_room ?fd" "k = 792" using \<open>k \<le> 792\<close> by linarith
  then show ?thesis
  proof cases
    case full
    then have "wal' = wal" "lsn = -1"
      using assms(2) unfolding app w by simp_all
    with assms(1) show ?thesis by (auto simp: wal_rep_def intro: exI [of _ "[]"])
  next
    case cut
    then have "st_data (wl_fd wal') = st_data ?fd @ take k ?bs" "lsn = -1"
      using assms(2) unfolding app w by auto
    with assms(1) cut(2) show ?thesis by (auto simp: wal_rep_def intro!: exI [of _ "take k ?bs"])
  next
    case fits
    then have "wal' = wal\<lparr>wl_fd := ?fd\<lparr>st_data := st_data ?fd @ ?bs, st_pos := st_pos ?fd + 792\<rparr>,
        wl_last_lsn := wl_last_lsn wal + 1\<rparr>" "lsn = wl_last_lsn wal + 1"
      using assms(2) unfolding app w by auto
    with assms(1) show ?thesis by (simp add: wal_rep_def)
  qed
qed

lemma chunks_wal: "length torn < 792 \<Longrightarrow> chunks (concat (map wal_bytes rs) @ torn) = map wal_bytes rs"
  by (rule chunks_concat) auto

interpretation wal_journal: journal wal_rep "\<lambda>_. True" garry_wal_log_append wal_scan wal_bytes
proof (unfold_locales, goal_cases)
  case (1 s rs r s' lsn)
  with append_at_end [OF 1(1,3)] show ?case by simp
next
  case (2 s rs r s' lsn)
  with append_at_end [OF 2(1,3)] show ?case by (auto simp: wal_scan_def chunks_wal)
next
  case (3 s rs)
  then show ?case using chunks_wal [of "[]" rs] by (simp add: wal_scan_def wal_rep_def)
qed

subsection \<open>Properties\<close>

definition committed_in :: "garry_wal_record list \<Rightarrow> int list" where
  "committed_in rs = map wr_txid (filter (\<lambda>r. wr_kind r = GARRY_WAL_COMMIT) rs)"

lemma kind_code_commit: "wal_kind_code k = 1 \<longleftrightarrow> k = GARRY_WAL_COMMIT"
  by (cases k) simp_all

lemma commit_ids_wal: "list_all record_ok rs \<Longrightarrow> commit_ids (map wal_bytes rs) = committed_in rs"
  by (induction rs) (simp_all add: committed_in_def wal_bytes_fields kind_code_commit)

lemma flush_data: "wal_scan (garry_wal_log_flush wal) = wal_scan wal"
  by (simp add: wal_scan_def garry_wal_log_flush_def garry_file_sync_def)

text \<open>Recovery finds exactly the acknowledged commits: records are appended to a well-formed log
  until the first append fails, for instance because the device is full and a record is torn,
  and the log is flushed. If the machine then stops and the file is opened again, the first pass
  of the recovery collects the transactions whose commit record was acknowledged, in order, and
  no other; and the next transaction identifier lies past all of them.\<close>

theorem recovery_finds_acknowledged_commits:
  assumes "wal_rep wal rs" "list_all record_ok (rs @ recs)"
    and "append_all garry_wal_log_append wal recs = (wal', n)" "st_is_open (wl_fd wal')"
    and "reopened = garry_file_open (st_synced (wl_fd (garry_wal_log_flush wal'))) room True"
    and "collect_committed reopened [] next_txid = (fd, committed, next_txid')"
  shows "committed = committed_in (rs @ take n recs) \<and> next_txid \<le> next_txid' \<and>
    (\<forall>t \<in> set committed. t < next_txid')"
proof -
  have scan: "chunks (st_data (wl_fd wal')) = map wal_bytes (rs @ take n recs)"
    using wal_journal.scan_append_all [OF assms(1) _ assms(3)] by (simp add: wal_scan_def list_all_iff)
  have r: "st_data reopened = st_data (wl_fd wal')" "st_pos reopened = 0"
    using assms(4,5) by (simp_all add: garry_file_open_def garry_wal_log_flush_def garry_file_sync_def)
  have "list_all record_ok (rs @ take n recs)"
    using assms(2) by (auto simp: list_all_iff dest: in_set_takeD)
  from commit_ids_wal [OF this] collect_chunks [of reopened "[]" next_txid] assms(6)
  have "committed = committed_in (rs @ take n recs)"
    "next_txid' = foldl bump_txid next_txid committed"
    unfolding r by (simp_all add: scan)
  then show ?thesis by (simp add: bump_txid_ge bump_txid_greater)
qed

definition demo_wal :: garry_wal_log where
  "demo_wal = \<lparr>wl_fd = garry_file_open [] 1000 True, wl_last_lsn = 0\<rparr>"

theorem recovery_finds_acknowledged_commits_witness:
  "\<exists>wal' fd committed next_txid.
     append_all garry_wal_log_append demo_wal [garry_make_commit_record 4, garry_make_commit_record 5] = (wal', 1) \<and>
     collect_committed (garry_file_open (st_synced (wl_fd (garry_wal_log_flush wal'))) 1000 True) [] 1 =
       (fd, committed, next_txid) \<and> committed = [4] \<and> 4 < next_txid"
proof -
  let ?recs = "[garry_make_commit_record 4, garry_make_commit_record 5]"
  obtain wal' n where a: "append_all garry_wal_log_append demo_wal ?recs = (wal', n)" by fastforce
  obtain fd c m where r: "collect_committed
      (garry_file_open (st_synced (wl_fd (garry_wal_log_flush wal'))) 1000 True) [] 1 = (fd, c, m)"
    using prod_cases3 by blast
  have "st_is_open (wl_fd (fst (append_all garry_wal_log_append demo_wal ?recs))) \<and>
      snd (append_all garry_wal_log_append demo_wal ?recs) = 1"
    by (simp add: garry_wal_log_append_def wal_write_record_def wal_image_read demo_wal_def
        garry_file_open_def write_at_end)
  with a have w: "st_is_open (wl_fd wal')" "n = 1" by simp_all
  have "wal_rep demo_wal []" by (simp add: wal_rep_def demo_wal_def garry_file_open_def)
  from recovery_finds_acknowledged_commits [OF this _ a w(1) refl r]
  have "c = committed_in (take n ?recs)" "\<forall>t \<in> set c. t < m"
    by (simp_all add: record_ok_def garry_make_commit_record_def empty_record_def i32_def)
  then have "c = [4] \<and> 4 < m"
    using w(2) by (simp add: committed_in_def garry_make_commit_record_def empty_record_def)
  with a r w(2) show ?thesis by blast
qed

text \<open>An update with a value of at most 256 bytes survives the log: the fields the recovery reads
  from the bytes of the record are the kind, the transaction, the key and the value.\<close>

theorem update_record_roundtrip:
  assumes "garry_make_update_record pool txn key value = (pool', Some rec)"
    and "length key \<le> 256" "length value \<le> 256" "i32 txn"
    and "img = buf_of (read_bytes (wal_image rec) 0 792)"
  shows "pool' = pool \<and> garry_read_int32 img 0 = 0 \<and> garry_read_int32 img 4 = txn \<and>
    read_bytes img 16 (garry_read_int32 img 8) = key \<and>
    garry_read_int32 img 784 = 0 \<and> read_bytes img 528 (garry_read_int32 img 12) = value"
proof -
  have rec: "wr_kind rec = GARRY_WAL_UPDATE" "wr_txid rec = txn" "wr_key_len rec = int (length key)"
    "wr_value_len rec = int (length value)" "wr_key rec = put_bytes (\<lambda>_. 0) 0 key"
    "wr_new_data rec = put_bytes (\<lambda>_. 0) 0 value" "\<not> wr_new_is_overflow rec" "pool' = pool"
    "wr_new_overflow_head rec = 0"
    using assms(1,3) by (auto simp: garry_make_update_record_def empty_record_def Let_def split: if_splits)
  have ok: "record_ok rec" using assms(2-4) by (simp add: record_ok_def rec) (simp add: i32_def)
  have part: "read_bytes b p (int (length d)) = d"
    if "read_bytes b p 256 = read_bytes (put_bytes (\<lambda>_. 0) 0 d) 0 256" "length d \<le> 256" for b p d
  proof (rule nth_equalityI)
    fix j assume j: "j < length (read_bytes b p (int (length d)))"
    then have "b (p + int j) = read_bytes b p 256 ! j" using that(2) by simp
    also have "\<dots> = d ! j" unfolding that(1) using j that(2) by (simp add: put_bytes_apply)
    finally show "read_bytes b p (int (length d)) ! j = d ! j" using j by simp
  qed simp
  show ?thesis
    using wal_bytes_fields [OF ok] assms(2,3) by (simp add: assms(5) wal_image_read rec part)
qed

theorem update_record_roundtrip_witness:
  "\<exists>rec. garry_make_update_record demo_pool 7 [65] [66, 67] = (demo_pool, Some rec) \<and>
     read_bytes (buf_of (read_bytes (wal_image rec) 0 792)) 528
       (garry_read_int32 (buf_of (read_bytes (wal_image rec) 0 792)) 12) = [66, 67]"
proof -
  obtain rec where r: "garry_make_update_record demo_pool 7 [65] [66, 67] = (demo_pool, Some rec)"
    by (simp add: garry_make_update_record_def Let_def)
  from update_record_roundtrip [OF r _ _ _ refl] r show ?thesis by (simp add: i32_def)
qed

text \<open>Records appended behind a torn one. A reader in steps of whole records sees them shifted: what it
  takes for a kind is the integer that lies as far before the end of the record as the torn bytes
  are long.\<close>

definition shifted_kind :: "nat \<Rightarrow> garry_wal_record \<Rightarrow> int" where
  "shifted_kind n rec = garry_read_int32 (buf_of (wal_bytes rec)) (792 - int n)"

lemma read_buf_append:
  assumes "4 \<le> length a"
  shows "garry_read_int32 (buf_of (a @ b)) 0 = garry_read_int32 (buf_of a) 0"
  unfolding garry_read_int32_def
  by (rule read_le32_cong) (use assms in \<open>auto simp: buf_of_def nth_append\<close>)

lemma read_buf_drop:
  "garry_read_int32 (buf_of (drop k bs)) 0 = garry_read_int32 (buf_of bs) (int k)"
proof -
  have "buf_of (drop k bs) i = buf_of bs (int k + i)" if "0 \<le> i" for i
    using that by (auto simp: buf_of_def nat_add_distrib)
  then show ?thesis by (simp add: garry_read_int32_def garry_read_le32_def)
qed

lemma shifted_commits_hidden:
  assumes "length a = n" "4 \<le> n" "n < 792" "garry_read_int32 (buf_of a) 0 \<noteq> 1"
    and "\<forall>rec \<in> set recs. shifted_kind n rec \<noteq> 1"
  shows "commit_ids (chunks (a @ concat (map wal_bytes recs))) = []"
  using assms(1,4,5)
proof (induction recs arbitrary: a)
  case Nil
  then show ?case using assms(3) by (simp add: chunks_short)
next
  case (Cons rec recs)
  let ?c = "a @ take (792 - n) (wal_bytes rec)" and ?a = "drop (792 - n) (wal_bytes rec)"
  let ?rest = "concat (map wal_bytes recs)"
  have split: "a @ concat (map wal_bytes (rec # recs)) = ?c @ ?a @ ?rest" by simp
  have "garry_read_int32 (buf_of ?c) 0 \<noteq> 1" using Cons.prems(1,2) assms(2) by (simp add: read_buf_append)
  moreover have "garry_read_int32 (buf_of ?a) 0 \<noteq> 1"
    using Cons.prems(3) assms(3) by (simp add: read_buf_drop shifted_kind_def of_nat_diff)
  then have "commit_ids (chunks (?a @ ?rest)) = []"
    using Cons.IH [of ?a] Cons.prems(3) assms(3) by simp
  moreover have "length ?c = 792" using Cons.prems(1) assms(3) by simp
  ultimately show ?case unfolding split chunks_append [OF \<open>length ?c = 792\<close>] by simp
qed

lemma torn_kind:
  assumes "record_ok r" "4 \<le> n"
  shows "garry_read_int32 (buf_of (take n (wal_bytes r))) 0 = wal_kind_code (wr_kind r)"
proof -
  have "4 \<le> length (take n (wal_bytes r))" using assms(2) by simp
  from read_buf_append [OF this, of "drop n (wal_bytes r)"] show ?thesis
    by (simp add: wal_bytes_fields(1) [OF assms(1)])
qed

lemma commit_shifted_kind:
  assumes "4 \<le> n" "n \<le> 784"
  shows "shifted_kind n (garry_make_commit_record t) = 0"
proof -
  let ?r = "garry_make_commit_record t"
  have z: "set (drop 8 (wal_bytes ?r)) \<subseteq> {0}"
    by (auto simp: wal_bytes_def garry_make_commit_record_def empty_record_def le32_bytes_zero read_bytes_def)
  have "wal_bytes ?r ! i = 0" if "8 \<le> i" "i < 792" for i
  proof -
    have "wal_bytes ?r ! i = drop 8 (wal_bytes ?r) ! (i - 8)" using that by simp
    also have "\<dots> \<in> set (drop 8 (wal_bytes ?r))" using that by (intro nth_mem) simp
    finally show ?thesis using z by auto
  qed
  then have "garry_read_int32 (buf_of (wal_bytes ?r)) (792 - int n) = garry_read_int32 (\<lambda>_. 0) (792 - int n)"
    unfolding garry_read_int32_def
    by (intro read_le32_cong) (use assms in \<open>auto simp: buf_of_def\<close>)
  then show ?thesis by (simp add: shifted_kind_def garry_read_int32_def garry_read_le32_def)
qed

lemma append_all_room:
  assumes "st_is_open (wl_fd wal)" "st_pos (wl_fd wal) = length (st_data (wl_fd wal))" "0 \<le> wl_last_lsn wal"
    and "length (st_data (wl_fd wal)) + 792 * length recs \<le> st_room (wl_fd wal)"
  shows "\<exists>wal'. append_all garry_wal_log_append wal recs = (wal', length recs) \<and>
    st_data (wl_fd wal') = st_data (wl_fd wal) @ concat (map wal_bytes recs)"
  using assms
proof (induction recs arbitrary: wal)
  case (Cons rec recs)
  let ?fd = "wl_fd wal"
  let ?wal = "wal\<lparr>wl_fd := ?fd\<lparr>st_data := st_data ?fd @ wal_bytes rec, st_pos := st_pos ?fd + 792\<rparr>,
    wl_last_lsn := wl_last_lsn wal + 1\<rparr>"
  have "garry_file_write_bytes ?fd (wal_bytes rec) =
      (?fd\<lparr>st_data := st_data ?fd @ wal_bytes rec, st_pos := st_pos ?fd + 792\<rparr>, 792)"
    using Cons.prems(2,4) by (simp add: write_at_end Let_def min_def)
  then have "garry_wal_log_append wal rec = (?wal, wl_last_lsn wal + 1)"
    using Cons.prems(1) by (simp add: garry_wal_log_append_def wal_write_record_def wal_image_read Let_def)
  moreover obtain wal' where "append_all garry_wal_log_append ?wal recs = (wal', length recs)"
    "st_data (wl_fd wal') = st_data (wl_fd ?wal) @ concat (map wal_bytes recs)"
    using Cons.IH [of ?wal] Cons.prems by auto
  ultimately show ?case using Cons.prems(3) by simp
qed simp

text \<open>C38. A torn record hides the commits after it. The log holds whole records and then the first
  part of a record, cut off after at least 4 of its 792 bytes, of a kind other than commit. The first
  pass of recovery collects the commits of the whole records, and leaves the position behind the
  torn bytes. Then any records are appended, and all are acknowledged: commits, and other records of
  which no integer is 1 where a shifted reader looks for the kind. After a further restart the first
  pass collects the same commits as before, and none of the later ones.\<close>

theorem torn_record_hides_later_commits:
  assumes "list_all record_ok (rs @ [r])" "wr_kind r \<noteq> GARRY_WAL_COMMIT" "4 \<le> n" "n \<le> 784"
    and "data = concat (map wal_bytes rs) @ take n (wal_bytes r)"
    and "length data + 792 * length recs \<le> room"
    and "\<forall>rec \<in> set recs. (\<exists>t. rec = garry_make_commit_record t) \<or> shifted_kind n rec \<noteq> 1"
    and "collect_committed (garry_file_open data room True) [] next_txid = (fd, committed, next_txid')"
    and "append_all garry_wal_log_append \<lparr>wl_fd = fd, wl_last_lsn = 0\<rparr> recs = (wal', acknowledged)"
  shows "committed = committed_in rs \<and> acknowledged = length recs \<and>
    fst (snd (collect_committed (garry_file_open (st_data (wl_fd wal')) room' True) [] next_txid')) = committed_in rs"
proof -
  let ?a = "take n (wal_bytes r)"
  have ok: "list_all record_ok rs" "record_ok r" using assms(1) by simp_all
  have whole: "chunks (concat (map wal_bytes rs) @ d) = map wal_bytes rs @ chunks d" for d
    by (induction rs) (simp_all add: chunks_append)
  have ids: "commit_ids (chunks (concat (map wal_bytes rs) @ d)) = committed_in rs @ commit_ids (chunks d)" for d
    using commit_ids_wal [OF ok(1)] by (simp add: whole commit_ids_def)
  have k: "garry_read_int32 (buf_of ?a) 0 \<noteq> 1"
    using torn_kind [OF ok(2) assms(3)] assms(2) by (simp add: kind_code_commit)
  have sh: "\<forall>rec \<in> set recs. shifted_kind n rec \<noteq> 1"
    using assms(7) commit_shifted_kind [OF assms(3,4)] by fastforce
  have hid: "commit_ids (chunks (?a @ concat (map wal_bytes recs))) = []"
    by (rule shifted_commits_hidden [OF _ assms(3) _ k sh]) (use assms(4) in simp_all)
  have first: "fd = (garry_file_open data room True)\<lparr>st_pos := length data\<rparr>" "committed = committed_in rs"
    using collect_chunks [of "garry_file_open data room True" "[]" next_txid] assms(4,8) ids [of ?a]
    by (simp_all add: garry_file_open_def assms(5) chunks_short)
  have "append_all garry_wal_log_append \<lparr>wl_fd = fd, wl_last_lsn = 0\<rparr> recs = (wal', length recs) \<and>
      st_data (wl_fd wal') = data @ concat (map wal_bytes recs)"
    using append_all_room [of "\<lparr>wl_fd = fd, wl_last_lsn = 0\<rparr>" recs] assms(6,9)
    by (auto simp: first(1) garry_file_open_def)
  moreover have "commit_ids (chunks (data @ concat (map wal_bytes recs))) = committed_in rs"
    using ids [of "?a @ concat (map wal_bytes recs)"] hid by (simp add: assms(5))
  ultimately show ?thesis using first(2) assms(9)
    by (simp add: collect_chunks garry_file_open_def)
qed

text \<open>An update is torn after 100 bytes; two transactions commit after the restart.\<close>

theorem torn_record_hides_later_commits_witness:
  "\<exists>rec data fd next_txid wal'. garry_make_update_record demo_pool 5 [107] [1] = (demo_pool, Some rec) \<and>
    data = wal_bytes (garry_make_commit_record 4) @ take 100 (wal_bytes rec) \<and>
    collect_committed (garry_file_open data 10000 True) [] 1 = (fd, [4], next_txid) \<and>
    append_all garry_wal_log_append \<lparr>wl_fd = fd, wl_last_lsn = 0\<rparr>
      [garry_make_commit_record 6, garry_make_commit_record 7] = (wal', 2) \<and>
    fst (snd (collect_committed (garry_file_open (st_data (wl_fd wal')) 10000 True) [] next_txid)) = [4]"
proof -
  let ?c = "garry_make_commit_record 4" and ?recs = "[garry_make_commit_record 6, garry_make_commit_record 7]"
  obtain rec where r: "garry_make_update_record demo_pool 5 [107] [1] = (demo_pool, Some rec)"
    "record_ok rec" "wr_kind rec \<noteq> GARRY_WAL_COMMIT"
    by (simp add: garry_make_update_record_def Let_def empty_record_def record_ok_def i32_def)
  define data where "data = concat (map wal_bytes [?c]) @ take 100 (wal_bytes rec)"
  obtain fd c m where f: "collect_committed (garry_file_open data 10000 True) [] 1 = (fd, c, m)"
    using prod_cases3 by blast
  obtain wal' k where w: "append_all garry_wal_log_append \<lparr>wl_fd = fd, wl_last_lsn = 0\<rparr> ?recs = (wal', k)"
    by fastforce
  have ok: "list_all record_ok ([?c] @ [rec])"
    using r(2) by (simp add: record_ok_def garry_make_commit_record_def empty_record_def i32_def)
  have "length data + 792 * length ?recs \<le> 10000" by (simp add: data_def)
  moreover have "\<forall>rec \<in> set ?recs. (\<exists>t. rec = garry_make_commit_record t) \<or> shifted_kind 100 rec \<noteq> 1"
    by (metis empty_iff list.set(1) set_ConsD)
  moreover have "4 \<le> (100 :: nat)" "(100 :: nat) \<le> 784" by simp_all
  ultimately have "c = committed_in [?c]" "k = length ?recs"
    "fst (snd (collect_committed (garry_file_open (st_data (wl_fd wal')) 10000 True) [] m)) = committed_in [?c]"
    using torn_record_hides_later_commits [OF ok r(3) _ _ data_def _ _ f w] by blast+
  moreover have "committed_in [?c] = [4]" by (simp add: committed_in_def garry_make_commit_record_def empty_record_def)
  ultimately show ?thesis using r(1) f w data_def by auto
qed

end
