(* ===== verification/Garry_Transaction.thy ===== *)
theory Garry_Transaction
  imports Garry_LockTable Garry_Wal
begin

text \<open>
  Transactions: the engine handle and the MVCC operations of \<open>src/src/transaction.h\<close> and
  \<open>src/src/transaction.c\<close>, and \<open>src/src/storage_txn.c\<close>.

  The two parallel arrays \<open>active_txns\<close> and \<open>txn_states\<close> with \<open>active_count\<close> are two lists, and
  \<open>modified_pages\<close> with \<open>modified_count\<close> is a list. The handle is never null. A mutex has no effect
  on one thread. \<open>txn_inv\<close> is the invariant of the transaction table, kept by every step of
  \<open>txn_step\<close>; the refinement lemmas show what the operations do to the version log of a key, the
  abstract view of its chain page.
\<close>

subsection \<open>transaction.h\<close>

datatype garry_txn_state = GARRY_TXN_ACTIVE | GARRY_TXN_COMMITTED | GARRY_TXN_ROLLED_BACK

record garry_txn_info =
  ti_txid :: int
  ti_state :: garry_txn_state
  ti_modified_pages :: "int list"

record garry_engine_handle =
  eng_page_size :: int
  eng_compression :: int
  eng_btree_root :: int
  eng_pool :: garry_buffer_pool
  eng_next_txid :: int
  eng_max_txns :: int
  eng_active_txns :: "int list"
  eng_txn_states :: "garry_txn_info list"
  eng_wal :: garry_wal_log
  eng_lock_mgr :: garry_lock_manager
  eng_settings :: garry_engine_settings
  eng_header :: garry_db_header
  eng_key_count :: int

subsection \<open>The transaction table (transaction.c)\<close>

definition find_txn_slot :: "garry_engine_handle \<Rightarrow> int \<Rightarrow> nat option" where
  "find_txn_slot eng txn =
     List.find (\<lambda>i. eng_active_txns eng ! i = txn) [0..<length (eng_active_txns eng)]"

definition remove_at :: "nat \<Rightarrow> 'a list \<Rightarrow> 'a list" where
  "remove_at i xs = take i xs @ drop (Suc i) xs"

definition remove_active_txn :: "garry_engine_handle \<Rightarrow> int \<Rightarrow> garry_engine_handle" where
  "remove_active_txn eng txn =
     (case find_txn_slot eng txn of
        None \<Rightarrow> eng
      | Some i \<Rightarrow> eng\<lparr>eng_active_txns := remove_at i (eng_active_txns eng),
                      eng_txn_states := remove_at i (eng_txn_states eng)\<rparr>)"

definition garry_chain_allocate :: "garry_engine_handle \<Rightarrow> garry_engine_handle \<times> int" where
  "garry_chain_allocate eng =
     (case garry_pool_allocate (eng_pool eng) of
        (pool, pid) \<Rightarrow>
          if pid < 0 then (eng\<lparr>eng_pool := pool\<rparr>, -1)
          else
            (case garry_pool_pin_page pool pid of
               (pool, None) \<Rightarrow> (eng\<lparr>eng_pool := pool\<rparr>, -1)
             | (pool, Some idx) \<Rightarrow>
                 (let pool = pool_write pool idx
                        (garry_chain_page_init (bp_pages pool idx) (eng_page_size eng));
                      pool = garry_pool_mark_dirty pool pid;
                      pool = garry_pool_release_page pool pid
                  in (eng\<lparr>eng_pool := pool\<rparr>, pid))))"

text \<open>Rolled-back transactions stay in the table and do not count against \<open>max_txns\<close>.\<close>

definition garry_mvcc_begin :: "garry_engine_handle \<Rightarrow> garry_engine_handle \<times> int" where
  "garry_mvcc_begin eng =
     (let active_non_rb = length (filter (\<lambda>st. ti_state st \<noteq> GARRY_TXN_ROLLED_BACK) (eng_txn_states eng))
      in if int active_non_rb \<ge> eng_max_txns eng then (eng, -1)
         else if int (length (eng_active_txns eng)) \<ge> eng_max_txns eng * 64 then (eng, -1)
         else
           (let txn = eng_next_txid eng
            in (eng\<lparr>eng_next_txid := eng_next_txid eng + 1,
                    eng_active_txns := eng_active_txns eng @ [txn],
                    eng_txn_states := eng_txn_states eng @
                      [\<lparr>ti_txid = txn, ti_state = GARRY_TXN_ACTIVE, ti_modified_pages = []\<rparr>]\<rparr>, txn)))"

fun flush_pages :: "garry_buffer_pool \<Rightarrow> int list \<Rightarrow> garry_buffer_pool" where
  "flush_pages pool [] = pool"
| "flush_pages pool (pid # pids) = flush_pages (fst (garry_pool_flush_page pool pid)) pids"

definition garry_mvcc_commit :: "garry_engine_handle \<Rightarrow> int \<Rightarrow> garry_engine_handle" where
  "garry_mvcc_commit eng txn =
     (let (eng, pages) =
        (case find_txn_slot eng txn of
           None \<Rightarrow> (eng, [])
         | Some slot \<Rightarrow>
             (let st = eng_txn_states eng ! slot;
                  pages = take 16 (ti_modified_pages st);
                  st' = st\<lparr>ti_state := GARRY_TXN_COMMITTED, ti_modified_pages := []\<rparr>;
                  eng = eng\<lparr>eng_txn_states := (eng_txn_states eng)[slot := st']\<rparr>
              in (remove_active_txn eng txn, pages)))
      in eng\<lparr>eng_lock_mgr := garry_lock_release (eng_lock_mgr eng) txn,
             eng_pool := flush_pages (eng_pool eng) pages\<rparr>)"

definition garry_mvcc_rollback :: "garry_engine_handle \<Rightarrow> int \<Rightarrow> garry_engine_handle" where
  "garry_mvcc_rollback eng txn =
     (let eng =
        (case find_txn_slot eng txn of
           None \<Rightarrow> eng
         | Some slot \<Rightarrow>
             (let st = eng_txn_states eng ! slot;
                  st' = st\<lparr>ti_state := GARRY_TXN_ROLLED_BACK, ti_modified_pages := []\<rparr>
              in eng\<lparr>eng_txn_states := (eng_txn_states eng)[slot := st']\<rparr>))
      in eng\<lparr>eng_lock_mgr := garry_lock_release (eng_lock_mgr eng) txn\<rparr>)"

definition garry_txn_is_active :: "int \<Rightarrow> garry_engine_handle \<Rightarrow> bool" where
  "garry_txn_is_active txn eng =
     (case find_txn_slot eng txn of
        None \<Rightarrow> False
      | Some slot \<Rightarrow> ti_state (eng_txn_states eng ! slot) \<noteq> GARRY_TXN_ROLLED_BACK)"

subsection \<open>Reading and writing versions (transaction.c)\<close>

definition garry_mvcc_get :: "garry_engine_handle \<Rightarrow> int \<Rightarrow> int \<Rightarrow> garry_engine_handle \<times> byte list option" where
  "garry_mvcc_get eng txn chain_page_id =
     (case garry_pool_pin_page (eng_pool eng) chain_page_id of
        (pool, None) \<Rightarrow> (eng\<lparr>eng_pool := pool\<rparr>, None)
      | (pool, Some idx) \<Rightarrow>
          (case garry_chain_page_find_visible pool (bp_pages pool idx) (eng_page_size eng) txn
                  (eng_active_txns eng) of
             (pool, result) \<Rightarrow>
               (eng\<lparr>eng_pool := garry_pool_release_page pool chain_page_id\<rparr>, result)))"

definition garry_mvcc_exists :: "garry_engine_handle \<Rightarrow> int \<Rightarrow> int \<Rightarrow> garry_engine_handle \<times> bool" where
  "garry_mvcc_exists eng txn chain_page_id =
     (case garry_pool_pin_page (eng_pool eng) chain_page_id of
        (pool, None) \<Rightarrow> (eng\<lparr>eng_pool := pool\<rparr>, False)
      | (pool, Some idx) \<Rightarrow>
          (let result = garry_chain_page_has_visible (bp_pages pool idx) (eng_page_size eng) txn
                          (eng_active_txns eng)
           in (eng\<lparr>eng_pool := garry_pool_release_page pool chain_page_id\<rparr>, result)))"

text \<open>A write is noted in the table of the transaction if there is room for its page.\<close>

definition note_modified :: "garry_engine_handle \<Rightarrow> int \<Rightarrow> int \<Rightarrow> garry_engine_handle" where
  "note_modified eng txn pid =
     (case find_txn_slot eng txn of
        None \<Rightarrow> eng
      | Some slot \<Rightarrow>
          (let st = eng_txn_states eng ! slot
           in if length (ti_modified_pages st) < 16
              then eng\<lparr>eng_txn_states := (eng_txn_states eng)
                         [slot := st\<lparr>ti_modified_pages := ti_modified_pages st @ [pid]\<rparr>]\<rparr>
              else eng))"

definition garry_mvcc_set :: "garry_engine_handle \<Rightarrow> int \<Rightarrow> int \<Rightarrow> byte list \<Rightarrow> garry_engine_handle \<times> bool" where
  "garry_mvcc_set eng txn chain_page_id value =
     (case garry_pool_pin_page (eng_pool eng) chain_page_id of
        (pool, None) \<Rightarrow> (eng\<lparr>eng_pool := pool\<rparr>, False)
      | (pool, Some idx) \<Rightarrow>
          (let vlen = int (length value);
               (pool, written) =
                 (if vlen > garry_chain_inline_capacity (eng_page_size eng)
                  then (case garry_overflow_write pool value of
                          (pool, head) \<Rightarrow>
                            if head < 0 then (pool, None)
                            else (pool, Some (garry_chain_page_append_overflow (bp_pages pool idx)
                                                (eng_page_size eng) txn vlen head)))
                  else (pool, Some (garry_chain_page_append (bp_pages pool idx)
                                      (eng_page_size eng) txn value)))
           in case written of
                None \<Rightarrow> (eng\<lparr>eng_pool := garry_pool_release_page pool chain_page_id\<rparr>, False)
              | Some (page, ok) \<Rightarrow>
                  (let pool = pool_write pool idx page;
                       pool = (if ok then garry_pool_mark_dirty pool chain_page_id else pool);
                       eng = (if ok then note_modified eng txn chain_page_id else eng)
                   in (eng\<lparr>eng_pool := garry_pool_release_page pool chain_page_id\<rparr>, ok))))"

definition garry_mvcc_delete :: "garry_engine_handle \<Rightarrow> int \<Rightarrow> int \<Rightarrow> garry_engine_handle \<times> bool" where
  "garry_mvcc_delete eng txn chain_page_id =
     (case garry_pool_pin_page (eng_pool eng) chain_page_id of
        (pool, None) \<Rightarrow> (eng\<lparr>eng_pool := pool\<rparr>, False)
      | (pool, Some idx) \<Rightarrow>
          (let (page, ok) = garry_chain_page_append_tombstone (bp_pages pool idx) (eng_page_size eng) txn;
               pool = pool_write pool idx page;
               pool = (if ok then garry_pool_mark_dirty pool chain_page_id else pool);
               eng = (if ok then note_modified eng txn chain_page_id else eng)
           in (eng\<lparr>eng_pool := garry_pool_release_page pool chain_page_id\<rparr>, ok)))"

definition garry_mvcc_chain_overflow :: "garry_engine_handle \<Rightarrow> int \<Rightarrow> byte list \<Rightarrow> garry_engine_handle \<times> int" where
  "garry_mvcc_chain_overflow eng txn value =
     (case garry_overflow_write (eng_pool eng) value of
        (pool, head) \<Rightarrow> (eng\<lparr>eng_pool := pool\<rparr>, head))"

definition garry_mvcc_recovery_apply ::
  "garry_engine_handle \<Rightarrow> int \<Rightarrow> int \<Rightarrow> byte list \<Rightarrow> garry_engine_handle \<times> bool" where
  "garry_mvcc_recovery_apply eng chain_page_id txn value = garry_mvcc_set eng txn chain_page_id value"

subsection \<open>storage\_txn.c\<close>

definition garry_storage_begin :: "garry_engine_handle \<Rightarrow> garry_engine_handle \<times> int" where
  "garry_storage_begin eng = garry_mvcc_begin eng"

definition garry_storage_commit :: "garry_engine_handle \<Rightarrow> int \<Rightarrow> garry_engine_handle" where
  "garry_storage_commit eng txn =
     (let wal = fst (garry_wal_log_append (eng_wal eng) (garry_make_commit_record txn));
          eng = eng\<lparr>eng_wal := garry_wal_log_flush wal\<rparr>;
          eng = eng\<lparr>eng_lock_mgr := garry_lock_release (eng_lock_mgr eng) txn\<rparr>
      in garry_mvcc_commit eng txn)"

definition garry_storage_rollback :: "garry_engine_handle \<Rightarrow> int \<Rightarrow> garry_engine_handle" where
  "garry_storage_rollback eng txn =
     (let wal = fst (garry_wal_log_append (eng_wal eng) (garry_make_abort_record txn));
          eng = eng\<lparr>eng_wal := wal\<rparr>;
          eng = eng\<lparr>eng_lock_mgr := garry_lock_release (eng_lock_mgr eng) txn\<rparr>
      in garry_mvcc_rollback eng txn)"

subsection \<open>The invariant of the transaction table\<close>

definition in_progress :: "garry_txn_info \<Rightarrow> bool" where
  "in_progress st \<longleftrightarrow> ti_state st \<noteq> GARRY_TXN_ROLLED_BACK"

definition txn_inv :: "garry_engine_handle \<Rightarrow> bool" where
  "txn_inv eng \<longleftrightarrow>
     map ti_txid (eng_txn_states eng) = eng_active_txns eng \<and>
     sorted_wrt (<) (eng_active_txns eng) \<and>
     0 < eng_next_txid eng \<and> (\<forall>t \<in> set (eng_active_txns eng). 0 < t \<and> t < eng_next_txid eng) \<and>
     int (length (filter in_progress (eng_txn_states eng))) \<le> eng_max_txns eng \<and>
     int (length (eng_active_txns eng)) \<le> eng_max_txns eng * 64 \<and>
     (\<forall>st \<in> set (eng_txn_states eng). ti_state st \<noteq> GARRY_TXN_COMMITTED \<and>
        length (ti_modified_pages st) \<le> 16) \<and>
     lock_inv (eng_lock_mgr eng)"

lemma txn_invD:
  assumes "txn_inv eng"
  shows "map ti_txid (eng_txn_states eng) = eng_active_txns eng"
    "distinct (eng_active_txns eng)" "length (eng_txn_states eng) = length (eng_active_txns eng)"
    "\<And>t. t \<in> set (eng_active_txns eng) \<Longrightarrow> 0 < t \<and> t < eng_next_txid eng"
proof -
  show m: "map ti_txid (eng_txn_states eng) = eng_active_txns eng"
    using assms by (simp add: txn_inv_def)
  show "length (eng_txn_states eng) = length (eng_active_txns eng)"
    unfolding m [symmetric] by simp
  show "distinct (eng_active_txns eng)"
    using assms by (simp add: txn_inv_def strict_sorted_iff)
qed (use assms in \<open>simp add: txn_inv_def\<close>)

lemma find_txn_slot_SomeD:
  "find_txn_slot eng txn = Some i \<Longrightarrow> i < length (eng_active_txns eng) \<and> eng_active_txns eng ! i = txn"
  by (auto simp: find_txn_slot_def find_Some_iff)

lemma find_txn_slot_None_iff: "find_txn_slot eng txn = None \<longleftrightarrow> txn \<notin> set (eng_active_txns eng)"
  by (auto simp: find_txn_slot_def find_None_iff in_set_conv_nth)

lemma map_remove_at: "map f (remove_at i xs) = remove_at i (map f xs)"
  by (simp add: remove_at_def take_map drop_map)

lemma remove_at_filter_map:
  assumes "distinct (map f xs)" "i < length xs"
  shows "remove_at i xs = filter (\<lambda>x. f x \<noteq> f (xs ! i)) xs"
proof -
  have xs: "xs = take i xs @ xs ! i # drop (Suc i) xs" using assms(2) by (simp add: id_take_nth_drop)
  then have d: "distinct (map f (take i xs @ xs ! i # drop (Suc i) xs))" using assms(1) by simp
  have "filter (\<lambda>x. f x \<noteq> f (xs ! i)) (take i xs) = take i xs"
    "filter (\<lambda>x. f x \<noteq> f (xs ! i)) (drop (Suc i) xs) = drop (Suc i) xs"
    using d by (auto simp: filter_id_conv) (metis imageI)+
  then have "filter (\<lambda>x. f x \<noteq> f (xs ! i)) (take i xs @ xs ! i # drop (Suc i) xs) = remove_at i xs"
    by (simp add: remove_at_def)
  with xs show ?thesis by simp
qed

lemma remove_at_filter:
  "distinct xs \<Longrightarrow> i < length xs \<Longrightarrow> remove_at i xs = filter (\<lambda>x. x \<noteq> xs ! i) xs"
  using remove_at_filter_map [of id xs i] by simp

lemma remove_at_le: "length (remove_at i xs) \<le> length xs"
  "length (filter P (remove_at i xs)) \<le> length (filter P xs)" "set (remove_at i xs) \<subseteq> set xs"
proof -
  show "length (remove_at i xs) \<le> length xs" by (simp add: remove_at_def)
  have "filter P xs = filter P (take i xs) @ filter P (drop i xs)"
    by (metis append_take_drop_id filter_append)
  moreover have "length (filter P (drop (Suc i) xs)) \<le> length (filter P (drop i xs))"
    by (cases "i < length xs") (simp_all add: Cons_nth_drop_Suc [symmetric])
  ultimately show "length (filter P (remove_at i xs)) \<le> length (filter P xs)" by (simp add: remove_at_def)
  show "set (remove_at i xs) \<subseteq> set xs"
    by (auto simp: remove_at_def dest: in_set_takeD in_set_dropD)
qed

lemma remove_at_update: "remove_at i (xs[i := x]) = remove_at i xs"
  by (simp add: remove_at_def)

text \<open>Changing one entry of the table.\<close>

lemma txn_inv_update:
  assumes "txn_inv eng" "find_txn_slot eng txn = Some slot"
    and "ti_txid st = ti_txid (eng_txn_states eng ! slot)" "ti_state st \<noteq> GARRY_TXN_COMMITTED"
    and "in_progress st \<longrightarrow> in_progress (eng_txn_states eng ! slot)" "length (ti_modified_pages st) \<le> 16"
  shows "txn_inv (eng\<lparr>eng_txn_states := (eng_txn_states eng)[slot := st]\<rparr>)"
proof -
  let ?xs = "eng_txn_states eng"
  have s: "slot < length ?xs"
    using find_txn_slot_SomeD [OF assms(2)] by (simp add: txn_invD(3) [OF assms(1)])
  have "ti_txid st = eng_active_txns eng ! slot"
    using assms(3) s txn_invD(1) [OF assms(1)] by (metis nth_map)
  then have m: "map ti_txid (?xs[slot := st]) = eng_active_txns eng"
    by (simp add: map_update txn_invD(1) [OF assms(1)])
  have "filter in_progress ?xs = filter in_progress (take slot ?xs) @
      filter in_progress [?xs ! slot] @ filter in_progress (drop (Suc slot) ?xs)"
    using s by (subst (1) id_take_nth_drop [OF s]) simp
  moreover have "?xs[slot := st] = take slot ?xs @ st # drop (Suc slot) ?xs"
    by (rule upd_conv_take_nth_drop [OF s])
  ultimately have "length (filter in_progress (?xs[slot := st])) \<le> length (filter in_progress ?xs)"
    using assms(5) by simp
  moreover have "set (?xs[slot := st]) \<subseteq> insert st (set ?xs)" by (rule set_update_subset_insert)
  ultimately show ?thesis
    using assms(1,4,6) m unfolding txn_inv_def by auto
qed

lemma txn_inv_remove:
  assumes "txn_inv eng" "find_txn_slot eng txn = Some slot"
  shows "txn_inv (eng\<lparr>eng_active_txns := remove_at slot (eng_active_txns eng),
    eng_txn_states := remove_at slot (eng_txn_states eng)\<rparr>)"
proof -
  have s: "slot < length (eng_active_txns eng)" using find_txn_slot_SomeD [OF assms(2)] by simp
  have a: "remove_at slot (eng_active_txns eng) =
      filter (\<lambda>x. x \<noteq> eng_active_txns eng ! slot) (eng_active_txns eng)"
    by (rule remove_at_filter [OF txn_invD(2) [OF assms(1)] s])
  have "sorted_wrt (<) (remove_at slot (eng_active_txns eng))"
    using assms(1) unfolding a by (simp add: txn_inv_def sorted_wrt_filter)
  with assms(1) remove_at_le(1) [of slot "eng_active_txns eng"]
    remove_at_le(2) [of in_progress slot "eng_txn_states eng"]
    remove_at_le(3) [of slot "eng_active_txns eng"] remove_at_le(3) [of slot "eng_txn_states eng"]
  show ?thesis unfolding txn_inv_def by (auto simp: map_remove_at)
qed

text \<open>The table is the part of the engine the invariant reads.\<close>

lemma txn_inv_cong:
  assumes "txn_inv eng" "eng_active_txns eng' = eng_active_txns eng"
    "eng_txn_states eng' = eng_txn_states eng" "eng_next_txid eng' = eng_next_txid eng"
    "eng_max_txns eng' = eng_max_txns eng" "lock_inv (eng_lock_mgr eng')"
  shows "txn_inv eng'"
  using assms by (simp add: txn_inv_def)

lemma begin_cases:
  obtains (refused) "garry_mvcc_begin eng = (eng, -1)"
    "eng_max_txns eng \<le> int (length (filter in_progress (eng_txn_states eng))) \<or>
     eng_max_txns eng * 64 \<le> int (length (eng_active_txns eng))"
  | (begun) "garry_mvcc_begin eng =
      (eng\<lparr>eng_next_txid := eng_next_txid eng + 1,
           eng_active_txns := eng_active_txns eng @ [eng_next_txid eng],
           eng_txn_states := eng_txn_states eng @
             [\<lparr>ti_txid = eng_next_txid eng, ti_state = GARRY_TXN_ACTIVE, ti_modified_pages = []\<rparr>]\<rparr>,
       eng_next_txid eng)"
    "int (length (filter in_progress (eng_txn_states eng))) < eng_max_txns eng"
    "int (length (eng_active_txns eng)) < eng_max_txns eng * 64"
proof -
  let ?refuse = "eng_max_txns eng \<le> int (length (filter in_progress (eng_txn_states eng))) \<or>
     eng_max_txns eng * 64 \<le> int (length (eng_active_txns eng))"
  have ip: "(\<lambda>st. ti_state st \<noteq> GARRY_TXN_ROLLED_BACK) = in_progress"
    by (simp add: fun_eq_iff in_progress_def)
  show ?thesis
  proof (cases ?refuse)
    case True
    then show ?thesis
      by (intro refused) (auto simp: garry_mvcc_begin_def ip Let_def)
  next
    case False
    then show ?thesis
      by (intro begun) (auto simp: garry_mvcc_begin_def ip Let_def)
  qed
qed

lemma begin_inv: "txn_inv eng \<Longrightarrow> txn_inv (fst (garry_mvcc_begin eng))"
  by (cases rule: begin_cases [of eng])
    (force simp: txn_inv_def sorted_wrt_append in_progress_def)+

lemma note_modified_inv:
  assumes "txn_inv eng"
  shows "txn_inv (note_modified eng txn pid)"
proof (cases "find_txn_slot eng txn")
  case None
  with assms show ?thesis by (simp add: note_modified_def)
next
  case (Some slot)
  have "slot < length (eng_txn_states eng)"
    using find_txn_slot_SomeD [OF Some] by (simp add: txn_invD(3) [OF assms])
  then have "eng_txn_states eng ! slot \<in> set (eng_txn_states eng)" by simp
  with assms have "ti_state (eng_txn_states eng ! slot) \<noteq> GARRY_TXN_COMMITTED" by (auto simp: txn_inv_def)
  then show ?thesis
    using assms Some by (auto simp: note_modified_def Let_def in_progress_def intro!: txn_inv_update)
qed

lemma release_flush_inv:
  assumes "txn_inv eng"
  shows "txn_inv (eng\<lparr>eng_lock_mgr := garry_lock_release (eng_lock_mgr eng) txn, eng_pool := pool\<rparr>)"
    "txn_inv (eng\<lparr>eng_lock_mgr := garry_lock_release (eng_lock_mgr eng) txn\<rparr>)"
  using assms by (auto simp: txn_inv_def release_inv)

text \<open>What a commit does to the table.\<close>

lemma commit_table:
  assumes "txn_inv eng"
  shows "txn_inv (garry_mvcc_commit eng txn)"
    "eng_active_txns (garry_mvcc_commit eng txn) = filter (\<lambda>t. t \<noteq> txn) (eng_active_txns eng)"
    "eng_next_txid (garry_mvcc_commit eng txn) = eng_next_txid eng"
    "eng_page_size (garry_mvcc_commit eng txn) = eng_page_size eng"
proof -
  have "txn_inv (garry_mvcc_commit eng txn) \<and>
      eng_active_txns (garry_mvcc_commit eng txn) = filter (\<lambda>t. t \<noteq> txn) (eng_active_txns eng) \<and>
      eng_next_txid (garry_mvcc_commit eng txn) = eng_next_txid eng \<and>
      eng_page_size (garry_mvcc_commit eng txn) = eng_page_size eng"
  proof (cases "find_txn_slot eng txn")
    case None
    then have "filter (\<lambda>t. t \<noteq> txn) (eng_active_txns eng) = eng_active_txns eng"
      by (auto simp: find_txn_slot_None_iff filter_id_conv)
    with None release_flush_inv [OF assms] show ?thesis
      by (simp add: garry_mvcc_commit_def)
  next
    case (Some slot)
    let ?st = "eng_txn_states eng ! slot"
    let ?e = "eng\<lparr>eng_txn_states := (eng_txn_states eng)
      [slot := ?st\<lparr>ti_state := GARRY_TXN_COMMITTED, ti_modified_pages := []\<rparr>]\<rparr>"
    have f: "find_txn_slot ?e txn = Some slot" using Some by (simp add: find_txn_slot_def)
    have c: "garry_mvcc_commit eng txn = (remove_active_txn ?e txn)
        \<lparr>eng_lock_mgr := garry_lock_release (eng_lock_mgr eng) txn,
         eng_pool := flush_pages (eng_pool eng) (take 16 (ti_modified_pages ?st))\<rparr>"
      using Some f by (simp add: garry_mvcc_commit_def remove_active_txn_def Let_def)
    have r: "remove_active_txn ?e txn = eng\<lparr>eng_active_txns := remove_at slot (eng_active_txns eng),
        eng_txn_states := remove_at slot (eng_txn_states eng)\<rparr>"
      using f by (simp add: remove_active_txn_def remove_at_update)
    have s: "slot < length (eng_active_txns eng)" "eng_active_txns eng ! slot = txn"
      using find_txn_slot_SomeD [OF Some] by simp_all
    have "remove_at slot (eng_active_txns eng) = filter (\<lambda>t. t \<noteq> txn) (eng_active_txns eng)"
      using remove_at_filter [OF txn_invD(2) [OF assms] s(1)] s(2) by simp
    with release_flush_inv(1) [OF txn_inv_remove [OF assms Some]]
    show ?thesis
      unfolding c r by simp
  qed
  then show "txn_inv (garry_mvcc_commit eng txn)"
    "eng_active_txns (garry_mvcc_commit eng txn) = filter (\<lambda>t. t \<noteq> txn) (eng_active_txns eng)"
    "eng_next_txid (garry_mvcc_commit eng txn) = eng_next_txid eng"
    "eng_page_size (garry_mvcc_commit eng txn) = eng_page_size eng" by simp_all
qed

lemma rollback_table:
  assumes "txn_inv eng"
  shows "txn_inv (garry_mvcc_rollback eng txn)"
    "eng_active_txns (garry_mvcc_rollback eng txn) = eng_active_txns eng"
    "eng_next_txid (garry_mvcc_rollback eng txn) = eng_next_txid eng"
    "eng_page_size (garry_mvcc_rollback eng txn) = eng_page_size eng"
    "eng_pool (garry_mvcc_rollback eng txn) = eng_pool eng"
proof -
  show "txn_inv (garry_mvcc_rollback eng txn)"
  proof (cases "find_txn_slot eng txn")
    case (Some slot)
    let ?st = "(eng_txn_states eng ! slot)\<lparr>ti_state := GARRY_TXN_ROLLED_BACK, ti_modified_pages := []\<rparr>"
    have "txn_inv (eng\<lparr>eng_txn_states := (eng_txn_states eng)[slot := ?st]\<rparr>)"
      by (rule txn_inv_update [OF assms Some]) (simp_all add: in_progress_def)
    from release_flush_inv(2) [OF this, of txn] Some show ?thesis
      by (simp add: garry_mvcc_rollback_def Let_def)
  qed (use release_flush_inv(2) [OF assms] in \<open>simp add: garry_mvcc_rollback_def\<close>)
qed (simp_all add: garry_mvcc_rollback_def Let_def split: option.split)

subsection \<open>What the operations do to pages and version logs\<close>

lemma flush_page_ready:
  assumes "pool_ready n pool"
  shows "pool_ready n (fst (garry_pool_flush_page pool pid))"
  by (rule ready_change [OF assms flush_page_spec(1) [OF pool_ready_inv [OF assms]]])
    (auto simp: flush_page_eq written_slot_def garry_file_write_page_def split: option.split)

lemma flush_page_idle:
  assumes "pool_idle n pool"
  shows "pool_idle n (fst (garry_pool_flush_page pool pid))"
proof -
  have "bp_capacity (fst (garry_pool_flush_page pool pid)) = bp_capacity pool"
    "bp_pin_counts (fst (garry_pool_flush_page pool pid)) = bp_pin_counts pool"
    by (auto simp: flush_page_eq split: option.split)
  with assms flush_page_ready [OF pool_idle_ready [OF assms], of pid] show ?thesis
    by (simp add: pool_idle_def)
qed

lemma flush_pages_spec:
  assumes "pool_idle n pool"
  shows "pool_idle n (flush_pages pool pids) \<and> page_view (flush_pages pool pids) = page_view pool \<and>
    bp_page_size (flush_pages pool pids) = bp_page_size pool \<and>
    bp_next_page (flush_pages pool pids) = bp_next_page pool \<and>
    bp_free_list_head (flush_pages pool pids) = bp_free_list_head pool"
  using assms
proof (induction pids arbitrary: pool)
  case (Cons pid pids)
  have "bp_next_page (fst (garry_pool_flush_page pool pid)) = bp_next_page pool"
    "bp_free_list_head (fst (garry_pool_flush_page pool pid)) = bp_free_list_head pool"
    by (auto simp: flush_page_eq split: option.split)
  with Cons.IH [OF flush_page_idle [OF Cons.prems]] flush_page_spec [OF pool_idle_inv [OF Cons.prems]]
  show ?case by simp
qed simp

text \<open>The version log of the key whose chain page is \<open>cid\<close>, and the room the pool has for \<open>n\<close>
  more steps.\<close>

definition key_log :: "garry_engine_handle \<Rightarrow> int \<Rightarrow> (int \<times> byte list option) list \<Rightarrow> bool" where
  "key_log eng cid xs \<longleftrightarrow>
     0 \<le> cid \<and> cid < bp_next_page (eng_pool eng) \<and>
     eng_page_size eng = bp_page_size (eng_pool eng) \<and>
     page_log (eng_page_size eng) (page_view (eng_pool eng) cid) xs"

definition mvcc_write :: "garry_engine_handle \<Rightarrow> int \<Rightarrow> int \<Rightarrow> byte list option \<Rightarrow> garry_engine_handle \<times> bool" where
  "mvcc_write eng t cid v =
     (case v of None \<Rightarrow> garry_mvcc_delete eng t cid | Some d \<Rightarrow> garry_mvcc_set eng t cid d)"

lemma note_modified_sel [simp]:
  "eng_pool (note_modified eng t cid) = eng_pool eng"
  "eng_page_size (note_modified eng t cid) = eng_page_size eng"
  "eng_active_txns (note_modified eng t cid) = eng_active_txns eng"
  "eng_next_txid (note_modified eng t cid) = eng_next_txid eng"
  "eng_max_txns (note_modified eng t cid) = eng_max_txns eng"
  "eng_lock_mgr (note_modified eng t cid) = eng_lock_mgr eng"
  "eng_wal (note_modified eng t cid) = eng_wal eng"
  by (simp_all add: note_modified_def Let_def split: option.split)

lemma key_log_view:
  assumes "key_log eng cid xs" "same_view (eng_pool eng) pool"
    "eng_page_size eng' = eng_page_size eng" "eng_pool eng' = pool"
  shows "key_log eng' cid xs"
  using assms page_log_agree [of "eng_page_size eng" "page_view (eng_pool eng) cid" xs "page_view pool cid"]
  by (auto simp: key_log_def same_view_def)

lemma mvcc_get_spec:
  assumes "pool_idle (n + 2) (eng_pool eng)" "key_log eng cid xs"
  obtains pool where
    "garry_mvcc_get eng s cid = (eng\<lparr>eng_pool := pool\<rparr>, read_log s (eng_active_txns eng) xs)"
    "garry_mvcc_exists eng s cid = (eng\<lparr>eng_pool := pool\<rparr>, read_log s (eng_active_txns eng) xs \<noteq> None)"
    "pool_idle n pool" "same_view (eng_pool eng) pool"
proof -
  have k: "0 \<le> cid" "cid < bp_next_page (eng_pool eng)"
    "eng_page_size eng = bp_page_size (eng_pool eng)"
    "page_log (eng_page_size eng) (page_view (eng_pool eng) cid) xs"
    using assms(2) unfolding key_log_def by blast+
  from assms(1) k(1,2) obtain p i where p: "garry_pool_pin_page (eng_pool eng) cid = (p, Some i)"
    "pool_ready n p" "same_view (eng_pool eng) p" "find_slot p cid = Some i"
    "bp_capacity p = bp_capacity (eng_pool eng)"
    "agree 0 (bp_page_size (eng_pool eng)) (page_view (eng_pool eng) cid) (bp_pages p i)"
    "\<And>j. j < bp_capacity (eng_pool eng) \<Longrightarrow> bp_pin_counts p j = (if j = i then 1 else 0)"
    by (rule idle_pin_cases) blast
  have log: "page_log (eng_page_size eng) (bp_pages p i) xs"
    using page_log_agree [OF k(4)] p(6) k(3) by simp
  show ?thesis
  proof (rule that)
    show "garry_mvcc_get eng s cid =
        (eng\<lparr>eng_pool := garry_pool_release_page p cid\<rparr>, read_log s (eng_active_txns eng) xs)"
      by (simp add: garry_mvcc_get_def p(1) find_visible_log [OF log])
    show "garry_mvcc_exists eng s cid =
        (eng\<lparr>eng_pool := garry_pool_release_page p cid\<rparr>, read_log s (eng_active_txns eng) xs \<noteq> None)"
      by (simp add: garry_mvcc_exists_def p(1) has_visible_log [OF log])
    show "pool_idle n (garry_pool_release_page p cid)"
      using p(5,7) by (intro release_idle [OF p(2,4) k(1)]) simp
    show "same_view (eng_pool eng) (garry_pool_release_page p cid)" using p(3) by (simp add: same_view_def)
  qed
qed

text \<open>A write of a value that fits the page appends to the log of its key and touches no other
  page.\<close>

lemma mvcc_write_append:
  assumes "garry_pool_pin_page (eng_pool eng) cid = (p, Some i)" "log_fits (eng_page_size eng) t v"
  shows "mvcc_write eng t cid v =
    (case log_append (eng_page_size eng) (bp_pages p i) t v of
       (page, ok) \<Rightarrow>
         (let pool = pool_write p i page;
              pool = (if ok then garry_pool_mark_dirty pool cid else pool);
              eng = (if ok then note_modified eng t cid else eng)
          in (eng\<lparr>eng_pool := garry_pool_release_page pool cid\<rparr>, ok)))"
  using assms
  by (cases v) (simp_all add: mvcc_write_def garry_mvcc_set_def garry_mvcc_delete_def log_append_def
      log_fits_def Let_def case_prod_unfold)

lemma pool_write_same: "pool_write pool i (bp_pages pool i) = pool"
  by (simp add: pool_write_def)

lemma mvcc_write_spec:
  assumes "pool_idle (n + 2) (eng_pool eng)" "key_log eng cid xs" "log_fits (eng_page_size eng) t v"
  obtains pool ok where
    "mvcc_write eng t cid v = ((if ok then note_modified eng t cid else eng)\<lparr>eng_pool := pool\<rparr>, ok)"
    "pool_idle n pool" "bp_page_size pool = bp_page_size (eng_pool eng)"
    "bp_next_page pool = bp_next_page (eng_pool eng)"
    "page_log (eng_page_size eng) (page_view pool cid) (if ok then xs @ [(t, v)] else xs)"
    "\<And>q. q \<noteq> cid \<Longrightarrow> agree 0 (bp_page_size pool) (page_view (eng_pool eng) q) (page_view pool q)"
    "bp_free_list_head pool = bp_free_list_head (eng_pool eng)" "ok \<longleftrightarrow> log_room (eng_page_size eng) xs v"
proof -
  have k: "0 \<le> cid" "cid < bp_next_page (eng_pool eng)"
    "eng_page_size eng = bp_page_size (eng_pool eng)"
    "page_log (eng_page_size eng) (page_view (eng_pool eng) cid) xs"
    using assms(2) unfolding key_log_def by blast+
  from assms(1) k(1,2) obtain p i where p: "garry_pool_pin_page (eng_pool eng) cid = (p, Some i)"
    "pool_ready n p" "same_view (eng_pool eng) p" "find_slot p cid = Some i"
    "bp_capacity p = bp_capacity (eng_pool eng)"
    "agree 0 (bp_page_size (eng_pool eng)) (page_view (eng_pool eng) cid) (bp_pages p i)"
    "\<And>j. j < bp_capacity (eng_pool eng) \<Longrightarrow> bp_pin_counts p j = (if j = i then 1 else 0)"
    by (rule idle_pin_cases) blast
  have log: "page_log (eng_page_size eng) (bp_pages p i) xs"
    using page_log_agree [OF k(4)] p(6) k(3) by simp
  obtain page ok where a: "log_append (eng_page_size eng) (bp_pages p i) t v = (page, ok)" by fastforce
  note w = mvcc_write_append [OF p(1) assms(3), unfolded a]
  note l = log_append_rep [OF log assms(3) a] and room = log_append_succeeds [OF log assms(3) a]
  have sv: "bp_page_size p = bp_page_size (eng_pool eng)" "bp_next_page p = bp_next_page (eng_pool eng)"
    "bp_free_list_head p = bp_free_list_head (eng_pool eng)"
    "\<And>q. agree 0 (bp_page_size (eng_pool eng)) (page_view (eng_pool eng) q) (page_view p q)"
    using p(3) by (simp_all add: same_view_def)
  have pv: "page_view p cid = bp_pages p i" by (simp add: page_view_def p(4))
  show ?thesis
  proof (cases ok)
    case True
    define pool where "pool = garry_pool_release_page (garry_pool_mark_dirty (pool_write p i page) cid) cid"
    note st = store_release_idle [OF p(2,4) k(1) _ pool_def, unfolded p(5), OF p(7)]
    show ?thesis
    proof (rule that [of pool True])
      show "mvcc_write eng t cid v =
          ((if True then note_modified eng t cid else eng)\<lparr>eng_pool := pool\<rparr>, True)"
        using w True by (simp add: pool_def)
      show "page_log (eng_page_size eng) (page_view pool cid) (if True then xs @ [(t, v)] else xs)"
        using l True st(2) by simp
    qed (use st sv room True in auto)
  next
    case False
    define pool where "pool = garry_pool_release_page p cid"
    show ?thesis
    proof (rule that [of pool False])
      show "mvcc_write eng t cid v =
          ((if False then note_modified eng t cid else eng)\<lparr>eng_pool := pool\<rparr>, False)"
        using w l False by (simp add: pool_def pool_write_same)
      show "pool_idle n pool"
        unfolding pool_def using p(5,7) by (intro release_idle [OF p(2,4) k(1)]) simp
      show "page_log (eng_page_size eng) (page_view pool cid) (if False then xs @ [(t, v)] else xs)"
        using log by (simp add: pool_def pv)
    qed (use sv room False in \<open>auto simp: pool_def\<close>)
  qed
qed

subsection \<open>The steps of the transaction system\<close>

inductive txn_step :: "garry_engine_handle \<Rightarrow> garry_engine_handle \<Rightarrow> bool" where
  begin_txn: "txn_step eng (fst (garry_storage_begin eng))"
| commit_txn: "txn_step eng (garry_storage_commit eng t)"
| rollback_txn: "txn_step eng (garry_storage_rollback eng t)"
| write_txn: "txn_step eng (fst (mvcc_write eng t cid v))"
| read_txn: "txn_step eng (fst (garry_mvcc_get eng t cid))"
| exists_txn: "txn_step eng (fst (garry_mvcc_exists eng t cid))"
| lock_txn: "txn_step eng (eng\<lparr>eng_lock_mgr :=
    fst (garry_lock_acquire malloc_ok (eng_lock_mgr eng) t k mode)\<rparr>)"

inductive txn_reachable :: "garry_engine_handle \<Rightarrow> bool" where
  txn_start: "eng_active_txns eng = [] \<Longrightarrow> eng_txn_states eng = [] \<Longrightarrow> 0 < eng_next_txid eng \<Longrightarrow>
     0 \<le> eng_max_txns eng \<Longrightarrow> eng_lock_mgr eng = garry_create_lock_manager \<Longrightarrow> txn_reachable eng"
| txn_more: "txn_reachable eng \<Longrightarrow> txn_step eng eng' \<Longrightarrow> txn_reachable eng'"

inductive_cases txn_stepE: "txn_step eng eng'"

lemma inv_locks: "txn_inv eng \<Longrightarrow> lock_inv (eng_lock_mgr eng)"
  by (simp add: txn_inv_def)

text \<open>Writing the log and releasing locks early does not change what the table holds.\<close>

lemma storage_end_table:
  assumes "txn_inv eng"
  shows "txn_inv (garry_storage_commit eng t)" "txn_inv (garry_storage_rollback eng t)"
    "eng_active_txns (garry_storage_commit eng t) = filter (\<lambda>x. x \<noteq> t) (eng_active_txns eng)"
    "eng_active_txns (garry_storage_rollback eng t) = eng_active_txns eng"
    "eng_next_txid (garry_storage_commit eng t) = eng_next_txid eng"
    "eng_next_txid (garry_storage_rollback eng t) = eng_next_txid eng"
    "eng_page_size (garry_storage_commit eng t) = eng_page_size eng"
    "eng_page_size (garry_storage_rollback eng t) = eng_page_size eng"
    "eng_pool (garry_storage_rollback eng t) = eng_pool eng"
proof -
  have inv: "txn_inv (eng\<lparr>eng_wal := wal, eng_lock_mgr := garry_lock_release (eng_lock_mgr eng) t\<rparr>)" for wal
    by (rule txn_inv_cong [OF assms]) (simp_all add: release_inv inv_locks [OF assms])
  note c = commit_table [OF inv] and r = rollback_table [OF inv]
  show "txn_inv (garry_storage_commit eng t)"
    "eng_active_txns (garry_storage_commit eng t) = filter (\<lambda>x. x \<noteq> t) (eng_active_txns eng)"
    "eng_next_txid (garry_storage_commit eng t) = eng_next_txid eng"
    "eng_page_size (garry_storage_commit eng t) = eng_page_size eng"
    using c by (simp_all add: garry_storage_commit_def Let_def)
  show "txn_inv (garry_storage_rollback eng t)"
    "eng_active_txns (garry_storage_rollback eng t) = eng_active_txns eng"
    "eng_next_txid (garry_storage_rollback eng t) = eng_next_txid eng"
    "eng_page_size (garry_storage_rollback eng t) = eng_page_size eng"
    "eng_pool (garry_storage_rollback eng t) = eng_pool eng"
    using r by (simp_all add: garry_storage_rollback_def Let_def)
qed

lemma get_table:
  "\<exists>pool. fst (garry_mvcc_get eng t cid) = eng\<lparr>eng_pool := pool\<rparr>"
  "\<exists>pool. fst (garry_mvcc_exists eng t cid) = eng\<lparr>eng_pool := pool\<rparr>"
  by (auto simp: garry_mvcc_get_def garry_mvcc_exists_def Let_def split: prod.splits option.splits)

lemma write_table:
  "\<exists>pool. fst (mvcc_write eng t cid v) = eng\<lparr>eng_pool := pool\<rparr> \<or>
     fst (mvcc_write eng t cid v) = (note_modified eng t cid)\<lparr>eng_pool := pool\<rparr>"
  by (cases v)
    (auto simp: mvcc_write_def garry_mvcc_set_def garry_mvcc_delete_def Let_def
      split: prod.splits option.splits)

lemma txn_step_inv: "txn_step eng eng' \<Longrightarrow> txn_inv eng \<Longrightarrow> txn_inv eng'"
proof (induction rule: txn_step.induct)
  case (write_txn eng t cid v)
  have p: "txn_inv (e\<lparr>eng_pool := pool\<rparr>) = txn_inv e" for e pool by (simp add: txn_inv_def)
  from write_table [of eng t cid v] write_txn note_modified_inv [OF write_txn] show ?case
    by (auto simp: p)
next
  case (read_txn eng t cid)
  with get_table(1) [of eng t cid] show ?case by (auto simp: txn_inv_def)
next
  case (exists_txn eng t cid)
  with get_table(2) [of eng t cid] show ?case by (auto simp: txn_inv_def)
next
  case (lock_txn eng malloc_ok t k mode)
  have "lock_inv (fst (garry_lock_acquire malloc_ok (eng_lock_mgr eng) t k mode))"
    by (rule locks.acquire_keeps [OF inv_locks [OF lock_txn]])
  then show ?case by (intro txn_inv_cong [OF lock_txn]) simp_all
qed (simp_all add: begin_inv storage_end_table garry_storage_begin_def)

lemma txn_reachable_inv: "txn_reachable eng \<Longrightarrow> txn_inv eng"
proof (induction rule: txn_reachable.induct)
  case (txn_start eng)
  then show ?case by (simp add: txn_inv_def lock_create_inv)
next
  case (txn_more eng eng')
  then show ?case by (blast intro: txn_step_inv)
qed

subsection \<open>Properties\<close>

lemma running_set:
  assumes "txn_inv eng"
  shows "{t. garry_txn_is_active t eng} = ti_txid ` set (filter in_progress (eng_txn_states eng))"
proof -
  let ?xs = "eng_txn_states eng"
  note d = txn_invD [OF assms]
  have slot: "find_txn_slot eng (ti_txid (?xs ! i)) = Some i" if "i < length ?xs" for i
  proof -
    have a: "eng_active_txns eng ! i = ti_txid (?xs ! i)"
      unfolding d(1) [symmetric] using that by (rule nth_map)
    have "ti_txid (?xs ! i) \<in> set (eng_active_txns eng)"
      unfolding a [symmetric] using that d(3) by simp
    then obtain j where j: "find_txn_slot eng (ti_txid (?xs ! i)) = Some j"
      using find_txn_slot_None_iff [of eng "ti_txid (?xs ! i)"] by auto
    have "i < length (eng_active_txns eng)" using that d(3) by simp
    with nth_eq_iff_index_eq [OF d(2), of j i] find_txn_slot_SomeD [OF j] a have "j = i" by simp
    with j show ?thesis by simp
  qed
  have "{t. garry_txn_is_active t eng} = set (map ti_txid (filter in_progress ?xs))"
  proof (intro set_eqI iffI)
    fix t assume "t \<in> {t. garry_txn_is_active t eng}"
    then obtain i where i: "find_txn_slot eng t = Some i" "in_progress (?xs ! i)"
      by (auto simp: garry_txn_is_active_def in_progress_def split: option.splits)
    from find_txn_slot_SomeD [OF i(1)] have "i < length ?xs" "ti_txid (?xs ! i) = t"
      using d(3) nth_map [of i ?xs ti_txid] by (simp_all add: d(1))
    with i(2) show "t \<in> set (map ti_txid (filter in_progress ?xs))" by force
  next
    fix t assume "t \<in> set (map ti_txid (filter in_progress ?xs))"
    then obtain i where "i < length ?xs" "t = ti_txid (?xs ! i)" "in_progress (?xs ! i)"
      by (auto simp: in_set_conv_nth)
    with slot show "t \<in> {t. garry_txn_is_active t eng}" by (auto simp: garry_txn_is_active_def in_progress_def)
  qed
  then show ?thesis by simp
qed

lemma length_filter_in_progress:
  assumes "txn_inv eng"
  shows "length (filter in_progress (eng_txn_states eng)) = card {t. garry_txn_is_active t eng}"
proof -
  have "distinct (map ti_txid (filter in_progress (eng_txn_states eng)))"
    using txn_invD(1,2) [OF assms] by (metis distinct_map_filter)
  from distinct_card [OF this] show ?thesis by (simp add: running_set [OF assms])
qed

text \<open>How the set of running transactions changes.\<close>

lemma running_remove:
  assumes "txn_inv eng" "find_txn_slot eng t = Some slot"
  shows "ti_txid ` set (filter in_progress (remove_at slot (eng_txn_states eng))) = {t. garry_txn_is_active t eng} - {t}"
proof -
  note d = txn_invD [OF assms(1)] and s = find_txn_slot_SomeD [OF assms(2)]
  have l: "slot < length (eng_txn_states eng)" using s d(3) by simp
  have "map ti_txid (eng_txn_states eng) ! slot = t" using s d(1) by simp
  then have "ti_txid (eng_txn_states eng ! slot) = t" using l by simp
  moreover have "distinct (map ti_txid (eng_txn_states eng))" using d(1,2) by simp
  ultimately show ?thesis
    using remove_at_filter_map [of ti_txid "eng_txn_states eng" slot] l by (auto simp: running_set [OF assms(1)])
qed

lemma running_commit:
  assumes "txn_inv eng"
  shows "{s. garry_txn_is_active s (garry_storage_commit eng t)} = {s. garry_txn_is_active s eng} - {t}"
proof (cases "find_txn_slot eng t")
  case None
  have "garry_txn_is_active s (garry_storage_commit eng t) \<longleftrightarrow> garry_txn_is_active s eng" for s
    using None by (simp add: garry_storage_commit_def garry_mvcc_commit_def Let_def garry_txn_is_active_def
        find_txn_slot_def cong: option.case_cong)
  moreover have "\<not> garry_txn_is_active t eng" using None by (simp add: garry_txn_is_active_def)
  ultimately show ?thesis by auto
next
  case (Some slot)
  have "eng_txn_states (garry_storage_commit eng t) = remove_at slot (eng_txn_states eng)"
    using Some by (simp add: garry_storage_commit_def garry_mvcc_commit_def remove_active_txn_def Let_def
        find_txn_slot_def remove_at_update)
  then show ?thesis
    using running_set [OF storage_end_table(1) [OF assms]] running_remove [OF assms Some] by simp
qed

lemma running_rollback:
  assumes "txn_inv eng"
  shows "{s. garry_txn_is_active s (garry_storage_rollback eng t)} = {s. garry_txn_is_active s eng} - {t}"
proof (cases "find_txn_slot eng t")
  case None
  have "garry_txn_is_active s (garry_storage_rollback eng t) \<longleftrightarrow> garry_txn_is_active s eng" for s
    using None by (simp add: garry_storage_rollback_def garry_mvcc_rollback_def Let_def garry_txn_is_active_def
        find_txn_slot_def cong: option.case_cong)
  moreover have "\<not> garry_txn_is_active t eng" using None by (simp add: garry_txn_is_active_def)
  ultimately show ?thesis by auto
next
  case (Some slot)
  let ?xs = "eng_txn_states eng" and ?st = "(eng_txn_states eng ! slot)
    \<lparr>ti_state := GARRY_TXN_ROLLED_BACK, ti_modified_pages := []\<rparr>"
  have l: "slot < length ?xs" using find_txn_slot_SomeD [OF Some] txn_invD(3) [OF assms] by simp
  have "eng_txn_states (garry_storage_rollback eng t) = ?xs[slot := ?st]"
    using Some by (simp add: garry_storage_rollback_def garry_mvcc_rollback_def Let_def find_txn_slot_def)
  moreover have "filter in_progress (?xs[slot := ?st]) = filter in_progress (remove_at slot ?xs)"
    using l by (simp add: upd_conv_take_nth_drop remove_at_def in_progress_def)
  ultimately show ?thesis
    unfolding running_set [OF storage_end_table(2) [OF assms]] running_remove [OF assms Some, symmetric] by metis
qed

lemma running_begin:
  assumes "txn_inv eng" "garry_storage_begin eng = (eng', t)" "t \<noteq> -1"
  shows "{s. garry_txn_is_active s eng'} = insert t {s. garry_txn_is_active s eng}"
proof -
  have b: "garry_mvcc_begin eng = (eng', t)" using assms(2) by (simp add: garry_storage_begin_def)
  have i: "txn_inv eng'" using begin_inv [OF assms(1)] b by simp
  have "eng_txn_states eng' = eng_txn_states eng @ [\<lparr>ti_txid = t, ti_state = GARRY_TXN_ACTIVE, ti_modified_pages = []\<rparr>]"
    using b assms(3) by (cases rule: begin_cases [of eng]) auto
  then show ?thesis using running_set [OF i] running_set [OF assms(1)] by (simp add: in_progress_def)
qed

text \<open>C34. The transaction table stays sound: in every state reachable by begins, commits,
  rollbacks, reads, writes and lock requests, the identifiers in the table are distinct, positive
  and below the next one, at most \<open>max_txns\<close> transactions are active, and the arrays of
  \<open>max_txns * 64\<close> entries and of 16 modified pages are never overrun.\<close>

theorem txn_table_sound:
  assumes "txn_reachable eng"
  shows "distinct (eng_active_txns eng)
    \<and> (\<forall>t \<in> set (eng_active_txns eng). 0 < t \<and> t < eng_next_txid eng)
    \<and> int (card {t. garry_txn_is_active t eng}) \<le> eng_max_txns eng
    \<and> int (length (eng_active_txns eng)) \<le> eng_max_txns eng * 64
    \<and> (\<forall>st \<in> set (eng_txn_states eng). length (ti_modified_pages st) \<le> 16)"
proof -
  note inv = txn_reachable_inv [OF assms]
  from txn_invD(2) [OF inv] show ?thesis
    using inv by (simp add: length_filter_in_progress [OF inv, symmetric] txn_inv_def)
qed

definition demo_engine :: garry_engine_handle where
  "demo_engine =
     \<lparr>eng_page_size = 512, eng_compression = 0, eng_btree_root = 1, eng_pool = demo_pool,
      eng_next_txid = 1, eng_max_txns = 4, eng_active_txns = [], eng_txn_states = [],
      eng_wal = demo_wal, eng_lock_mgr = garry_create_lock_manager,
      eng_settings = garry_default_engine_settings, eng_header = zero_db_header, eng_key_count = 0\<rparr>"

lemma demo_engine_reachable: "txn_reachable (fst (garry_storage_begin demo_engine))"
  by (rule txn_more [OF txn_start begin_txn]) (simp_all add: demo_engine_def)

theorem txn_table_sound_witness:
  "distinct (eng_active_txns (fst (garry_storage_begin demo_engine))) \<and>
   int (length (eng_active_txns (fst (garry_storage_begin demo_engine))))
     \<le> eng_max_txns (fst (garry_storage_begin demo_engine)) * 64"
  using txn_table_sound [OF demo_engine_reachable] by blast

subsection \<open>Isolation and durability\<close>

lemma read_log_cong:
  assumes "\<And>t. t < s \<Longrightarrow> t \<in> set a \<longleftrightarrow> t \<in> set b"
  shows "read_log s a xs = read_log s b xs"
proof -
  have "may_see s a t \<longleftrightarrow> may_see s b t" for t
    using assms [of t] by (cases "t = s") (auto simp: may_see_def)
  then show ?thesis by (simp add: read_log_def)
qed

lemma key_log_write:
  assumes "key_log eng cid xs" "bp_page_size pool = bp_page_size (eng_pool eng)"
    "bp_next_page pool = bp_next_page (eng_pool eng)" "page_log (eng_page_size eng) (page_view pool cid) ys"
    "eng_pool eng' = pool" "eng_page_size eng' = eng_page_size eng"
  shows "key_log eng' cid ys"
  using assms unfolding key_log_def by simp

lemma key_logD:
  assumes "key_log eng cid xs"
  shows "0 \<le> cid" "cid < bp_next_page (eng_pool eng)" "eng_page_size eng = bp_page_size (eng_pool eng)"
    "page_log (eng_page_size eng) (page_view (eng_pool eng) cid) xs"
  using assms unfolding key_log_def by blast+

lemma get_value:
  "pool_idle 2 (eng_pool eng) \<Longrightarrow> key_log eng cid xs \<Longrightarrow>
     snd (garry_mvcc_get eng s cid) = read_log s (eng_active_txns eng) xs"
  using mvcc_get_spec [of 0 eng cid xs s] by (metis add_0 snd_conv)

text \<open>A successful or refused write, seen through the engine.\<close>

lemma write_effect:
  assumes "pool_idle (n + 2) (eng_pool eng)" "key_log eng cid xs" "log_fits (eng_page_size eng) t v"
    and "mvcc_write eng t cid v = (eng1, ok)"
  shows "pool_idle n (eng_pool eng1)" "key_log eng1 cid (if ok then xs @ [(t, v)] else xs)"
    "eng_active_txns eng1 = eng_active_txns eng" "eng_next_txid eng1 = eng_next_txid eng"
    "eng_page_size eng1 = eng_page_size eng"
    "\<And>cid' ys. cid' \<noteq> cid \<Longrightarrow> key_log eng cid' ys \<Longrightarrow> key_log eng1 cid' ys"
proof -
  from assms(1-3) obtain pool ok' where w:
    "mvcc_write eng t cid v = ((if ok' then note_modified eng t cid else eng)\<lparr>eng_pool := pool\<rparr>, ok')"
    "pool_idle n pool" "bp_page_size pool = bp_page_size (eng_pool eng)"
    "bp_next_page pool = bp_next_page (eng_pool eng)"
    "page_log (eng_page_size eng) (page_view pool cid) (if ok' then xs @ [(t, v)] else xs)"
    "\<And>q. q \<noteq> cid \<Longrightarrow> agree 0 (bp_page_size pool) (page_view (eng_pool eng) q) (page_view pool q)"
    by (rule mvcc_write_spec) blast
  have e: "ok' = ok" "eng_pool eng1 = pool" "eng_active_txns eng1 = eng_active_txns eng"
    "eng_next_txid eng1 = eng_next_txid eng" "eng_page_size eng1 = eng_page_size eng"
    using w(1) assms(4) by auto
  show "pool_idle n (eng_pool eng1)" "eng_active_txns eng1 = eng_active_txns eng"
    "eng_next_txid eng1 = eng_next_txid eng" "eng_page_size eng1 = eng_page_size eng"
    using e w(2) by simp_all
  show "key_log eng1 cid (if ok then xs @ [(t, v)] else xs)"
    using key_log_write [OF assms(2) w(3,4) w(5)] e by simp
  show "key_log eng1 cid' ys" if "cid' \<noteq> cid" and k: "key_log eng cid' ys" for cid' ys
  proof (rule key_log_write [OF k w(3,4) _ e(2,5)])
    show "page_log (eng_page_size eng) (page_view pool cid') ys"
      using page_log_agree [OF key_logD(4) [OF k]] w(3) w(6) [OF that(1)] key_logD(3) [OF k] by simp
  qed
qed

definition noted_pages :: "garry_engine_handle \<Rightarrow> int \<Rightarrow> int list" where
  "noted_pages eng t =
     (case find_txn_slot eng t of
        None \<Rightarrow> [] | Some slot \<Rightarrow> take 16 (ti_modified_pages (eng_txn_states eng ! slot)))"

lemma remove_active_pool [simp]: "eng_pool (remove_active_txn eng t) = eng_pool eng"
  by (simp add: remove_active_txn_def split: option.split)

lemma mvcc_commit_pool: "eng_pool (garry_mvcc_commit eng t) = flush_pages (eng_pool eng) (noted_pages eng t)"
  by (cases "find_txn_slot eng t") (simp_all add: garry_mvcc_commit_def noted_pages_def Let_def)

lemma storage_commit_pool:
  "eng_pool (garry_storage_commit eng t) = flush_pages (eng_pool eng) (noted_pages eng t)"
  by (auto simp: garry_storage_commit_def mvcc_commit_pool noted_pages_def find_txn_slot_def Let_def
      split: option.split)

lemma commit_pool:
  assumes "pool_idle n (eng_pool eng)"
  shows "pool_idle n (eng_pool (garry_storage_commit eng t))"
    "page_view (eng_pool (garry_storage_commit eng t)) = page_view (eng_pool eng)"
    "bp_page_size (eng_pool (garry_storage_commit eng t)) = bp_page_size (eng_pool eng)"
    "bp_next_page (eng_pool (garry_storage_commit eng t)) = bp_next_page (eng_pool eng)"
    "bp_free_list_head (eng_pool (garry_storage_commit eng t)) = bp_free_list_head (eng_pool eng)"
proof -
  note f = flush_pages_spec [OF assms, of "noted_pages eng t", folded storage_commit_pool]
  from f show "pool_idle n (eng_pool (garry_storage_commit eng t))"
    "page_view (eng_pool (garry_storage_commit eng t)) = page_view (eng_pool eng)"
    "bp_page_size (eng_pool (garry_storage_commit eng t)) = bp_page_size (eng_pool eng)"
    "bp_next_page (eng_pool (garry_storage_commit eng t)) = bp_next_page (eng_pool eng)"
    "bp_free_list_head (eng_pool (garry_storage_commit eng t)) = bp_free_list_head (eng_pool eng)"
    by simp_all
qed

lemma key_log_commit:
  assumes "txn_inv eng" "pool_idle n (eng_pool eng)" "key_log eng cid xs"
  shows "key_log (garry_storage_commit eng t) cid xs"
  by (rule key_log_write [OF assms(3) commit_pool(3,4) [OF assms(2)] _ refl])
    (simp_all add: commit_pool(2) [OF assms(2)] key_logD(4) [OF assms(3)] storage_end_table(7) [OF assms(1)])

lemma key_log_rollback:
  assumes "txn_inv eng" "key_log eng cid xs"
  shows "key_log (garry_storage_rollback eng t) cid xs"
  by (rule key_log_write [OF assms(2) refl refl key_logD(4) [OF assms(2)]])
    (simp_all add: storage_end_table(8,9) [OF assms(1)])

lemma begin_effect:
  assumes "garry_storage_begin eng = (eng', s)" "s \<noteq> -1"
  shows "s = eng_next_txid eng" "eng_active_txns eng' = eng_active_txns eng @ [s]"
    "eng_pool eng' = eng_pool eng" "eng_page_size eng' = eng_page_size eng"
    "key_log eng cid xs \<Longrightarrow> key_log eng' cid xs"
proof -
  have b: "s = eng_next_txid eng \<and> eng_active_txns eng' = eng_active_txns eng @ [s] \<and>
      eng_pool eng' = eng_pool eng \<and> eng_page_size eng' = eng_page_size eng"
    using assms by (cases rule: begin_cases [of eng]) (auto simp: garry_storage_begin_def)
  then show "s = eng_next_txid eng" "eng_active_txns eng' = eng_active_txns eng @ [s]"
    "eng_pool eng' = eng_pool eng" "eng_page_size eng' = eng_page_size eng" by simp_all
  show "key_log eng' cid xs" if "key_log eng cid xs"
    by (rule key_log_write [OF that refl refl key_logD(4) [OF that]]) (simp_all add: b)
qed

text \<open>No dirty reads: while transaction \<open>t\<close> is in the table, what it writes is read by \<open>t\<close> itself
  and by no other transaction, on any chain page.\<close>

theorem no_dirty_reads:
  assumes "t \<in> set (eng_active_txns eng)" "pool_idle 4 (eng_pool eng)"
    and "key_log eng cid xs" "log_fits (eng_page_size eng) t v" "mvcc_write eng t cid v = (eng1, ok)"
    and "key_log eng cid' ys" "s \<noteq> t"
  shows "(ok \<longrightarrow> snd (garry_mvcc_get eng1 t cid) = v) \<and>
    snd (garry_mvcc_get eng1 s cid') = snd (garry_mvcc_get eng s cid')"
proof -
  have idle: "pool_idle (2 + 2) (eng_pool eng)" using assms(2) by simp
  note w = write_effect [OF idle assms(3-5)]
  have own: "snd (garry_mvcc_get eng1 t cid) = v" if ok
    using get_value [OF w(1,2)] that by (simp add: read_log_snoc may_see_def)
  have idle2: "pool_idle 2 (eng_pool eng)" using assms(2) by (rule pool_idle_mono) simp
  have "snd (garry_mvcc_get eng1 s cid') = snd (garry_mvcc_get eng s cid')"
  proof (cases "cid' = cid")
    case True
    have "read_log s (eng_active_txns eng) (if ok then xs @ [(t, v)] else xs) = read_log s (eng_active_txns eng) xs"
      using assms(1,7) by (auto simp: read_log_snoc may_see_def)
    then show ?thesis
      using get_value [OF w(1,2), of s] get_value [OF idle2 assms(3), of s] w(3) by (simp add: True)
  next
    case False
    have "key_log eng1 cid' ys" by (rule w(6) [OF False assms(6)])
    from get_value [OF w(1) this, of s] get_value [OF idle2 assms(6), of s] w(3) show ?thesis by simp
  qed
  with own show ?thesis by blast
qed

text \<open>A new chain page holds the empty log and leaves the logs of the other keys alone.\<close>

lemma chain_allocate_spec:
  assumes idle: "pool_idle (n + 3) (eng_pool eng)" and free: "bp_free_list_head (eng_pool eng) < 0"
    and ps: "eng_page_size eng = bp_page_size (eng_pool eng)"
  obtains eng' where "garry_chain_allocate eng = (eng', bp_next_page (eng_pool eng))"
    "pool_idle n (eng_pool eng')" "key_log eng' (bp_next_page (eng_pool eng)) []"
    "\<And>cid ys. key_log eng cid ys \<Longrightarrow> key_log eng' cid ys"
    "\<And>q. q \<noteq> bp_next_page (eng_pool eng) \<Longrightarrow> agree 0 (bp_page_size (eng_pool eng))
       (page_view (eng_pool eng) q) (page_view (eng_pool eng') q)"
    "bp_page_size (eng_pool eng') = bp_page_size (eng_pool eng)"
    "bp_free_list_head (eng_pool eng') = bp_free_list_head (eng_pool eng)"
    "bp_next_page (eng_pool eng') = bp_next_page (eng_pool eng) + 1"
    "eng' = eng\<lparr>eng_pool := eng_pool eng'\<rparr>"
proof -
  let ?pool = "eng_pool eng" and ?pid = "bp_next_page (eng_pool eng)"
  note inv = pool_idle_inv [OF idle]
  note d = pool_invD [OF inv]
  have "bp_pin_counts ?pool 0 = 0" "0 < bp_capacity ?pool"
    using d(1) idle by (auto simp: pool_idle_def)
  then obtain p1 where a: "garry_pool_allocate ?pool = (p1, ?pid)" and r1: "pool_ready (n + 2) p1"
    using allocate_fresh_ready [of "n + 2" ?pool 0] pool_idle_ready [OF idle] free
    by (auto simp: add.commute numeral_3_eq_3)
  have pid: "0 \<le> ?pid" using d by simp
  then have "?pid \<noteq> -1" by simp
  note sp = allocate_fresh_spec [OF inv free a]
  have idle1: "pool_idle (n + 2) p1"
    using r1 sp(2,7) idle by (auto simp: pool_idle_def)
  have np: "bp_next_page p1 = ?pid + 1" using sp(9) \<open>?pid \<noteq> -1\<close> by simp
  from idle1 pid obtain p2 i where p: "garry_pool_pin_page p1 ?pid = (p2, Some i)"
    "pool_ready n p2" "same_view p1 p2" "find_slot p2 ?pid = Some i"
    "bp_capacity p2 = bp_capacity p1"
    "agree 0 (bp_page_size p1) (page_view p1 ?pid) (bp_pages p2 i)"
    "\<And>j. j < bp_capacity p1 \<Longrightarrow> bp_pin_counts p2 j = (if j = i then 1 else 0)"
    by (rule idle_pin_cases) (use np in simp, blast)
  define page where "page = garry_chain_page_init (bp_pages p2 i) (eng_page_size eng)"
  define pool where "pool = garry_pool_release_page (garry_pool_mark_dirty (pool_write p2 i page) ?pid) ?pid"
  note st = store_release_idle [OF p(2,4) pid _ pool_def, unfolded p(5), OF p(7)]
  have b: "512 \<le> eng_page_size eng" "eng_page_size eng \<le> 65536" using d ps by simp_all
  have old: "agree 0 (bp_page_size ?pool) (page_view ?pool q) (page_view p2 q)" for q
    using sp(6) p(3) sp(3) by (auto simp: same_view_def intro: agree_trans)
  show ?thesis
  proof (rule that [of "eng\<lparr>eng_pool := pool\<rparr>"])
    show "garry_chain_allocate eng = (eng\<lparr>eng_pool := pool\<rparr>, ?pid)"
      using pid by (simp add: garry_chain_allocate_def a p(1) Let_def pool_def page_def)
    have sv: "bp_page_size pool = bp_page_size ?pool" "bp_next_page pool = ?pid + 1"
      using st(3,4) p(3) sp(3) np by (simp_all add: same_view_def)
    show "key_log (eng\<lparr>eng_pool := pool\<rparr>) ?pid []"
      unfolding key_log_def page_log_def using st(2) pid sv ps b
      by (auto simp: page_def intro!: exI [of _ "[]"] chain_rep_init)
    show "key_log (eng\<lparr>eng_pool := pool\<rparr>) cid ys" if k: "key_log eng cid ys" for cid ys
    proof -
      note kd = key_logD [OF k]
      have "agree 0 (bp_page_size ?pool) (page_view ?pool cid) (page_view p2 cid)" by (rule old)
      then have "page_log (eng_page_size eng) (page_view pool cid) ys"
        using page_log_agree [OF kd(4)] kd(2) st(2) ps by simp
      with kd sv ps show ?thesis unfolding key_log_def by simp
    qed
    show "agree 0 (bp_page_size ?pool) (page_view ?pool q) (page_view (eng_pool (eng\<lparr>eng_pool := pool\<rparr>)) q)"
      if "q \<noteq> ?pid" for q
      using old [of q] that by (simp add: st(2))
  qed (use st p(3) sp(3,4) np in \<open>simp_all add: same_view_def\<close>)
qed

text \<open>The end of a transaction decides over its writes.\<close>

lemma ended_write:
  assumes inv: "txn_inv eng" and t: "t \<in> set (eng_active_txns eng)"
    and idle: "pool_idle 4 (eng_pool eng)" and k: "key_log eng cid xs"
    and fits: "log_fits (eng_page_size eng) t v" and w: "mvcc_write eng t cid v = (eng1, True)"
    and nxt: "garry_storage_begin (if keep then garry_storage_commit eng1 t else garry_storage_rollback eng1 t)
      = (eng3, s)" "s \<noteq> -1"
  shows "t < s \<and> snd (garry_mvcc_get eng3 s cid) =
    (if keep then v else snd (garry_mvcc_get eng s cid))"
proof -
  have idle4: "pool_idle (2 + 2) (eng_pool eng)" using idle by simp
  note e = write_effect [OF idle4 k fits w, simplified]
  have inv1: "txn_inv eng1" using txn_step_inv [OF write_txn inv, of t cid v] w by simp
  let ?fin = "if keep then garry_storage_commit eng1 t else garry_storage_rollback eng1 t"
  note tab = storage_end_table [OF inv1, of t]
  have k2: "key_log ?fin cid (xs @ [(t, v)])" "pool_idle 2 (eng_pool ?fin)"
    using key_log_commit [OF inv1 e(1,2)] key_log_rollback [OF inv1 e(2)] commit_pool(1) [OF e(1)] e(1) tab(9)
    by simp_all
  note b = begin_effect [OF nxt]
  have s: "s = eng_next_txid eng" using b(1) tab(5,6) e(4) by (simp split: if_splits)
  with txn_invD(4) [OF inv t] have ts: "t < s" by simp
  have old: "snd (garry_mvcc_get eng s cid) = read_log s (eng_active_txns eng) xs"
    by (rule get_value [OF pool_idle_mono [OF idle] k]) simp
  have "eng_active_txns eng3 = (if keep then filter (\<lambda>x. x \<noteq> t) (eng_active_txns eng)
      else eng_active_txns eng) @ [s]"
    using b(2) tab(3,4) e(3) by simp
  then have new: "snd (garry_mvcc_get eng3 s cid) = (if keep then v else read_log s (eng_active_txns eng @ [s]) xs)"
    using get_value [OF _ b(5) [OF k2(1)], of s] k2(2) b(3) t ts
    by (auto simp: read_log_snoc may_see_def split: if_splits)
  have "read_log s (eng_active_txns eng @ [s]) xs = read_log s (eng_active_txns eng) xs"
    by (rule read_log_cong) auto
  with new old ts show ?thesis by simp
qed

text \<open>Commit publishes: what a transaction wrote and committed is what the next transaction to
  begin reads, and the identifier of that transaction is larger.\<close>

theorem commit_publishes_write:
  assumes "txn_reachable eng" "t \<in> set (eng_active_txns eng)" "pool_idle 4 (eng_pool eng)"
    and "key_log eng cid xs" "log_fits (eng_page_size eng) t v" "mvcc_write eng t cid v = (eng1, True)"
    and "garry_storage_begin (garry_storage_commit eng1 t) = (eng3, s)" "s \<noteq> -1"
  shows "t < s \<and> snd (garry_mvcc_get eng3 s cid) = v"
  using ended_write [OF txn_reachable_inv [OF assms(1)] assms(2-6), where keep = True] assms(7,8) by simp

text \<open>Rollback hides: what a rolled back transaction wrote is not read by the next transaction,
  which reads what it would have read before the write.\<close>

theorem rollback_hides_write:
  assumes "txn_reachable eng" "t \<in> set (eng_active_txns eng)" "pool_idle 4 (eng_pool eng)"
    and "key_log eng cid xs" "log_fits (eng_page_size eng) t v" "mvcc_write eng t cid v = (eng1, True)"
    and "garry_storage_begin (garry_storage_rollback eng1 t) = (eng3, s)" "s \<noteq> -1"
  shows "snd (garry_mvcc_get eng3 s cid) = snd (garry_mvcc_get eng s cid)"
  using ended_write [OF txn_reachable_inv [OF assms(1)] assms(2-6), where keep = False] assms(7,8) by simp

text \<open>C37. The snapshot of a running transaction is not fixed: a value that a transaction with a
  smaller identifier commits while the reader runs replaces, in the middle of the reader's
  transaction, what the reader read before.\<close>

theorem running_reader_sees_commit:
  assumes "txn_reachable eng" "{t, s} \<subseteq> set (eng_active_txns eng)" "t < s"
    and "pool_idle 4 (eng_pool eng)" "key_log eng cid xs" "log_fits (eng_page_size eng) t v"
    and "mvcc_write eng t cid v = (eng1, True)"
  shows "snd (garry_mvcc_get eng1 s cid) = snd (garry_mvcc_get eng s cid) \<and>
    snd (garry_mvcc_get (garry_storage_commit eng1 t) s cid) = v"
proof -
  note inv = txn_reachable_inv [OF assms(1)]
  have idle4: "pool_idle (2 + 2) (eng_pool eng)" using assms(4) by simp
  note e = write_effect [OF idle4 assms(5-7), simplified]
  have inv1: "txn_inv eng1" using txn_step_inv [OF write_txn inv, of t cid v] assms(7) by simp
  have "snd (garry_mvcc_get eng1 s cid) = read_log s (eng_active_txns eng) xs"
    using get_value [OF e(1,2), of s] assms(2,3) e(3) by (auto simp: read_log_snoc may_see_def)
  moreover have "snd (garry_mvcc_get eng s cid) = read_log s (eng_active_txns eng) xs"
    by (rule get_value [OF pool_idle_mono [OF assms(4)] assms(5)]) simp
  moreover have "snd (garry_mvcc_get (garry_storage_commit eng1 t) s cid) = v"
    using get_value [OF commit_pool(1) [OF e(1)] key_log_commit [OF inv1 e(1,2)], of t s] assms(3)
      storage_end_table(3) [OF inv1, of t]
    by (simp add: read_log_snoc may_see_def)
  ultimately show ?thesis by simp
qed

subsection \<open>Witnesses\<close>

text \<open>An engine with one key, on chain page 2, and the transactions 1 and 2.\<close>

definition demo_keyed :: garry_engine_handle where
  "demo_keyed = fst (garry_chain_allocate demo_engine)"

definition demo_two :: garry_engine_handle where
  "demo_two = fst (garry_storage_begin (fst (garry_storage_begin demo_keyed)))"

lemma demo_engine_pool_sel:
  "eng_active_txns (demo_engine\<lparr>eng_pool := pool\<rparr>) = []"
  "eng_txn_states (demo_engine\<lparr>eng_pool := pool\<rparr>) = []"
  "eng_next_txid (demo_engine\<lparr>eng_pool := pool\<rparr>) = 1"
  "eng_max_txns (demo_engine\<lparr>eng_pool := pool\<rparr>) = 4"
  "eng_lock_mgr (demo_engine\<lparr>eng_pool := pool\<rparr>) = garry_create_lock_manager"
  "eng_page_size (demo_engine\<lparr>eng_pool := pool\<rparr>) = 512"
  by (simp_all add: demo_engine_def)

lemma demo_keyed_facts:
  "pool_idle 997 (eng_pool demo_keyed)" "key_log demo_keyed 2 []" "eng_active_txns demo_keyed = []"
  "eng_txn_states demo_keyed = []" "eng_next_txid demo_keyed = 1" "eng_max_txns demo_keyed = 4"
  "eng_lock_mgr demo_keyed = garry_create_lock_manager" "eng_page_size demo_keyed = 512"
proof -
  have i: "pool_idle (997 + 3) (eng_pool demo_engine)"
    using demo_pool_idle by (simp add: demo_engine_def)
  have f: "bp_free_list_head (eng_pool demo_engine) < 0"
    "eng_page_size demo_engine = bp_page_size (eng_pool demo_engine)"
    and n: "bp_next_page (eng_pool demo_engine) = 2"
    by (simp_all add: demo_engine_def demo_pool_eq)
  obtain e where e: "garry_chain_allocate demo_engine = (e, 2)" "pool_idle 997 (eng_pool e)"
    "key_log e 2 []" "e = demo_engine\<lparr>eng_pool := eng_pool e\<rparr>"
    by (rule chain_allocate_spec [OF i f, unfolded n]) blast
  then have "demo_keyed = e" by (simp add: demo_keyed_def)
  moreover have "eng_active_txns e = []" "eng_txn_states e = []" "eng_next_txid e = 1" "eng_max_txns e = 4"
    "eng_lock_mgr e = garry_create_lock_manager" "eng_page_size e = 512"
    using e(4) by (metis demo_engine_pool_sel)+
  ultimately show "pool_idle 997 (eng_pool demo_keyed)" "key_log demo_keyed 2 []"
    "eng_active_txns demo_keyed = []" "eng_txn_states demo_keyed = []" "eng_next_txid demo_keyed = 1"
    "eng_max_txns demo_keyed = 4" "eng_lock_mgr demo_keyed = garry_create_lock_manager"
    "eng_page_size demo_keyed = 512"
    using e by simp_all
qed

lemma demo_two_facts:
  "txn_reachable demo_two" "pool_idle 4 (eng_pool demo_two)" "key_log demo_two 2 []"
  "eng_active_txns demo_two = [1, 2]" "log_fits (eng_page_size demo_two) 1 (Some [65])"
proof -
  note d = demo_keyed_facts
  have start: "txn_reachable demo_keyed" by (rule txn_start) (simp_all add: d)
  show "txn_reachable demo_two"
    unfolding demo_two_def by (rule txn_more [OF txn_more [OF start begin_txn] begin_txn])
  have b: "garry_storage_begin demo_keyed = (e, s) \<Longrightarrow> s = 1 \<and> eng_active_txns e = [1] \<and>
      eng_next_txid e = 2 \<and> eng_max_txns e = 4 \<and> length (eng_txn_states e) = 1 \<and> key_log e 2 [] \<and>
      eng_pool e = eng_pool demo_keyed \<and> eng_page_size e = 512" for e s
    using begin_effect(5) [of demo_keyed e s 2 "[]"] d
    by (auto simp: garry_storage_begin_def garry_mvcc_begin_def)
  obtain e s where e: "garry_storage_begin demo_keyed = (e, s)" by fastforce
  obtain e2 s2 where e2: "garry_storage_begin e = (e2, s2)" by fastforce
  have l: "length (filter P (eng_txn_states e)) \<le> 1" for P
    using b [OF e] length_filter_le [of P "eng_txn_states e"] by simp
  have "s2 \<noteq> -1"
    using e2 b [OF e] l [of "\<lambda>st. ti_state st \<noteq> GARRY_TXN_ROLLED_BACK"]
    by (auto simp: garry_storage_begin_def garry_mvcc_begin_def Let_def split: if_splits)
  from begin_effect [OF e2 this] b [OF e] e e2 d
  show "pool_idle 4 (eng_pool demo_two)" "key_log demo_two 2 []" "eng_active_txns demo_two = [1, 2]"
    "log_fits (eng_page_size demo_two) 1 (Some [65])"
    by (auto simp: demo_two_def log_fits_def i32_def garry_chain_inline_capacity_def
        intro: pool_idle_mono [OF d(1)])
qed

lemma demo_two_max: "eng_max_txns demo_two = 4"
  using demo_keyed_facts by (auto simp: demo_two_def garry_storage_begin_def garry_mvcc_begin_def Let_def)

lemma demo_two_write: "snd (mvcc_write demo_two 1 2 (Some [65]))"
  by code_simp

lemma demo_two_written:
  obtains eng1 where "mvcc_write demo_two 1 2 (Some [65]) = (eng1, True)"
  using demo_two_write by (metis prod.collapse)

theorem no_dirty_reads_witness:
  "\<exists>eng1. mvcc_write demo_two 1 2 (Some [65]) = (eng1, True) \<and>
     snd (garry_mvcc_get eng1 1 2) = Some [65] \<and> snd (garry_mvcc_get eng1 2 2) = None"
proof -
  note d = demo_two_facts
  obtain eng1 where w: "mvcc_write demo_two 1 2 (Some [65]) = (eng1, True)" by (rule demo_two_written)
  have "snd (garry_mvcc_get demo_two 2 2) = None"
    using get_value [OF pool_idle_mono [OF d(2)] d(3), of 2] by (simp add: read_log_def)
  with no_dirty_reads [OF _ d(2,3,5) w d(3), of 2] w d(4) show ?thesis by simp
qed

lemma end_max_txns [simp]:
  "eng_max_txns (garry_storage_commit eng t) = eng_max_txns eng"
  "eng_max_txns (garry_storage_rollback eng t) = eng_max_txns eng"
proof -
  have "eng_max_txns (garry_mvcc_commit e t) = eng_max_txns e"
    "eng_max_txns (garry_mvcc_rollback e t) = eng_max_txns e" for e
    by (cases "find_txn_slot e t";
        simp add: garry_mvcc_commit_def garry_mvcc_rollback_def remove_active_txn_def Let_def
        split: option.split)+
  then show "eng_max_txns (garry_storage_commit eng t) = eng_max_txns eng"
    "eng_max_txns (garry_storage_rollback eng t) = eng_max_txns eng"
    by (simp_all add: garry_storage_commit_def garry_storage_rollback_def Let_def)
qed

lemma begin_succeeds:
  assumes "txn_inv eng" "int (length (eng_active_txns eng)) < eng_max_txns eng"
  shows "snd (garry_storage_begin eng) \<noteq> -1"
proof -
  have "length (filter in_progress (eng_txn_states eng)) \<le> length (eng_active_txns eng)"
    using txn_invD(3) [OF assms(1)] by (metis length_filter_le)
  moreover have "0 < eng_next_txid eng" using assms(1) by (simp add: txn_inv_def)
  ultimately show ?thesis
    using assms(2) by (cases rule: begin_cases [of eng]) (auto simp: garry_storage_begin_def)
qed

lemma demo_two_next:
  assumes "mvcc_write demo_two 1 2 (Some [65]) = (eng1, True)"
  shows "snd (garry_storage_begin (garry_storage_commit eng1 1)) \<noteq> -1"
    "snd (garry_storage_begin (garry_storage_rollback eng1 1)) \<noteq> -1"
proof -
  note d = demo_two_facts
  have m: "eng_max_txns eng1 = 4"
    using write_table [of demo_two 1 2 "Some [65]"] demo_two_max assms by auto
  have "pool_idle (2 + 2) (eng_pool demo_two)" using d(2) by simp
  note e = write_effect [OF this d(3,5) assms]
  have inv1: "txn_inv eng1"
    using txn_step_inv [OF write_txn txn_reachable_inv [OF d(1)], of 1 2 "Some [65]"] assms by simp
  note t = storage_end_table [OF inv1, of 1]
  show "snd (garry_storage_begin (garry_storage_commit eng1 1)) \<noteq> -1"
    by (rule begin_succeeds [OF t(1)]) (simp add: t(3) e(3) d(4) m)
  show "snd (garry_storage_begin (garry_storage_rollback eng1 1)) \<noteq> -1"
    by (rule begin_succeeds [OF t(2)]) (simp add: t(4) e(3) d(4) m)
qed

theorem commit_publishes_write_witness:
  "\<exists>eng1 eng3 s. mvcc_write demo_two 1 2 (Some [65]) = (eng1, True) \<and>
     garry_storage_begin (garry_storage_commit eng1 1) = (eng3, s) \<and>
     snd (garry_mvcc_get eng3 s 2) = Some [65]"
proof -
  note d = demo_two_facts
  obtain eng1 where w: "mvcc_write demo_two 1 2 (Some [65]) = (eng1, True)" by (rule demo_two_written)
  obtain eng3 s where b: "garry_storage_begin (garry_storage_commit eng1 1) = (eng3, s)" by fastforce
  from commit_publishes_write [OF d(1) _ d(2,3,5) w b] demo_two_next(1) [OF w] b d(4) w
  show ?thesis by (metis insertI1 list.simps(15) snd_conv)
qed

theorem rollback_hides_write_witness:
  "\<exists>eng1 eng3 s. mvcc_write demo_two 1 2 (Some [65]) = (eng1, True) \<and>
     garry_storage_begin (garry_storage_rollback eng1 1) = (eng3, s) \<and>
     snd (garry_mvcc_get eng3 s 2) = None"
proof -
  note d = demo_two_facts
  obtain eng1 where w: "mvcc_write demo_two 1 2 (Some [65]) = (eng1, True)" by (rule demo_two_written)
  obtain eng3 s where b: "garry_storage_begin (garry_storage_rollback eng1 1) = (eng3, s)" by fastforce
  have "snd (garry_mvcc_get demo_two s 2) = None"
    using get_value [OF pool_idle_mono [OF d(2)] d(3), of s] by (simp add: read_log_def)
  with rollback_hides_write [OF d(1) _ d(2,3,5) w b] demo_two_next(2) [OF w] b d(4) w
  show ?thesis by (metis insertI1 list.simps(15) snd_conv)
qed

theorem running_reader_sees_commit_witness:
  "\<exists>eng1. mvcc_write demo_two 1 2 (Some [65]) = (eng1, True) \<and>
     snd (garry_mvcc_get demo_two 2 2) = None \<and>
     snd (garry_mvcc_get (garry_storage_commit eng1 1) 2 2) = Some [65]"
proof -
  note d = demo_two_facts
  obtain eng1 where w: "mvcc_write demo_two 1 2 (Some [65]) = (eng1, True)" by (rule demo_two_written)
  have "snd (garry_mvcc_get demo_two 2 2) = None"
    using get_value [OF pool_idle_mono [OF d(2)] d(3), of 2] by (simp add: read_log_def)
  with running_reader_sees_commit [OF d(1) _ _ d(2,3,5) w, of 2] d(4) w show ?thesis by simp
qed

subsection \<open>Durability of a commit\<close>

definition durable_page :: "garry_buffer_pool \<Rightarrow> int \<Rightarrow> bool" where
  "durable_page pool pid \<longleftrightarrow> agree 0 (bp_page_size pool) (f_pages (bp_fd pool) pid) (page_view pool pid)"

lemma written_slot_durable:
  assumes "pool_ready n pool" "i < bp_capacity pool" "bp_loaded pool i"
    and "durable_page pool pid \<or> pid = bp_page_ids pool i"
  shows "durable_page (written_slot pool i) pid"
proof -
  have wok: "f_wok (bp_fd pool) p" for p using assms(1) by (simp add: pool_ready_def)
  note v = written_slot_view [OF assms(2,3) wok]
  have "find_slot pool (bp_page_ids pool i) = Some i"
    using find_slot_Some_iff [OF pool_ready_inv [OF assms(1)], of "bp_page_ids pool i" i] assms(2,3) by simp
  with assms(4) show ?thesis
    by (auto simp: durable_page_def v written_slot_file [OF wok] page_view_def agree_def)
qed

lemma flush_page_durable:
  assumes rdy: "pool_ready n pool" and "0 \<le> pid" "durable_page pool q \<or> q = pid"
  shows "durable_page (fst (garry_pool_flush_page pool pid)) q"
proof (cases "find_slot pool pid")
  case None
  then have "durable_page pool pid" by (simp add: durable_page_def page_view_def)
  with None assms(2,3) show ?thesis by (auto simp: flush_page_eq)
next
  case (Some i)
  note s = find_slot_SomeD [OF Some]
  show ?thesis
  proof (cases "bp_dirty pool i")
    case True
    have "f_wok (bp_fd pool) (bp_page_ids pool i)" using rdy by (simp add: pool_ready_def)
    with True Some s assms(2,3) written_slot_durable [OF rdy, of i q] show ?thesis
      by (auto simp: flush_page_eq)
  next
    case False
    then have "durable_page pool pid"
      using pool_invD(9) [OF pool_ready_inv [OF rdy], of i] s
      by (simp add: durable_page_def page_view_def Some agree_sym)
    with False Some assms(2,3) show ?thesis by (auto simp: flush_page_eq)
  qed
qed

lemma flush_pages_durable:
  assumes "pool_ready n pool" "\<forall>p \<in> set pids. 0 \<le> p" "durable_page pool q \<or> q \<in> set pids"
  shows "durable_page (flush_pages pool pids) q"
  using assms
proof (induction pids arbitrary: pool)
  case (Cons pid pids)
  have "durable_page (fst (garry_pool_flush_page pool pid)) q \<or> q \<in> set pids"
    using flush_page_durable [OF Cons.prems(1), of pid q] Cons.prems(2,3) by auto
  with Cons.IH [OF flush_page_ready [OF Cons.prems(1)]] Cons.prems(2) show ?case by simp
qed simp

text \<open>A commit makes the first 16 pages the transaction wrote durable: after it the file holds
  each of them as readers see it.\<close>

theorem commit_makes_written_pages_durable:
  assumes "pool_idle n (eng_pool eng)" "find_txn_slot eng t = Some slot"
    and "pid \<in> set (take 16 (ti_modified_pages (eng_txn_states eng ! slot)))"
    and "\<forall>p \<in> set (ti_modified_pages (eng_txn_states eng ! slot)). 0 \<le> p"
    and "pool = eng_pool (garry_storage_commit eng t)"
  shows "agree 0 (bp_page_size pool) (f_pages (bp_fd pool) pid) (page_view pool pid) \<and>
    page_view pool pid = page_view (eng_pool eng) pid"
proof -
  have "noted_pages eng t = take 16 (ti_modified_pages (eng_txn_states eng ! slot))"
    by (simp add: noted_pages_def assms(2))
  with assms(3-5) flush_pages_durable [OF pool_idle_ready [OF assms(1)], of "noted_pages eng t" pid]
  have "durable_page pool pid" by (auto simp: storage_commit_pool dest: in_set_takeD)
  then show ?thesis using commit_pool(2) [OF assms(1)] assms(5) by (simp add: durable_page_def)
qed

lemma demo_two_noted:
  assumes "mvcc_write demo_two 1 2 (Some [65]) = (eng1, True)"
  shows "find_txn_slot eng1 1 = Some 0" "ti_modified_pages (eng_txn_states eng1 ! 0) = [2]"
proof -
  have "find_txn_slot (fst (mvcc_write demo_two 1 2 (Some [65]))) 1 = Some 0"
    "ti_modified_pages (eng_txn_states (fst (mvcc_write demo_two 1 2 (Some [65]))) ! 0) = [2]"
    by code_simp+
  then show "find_txn_slot eng1 1 = Some 0" "ti_modified_pages (eng_txn_states eng1 ! 0) = [2]"
    by (simp_all add: assms)
qed

theorem commit_makes_written_pages_durable_witness:
  "\<exists>eng1 pool. mvcc_write demo_two 1 2 (Some [65]) = (eng1, True) \<and>
     pool = eng_pool (garry_storage_commit eng1 1) \<and>
     agree 0 (bp_page_size pool) (f_pages (bp_fd pool) 2) (page_view pool 2)"
proof -
  note d = demo_two_facts
  obtain eng1 where w: "mvcc_write demo_two 1 2 (Some [65]) = (eng1, True)" by (rule demo_two_written)
  have "pool_idle (2 + 2) (eng_pool demo_two)" using d(2) by simp
  note e = write_effect [OF this d(3,5) w]
  have "agree 0 (bp_page_size pool) (f_pages (bp_fd pool) 2) (page_view pool 2)"
    if "pool = eng_pool (garry_storage_commit eng1 1)" for pool
    by (rule conjunct1 [OF commit_makes_written_pages_durable [OF e(1) demo_two_noted(1) [OF w] _ _ that]])
      (simp_all add: demo_two_noted(2) [OF w])
  with w show ?thesis by blast
qed

end
