(* ===== verification/Garry_Lz4.thy ===== *)
theory Garry_Lz4
  imports Garry_Prelude
begin

text \<open>
  The compressor: \<open>src/src/lz4.c\<close>. Sizes (\<open>size_t\<close>) are natural numbers; with at most
  \<open>LZ4_MAX_INPUT_SIZE\<close> input bytes none wraps. The source is a list of bytes; the compressor's
  output position is the length of the output list, the decompressor's input position is the
  list of the bytes that remain, and \<open>None\<close> is the null pointer. Memory allocation succeeds.

  The lemmas show that a match the search reports is a match, that a sequence the compressor emits
  is decoded to the bytes it stands for, and from these the round trip for every input the
  compressor accepts, and the bound on the output that its buffer is allocated with.
\<close>

subsection \<open>Matches\<close>

definition LZ4_MAX_INPUT_SIZE :: nat where "LZ4_MAX_INPUT_SIZE = 65536"
definition HASH_TABLE_SIZE :: nat where "HASH_TABLE_SIZE = 32768"
definition MIN_MATCH :: nat where "MIN_MATCH = 4"
definition MAX_MATCH :: nat where "MAX_MATCH = 65536"

definition lz4_byte_to_int :: "byte \<Rightarrow> nat" where
  "lz4_byte_to_int b = unat b"

definition lz4_compress_bound :: "nat \<Rightarrow> nat" where
  "lz4_compress_bound src_len =
     (if src_len > LZ4_MAX_INPUT_SIZE then 0 else src_len + src_len div 255 + 16)"

text \<open>The hash of three bytes. The unsigned arithmetic of C is exact here.\<close>

definition lz77_hash :: "byte list \<Rightarrow> nat \<Rightarrow> nat" where
  "lz77_hash src ip =
     (let h = push_bit 8 (unat (src ! ip)) XOR unat (src ! (ip + 1))
      in (push_bit 8 h XOR unat (src ! (ip + 2))) AND (HASH_TABLE_SIZE - 1))"

function lz77_compare :: "byte list \<Rightarrow> nat \<Rightarrow> nat \<Rightarrow> nat \<Rightarrow> nat \<Rightarrow> nat" where
  "lz77_compare src s ip max_cmp len =
     (if len < max_cmp \<and> src ! (s + len) = src ! (ip + len)
      then lz77_compare src s ip max_cmp (len + 1) else len)"
  by pat_completeness auto
termination
  by (relation "measure (\<lambda>(src, s, ip, max_cmp, len). max_cmp - len)") auto

declare lz77_compare.simps [simp del]

function lz77_search :: "byte list \<Rightarrow> nat \<Rightarrow> nat \<Rightarrow> nat \<Rightarrow> nat \<Rightarrow> nat \<Rightarrow> nat \<Rightarrow> nat \<times> nat" where
  "lz77_search src ip limit min_match s best_len best_off =
     (if s < ip \<and> best_len < limit
      then
        (let max_cmp = ip - s;
             max_cmp = (if max_cmp > limit then limit else max_cmp);
             max_cmp = (if max_cmp > length src - ip then length src - ip else max_cmp);
             len = lz77_compare src s ip max_cmp 0
         in if len \<ge> min_match \<and> len > best_len
            then lz77_search src ip limit min_match (s + 1) len (ip - s)
            else lz77_search src ip limit min_match (s + 1) best_len best_off)
      else (best_len, best_off))"
  by pat_completeness auto
termination
  by (relation "measure (\<lambda>(src, ip, limit, min_match, s, _, _). ip - s)")
    (auto simp: Let_def intro: diff_less_mono2)

declare lz77_search.simps [simp del]

definition lz77_match_find ::
  "byte list \<Rightarrow> nat \<Rightarrow> (nat \<Rightarrow> int) \<Rightarrow> nat \<Rightarrow> nat \<Rightarrow> (nat \<Rightarrow> int) \<times> nat \<times> nat" where
  "lz77_match_find src ip hash_table min_match max_match =
     (if ip + min_match > length src then (hash_table, 0, 0)
      else
        (let h = lz77_hash src ip;
             idx = hash_table h;
             hash_table = hash_table(h := int ip)
         in if idx < 0 \<or> nat idx \<ge> ip then (hash_table, 0, 0)
            else
              (let limit = (if ip > max_match then max_match else ip);
                   (best_len, best_off) = lz77_search src ip limit min_match (nat idx) 0 0
               in if best_len \<ge> min_match then (hash_table, best_off, best_len)
                  else (hash_table, 0, 0))))"

subsection \<open>Compression\<close>

text \<open>The bytes \<open>255\<close> and the last byte of a length, and the whole extension of a length.\<close>

function ext_bytes :: "nat \<Rightarrow> byte list" where
  "ext_bytes ext = (if ext \<ge> 255 then 255 # ext_bytes (ext - 255) else [of_nat ext])"
  by pat_completeness auto
termination
  by (relation "measure id") auto

declare ext_bytes.simps [simp del]

definition emit_ext :: "nat \<Rightarrow> byte list" where
  "emit_ext ext = (if ext \<ge> 15 then ext_bytes (ext - 15) else [])"

text \<open>The bytes of the last sequence: literals only.\<close>

definition emit_literals :: "byte list \<Rightarrow> byte list" where
  "emit_literals lits =
     (let lit_len = length lits;
          token = (if lit_len > 15 then 15 * 16 else lit_len * 16)
      in of_nat token # emit_ext lit_len @ lits)"

text \<open>The bytes of a sequence of literals and a match; \<open>match_len\<close> is already reduced.\<close>

definition emit_sequence :: "byte list \<Rightarrow> nat \<Rightarrow> nat \<Rightarrow> byte list" where
  "emit_sequence lits offset match_len =
     (let lit_len = length lits;
          token = (if lit_len > 15
                   then (if match_len > 15 then 15 * 16 + 15 else 15 * 16 + match_len)
                   else (if match_len > 15 then lit_len * 16 + 15 else lit_len * 16 + match_len))
      in of_nat token # emit_ext lit_len @ lits @
           [of_nat (offset mod 256), of_nat (offset div 256)] @ emit_ext match_len)"

function compress_loop ::
  "byte list \<Rightarrow> nat \<Rightarrow> nat \<Rightarrow> (nat \<Rightarrow> int) \<Rightarrow> byte list \<Rightarrow> nat \<times> byte list" where
  "compress_loop src ip anchor hash_table out =
     (if ip < length src - 12
      then
        (case lz77_match_find src ip hash_table MIN_MATCH MAX_MATCH of
           (hash_table, match_off, match_len) \<Rightarrow>
             if match_len \<ge> MIN_MATCH
             then compress_loop src (ip + match_len) (ip + match_len) hash_table
                    (out @ emit_sequence (take (ip - anchor) (drop anchor src)) match_off
                             (match_len - MIN_MATCH))
             else compress_loop src (ip + 1) anchor hash_table out)
      else (anchor, out))"
  by pat_completeness auto
termination
  by (relation "measure (\<lambda>(src, ip, _). length src - ip)") (auto simp: MIN_MATCH_def)

declare compress_loop.simps [simp del]

definition lz4_compress :: "byte list \<Rightarrow> byte list option" where
  "lz4_compress src =
     (if length src = 0 \<or> length src > LZ4_MAX_INPUT_SIZE then None
      else if length src < 12 then Some (emit_literals src)
      else
        (case compress_loop src 0 0 (\<lambda>_. -1) [] of
           (anchor, out) \<Rightarrow> Some (out @ emit_literals (drop anchor src))))"

subsection \<open>Decompression\<close>

text \<open>Reading the extension of a length.\<close>

fun read_ext :: "byte list \<Rightarrow> nat \<Rightarrow> (nat \<times> byte list) option" where
  "read_ext [] len = None"
| "read_ext (b # rest) len =
     (let ext = lz4_byte_to_int b
      in if ext = 255 then read_ext rest (len + ext) else Some (len + ext, rest))"

fun copy_literals :: "nat \<Rightarrow> byte list \<Rightarrow> byte list \<Rightarrow> nat \<Rightarrow> (byte list \<times> byte list) option" where
  "copy_literals dst_capacity rest out 0 = Some (rest, out)"
| "copy_literals dst_capacity rest out (Suc lit_len) =
     (if length out \<ge> dst_capacity then None
      else case rest of
             [] \<Rightarrow> None
           | b # rest \<Rightarrow> copy_literals dst_capacity rest (out @ [b]) lit_len)"

fun copy_match :: "nat \<Rightarrow> byte list \<Rightarrow> nat \<Rightarrow> nat \<Rightarrow> byte list option" where
  "copy_match dst_capacity out offset 0 = Some out"
| "copy_match dst_capacity out offset (Suc match_len) =
     (if length out \<ge> dst_capacity then None
      else copy_match dst_capacity
             (out @ [if offset > 0 \<and> offset \<le> length out then out ! (length out - offset) else 0])
             offset match_len)"

lemma read_ext_length: "read_ext rest len = Some (len', rest') \<Longrightarrow> length rest' < length rest"
  by (induction rest len rule: read_ext.induct) (auto simp: Let_def split: if_splits)

lemma copy_literals_length: "copy_literals cap rest out n = Some (rest', out') \<Longrightarrow> length rest' \<le> length rest"
  by (induction cap rest out n rule: copy_literals.induct) (auto split: if_splits list.splits)

function decompress_loop :: "nat \<Rightarrow> byte list \<Rightarrow> byte list \<Rightarrow> byte list option" where
  "decompress_loop dst_capacity src out =
     (case src of
        [] \<Rightarrow> Some out
      | b # rest \<Rightarrow>
          (let token = lz4_byte_to_int b; lit_len = token div 16; match_len = token mod 16
           in case (if lit_len = 15 then read_ext rest lit_len else Some (lit_len, rest)) of
                None \<Rightarrow> None
              | Some (lit_len, rest) \<Rightarrow>
                  (case copy_literals dst_capacity rest out lit_len of
                     None \<Rightarrow> None
                   | Some (rest, out) \<Rightarrow>
                       (case rest of
                          [] \<Rightarrow> Some out
                        | [_] \<Rightarrow> None
                        | b0 # b1 # rest \<Rightarrow>
                            (let offset = lz4_byte_to_int b0 + lz4_byte_to_int b1 * 256
                             in if offset = 0 then None
                                else
                                  (case (if match_len = 15 then read_ext rest match_len
                                         else Some (match_len, rest)) of
                                     None \<Rightarrow> None
                                   | Some (match_len, rest) \<Rightarrow>
                                       (case copy_match dst_capacity out offset (match_len + MIN_MATCH) of
                                          None \<Rightarrow> None
                                        | Some out \<Rightarrow> decompress_loop dst_capacity rest out)))))))"
  by pat_completeness auto
termination
  by (relation "measure (\<lambda>(_, src, _). length src)")
    (auto simp: Let_def split: if_splits dest!: read_ext_length copy_literals_length)

declare decompress_loop.simps [simp del]

definition lz4_decompress :: "byte list \<Rightarrow> nat \<Rightarrow> byte list option" where
  "lz4_decompress src dst_capacity =
     (if length src = 0 \<or> dst_capacity = 0 then None else decompress_loop dst_capacity src [])"

subsection \<open>The search reports matches\<close>

definition is_match :: "byte list \<Rightarrow> nat \<Rightarrow> nat \<Rightarrow> nat \<Rightarrow> bool" where
  "is_match src ip off len \<longleftrightarrow>
     0 < off \<and> off \<le> ip \<and> ip + len \<le> length src \<and> (\<forall>j < len. src ! (ip - off + j) = src ! (ip + j))"

lemma compare_spec:
  "len \<le> max_cmp \<Longrightarrow> lz77_compare src s ip max_cmp len \<le> max_cmp \<and>
     (\<forall>j. len \<le> j \<and> j < lz77_compare src s ip max_cmp len \<longrightarrow> src ! (s + j) = src ! (ip + j))"
proof (induction src s ip max_cmp len rule: lz77_compare.induct)
  case (1 src s ip max_cmp len)
  show ?case
  proof (cases "len < max_cmp \<and> src ! (s + len) = src ! (ip + len)")
    case True
    then have e: "lz77_compare src s ip max_cmp len = lz77_compare src s ip max_cmp (len + 1)"
      unfolding lz77_compare.simps [of src s ip max_cmp len] by simp
    have ih: "lz77_compare src s ip max_cmp (len + 1) \<le> max_cmp"
      "\<And>j. len + 1 \<le> j \<Longrightarrow> j < lz77_compare src s ip max_cmp (len + 1) \<Longrightarrow> src ! (s + j) = src ! (ip + j)"
      using "1.IH" [OF True] True by auto
    have "src ! (s + j) = src ! (ip + j)" if "len \<le> j" "j < lz77_compare src s ip max_cmp len" for j
      using that True ih(2) [of j] e by (cases "j = len") auto
    with ih(1) e show ?thesis by auto
  next
    case False
    with 1 show ?thesis unfolding lz77_compare.simps [of src s ip max_cmp len] by auto
  qed
qed

lemma search_spec:
  assumes "ip \<le> length src" "best_len = 0 \<or> is_match src ip best_off best_len"
    and "lz77_search src ip limit min_match s best_len best_off = (l, off)"
  shows "l = 0 \<or> is_match src ip off l"
  using assms
proof (induction src ip limit min_match s best_len best_off rule: lz77_search.induct)
  case (1 src ip limit min_match s best_len best_off)
  show ?case
  proof (cases "s < ip \<and> best_len < limit")
    case True
    let ?a = "if ip - s > limit then limit else ip - s"
    let ?m = "if ?a > length src - ip then length src - ip else ?a"
    let ?len = "lz77_compare src s ip ?m 0"
    have c: "?len \<le> ?m" "\<forall>j < ?len. src ! (s + j) = src ! (ip + j)"
      using compare_spec [of 0 ?m src s ip] by auto
    have "ip + ?len \<le> length src" using c(1) "1.prems"(1) by (simp split: if_splits)
    then have m: "is_match src ip (ip - s) ?len" using True c(2) by (simp add: is_match_def)
    have e: "lz77_search src ip limit min_match s best_len best_off =
        (if ?len \<ge> min_match \<and> ?len > best_len
         then lz77_search src ip limit min_match (s + 1) ?len (ip - s)
         else lz77_search src ip limit min_match (s + 1) best_len best_off)"
      unfolding lz77_search.simps [of src ip limit min_match s best_len best_off] Let_def
      using True by (simp only: if_True simp_thms)
    show ?thesis
    proof (cases "?len \<ge> min_match \<and> ?len > best_len")
      case better: True
      show ?thesis
        using m "1.prems"(3) unfolding e if_P [OF better]
        by (intro "1.IH"(1) [OF True refl refl refl refl better "1.prems"(1)]) auto
    next
      case worse: False
      show ?thesis
        using "1.prems"(3) unfolding e if_not_P [OF worse]
        by (intro "1.IH"(2) [OF True refl refl refl refl worse "1.prems"(1,2)]) auto
    qed
  next
    case False
    with "1.prems"(2,3) show ?thesis
      unfolding lz77_search.simps [of src ip limit min_match s best_len best_off] by auto
  qed
qed

lemma match_find_sound:
  assumes "lz77_match_find src ip ht min_match max_match = (ht', off, len)" "0 < min_match" "min_match \<le> len"
  shows "is_match src ip off len"
proof -
  let ?limit = "if ip > max_match then max_match else ip"
  obtain l d where s: "lz77_search src ip ?limit min_match (nat (ht (lz77_hash src ip))) 0 0 = (l, d)"
    by fastforce
  have "ip \<le> length src" "l = len" "d = off"
    using assms s by (auto simp: lz77_match_find_def Let_def split: if_splits)
  with search_spec [OF _ _ s] assms(2,3) show ?thesis by auto
qed

subsection \<open>Decoding what the compressor emits\<close>

lemma byte_unat [simp]: "n < 256 \<Longrightarrow> unat (of_nat n :: byte) = n"
  by (simp add: unat_of_nat)

lemma read_ext_bytes: "read_ext (ext_bytes n @ rest) len = Some (len + n, rest)"
proof (induction n arbitrary: len rule: ext_bytes.induct)
  case (1 n)
  show ?case
  proof (cases "255 \<le> n")
    case True
    with "1.IH" [OF True, of "len + 255"] show ?thesis
      by (simp add: ext_bytes.simps [of n] lz4_byte_to_int_def)
  next
    case False
    then show ?thesis by (simp add: ext_bytes.simps [of n] lz4_byte_to_int_def)
  qed
qed

definition cut15 :: "nat \<Rightarrow> nat" where
  "cut15 n = (if n > 15 then 15 else n)"

lemma read_length:
  "(if cut15 n = 15 then read_ext (emit_ext n @ rest) (cut15 n) else Some (cut15 n, emit_ext n @ rest))
     = Some (n, rest)"
  by (cases "15 \<le> n") (auto simp: emit_ext_def read_ext_bytes cut15_def)

lemma copy_literals_all:
  "length out + length lits \<le> cap \<Longrightarrow>
     copy_literals cap (lits @ rest) out (length lits) = Some (rest, out @ lits)"
  by (induction lits arbitrary: out) simp_all

lemma copy_match_all:
  assumes "0 < off" "off \<le> p" "p + n \<le> length src" "length src \<le> cap"
    and "\<forall>j < n. src ! (p - off + j) = src ! (p + j)"
  shows "copy_match cap (take p src) off n = Some (take (p + n) src)"
  using assms
proof (induction n arbitrary: p)
  case (Suc n)
  have e: "take p src @ [src ! p] = take (p + 1) src"
    using Suc.prems(3) by (simp add: take_Suc_conv_app_nth)
  have "src ! (p - off) = src ! p" using Suc.prems(5) by (metis add.right_neutral zero_less_Suc)
  moreover have "take p src ! (p - off) = src ! (p - off)" using Suc.prems(1,2) by simp
  moreover have "\<forall>j < n. src ! (p + 1 - off + j) = src ! (p + 1 + j)"
  proof (intro allI impI)
    fix j assume "j < n"
    then have "src ! (p - off + Suc j) = src ! (p + Suc j)"
      using Suc.prems(5) [rule_format, of "Suc j"] by simp
    moreover have e: "p + 1 - off + j = p - off + Suc j" "p + 1 + j = p + Suc j" using Suc.prems(2) by simp_all
    ultimately show "src ! (p + 1 - off + j) = src ! (p + 1 + j)" unfolding e by simp
  qed
  ultimately show ?case
    using Suc.IH [of "p + 1"] Suc.prems(1-4) e by simp
qed simp

text \<open>The token holds the two lengths, cut at 15.\<close>

definition token_of :: "nat \<Rightarrow> nat \<Rightarrow> nat" where
  "token_of a b = cut15 a * 16 + cut15 b"

lemma token_parts:
  "lz4_byte_to_int (of_nat (token_of a b)) div 16 = cut15 a"
  "lz4_byte_to_int (of_nat (token_of a b)) mod 16 = cut15 b"
proof -
  have c: "cut15 a < 16" "cut15 b < 16" by (simp_all add: cut15_def)
  then have "token_of a b < 256" by (simp add: token_of_def)
  then have "lz4_byte_to_int (of_nat (token_of a b)) = token_of a b" by (simp add: lz4_byte_to_int_def)
  with c show "lz4_byte_to_int (of_nat (token_of a b)) div 16 = cut15 a"
    "lz4_byte_to_int (of_nat (token_of a b)) mod 16 = cut15 b"
    by (simp_all add: token_of_def)
qed

lemma read_token_length:
  "(if lz4_byte_to_int (of_nat (token_of n b)) div 16 = 15
    then read_ext (emit_ext n @ rest) (lz4_byte_to_int (of_nat (token_of n b)) div 16)
    else Some (lz4_byte_to_int (of_nat (token_of n b)) div 16, emit_ext n @ rest)) = Some (n, rest)"
  "(if lz4_byte_to_int (of_nat (token_of a n)) mod 16 = 15
    then read_ext (emit_ext n @ rest) (lz4_byte_to_int (of_nat (token_of a n)) mod 16)
    else Some (lz4_byte_to_int (of_nat (token_of a n)) mod 16, emit_ext n @ rest)) = Some (n, rest)"
  unfolding token_parts by (rule read_length)+

lemma emit_literals_token: "emit_literals lits = of_nat (token_of (length lits) 0) # emit_ext (length lits) @ lits"
  by (simp add: emit_literals_def token_of_def cut15_def Let_def)

lemma emit_sequence_token:
  "emit_sequence lits off m = of_nat (token_of (length lits) m) # emit_ext (length lits) @ lits @
     [of_nat (off mod 256), of_nat (off div 256)] @ emit_ext m"
  by (simp add: emit_sequence_def token_of_def cut15_def Let_def)

lemma decompress_literals:
  assumes "length out + length lits \<le> cap"
  shows "decompress_loop cap (emit_literals lits) out = Some (out @ lits)"
  unfolding emit_literals_token decompress_loop.simps [of cap "_ # _"]
  by (simp add: read_token_length copy_literals_all [OF assms, of "[]", simplified] Let_def)

lemma decompress_sequence:
  assumes "length out + length lits \<le> cap" "0 < off" "off < 65536"
    and "copy_match cap (out @ lits) off (m + MIN_MATCH) = Some out'"
  shows "decompress_loop cap (emit_sequence lits off m @ tail) out = decompress_loop cap tail out'"
proof -
  have off: "lz4_byte_to_int (of_nat (off mod 256)) + lz4_byte_to_int (of_nat (off div 256)) * 256 = off"
    using assms(3) by (simp add: lz4_byte_to_int_def)
  have nz: "\<not> (lz4_byte_to_int (of_nat (off mod 256)) = 0 \<and> lz4_byte_to_int (of_nat (off div 256)) = 0)"
    using off assms(2) by auto
  have l: "copy_literals cap (lits @ of_nat (off mod 256) # of_nat (off div 256) # emit_ext m @ tail) out
      (length lits) = Some (of_nat (off mod 256) # of_nat (off div 256) # emit_ext m @ tail, out @ lits)"
    by (rule copy_literals_all [OF assms(1)])
  show ?thesis
    unfolding emit_sequence_token
    by (subst decompress_loop.simps)
      (use assms(2) nz in \<open>auto simp: read_token_length l off assms(4) Let_def\<close>)
qed

subsection \<open>The whole input\<close>

text \<open>The compressor's loop keeps: what it has emitted decodes to the bytes before the anchor.\<close>

definition decodes_to :: "byte list \<Rightarrow> nat \<Rightarrow> byte list \<Rightarrow> nat \<Rightarrow> bool" where
  "decodes_to src cap out anchor \<longleftrightarrow> anchor \<le> length src \<and>
     (\<forall>tail. decompress_loop cap (out @ tail) [] = decompress_loop cap tail (take anchor src))"

lemma sequence_decodes:
  assumes "decodes_to src cap out anchor" "is_match src ip off len" "MIN_MATCH \<le> len" "anchor \<le> ip"
    and "length src \<le> cap" "length src \<le> 65536"
  shows "decodes_to src cap
    (out @ emit_sequence (take (ip - anchor) (drop anchor src)) off (len - MIN_MATCH)) (ip + len)"
proof -
  let ?lits = "take (ip - anchor) (drop anchor src)"
  have m: "0 < off" "off \<le> ip" "ip + len \<le> length src" "\<forall>j < len. src ! (ip - off + j) = src ! (ip + j)"
    using assms(2) by (auto simp: is_match_def)
  have l: "take anchor src @ ?lits = take ip src"
    using assms(4) by (metis le_add_diff_inverse take_add)
  have "off < 65536" using m(2,3) assms(3,6) by (simp add: MIN_MATCH_def)
  moreover have "copy_match cap (take anchor src @ ?lits) off (len - MIN_MATCH + MIN_MATCH) = Some (take (ip + len) src)"
    unfolding l using copy_match_all [OF m(1-3) assms(5) m(4)] assms(3) by simp
  moreover have "length (take anchor src) + length ?lits \<le> cap" using m(3) assms(4,5) by simp
  ultimately have "decompress_loop cap (emit_sequence ?lits off (len - MIN_MATCH) @ tail) (take anchor src) =
      decompress_loop cap tail (take (ip + len) src)" for tail
    using m(1) by (intro decompress_sequence) auto
  with assms(1) m(3) show ?thesis by (simp add: decodes_to_def)
qed

lemma compress_loop_decodes:
  assumes "decodes_to src cap out anchor" "anchor \<le> ip" "length src \<le> cap" "length src \<le> 65536"
    and "compress_loop src ip anchor ht out = (anchor', out')"
  shows "decodes_to src cap out' anchor'"
  using assms
proof (induction src ip anchor ht out rule: compress_loop.induct)
  case (1 src ip anchor ht out)
  show ?case
  proof (cases "ip < length src - 12")
    case True
    obtain ht' off len where f: "lz77_match_find src ip ht MIN_MATCH MAX_MATCH = (ht', off, len)"
      by (metis prod_cases3)
    have e: "compress_loop src ip anchor ht out =
        (if MIN_MATCH \<le> len
         then compress_loop src (ip + len) (ip + len) ht'
                (out @ emit_sequence (take (ip - anchor) (drop anchor src)) off (len - MIN_MATCH))
         else compress_loop src (ip + 1) anchor ht' out)"
      unfolding compress_loop.simps [of src ip anchor ht out] f using True by simp
    show ?thesis
    proof (cases "MIN_MATCH \<le> len")
      case match: True
      have m: "is_match src ip off len"
        by (rule match_find_sound [OF f _ match]) (simp add: MIN_MATCH_def)
      show ?thesis
        using "1.prems"(5) unfolding e if_P [OF match]
        by (intro "1.IH"(1) [OF True f [symmetric] refl match])
          (use sequence_decodes [OF "1.prems"(1) m match "1.prems"(2-4)] "1.prems"(3,4) in auto)
    next
      case none: False
      show ?thesis
        using "1.prems"(5) unfolding e if_not_P [OF none]
        by (intro "1.IH"(2) [OF True f [symmetric] refl none]) (use "1.prems" in auto)
    qed
  next
    case False
    with "1.prems" show ?thesis unfolding compress_loop.simps [of src ip anchor ht out] by simp
  qed
qed

lemma decodes_literals:
  assumes "decodes_to src cap out anchor" "length src \<le> cap"
  shows "decompress_loop cap (out @ emit_literals (drop anchor src)) [] = Some src"
  using assms decompress_literals [of "take anchor src" "drop anchor src" cap] by (simp add: decodes_to_def)

subsection \<open>The size of the output\<close>

lemma length_ext_bytes: "length (ext_bytes n) = n div 255 + 1"
proof (induction n rule: ext_bytes.induct)
  case (1 n)
  show ?case
  proof (cases "255 \<le> n")
    case True
    with 1 have "length (ext_bytes n) = (n - 255) div 255 + 2" by (simp add: ext_bytes.simps [of n])
    also have "(n - 255) div 255 + 2 = n div 255 + 1"
      using True by (simp add: le_div_geq)
    finally show ?thesis .
  qed (simp add: ext_bytes.simps [of n])
qed

lemma length_emit_ext: "length (emit_ext n) \<le> 1 + n div 255" "n < 15 \<Longrightarrow> emit_ext n = []"
  by (auto simp: emit_ext_def length_ext_bytes intro: div_le_mono)

lemma length_emit_sequence:
  assumes "MIN_MATCH \<le> m"
  shows "length (emit_sequence lits off (m - MIN_MATCH)) \<le> length lits + m + (length lits + m) div 255"
proof -
  have a: "length (emit_ext (length lits)) \<le> 1 + length lits div 255" by (rule length_emit_ext)
  have "(m - MIN_MATCH) div 255 \<le> m div 255" by (simp add: div_le_mono)
  then have b: "3 + 1 + length (emit_ext (m - MIN_MATCH)) \<le> m + m div 255"
    using assms length_emit_ext [of "m - MIN_MATCH"] by (cases "m - MIN_MATCH < 15") (auto simp: MIN_MATCH_def)
  have "length lits div 255 + m div 255 \<le> (length lits + m) div 255"
    by (metis div_add1_eq le_add1)
  with a b show ?thesis by (simp add: emit_sequence_def Let_def)
qed

lemma compress_loop_size:
  assumes "anchor \<le> ip" "anchor \<le> length src" "length out \<le> anchor + anchor div 255"
    and "compress_loop src ip anchor ht out = (anchor', out')"
  shows "anchor' \<le> length src \<and> length out' \<le> anchor' + anchor' div 255"
  using assms
proof (induction src ip anchor ht out rule: compress_loop.induct)
  case (1 src ip anchor ht out)
  show ?case
  proof (cases "ip < length src - 12")
    case True
    obtain ht' off len where f: "lz77_match_find src ip ht MIN_MATCH MAX_MATCH = (ht', off, len)"
      by (metis prod_cases3)
    let ?seq = "emit_sequence (take (ip - anchor) (drop anchor src)) off (len - MIN_MATCH)"
    have e: "compress_loop src ip anchor ht out =
        (if MIN_MATCH \<le> len then compress_loop src (ip + len) (ip + len) ht' (out @ ?seq)
         else compress_loop src (ip + 1) anchor ht' out)"
      unfolding compress_loop.simps [of src ip anchor ht out] f using True by simp
    show ?thesis
    proof (cases "MIN_MATCH \<le> len")
      case match: True
      have "is_match src ip off len"
        by (rule match_find_sound [OF f _ match]) (simp add: MIN_MATCH_def)
      then have il: "ip + len \<le> length src" by (simp add: is_match_def)
      define x where "x = (ip - anchor) + len"
      have x: "anchor + x = ip + len" using "1.prems"(1) by (simp add: x_def)
      have "length ?seq \<le> x + x div 255"
        using length_emit_sequence [OF match, of "take (ip - anchor) (drop anchor src)" off] il
        by (simp add: x_def)
      moreover have "anchor div 255 + x div 255 \<le> (anchor + x) div 255"
        by (metis div_add1_eq le_add1)
      ultimately have "length (out @ ?seq) \<le> (anchor + x) + (anchor + x) div 255"
        using "1.prems"(3) by simp
      then have "length (out @ ?seq) \<le> (ip + len) + (ip + len) div 255" unfolding x .
      with il "1.prems"(4) show ?thesis
        unfolding e if_P [OF match] by (intro "1.IH"(1) [OF True f [symmetric] refl match]) auto
    next
      case none: False
      show ?thesis
        using "1.prems" unfolding e if_not_P [OF none]
        by (intro "1.IH"(2) [OF True f [symmetric] refl none]) auto
    qed
  next
    case False
    with "1.prems" show ?thesis unfolding compress_loop.simps [of src ip anchor ht out] by simp
  qed
qed

subsection \<open>Properties\<close>

lemma decompress_compressed:
  assumes "0 < length src" "length src \<le> LZ4_MAX_INPUT_SIZE" "length src \<le> dst_capacity"
  shows "\<exists>c. lz4_compress src = Some c \<and> lz4_decompress c dst_capacity = Some src"
proof -
  have cap: "0 < dst_capacity" using assms(1,3) by linarith
  show ?thesis
  proof (cases "length src < 12")
    case True
    have "decompress_loop dst_capacity (emit_literals src) [] = Some src"
      using decompress_literals [of "[]" src] assms(3) by simp
    with True assms cap show ?thesis
      by (auto simp: lz4_compress_def lz4_decompress_def emit_literals_token)
  next
    case False
    obtain anchor out where c: "compress_loop src 0 0 (\<lambda>_. -1) [] = (anchor, out)" by fastforce
    have "decodes_to src dst_capacity [] 0" by (simp add: decodes_to_def)
    from compress_loop_decodes [OF this _ assms(3) _ c] assms(2)
    have "decompress_loop dst_capacity (out @ emit_literals (drop anchor src)) [] = Some src"
      by (intro decodes_literals [OF _ assms(3)]) (simp add: LZ4_MAX_INPUT_SIZE_def)
    with c False assms cap show ?thesis
      by (auto simp: lz4_compress_def lz4_decompress_def emit_literals_token)
  qed
qed

text \<open>C35. Compression is lossless: every non-empty input of at most 65536 bytes is compressed, and
  decompressing the result with room for the input gives the input back.\<close>

theorem lz4_roundtrip:
  assumes "0 < length src" "length src \<le> LZ4_MAX_INPUT_SIZE" "length src \<le> dst_capacity"
  shows "\<exists>c. lz4_compress src = Some c \<and> lz4_decompress c dst_capacity = Some src"
  using assms by (rule decompress_compressed)

theorem lz4_roundtrip_witness:
  "\<exists>c. lz4_compress (replicate 40 7) = Some c \<and> lz4_decompress c 100 = Some (replicate 40 7)"
  using lz4_roundtrip [of "replicate 40 7" 100] by (simp add: LZ4_MAX_INPUT_SIZE_def)

lemma lz4_output_bound:
  assumes "lz4_compress src = Some c"
  shows "length c \<le> lz4_compress_bound (length src)"
proof -
  have lits: "length (emit_literals l) \<le> 2 + length l + length l div 255" for l
    using length_emit_ext(1) [of "length l"] by (simp add: emit_literals_def Let_def)
  have le: "length src \<le> LZ4_MAX_INPUT_SIZE" using assms by (auto simp: lz4_compress_def split: if_splits)
  show ?thesis
  proof (cases "length src < 12")
    case True
    with assms lits [of src] le show ?thesis
      by (auto simp: lz4_compress_def lz4_compress_bound_def split: if_splits)
  next
    case False
    obtain anchor out where l: "compress_loop src 0 0 (\<lambda>_. -1) [] = (anchor, out)" by fastforce
    with compress_loop_size [OF _ _ _ l]
    have a: "anchor \<le> length src" "length out \<le> anchor + anchor div 255" by simp_all
    have "anchor div 255 + (length src - anchor) div 255 \<le> (anchor + (length src - anchor)) div 255"
      by (metis div_add1_eq le_add1)
    with a lits [of "drop anchor src"] assms l False le show ?thesis
      by (auto simp: lz4_compress_def lz4_compress_bound_def split: if_splits)
  qed
qed

text \<open>The compressor never writes past its buffer: the output has at most the number of bytes
  that \<open>lz4_compress_bound\<close> reserves.\<close>

theorem lz4_output_within_bound:
  assumes "lz4_compress src = Some c"
  shows "length c \<le> lz4_compress_bound (length src)"
  using assms by (rule lz4_output_bound)

theorem lz4_output_within_bound_witness:
  "\<exists>c. lz4_compress [1, 2, 3] = Some c \<and> length c \<le> lz4_compress_bound 3"
proof -
  obtain c where c: "lz4_compress [1, 2, 3] = Some c"
    by (simp add: lz4_compress_def LZ4_MAX_INPUT_SIZE_def)
  with lz4_output_within_bound [OF c] show ?thesis by (simp add: numeral_3_eq_3)
qed

lemma copy_literals_within:
  "copy_literals cap rest out n = Some (rest', out') \<Longrightarrow> length out \<le> cap \<Longrightarrow> length out' \<le> cap"
  by (induction cap rest out n rule: copy_literals.induct) (auto split: if_splits list.splits)

lemma copy_match_within:
  "copy_match cap out offset n = Some out' \<Longrightarrow> length out \<le> cap \<Longrightarrow> length out' \<le> cap"
  by (induction cap out offset n rule: copy_match.induct) (auto split: if_splits)

lemma copy_literals_both:
  "copy_literals cap rest out n = Some (rest', out') \<Longrightarrow>
     length rest' \<le> length rest \<and> (length out \<le> cap \<longrightarrow> length out' \<le> cap)"
  using copy_literals_length copy_literals_within by blast

lemma decompress_loop_within:
  "decompress_loop cap src out = Some res \<Longrightarrow> length out \<le> cap \<Longrightarrow> length res \<le> cap"
proof (induction "length src" arbitrary: src out rule: less_induct)
  case less
  have step: "length res \<le> cap"
    if "decompress_loop cap src' out' = Some res" "length src' < length src" "length out' \<le> cap" for src' out'
    using less.hyps that by blast
  show ?case
    using less.prems unfolding decompress_loop.simps [of cap src out]
    by (auto simp: Let_def split: list.splits option.splits prod.splits if_splits
        dest!: copy_literals_both copy_match_within read_ext_length elim!: step)
qed

text \<open>C36. The decompressor never writes past its buffer: whatever bytes it is given, it fails or its
  output fits the capacity.\<close>

theorem lz4_decompress_within_capacity:
  assumes "lz4_decompress src dst_capacity = Some res"
  shows "length res \<le> dst_capacity"
  using assms decompress_loop_within [of dst_capacity src "[]" res]
  by (simp add: lz4_decompress_def split: if_splits)

theorem lz4_decompress_within_capacity_witness:
  "length (the (lz4_decompress [0x20, 65, 66] 5)) \<le> 5"
proof -
  have "lz4_decompress [0x20, 65, 66] 5 = Some [65, 66]" by code_simp
  with lz4_decompress_within_capacity [OF this] show ?thesis by simp
qed

end
