(* ===== verification/Garry_Storage.thy ===== *)
theory Garry_Storage
  imports Garry_BTreeCursor Garry_Transaction Garry_Lz4
begin

text \<open>
  The storage operations: \<open>src/src/storage_ops.c\<close>.

  An operation finds the version chain of a key through the B-tree and reads or appends versions
  there. The results of the descents are carried through: \<open>None\<close> is an operation that never
  returns. Whether an allocation of a lock node succeeds is the argument \<open>malloc_ok\<close>; other allocations
  succeed. The engine and the output buffers are not null, and the buffers are as large as the
  code expects. Locks on the root have no effect on one thread.

  The lemmas relate an engine to a map from keys to version logs (\<open>kv_holds\<close>): the index leads to
  distinct chain pages apart from the pages of the tree. Operations of this theory act on that map.
\<close>

subsection \<open>Constants\<close>

definition GARRY_LOOKUP_BUF_SIZE :: int where "GARRY_LOOKUP_BUF_SIZE = 512"
definition GARRY_MAX_KEY_SIZE :: nat where "GARRY_MAX_KEY_SIZE = 256"
definition GARRY_MAX_RECORD_SIZE :: nat where "GARRY_MAX_RECORD_SIZE = 16384"
definition GARRY_DATA_NOT_FOUND :: int where "GARRY_DATA_NOT_FOUND = 0"
definition GARRY_DATA_HAS_CHILDREN :: int where "GARRY_DATA_HAS_CHILDREN = 1"
definition GARRY_DATA_HAS_VALUE :: int where "GARRY_DATA_HAS_VALUE = 10"
definition GARRY_DATA_HAS_BOTH :: int where "GARRY_DATA_HAS_BOTH = 11"

subsection \<open>The operations\<close>

text \<open>The bytes found in the tree lie at the start of a zeroed buffer.\<close>

definition garry_decode_cid_from_descriptor :: "byte list \<Rightarrow> int" where
  "garry_decode_cid_from_descriptor lookup =
     (let lookup_result = buf_of lookup
      in if uint (lookup_result 0) = GARRY_CBOR_MAP_BASE + 2
         then fst (garry_decode_descriptor lookup_result GARRY_LOOKUP_BUF_SIZE)
         else uint (lookup_result 0))"

definition engine_search ::
  "garry_engine_handle \<Rightarrow> byte list \<Rightarrow> (garry_engine_handle \<times> byte list option) option" where
  "engine_search eng key =
     map_option (\<lambda>(pool, r). (eng\<lparr>eng_pool := pool\<rparr>, r))
       (garry_leaf_find_search (eng_pool eng) (eng_btree_root eng) key)"

text \<open>What a stored version gives the caller.\<close>

definition decompress_value :: "garry_engine_handle \<Rightarrow> byte list \<Rightarrow> byte list option" where
  "decompress_value eng val =
     (if eng_compression eng = GARRY_COMPRESS_LZ4
      then (case lz4_decompress val GARRY_MAX_RECORD_SIZE of
              None \<Rightarrow> None
            | Some d \<Rightarrow> if length d > GARRY_MAX_RECORD_SIZE then None else Some d)
      else Some val)"

definition garry_storage_get ::
  "garry_engine_handle \<Rightarrow> int \<Rightarrow> byte list \<Rightarrow> (garry_engine_handle \<times> byte list option) option" where
  "garry_storage_get eng txn key =
     (if length key = 0 then Some (eng, None)
      else if length key > GARRY_MAX_KEY_SIZE then Some (eng, None)
      else if \<not> garry_txn_is_active txn eng then Some (eng, None)
      else
        (case engine_search eng key of
           None \<Rightarrow> None
         | Some (eng, None) \<Rightarrow> Some (eng, None)
         | Some (eng, Some lookup) \<Rightarrow>
             (let cid = garry_decode_cid_from_descriptor lookup
              in if cid < 0 then Some (eng, None)
                 else (case garry_mvcc_get eng txn cid of
                         (eng, None) \<Rightarrow> Some (eng, None)
                       | (eng, Some val) \<Rightarrow> Some (eng, decompress_value eng val)))))"

text \<open>Finding the chain of a key, or giving it one: the engine, the chain page (\<open>-1\<close> if there is
  none) and whether the key is new.\<close>

definition find_or_create_chain ::
  "garry_engine_handle \<Rightarrow> byte list \<Rightarrow> (garry_engine_handle \<times> int option \<times> bool) option" where
  "find_or_create_chain eng key =
     (case engine_search eng key of
        None \<Rightarrow> None
      | Some (eng, Some lookup) \<Rightarrow> Some (eng, Some (garry_decode_cid_from_descriptor lookup), False)
      | Some (eng, None) \<Rightarrow>
          (case garry_chain_allocate eng of
             (eng, cid) \<Rightarrow>
               if cid < 0 then Some (eng, None, True)
               else
                 (let (desc, desc_len) = garry_encode_descriptor cid False (\<lambda>_. 0)
                  in case garry_btree_insert (eng_pool eng) (eng_btree_root eng) key
                            (read_bytes desc 0 desc_len) of
                       None \<Rightarrow> None
                     | Some (pool, root, ok) \<Rightarrow>
                         (let eng = eng\<lparr>eng_pool := pool, eng_btree_root := root\<rparr>
                          in if \<not> ok
                             then Some (eng\<lparr>eng_pool := garry_pool_free_page pool cid\<rparr>, None, True)
                             else Some (eng, Some cid, True)))))"

definition log_record :: "garry_engine_handle \<Rightarrow> garry_wal_record option \<Rightarrow> garry_engine_handle" where
  "log_record eng rec =
     (case rec of
        None \<Rightarrow> eng
      | Some rec \<Rightarrow> eng\<lparr>eng_wal := fst (garry_wal_log_append (eng_wal eng) rec)\<rparr>)"

definition compress_value :: "garry_engine_handle \<Rightarrow> byte list \<Rightarrow> byte list option" where
  "compress_value eng val =
     (if eng_compression eng = GARRY_COMPRESS_LZ4 then lz4_compress val else Some val)"

definition garry_storage_set ::
  "bool \<Rightarrow> garry_engine_handle \<Rightarrow> int \<Rightarrow> byte list \<Rightarrow> byte list \<Rightarrow> (garry_engine_handle \<times> bool) option" where
  "garry_storage_set malloc_ok eng txn key val =
     (if length key = 0 then Some (eng, False)
      else if length key > GARRY_MAX_KEY_SIZE then Some (eng, False)
      else if \<not> garry_txn_is_active txn eng then Some (eng, False)
      else
        (let (mgr, ok) = garry_lock_acquire malloc_ok (eng_lock_mgr eng) txn key GARRY_LOCK_EXCLUSIVE;
             eng = eng\<lparr>eng_lock_mgr := mgr\<rparr>
         in if \<not> ok then Some (eng, False)
            else
              (case find_or_create_chain eng key of
                 None \<Rightarrow> None
               | Some (eng, None, new_key) \<Rightarrow> Some (eng, False)
               | Some (eng, Some cid, new_key) \<Rightarrow>
                   (let (pool, rec) = garry_make_update_record (eng_pool eng) txn key val;
                        eng = log_record (eng\<lparr>eng_pool := pool\<rparr>) rec
                    in case compress_value eng val of
                         None \<Rightarrow> Some (eng, False)
                       | Some payload \<Rightarrow>
                           (case garry_mvcc_set eng txn cid payload of
                              (eng, False) \<Rightarrow> Some (eng, False)
                            | (eng, True) \<Rightarrow>
                                Some (if new_key then eng\<lparr>eng_key_count := eng_key_count eng + 1\<rparr> else eng,
                                      True))))))"

definition garry_storage_delete ::
  "bool \<Rightarrow> garry_engine_handle \<Rightarrow> int \<Rightarrow> byte list \<Rightarrow> (garry_engine_handle \<times> bool) option" where
  "garry_storage_delete malloc_ok eng txn key =
     (if length key = 0 then Some (eng, False)
      else if \<not> garry_txn_is_active txn eng then Some (eng, False)
      else
        (let (mgr, ok) = garry_lock_acquire malloc_ok (eng_lock_mgr eng) txn key GARRY_LOCK_EXCLUSIVE;
             eng = eng\<lparr>eng_lock_mgr := mgr\<rparr>
         in if \<not> ok then Some (eng, False)
            else
              (case engine_search eng key of
                 None \<Rightarrow> None
               | Some (eng, None) \<Rightarrow> Some (eng, False)
               | Some (eng, Some lookup) \<Rightarrow>
                   (let cid = garry_decode_cid_from_descriptor lookup
                    in if cid < 0 then Some (eng, False)
                       else Some (garry_mvcc_delete
                              (log_record eng (Some (garry_make_delete_record txn key))) txn cid)))))"

definition garry_storage_get_default ::
  "garry_engine_handle \<Rightarrow> int \<Rightarrow> byte list \<Rightarrow> byte list \<Rightarrow> (garry_engine_handle \<times> byte list option) option" where
  "garry_storage_get_default eng txn key def =
     (case garry_storage_get eng txn key of
        None \<Rightarrow> None
      | Some (eng, Some d) \<Rightarrow> Some (eng, Some d)
      | Some (eng, None) \<Rightarrow>
          if \<not> garry_txn_is_active txn eng then Some (eng, None)
          else if length def > GARRY_MAX_RECORD_SIZE then Some (eng, None)
          else Some (eng, Some def))"

definition garry_storage_data ::
  "garry_engine_handle \<Rightarrow> int \<Rightarrow> byte list \<Rightarrow> (garry_engine_handle \<times> int) option" where
  "garry_storage_data eng txn key =
     (if length key = 0 then Some (eng, 0)
      else
        (case engine_search eng key of
           None \<Rightarrow> None
         | Some (eng, None) \<Rightarrow> Some (eng, 0)
         | Some (eng, Some lookup) \<Rightarrow>
             (let cid = garry_decode_cid_from_descriptor lookup
              in if cid < 0 then Some (eng, GARRY_DATA_NOT_FOUND)
                 else
                   (let has_children =
                          (if uint (buf_of lookup 0) = GARRY_CBOR_MAP_BASE + 2
                           then snd (garry_decode_descriptor (buf_of lookup) GARRY_LOOKUP_BUF_SIZE)
                           else False)
                    in case garry_mvcc_get eng txn cid of
                         (eng, val) \<Rightarrow>
                           Some (eng,
                             if val \<noteq> None \<and> has_children then GARRY_DATA_HAS_BOTH
                             else if val \<noteq> None then GARRY_DATA_HAS_VALUE
                             else if has_children then GARRY_DATA_HAS_CHILDREN
                             else GARRY_DATA_NOT_FOUND)))))"

definition garry_storage_exists ::
  "garry_engine_handle \<Rightarrow> int \<Rightarrow> byte list \<Rightarrow> (garry_engine_handle \<times> bool) option" where
  "garry_storage_exists eng txn key =
     (if length key = 0 then Some (eng, False)
      else if \<not> garry_txn_is_active txn eng then Some (eng, False)
      else
        (case engine_search eng key of
           None \<Rightarrow> None
         | Some (eng, None) \<Rightarrow> Some (eng, False)
         | Some (eng, Some lookup) \<Rightarrow>
             (let cid = garry_decode_cid_from_descriptor lookup
              in if cid < 0 then Some (eng, False)
                 else Some (garry_mvcc_exists eng txn cid))))"

definition garry_storage_count :: "garry_engine_handle \<Rightarrow> int \<Rightarrow> int" where
  "garry_storage_count eng txn = (if \<not> garry_txn_is_active txn eng then 0 else eng_key_count eng)"

subsection \<open>The key-value view\<close>

text \<open>The keys in order, each with its chain page and the log of its versions; the index maps a key
  to the descriptor of its chain, and the chain pages are distinct and apart from the pages of the
  index; page 0 is the header.\<close>

type_synonym version = "int \<times> byte list option"
type_synonym chains = "(key \<times> int \<times> version list) list"

definition index_entry :: "key \<times> int \<times> version list \<Rightarrow> entry" where
  "index_entry = (\<lambda>(k, r). (k, descriptor_bytes (fst r) False))"

definition chain_of :: "key \<times> int \<times> version list \<Rightarrow> int" where
  "chain_of = (\<lambda>(k, c, xs). c)"

definition kv_on :: "nat \<Rightarrow> garry_engine_handle \<Rightarrow> chains \<Rightarrow> int set \<Rightarrow> bool" where
  "kv_on h eng ls P \<longleftrightarrow>
     eng_page_size eng = bp_page_size (eng_pool eng) \<and>
     btree_on h (eng_pool eng) (eng_btree_root eng) (map index_entry ls) P \<and>
     distinct (map chain_of ls) \<and>
     0 < bp_next_page (eng_pool eng) \<and> 0 \<notin> P \<and> 0 \<notin> chain_of ` set ls \<and>
     (\<forall>(k, c, xs) \<in> set ls. c \<notin> P \<and> i32 c \<and> key_log eng c xs)"

text \<open>What a key maps to, whatever its chain page.\<close>

definition versions :: "chains \<Rightarrow> key \<Rightarrow> version list" where
  "versions ls k = (case map_of ls k of None \<Rightarrow> [] | Some (c, xs) \<Rightarrow> xs)"

lemma map_of_index: "map_of (map index_entry ls) k = map_option (\<lambda>r. descriptor_bytes (fst r) False) (map_of ls k)"
  by (induction ls) (auto simp: index_entry_def)

lemma kv_onD:
  assumes "kv_on h eng ls P"
  shows "eng_page_size eng = bp_page_size (eng_pool eng)"
    "btree_on h (eng_pool eng) (eng_btree_root eng) (map index_entry ls) P" "distinct (map chain_of ls)"
    "(k, c, xs) \<in> set ls \<Longrightarrow> c \<notin> P" "(k, c, xs) \<in> set ls \<Longrightarrow> i32 c" "(k, c, xs) \<in> set ls \<Longrightarrow> key_log eng c xs"
  using assms by (auto simp: kv_on_def)

lemma kv_on_header:
  assumes "kv_on h eng ls P"
  shows "0 < bp_next_page (eng_pool eng)" "0 \<notin> P" "0 \<notin> chain_of ` set ls"
  using assms by (auto simp: kv_on_def)

lemma key_log_frame:
  "key_log eng c xs \<Longrightarrow> page_frame Q (eng_pool eng) (eng_pool eng') \<Longrightarrow> c \<notin> Q \<Longrightarrow>
     eng_page_size eng' = eng_page_size eng \<Longrightarrow> key_log eng' c xs"
  unfolding key_log_def page_frame_def by (auto intro: page_log_agree)

text \<open>What does not touch the pages keeps the view.\<close>

lemma kv_on_frame:
  assumes "kv_on h eng ls P" "page_frame Q (eng_pool eng) (eng_pool eng')" "P \<inter> Q = {}"
    and "\<forall>r \<in> set ls. chain_of r \<notin> Q" "eng_btree_root eng' = eng_btree_root eng"
    and "eng_page_size eng' = eng_page_size eng"
  shows "kv_on h eng' ls P"
proof -
  note d = kv_onD [OF assms(1)]
  have "btree_on h (eng_pool eng') (eng_btree_root eng') (map index_entry ls) P"
    using btree_on_frame [OF d(2) assms(2,3)] by (simp add: assms(5))
  moreover have "key_log eng' c xs" if "(k, c, xs) \<in> set ls" for k c xs
    using key_log_frame [OF d(6) [OF that] assms(2) _ assms(6)] assms(4) that by (auto simp: chain_of_def)
  moreover have "bp_page_size (eng_pool eng') = bp_page_size (eng_pool eng)"
    using assms(2) by (simp add: page_frame_def)
  moreover have "0 < bp_next_page (eng_pool eng')"
    using kv_on_header(1) [OF assms(1)] assms(2) by (simp add: page_frame_def)
  ultimately show ?thesis using d kv_on_header(2,3) [OF assms(1)] assms(6) unfolding kv_on_def by auto
qed

lemma kv_on_view:
  "kv_on h eng ls P \<Longrightarrow> page_frame {} (eng_pool eng) pool \<Longrightarrow> eng_pool eng' = pool \<Longrightarrow>
     eng_btree_root eng' = eng_btree_root eng \<Longrightarrow> eng_page_size eng' = eng_page_size eng \<Longrightarrow> kv_on h eng' ls P"
  by (rule kv_on_frame [where Q = "{}"]) simp_all

subsection \<open>Looking a key up\<close>

lemma decode_cid_descriptor:
  assumes "i32 c"
  shows "garry_decode_cid_from_descriptor (descriptor_bytes c hc) = c"
    "snd (garry_decode_descriptor (buf_of (descriptor_bytes c hc)) GARRY_LOOKUP_BUF_SIZE) = hc"
    "uint (buf_of (descriptor_bytes c hc) 0) = GARRY_CBOR_MAP_BASE + 2"
proof -
  let ?b = "buf_of (descriptor_bytes c hc)"
  have h: "holds ?b 0 (descriptor_bytes c hc)" by simp
  have "int (length (descriptor_bytes c hc)) \<le> GARRY_LOOKUP_BUF_SIZE"
    using length_descriptor_bytes [of c hc] by (simp add: GARRY_LOOKUP_BUF_SIZE_def)
  note dec = decode_descriptor [OF h assms this]
  have b0: "uint (?b 0) = GARRY_CBOR_MAP_BASE + 2"
    by (simp add: descriptor_bytes_def buf_of_def cbor_bases)
  then show "garry_decode_cid_from_descriptor (descriptor_bytes c hc) = c"
    "snd (garry_decode_descriptor ?b GARRY_LOOKUP_BUF_SIZE) = hc"
    "uint (?b 0) = GARRY_CBOR_MAP_BASE + 2"
    by (simp_all add: garry_decode_cid_from_descriptor_def dec)
qed

lemma engine_search_kv:
  assumes "kv_on h eng ls P" "pool_idle (n + 2 * Suc h) (eng_pool eng)"
  obtains pool where
    "engine_search eng k = Some (eng\<lparr>eng_pool := pool\<rparr>,
       map_option (\<lambda>r. descriptor_bytes (fst r) False) (map_of ls k))"
    "pool_idle n pool" "page_frame {} (eng_pool eng) pool" "bp_next_page pool = bp_next_page (eng_pool eng)"
    "kv_on h (eng\<lparr>eng_pool := pool\<rparr>) ls P"
proof -
  note d = kv_onD [OF assms(1)]
  from btree_holds_search [OF assms(2) btree_on_holds [OF d(2)], of k] obtain pool where
    p: "garry_leaf_find_search (eng_pool eng) (eng_btree_root eng) k = Some (pool, map_of (map index_entry ls) k)"
    "pool_idle n pool" "page_frame {} (eng_pool eng) pool" "bp_next_page pool = bp_next_page (eng_pool eng)"
    by blast
  have "kv_on h (eng\<lparr>eng_pool := pool\<rparr>) ls P" by (rule kv_on_view [OF assms(1) p(3)]) simp_all
  with p that show ?thesis by (simp add: engine_search_def map_of_index)
qed

text \<open>The value a transaction reads.\<close>

definition read_key :: "garry_engine_handle \<Rightarrow> (key \<Rightarrow> version list) \<Rightarrow> int \<Rightarrow> key \<Rightarrow> byte list option" where
  "read_key eng V t k = read_log t (eng_active_txns eng) (V k)"

lemma read_log_Nil [simp]: "read_log s active [] = None"
  by (simp add: read_log_def)

lemma same_view_page_frame: "same_view a b \<Longrightarrow> page_frame {} a b \<and> bp_next_page b = bp_next_page a"
  using same_view_frame by (auto simp: same_view_def)

text \<open>Reading a key, and asking whether it exists.\<close>

lemma look_kv:
  assumes "kv_on h eng ls P" "pool_idle (n + 2 + 2 * Suc h) (eng_pool eng)" "k \<noteq> []"
  obtains pool where
    "garry_txn_is_active t eng \<Longrightarrow> length k \<le> GARRY_MAX_KEY_SIZE \<Longrightarrow> garry_storage_get eng t k =
       Some (eng\<lparr>eng_pool := pool\<rparr>, Option.bind (read_key eng (versions ls) t k) (decompress_value eng))"
    "garry_txn_is_active t eng \<Longrightarrow>
       garry_storage_exists eng t k = Some (eng\<lparr>eng_pool := pool\<rparr>, read_key eng (versions ls) t k \<noteq> None)"
    "garry_storage_data eng t k = Some (eng\<lparr>eng_pool := pool\<rparr>,
       if read_key eng (versions ls) t k \<noteq> None then GARRY_DATA_HAS_VALUE else GARRY_DATA_NOT_FOUND)"
    "pool_idle n pool" "page_frame {} (eng_pool eng) pool" "bp_next_page pool = bp_next_page (eng_pool eng)"
    "kv_on h (eng\<lparr>eng_pool := pool\<rparr>) ls P"
proof -
  from assms(1,2) obtain p where p:
    "engine_search eng k = Some (eng\<lparr>eng_pool := p\<rparr>,
       map_option (\<lambda>r. descriptor_bytes (fst r) False) (map_of ls k))"
    "pool_idle (n + 2) p" "page_frame {} (eng_pool eng) p" "bp_next_page p = bp_next_page (eng_pool eng)"
    "kv_on h (eng\<lparr>eng_pool := p\<rparr>) ls P"
    by (rule engine_search_kv) blast
  have dc: "decompress_value (eng\<lparr>eng_pool := pool\<rparr>) = decompress_value eng" for pool
    by (simp add: fun_eq_iff decompress_value_def)
  show ?thesis
  proof (cases "map_of ls k")
    case None
    then have "read_key eng (versions ls) t k = None" by (simp add: read_key_def versions_def)
    with None p assms(3) show ?thesis
      by (intro that [of p])
        (auto simp: garry_storage_get_def garry_storage_exists_def garry_storage_data_def
          GARRY_DATA_NOT_FOUND_def intro: pool_idle_mono)
  next
    case (Some r)
    obtain c xs where r: "r = (c, xs)" by (cases r)
    have m: "(k, c, xs) \<in> set ls" using Some unfolding r by (rule map_of_SomeD)
    note dd = kv_onD [OF p(5)]
    note cid = decode_cid_descriptor [OF dd(5) [OF m]]
    have c0: "\<not> c < 0" using key_logD(1) [OF dd(6) [OF m]] by simp
    have v: "read_key eng (versions ls) t k = read_log t (eng_active_txns eng) xs"
      using Some by (simp add: read_key_def versions_def r)
    have "pool_idle (n + 2) (eng_pool (eng\<lparr>eng_pool := p\<rparr>))" using p(2) by simp
    from this dd(6) [OF m] obtain pool where g:
      "garry_mvcc_get (eng\<lparr>eng_pool := p\<rparr>) t c = (eng\<lparr>eng_pool := pool\<rparr>, read_log t (eng_active_txns eng) xs)"
      "garry_mvcc_exists (eng\<lparr>eng_pool := p\<rparr>) t c =
         (eng\<lparr>eng_pool := pool\<rparr>, read_log t (eng_active_txns eng) xs \<noteq> None)"
      "pool_idle n pool" "same_view p pool"
      by (rule mvcc_get_spec [where s = t]) simp
    note f = same_view_page_frame [OF g(4)]
    have fr: "page_frame {} (eng_pool eng) pool" using page_frame_trans [OF p(3), of "{}" pool] f by simp
    show ?thesis
    proof (rule that [of pool])
      show "garry_storage_get eng t k =
          Some (eng\<lparr>eng_pool := pool\<rparr>, Option.bind (read_key eng (versions ls) t k) (decompress_value eng))"
        if "garry_txn_is_active t eng" "length k \<le> GARRY_MAX_KEY_SIZE"
        using assms(3) that c0 Some p(1) g(1)
        by (cases "read_log t (eng_active_txns eng) xs") (simp_all add: garry_storage_get_def r cid v dc)
      show "garry_storage_exists eng t k = Some (eng\<lparr>eng_pool := pool\<rparr>, read_key eng (versions ls) t k \<noteq> None)"
        if "garry_txn_is_active t eng"
        using assms(3) that c0 Some p(1) g(2) by (simp add: garry_storage_exists_def r cid v)
      show "garry_storage_data eng t k = Some (eng\<lparr>eng_pool := pool\<rparr>,
          if read_key eng (versions ls) t k \<noteq> None then GARRY_DATA_HAS_VALUE else GARRY_DATA_NOT_FOUND)"
        using assms(3) c0 Some p(1) g(1) by (simp add: garry_storage_data_def r cid v)
      show "kv_on h (eng\<lparr>eng_pool := pool\<rparr>) ls P" by (rule kv_on_view [OF assms(1) fr]) simp_all
    qed (use g(3) fr f p(4) in simp_all)
  qed
qed

lemma read_kv:
  assumes "kv_on h eng ls P" "pool_idle (n + 2 + 2 * Suc h) (eng_pool eng)" "k \<noteq> []"
    and "garry_txn_is_active t eng"
  obtains pool where
    "length k \<le> GARRY_MAX_KEY_SIZE \<Longrightarrow> garry_storage_get eng t k =
       Some (eng\<lparr>eng_pool := pool\<rparr>, Option.bind (read_key eng (versions ls) t k) (decompress_value eng))"
    "garry_storage_exists eng t k = Some (eng\<lparr>eng_pool := pool\<rparr>, read_key eng (versions ls) t k \<noteq> None)"
    "pool_idle n pool" "page_frame {} (eng_pool eng) pool" "bp_next_page pool = bp_next_page (eng_pool eng)"
    "kv_on h (eng\<lparr>eng_pool := pool\<rparr>) ls P"
  by (rule look_kv [OF assms(1-3), of t]) (use assms(4) that in blast)

subsection \<open>Giving a key a chain\<close>

lemma kv_onI:
  assumes "eng_page_size eng = bp_page_size (eng_pool eng)"
    "btree_on h (eng_pool eng) (eng_btree_root eng) (map index_entry ls) P" "distinct (map chain_of ls)"
    "0 < bp_next_page (eng_pool eng)" "0 \<notin> P" "0 \<notin> chain_of ` set ls"
    "\<And>k c xs. (k, c, xs) \<in> set ls \<Longrightarrow> c \<notin> P \<and> i32 c \<and> key_log eng c xs"
  shows "kv_on h eng ls P"
  using assms by (auto simp: kv_on_def)

lemma chain_bound:
  assumes "kv_on h eng ls P" "(k, c, xs) \<in> set ls"
  shows "0 \<le> c" "c < bp_next_page (eng_pool eng)"
  using key_logD(1,2) [OF kv_onD(6) [OF assms]] by simp_all

lemma map_of_new_versions:
  assumes "map_of ls k = None"
  shows "versions (ins_entry k (c, []) ls) = versions ls"
  using assms by (auto simp: fun_eq_iff versions_def map_of_ins_entry)

lemma allocate_kv:
  assumes "kv_on h eng ls P" "tree_pool (n + 3) (Suc m) (eng_pool eng)"
  obtains eng' where "garry_chain_allocate eng = (eng', bp_next_page (eng_pool eng))"
    "tree_pool n m (eng_pool eng')" "key_log eng' (bp_next_page (eng_pool eng)) []" "kv_on h eng' ls P"
    "bp_next_page (eng_pool eng') = bp_next_page (eng_pool eng) + 1" "eng' = eng\<lparr>eng_pool := eng_pool eng'\<rparr>"
    "0 \<le> bp_next_page (eng_pool eng)" "i32 (bp_next_page (eng_pool eng))"
proof -
  let ?c = "bp_next_page (eng_pool eng)"
  note t = tree_poolD [OF assms(2)] and d = kv_onD [OF assms(1)]
  from t(1,2) d(1) obtain eng' where e: "garry_chain_allocate eng = (eng', ?c)"
    "pool_idle n (eng_pool eng')" "key_log eng' ?c []" "\<And>cid ys. key_log eng cid ys \<Longrightarrow> key_log eng' cid ys"
    "\<And>q. q \<noteq> ?c \<Longrightarrow> agree 0 (bp_page_size (eng_pool eng)) (page_view (eng_pool eng) q) (page_view (eng_pool eng') q)"
    "bp_page_size (eng_pool eng') = bp_page_size (eng_pool eng)"
    "bp_free_list_head (eng_pool eng') = bp_free_list_head (eng_pool eng)"
    "bp_next_page (eng_pool eng') = ?c + 1" "eng' = eng\<lparr>eng_pool := eng_pool eng'\<rparr>"
    by (rule chain_allocate_spec) blast
  have fr: "page_frame {?c} (eng_pool eng) (eng_pool eng')" using e(5-8) by (simp add: page_frame_def)
  have nn: "0 \<le> ?c" using pool_invD(4) [OF pool_idle_inv [OF t(1)]] .
  have "eng_btree_root eng' = eng_btree_root eng \<and> eng_page_size eng' = eng_page_size eng"
    by (subst (1 2) e(9)) simp
  then have "kv_on h eng' ls P"
    using btree_on_bound [OF d(2)] chain_bound [OF assms(1)]
    by (intro kv_on_frame [OF assms(1) fr]) (fastforce simp: chain_of_def)+
  moreover have "i32 ?c" using nn t(4) by (simp add: i32_def node_consts)
  moreover have "tree_pool n m (eng_pool eng')"
    using t e(2,6-8) by (simp add: tree_pool_def)
  ultimately show ?thesis using that e nn by blast
qed

lemma find_or_create_kv:
  assumes kv: "kv_on h eng ls P" and tp: "tree_pool (n + 27 + 15 * h) (h + 3 + m) (eng_pool eng)"
    and key: "length k < 256"
  shows "\<exists>eng' c ls' h' P'. find_or_create_chain eng k = Some (eng', Some c, map_of ls k = None) \<and>
    h' \<le> Suc h \<and> tree_pool n m (eng_pool eng') \<and> kv_on h' eng' ls' P' \<and>
    map_of ls' k = Some (c, versions ls k) \<and> versions ls' = versions ls \<and> length ls' \<le> Suc (length ls) \<and>
    eng' = eng\<lparr>eng_pool := eng_pool eng', eng_btree_root := eng_btree_root eng'\<rparr> \<and>
    (\<forall>k'. k' \<noteq> k \<longrightarrow> map_of ls' k' = map_of ls k')"
proof -
  have "pool_idle (n + 25 + 13 * h + 2 * Suc h) (eng_pool eng)"
    by (rule pool_idle_mono [OF tree_poolD(1) [OF tp]]) simp
  from kv this obtain p where p:
    "engine_search eng k = Some (eng\<lparr>eng_pool := p\<rparr>,
       map_option (\<lambda>r. descriptor_bytes (fst r) False) (map_of ls k))"
    "pool_idle (n + 25 + 13 * h) p" "page_frame {} (eng_pool eng) p" "bp_next_page p = bp_next_page (eng_pool eng)"
    "kv_on h (eng\<lparr>eng_pool := p\<rparr>) ls P"
    by (rule engine_search_kv) blast
  have tp1: "tree_pool (n + 25 + 13 * h) (h + 3 + m) p" by (rule tree_pool_frame [OF tp p(2-4)])
  show ?thesis
  proof (cases "map_of ls k")
    case (Some r)
    obtain c xs where r: "r = (c, xs)" by (cases r)
    have m: "(k, c, xs) \<in> set ls" using Some unfolding r by (rule map_of_SomeD)
    have "tree_pool n m p" by (rule tree_pool_mono [OF tp1]) simp_all
    with Some p decode_cid_descriptor(1) [OF kv_onD(5) [OF p(5) m]] show ?thesis
      by (intro exI [of _ "eng\<lparr>eng_pool := p\<rparr>"] exI [of _ c] exI [of _ ls] exI [of _ h] exI [of _ P])
        (simp add: find_or_create_chain_def r versions_def)
  next
    case None
    let ?e = "eng\<lparr>eng_pool := p\<rparr>" and ?c = "bp_next_page p"
    have "tree_pool (n + 22 + 13 * h + 3) (Suc (Suc (Suc h) + m)) (eng_pool ?e)"
      by (simp, rule tree_pool_mono [OF tp1]) simp_all
    from allocate_kv [OF p(5) this] obtain e1 where e1:
      "garry_chain_allocate ?e = (e1, ?c)" "tree_pool (n + 22 + 13 * h) (Suc (Suc h) + m) (eng_pool e1)"
      "key_log e1 ?c []" "kv_on h e1 ls P" "bp_next_page (eng_pool e1) = ?c + 1"
      "e1 = eng\<lparr>eng_pool := eng_pool e1\<rparr>" "0 \<le> ?c" "i32 ?c"
      by auto
    note d = kv_onD [OF e1(4)]
    let ?desc = "descriptor_bytes ?c False"
    have dl: "length ?desc < 256" using length_descriptor_bytes [of ?c False] by simp
    from btree_on_insert [OF e1(2) d(2) key dl] obtain p2 root h2 P2 where b:
      "garry_btree_insert (eng_pool e1) (eng_btree_root e1) k ?desc = Some (p2, root, True)"
      "h2 \<le> Suc h" "tree_pool n m p2" "btree_on h2 p2 root (ins_entry k ?desc (map index_entry ls)) P2"
      "P2 \<subseteq> P \<union> {?c + 1..}" "page_frame (P \<union> {?c + 1..}) (eng_pool e1) p2"
      unfolding e1(5) by blast
    let ?e2 = "e1\<lparr>eng_pool := p2, eng_btree_root := root\<rparr>" and ?ls = "ins_entry k (?c, []) ls"
    have "k \<notin> fst ` set ls" using None by (simp add: map_of_eq_None_iff)
    from ins_entry_new [OF this, of "(?c, [])"] obtain xs ys where
      ins: "ls = xs @ ys" "?ls = xs @ (k, ?c, []) # ys" by blast
    have old: "c' < ?c" if "(k', c', zs) \<in> set ls" for k' c' zs
      using chain_bound [OF p(5) that] by simp
    have nP: "?c \<notin> P" using btree_on_bound [OF kv_onD(2) [OF p(5)], of ?c] by auto
    have "kv_on h2 ?e2 ?ls P2"
    proof (rule kv_onI)
      show "eng_page_size ?e2 = bp_page_size (eng_pool ?e2)" using b(6) d(1) by (simp add: page_frame_def)
      show "btree_on h2 (eng_pool ?e2) (eng_btree_root ?e2) (map index_entry ?ls) P2"
        using b(4) by (simp add: index_entry_def ins_entry_map)
      show "distinct (map chain_of ?ls)"
        using d(3) old unfolding ins(2) by (auto simp: ins(1) chain_of_def)
      note hd = kv_on_header [OF e1(4)] and nx = kv_on_header(1) [OF p(5)]
      show "0 < bp_next_page (eng_pool ?e2)" using b(6) hd(1) by (simp add: page_frame_def)
      show "0 \<notin> P2" using b(5) hd(2) nx by auto
      show "0 \<notin> chain_of ` set ?ls" using hd(3) nx unfolding ins(2) by (auto simp: ins(1) chain_of_def)
      show "c' \<notin> P2 \<and> i32 c' \<and> key_log ?e2 c' zs" if "(k', c', zs) \<in> set ?ls" for k' c' zs
      proof -
        have "(k', c', zs) \<in> set ls \<or> (c', zs) = (?c, [])" using that unfolding ins(2) by (auto simp: ins(1))
        then have "c' \<notin> P \<and> c' \<le> ?c \<and> i32 c' \<and> key_log e1 c' zs"
          using d(4-6) [of k' c' zs] old [of k' c' zs] nP e1(3,8) by auto
        then show ?thesis
          using b(5) key_log_frame [of e1 c' zs "P \<union> {?c + 1..}" ?e2] b(6) by auto
      qed
    qed
    moreover have "find_or_create_chain eng k = Some (?e2, Some ?c, True)"
      using None p(1) e1(1,7) b(1)
      by (simp add: find_or_create_chain_def encode_descriptor_put read_put_same)
    moreover have "?e2 = eng\<lparr>eng_pool := eng_pool ?e2, eng_btree_root := eng_btree_root ?e2\<rparr>"
      by (subst e1(6)) simp
    moreover have "map_of ?ls k = Some (?c, versions ls k)" "\<forall>k'. k' \<noteq> k \<longrightarrow> map_of ?ls k' = map_of ls k'"
      using None by (simp_all add: map_of_ins_entry versions_def)
    ultimately show ?thesis using b(2,3) map_of_new_versions [OF None, of ?c] None ins
      by (intro exI [of _ ?e2] exI [of _ ?c] exI [of _ ?ls] exI [of _ h2] exI [of _ P2]) simp
  qed
qed

subsection \<open>Appending a version\<close>

definition put_log :: "int \<Rightarrow> version list \<Rightarrow> chains \<Rightarrow> chains" where
  "put_log c ys ls = map (\<lambda>(k, c', xs). (k, c', if c' = c then ys else xs)) ls"

lemma put_log_index: "map index_entry (put_log c ys ls) = map index_entry ls"
  "map chain_of (put_log c ys ls) = map chain_of ls"
  by (auto simp: put_log_def index_entry_def chain_of_def)

lemma length_put_log [simp]: "length (put_log c ys ls) = length ls"
  by (simp add: put_log_def)

lemma in_put_log:
  assumes "(k, c', zs) \<in> set (put_log c ys ls)"
  obtains zs' where "(k, c', zs') \<in> set ls" "zs = (if c' = c then ys else zs')"
proof -
  from assms obtain r where r: "r \<in> set ls"
    "(k, c', zs) = (case r of (k, c', xs) \<Rightarrow> (k, c', if c' = c then ys else xs))"
    unfolding put_log_def set_map by (elim imageE)
  obtain k1 c1 xs1 where "r = (k1, c1, xs1)" by (cases r)
  with r that [of xs1] show ?thesis by simp
qed

lemma map_of_put_log: "map_of (put_log c ys ls) k = map_option (\<lambda>(c', xs). (c', if c' = c then ys else xs)) (map_of ls k)"
  by (induction ls) (auto simp: put_log_def)

lemma chain_unique:
  assumes "distinct (map chain_of ls)" "(k, c, xs) \<in> set ls" "(k', c, xs') \<in> set ls"
  shows "k' = k \<and> xs' = xs"
proof -
  have "inj_on chain_of (set ls)" using assms(1) by (simp add: distinct_map)
  from inj_onD [OF this _ assms(2,3)] show ?thesis by (simp add: chain_of_def)
qed

lemma versions_put_log:
  assumes "distinct (map chain_of ls)" "map_of ls k = Some (c, xs)"
  shows "versions (put_log c ys ls) = (versions ls)(k := ys)"
proof
  fix k'
  have m: "(k, c, xs) \<in> set ls" by (rule map_of_SomeD [OF assms(2)])
  show "versions (put_log c ys ls) k' = ((versions ls)(k := ys)) k'"
  proof (cases "map_of ls k'")
    case (Some r)
    obtain c' xs' where r: "r = (c', xs')" by (cases r)
    have "(k', c', xs') \<in> set ls" using Some unfolding r by (rule map_of_SomeD)
    then have "c' = c \<longrightarrow> k' = k" using chain_unique [OF assms(1) m] by blast
    with Some assms(2) show ?thesis by (auto simp: versions_def map_of_put_log r)
  qed (use assms(2) in \<open>auto simp: versions_def map_of_put_log\<close>)
qed

text \<open>What an operation on the store leaves alone in the engine.\<close>

definition same_session :: "garry_engine_handle \<Rightarrow> garry_engine_handle \<Rightarrow> bool" where
  "same_session eng eng' \<longleftrightarrow>
     eng_active_txns eng' = eng_active_txns eng \<and> eng_next_txid eng' = eng_next_txid eng \<and>
     eng_max_txns eng' = eng_max_txns eng \<and> eng_page_size eng' = eng_page_size eng \<and>
     eng_compression eng' = eng_compression eng \<and>
     (\<forall>t. garry_txn_is_active t eng' \<longleftrightarrow> garry_txn_is_active t eng) \<and> (txn_inv eng \<longrightarrow> txn_inv eng')"

lemma same_session_refl [simp]: "same_session eng eng"
  by (simp add: same_session_def)

lemma same_session_trans: "same_session a b \<Longrightarrow> same_session b c \<Longrightarrow> same_session a c"
  by (simp add: same_session_def)

lemma same_session_fields [simp]:
  "same_session eng (eng\<lparr>eng_pool := pool\<rparr>)" "same_session eng (eng\<lparr>eng_btree_root := root\<rparr>)"
  "same_session eng (eng\<lparr>eng_wal := wal\<rparr>)" "same_session eng (eng\<lparr>eng_key_count := n\<rparr>)"
  by (simp_all add: same_session_def garry_txn_is_active_def find_txn_slot_def txn_inv_def cong: option.case_cong)

lemma note_modified_compression [simp]: "eng_compression (note_modified eng t c) = eng_compression eng"
  "eng_btree_root (note_modified eng t c) = eng_btree_root eng"
  by (simp_all add: note_modified_def Let_def split: option.split)

lemma nth_update_any: "xs[j := x] ! i = (if i = j \<and> j < length xs then x else xs ! i)"
  by (cases "j < length xs") (auto simp: nth_list_update list_update_beyond)

lemma note_modified_active: "garry_txn_is_active s (note_modified eng t c) = garry_txn_is_active s eng"
proof -
  have f: "find_txn_slot (note_modified eng t c) s = find_txn_slot eng s"
    by (simp add: find_txn_slot_def)
  show ?thesis
  proof (cases "find_txn_slot eng s")
    case (Some i)
    have "ti_state (eng_txn_states (note_modified eng t c) ! i) = ti_state (eng_txn_states eng ! i)"
      by (simp add: note_modified_def Let_def nth_update_any split: option.split)
    with Some show ?thesis by (simp add: garry_txn_is_active_def f)
  qed (simp add: garry_txn_is_active_def f)
qed

lemma same_session_note: "same_session eng (note_modified eng t c)"
  by (simp add: same_session_def note_modified_active note_modified_inv)

lemma same_session_lock:
  "same_session eng (eng\<lparr>eng_lock_mgr := fst (garry_lock_acquire malloc_ok (eng_lock_mgr eng) t k mode)\<rparr>)"
proof -
  have "lock_inv (eng_lock_mgr eng) \<Longrightarrow> lock_inv (fst (garry_lock_acquire malloc_ok (eng_lock_mgr eng) t k mode))"
    by (rule locks.acquire_keeps)
  then show ?thesis
    by (simp add: same_session_def garry_txn_is_active_def find_txn_slot_def txn_inv_def cong: option.case_cong)
qed

text \<open>A write through the chain page of a key is a write to the key.\<close>

lemma write_kv:
  assumes kv: "kv_on h eng ls P" and m: "map_of ls k = Some (c, xs)"
    and fits: "log_fits (eng_page_size eng) t v" and tp: "tree_pool (n + 2) m' (eng_pool eng)"
  obtains eng' ok where "mvcc_write eng t c v = (eng', ok)" "tree_pool n m' (eng_pool eng')"
    "kv_on h eng' (put_log c (if ok then xs @ [(t, v)] else xs) ls) P"
    "versions (put_log c (if ok then xs @ [(t, v)] else xs) ls) =
       (if ok then (versions ls)(k := versions ls k @ [(t, v)]) else versions ls)"
    "same_session eng eng'" "ok \<longleftrightarrow> log_room (eng_page_size eng) (versions ls k) v"
proof -
  note d = kv_onD [OF kv] and mem = map_of_SomeD [OF m] and tpd = tree_poolD [OF tp]
  have idle: "pool_idle (n + 2) (eng_pool eng)" by (rule tpd(1))
  from idle d(6) [OF mem] fits obtain pool ok where w:
    "mvcc_write eng t c v = ((if ok then note_modified eng t c else eng)\<lparr>eng_pool := pool\<rparr>, ok)"
    "pool_idle n pool" "bp_page_size pool = bp_page_size (eng_pool eng)"
    "bp_next_page pool = bp_next_page (eng_pool eng)"
    "page_log (eng_page_size eng) (page_view pool c) (if ok then xs @ [(t, v)] else xs)"
    "\<And>q. q \<noteq> c \<Longrightarrow> agree 0 (bp_page_size pool) (page_view (eng_pool eng) q) (page_view pool q)"
    "bp_free_list_head pool = bp_free_list_head (eng_pool eng)" "ok \<longleftrightarrow> log_room (eng_page_size eng) xs v"
    by (rule mvcc_write_spec) blast
  let ?e = "(if ok then note_modified eng t c else eng)\<lparr>eng_pool := pool\<rparr>"
    and ?ys = "if ok then xs @ [(t, v)] else xs"
  have fr: "page_frame {c} (eng_pool eng) (eng_pool ?e)" using w(3,4,6,7) by (simp add: page_frame_def)
  have sel: "eng_btree_root ?e = eng_btree_root eng" "eng_page_size ?e = eng_page_size eng"
    "eng_pool ?e = pool" by simp_all
  have "same_session eng ?e"
    using same_session_trans [OF same_session_note same_session_fields(1)] by simp
  moreover have "kv_on h ?e (put_log c ?ys ls) P"
  proof (rule kv_onI)
    show "btree_on h (eng_pool ?e) (eng_btree_root ?e) (map index_entry (put_log c ?ys ls)) P"
      using btree_on_frame [OF d(2) fr] d(4) [OF mem] by (simp add: put_log_index)
    show "c' \<notin> P \<and> i32 c' \<and> key_log ?e c' zs" if "(k', c', zs) \<in> set (put_log c ?ys ls)" for k' c' zs
    proof -
      from that obtain zs0 where z: "(k', c', zs0) \<in> set ls" "zs = (if c' = c then ?ys else zs0)"
        by (rule in_put_log)
      have "key_log ?e c' zs"
      proof (cases "c' = c")
        case True
        have "key_log ?e c ?ys" by (rule key_log_write [OF d(6) [OF mem] w(3,4,5) sel(3,2)])
        with True z(2) show ?thesis by simp
      next
        case False
        have "key_log ?e c' zs0"
          by (rule key_log_frame [OF d(6) [OF z(1)] fr _ sel(2)]) (use False in simp)
        with False z(2) show ?thesis by simp
      qed
      with d(4,5) [OF z(1)] show ?thesis by simp
    qed
    have "chain_of ` set (put_log c ?ys ls) = chain_of ` set ls"
      unfolding set_map [symmetric] by (simp add: put_log_index)
    then show "0 \<notin> chain_of ` set (put_log c ?ys ls)" using kv_on_header(3) [OF kv] by simp
  qed (use d w(3,4) kv_on_header(1,2) [OF kv] in \<open>simp_all add: put_log_index\<close>)
  moreover have "versions (put_log c ?ys ls) = (if ok then (versions ls)(k := versions ls k @ [(t, v)]) else versions ls)"
    using versions_put_log [OF d(3) m, of ?ys] m by (auto simp: versions_def fun_eq_iff)
  moreover have "tree_pool n m' (eng_pool ?e)" using tpd w(2-4,7) by (simp add: tree_pool_def)
  moreover have "ok \<longleftrightarrow> log_room (eng_page_size eng) (versions ls k) v" using w(8) m by (simp add: versions_def)
  ultimately show ?thesis by (intro that [OF w(1)])
qed

subsection \<open>Writing and deleting a key\<close>

text \<open>What an operation leaves behind.\<close>

definition kv_after ::
  "nat \<Rightarrow> nat \<Rightarrow> nat \<Rightarrow> nat \<Rightarrow> garry_engine_handle \<Rightarrow> (key \<Rightarrow> version list) \<Rightarrow> garry_engine_handle \<Rightarrow> bool" where
  "kv_after h n m b eng V eng' \<longleftrightarrow>
     (\<exists>ls P. kv_on h eng' ls P \<and> versions ls = V \<and> length ls \<le> b) \<and> tree_pool n m (eng_pool eng') \<and> same_session eng eng'"

lemma kv_afterI:
  "kv_on h eng' ls P \<Longrightarrow> versions ls = V \<Longrightarrow> tree_pool n m (eng_pool eng') \<Longrightarrow> same_session eng eng' \<Longrightarrow>
     length ls \<le> b \<Longrightarrow> kv_after h n m b eng V eng'"
  unfolding kv_after_def by blast

lemma kv_on_cong:
  "kv_on h eng ls P \<Longrightarrow> eng_pool eng' = eng_pool eng \<Longrightarrow> eng_btree_root eng' = eng_btree_root eng \<Longrightarrow>
     eng_page_size eng' = eng_page_size eng \<Longrightarrow> kv_on h eng' ls P"
  by (rule kv_on_view) simp_all

text \<open>Values small enough for one record of the log and one version of a chain page.\<close>

definition value_ok :: "garry_engine_handle \<Rightarrow> byte list \<Rightarrow> bool" where
  "value_ok eng val \<longleftrightarrow> length val \<le> 256 \<and> (val \<noteq> [] \<or> eng_compression eng \<noteq> GARRY_COMPRESS_LZ4)"

lemma payload_ok:
  assumes "value_ok eng val"
  obtains payload where "compress_value eng val = Some payload" "decompress_value eng payload = Some val"
    "length payload \<le> 300"
proof (cases "eng_compression eng = GARRY_COMPRESS_LZ4")
  case True
  with assms have v: "0 < length val" "length val \<le> LZ4_MAX_INPUT_SIZE" "length val \<le> GARRY_MAX_RECORD_SIZE"
    "length val \<le> 256"
    by (auto simp: value_ok_def LZ4_MAX_INPUT_SIZE_def GARRY_MAX_RECORD_SIZE_def)
  from decompress_compressed [OF v(1-3)] obtain c where
    c: "lz4_compress val = Some c" "lz4_decompress c GARRY_MAX_RECORD_SIZE = Some val" by blast
  have "length val div 255 \<le> 1" using v(4) by simp
  then have "length c \<le> 300"
    using lz4_output_bound [OF c(1)] v(2,4) by (simp add: lz4_compress_bound_def)
  with c True v(3) that show ?thesis by (simp add: compress_value_def decompress_value_def)
next
  case False
  with assms that show ?thesis by (simp add: value_ok_def compress_value_def decompress_value_def)
qed

lemma payload_fits:
  assumes "kv_on h eng ls P" "tree_pool n m (eng_pool eng)" "i32 t" "length payload \<le> 300"
  shows "log_fits (eng_page_size eng) t (Some payload)" "log_fits (eng_page_size eng) t None"
  using assms(3,4) tree_poolD(3) [OF assms(2)] kv_onD(1) [OF assms(1)]
  by (simp_all add: log_fits_def garry_chain_inline_capacity_def)

lemma make_update_short: "length val \<le> 256 \<Longrightarrow> \<exists>rec. garry_make_update_record pool t k val = (pool, Some rec)"
  by (simp add: garry_make_update_record_def Let_def)

lemma set_kv:
  assumes kv: "kv_on h eng ls P" and tp: "tree_pool (n + 29 + 15 * h) (h + 3 + m) (eng_pool eng)"
    and k: "k \<noteq> []" "length k < 256" and t: "garry_txn_is_active t eng" "i32 t" and v: "value_ok eng val"
  shows "\<exists>eng' ok h'. garry_storage_set malloc_ok eng t k val = Some (eng', ok) \<and> h' \<le> Suc h \<and>
    (ok \<longleftrightarrow> snd (garry_lock_acquire malloc_ok (eng_lock_mgr eng) t k GARRY_LOCK_EXCLUSIVE) \<and>
       log_room (eng_page_size eng) (versions ls k) (compress_value eng val)) \<and>
    kv_after h' n m (Suc (length ls)) eng
      (if ok then (versions ls)(k := versions ls k @ [(t, compress_value eng val)]) else versions ls) eng'"
proof -
  obtain mgr ok where acq: "garry_lock_acquire malloc_ok (eng_lock_mgr eng) t k GARRY_LOCK_EXCLUSIVE = (mgr, ok)"
    by fastforce
  let ?e0 = "eng\<lparr>eng_lock_mgr := mgr\<rparr>"
  have s0: "same_session eng ?e0"
    using same_session_lock [of eng malloc_ok t k GARRY_LOCK_EXCLUSIVE] by (simp add: acq)
  have kv0: "kv_on h ?e0 ls P" by (rule kv_on_cong [OF kv]) simp_all
  have kk: "\<not> length k > GARRY_MAX_KEY_SIZE" using k(2) by (simp add: GARRY_MAX_KEY_SIZE_def)
  have small: "tree_pool n m (eng_pool eng)" by (rule tree_pool_mono [OF tp]) simp_all
  show ?thesis
  proof (cases ok)
    case False
    then have "garry_storage_set malloc_ok eng t k val = Some (?e0, False)"
      using k(1) kk t(1) by (simp add: garry_storage_set_def acq)
    moreover have "kv_after h n m (Suc (length ls)) eng (versions ls) ?e0"
      by (rule kv_afterI [OF kv0 refl _ s0]) (simp_all add: small)
    ultimately show ?thesis using False acq
      by (intro exI [of _ ?e0] exI [of _ False] exI [of _ h]) simp
  next
    case True
    have "tree_pool ((n + 2) + 27 + 15 * h) (h + 3 + m) (eng_pool ?e0)" by (simp, rule tree_pool_mono [OF tp]) simp_all
    from find_or_create_kv [OF kv0 this k(2)] obtain e1 c ls1 h1 P1 where f:
      "find_or_create_chain ?e0 k = Some (e1, Some c, map_of ls k = None)" "h1 \<le> Suc h"
      "tree_pool (n + 2) m (eng_pool e1)" "kv_on h1 e1 ls1 P1" "map_of ls1 k = Some (c, versions ls k)"
      "versions ls1 = versions ls" "length ls1 \<le> Suc (length ls)"
      "e1 = ?e0\<lparr>eng_pool := eng_pool e1, eng_btree_root := eng_btree_root e1\<rparr>"
      by blast
    have s1: "same_session eng e1"
      by (subst f(8)) (rule same_session_trans [OF same_session_trans [OF s0 same_session_fields(1)] same_session_fields(2)])
    have vl: "length val \<le> 256" using v by (simp add: value_ok_def)
    obtain rec where rec: "garry_make_update_record (eng_pool e1) t k val = (eng_pool e1, Some rec)"
      using make_update_short [OF vl] by blast
    define e2 where "e2 = log_record e1 (Some rec)"
    have s2: "same_session eng e2"
      using same_session_trans [OF s1 same_session_fields(3)] by (simp add: e2_def log_record_def)
    have kv2: "kv_on h1 e2 ls1 P1" by (rule kv_on_cong [OF f(4)]) (simp_all add: e2_def log_record_def)
    have tp2: "tree_pool (n + 2) m (eng_pool e2)" using f(3) by (simp add: e2_def log_record_def)
    obtain payload where pl: "compress_value eng val = Some payload" "length payload \<le> 300"
      using payload_ok [OF v] by metis
    have c2: "compress_value e2 val = Some payload"
      using pl(1) s2 by (simp add: compress_value_def same_session_def)
    from kv2 f(5) payload_fits(1) [OF kv2 tp2 t(2) pl(2)] tp2 obtain e3 ok3 where w:
      "mvcc_write e2 t c (Some payload) = (e3, ok3)" "tree_pool n m (eng_pool e3)"
      "kv_on h1 e3 (put_log c (if ok3 then versions ls k @ [(t, Some payload)] else versions ls k) ls1) P1"
      "versions (put_log c (if ok3 then versions ls k @ [(t, Some payload)] else versions ls k) ls1) =
         (if ok3 then (versions ls1)(k := versions ls1 k @ [(t, Some payload)]) else versions ls1)"
      "same_session e2 e3" "ok3 \<longleftrightarrow> log_room (eng_page_size e2) (versions ls1 k) (Some payload)"
      by (rule write_kv)
    define e4 where "e4 = (if ok3 \<and> map_of ls k = None then e3\<lparr>eng_key_count := eng_key_count e3 + 1\<rparr> else e3)"
    have e4: "eng_pool e4 = eng_pool e3" "eng_btree_root e4 = eng_btree_root e3"
      "eng_page_size e4 = eng_page_size e3" "same_session e3 e4"
      by (simp_all add: e4_def)
    have "garry_storage_set malloc_ok eng t k val = Some (e4, ok3)"
      using k(1) kk t(1) True f(1) c2 w(1)
      by (cases ok3) (simp_all add: garry_storage_set_def acq rec mvcc_write_def e4_def flip: e2_def)
    moreover have "kv_after h1 n m (Suc (length ls)) eng
        (if ok3 then (versions ls)(k := versions ls k @ [(t, compress_value eng val)]) else versions ls) e4"
      by (rule kv_afterI [OF kv_on_cong [OF w(3) e4(1-3)]])
        (use w(2,4) f(6,7) e4(1) pl(1) same_session_trans [OF s2 same_session_trans [OF w(5) e4(4)]] in \<open>simp_all\<close>)
    moreover have "ok3 \<longleftrightarrow> snd (garry_lock_acquire malloc_ok (eng_lock_mgr eng) t k GARRY_LOCK_EXCLUSIVE) \<and>
       log_room (eng_page_size eng) (versions ls k) (compress_value eng val)"
      using w(6) s2 f(6) acq True pl(1) by (simp add: same_session_def)
    ultimately show ?thesis using f(2) by blast
  qed
qed

lemma delete_kv:
  assumes kv: "kv_on h eng ls P" and tp: "tree_pool (n + 4 + 2 * h) m (eng_pool eng)"
    and k: "k \<noteq> []" and t: "garry_txn_is_active t eng" "i32 t"
  shows "\<exists>eng' ok. garry_storage_delete malloc_ok eng t k = Some (eng', ok) \<and>
    (ok \<longleftrightarrow> snd (garry_lock_acquire malloc_ok (eng_lock_mgr eng) t k GARRY_LOCK_EXCLUSIVE) \<and>
       map_of ls k \<noteq> None \<and> log_room (eng_page_size eng) (versions ls k) None) \<and>
    kv_after h n m (length ls) eng (if ok then (versions ls)(k := versions ls k @ [(t, None)]) else versions ls) eng'"
proof -
  obtain mgr ok where acq: "garry_lock_acquire malloc_ok (eng_lock_mgr eng) t k GARRY_LOCK_EXCLUSIVE = (mgr, ok)"
    by fastforce
  let ?e0 = "eng\<lparr>eng_lock_mgr := mgr\<rparr>"
  have s0: "same_session eng ?e0"
    using same_session_lock [of eng malloc_ok t k GARRY_LOCK_EXCLUSIVE] by (simp add: acq)
  have kv0: "kv_on h ?e0 ls P" by (rule kv_on_cong [OF kv]) simp_all
  have small: "tree_pool n m (eng_pool eng)" by (rule tree_pool_mono [OF tp]) simp_all
  show ?thesis
  proof (cases ok)
    case False
    then have "garry_storage_delete malloc_ok eng t k = Some (?e0, False)"
      using k t(1) by (simp add: garry_storage_delete_def acq)
    moreover have "kv_after h n m (length ls) eng (versions ls) ?e0"
      by (rule kv_afterI [OF kv0 refl _ s0]) (simp_all add: small)
    ultimately show ?thesis using False acq by (intro exI [of _ ?e0] exI [of _ False]) simp
  next
    case True
    have "pool_idle (n + 2 + 2 * Suc h) (eng_pool ?e0)"
      using tree_poolD(1) [OF tp] by (auto elim: pool_idle_mono)
    from kv0 this obtain p where p:
      "engine_search ?e0 k = Some (?e0\<lparr>eng_pool := p\<rparr>, map_option (\<lambda>r. descriptor_bytes (fst r) False) (map_of ls k))"
      "pool_idle (n + 2) p" "page_frame {} (eng_pool ?e0) p" "bp_next_page p = bp_next_page (eng_pool ?e0)"
      "kv_on h (?e0\<lparr>eng_pool := p\<rparr>) ls P"
      by (rule engine_search_kv) blast
    let ?e1 = "?e0\<lparr>eng_pool := p\<rparr>"
    have s1: "same_session eng ?e1" by (rule same_session_trans [OF s0 same_session_fields(1)])
    have tp1: "tree_pool (n + 2) m p" by (rule tree_pool_frame [OF tp]) (use p in simp_all)
    show ?thesis
    proof (cases "map_of ls k")
      case None
      then have "garry_storage_delete malloc_ok eng t k = Some (?e1, False)"
        using k t(1) True p(1) by (simp add: garry_storage_delete_def acq)
      moreover have "kv_after h n m (length ls) eng (versions ls) ?e1"
        by (rule kv_afterI [OF p(5) refl _ s1]) (use tree_pool_mono [OF tp1, of n m] in simp_all)
      ultimately show ?thesis using None by (intro exI [of _ ?e1] exI [of _ False]) simp
    next
      case (Some r)
      obtain c xs where r: "r = (c, xs)" by (cases r)
      have m: "map_of ls k = Some (c, xs)" using Some r by simp
      note mem = map_of_SomeD [OF m]
      note cid = decode_cid_descriptor(1) [OF kv_onD(5) [OF p(5) mem], of False]
      have c0: "\<not> c < 0" using chain_bound(1) [OF p(5) mem] by simp
      define e2 where "e2 = log_record ?e1 (Some (garry_make_delete_record t k))"
      have s2: "same_session eng e2"
        using same_session_trans [OF s1 same_session_fields(3)] by (simp add: e2_def log_record_def)
      have kv2: "kv_on h e2 ls P" by (rule kv_on_cong [OF p(5)]) (simp_all add: e2_def log_record_def)
      have tp2: "tree_pool (n + 2) m (eng_pool e2)" using tp1 by (simp add: e2_def log_record_def)
      have v: "versions ls k = xs" using m by (simp add: versions_def)
      from kv2 m payload_fits(2) [OF kv2 tp2 t(2), of "[]"] tp2 obtain e3 ok3 where w:
        "mvcc_write e2 t c None = (e3, ok3)" "tree_pool n m (eng_pool e3)"
        "kv_on h e3 (put_log c (if ok3 then xs @ [(t, None)] else xs) ls) P"
        "versions (put_log c (if ok3 then xs @ [(t, None)] else xs) ls) =
           (if ok3 then (versions ls)(k := versions ls k @ [(t, None)]) else versions ls)"
        "same_session e2 e3" "ok3 \<longleftrightarrow> log_room (eng_page_size e2) (versions ls k) None"
        by (rule write_kv) simp_all
      have "garry_storage_delete malloc_ok eng t k = Some (e3, ok3)"
        using k t(1) True p(1) m cid c0 w(1)
        by (simp add: garry_storage_delete_def acq mvcc_write_def Let_def flip: e2_def)
      moreover have "kv_after h n m (length ls) eng
          (if ok3 then (versions ls)(k := versions ls k @ [(t, None)]) else versions ls) e3"
        by (rule kv_afterI [OF w(3,4,2) same_session_trans [OF s2 w(5)]]) simp
      moreover have "ok3 \<longleftrightarrow> snd (garry_lock_acquire malloc_ok (eng_lock_mgr eng) t k GARRY_LOCK_EXCLUSIVE) \<and>
          map_of ls k \<noteq> None \<and> log_room (eng_page_size eng) (versions ls k) None"
        using w(6) s2 acq True m by (simp add: same_session_def)
      ultimately show ?thesis by blast
    qed
  qed
qed

end
