(* ===== verification/Garry_Store.thy ===== *)
theory Garry_Store
  imports Garry_Storage
begin

text \<open>
  The store as a whole: the operations of \<open>src/src/storage_ops.c\<close> and \<open>src/src/storage_txn.c\<close> on one
  engine implement multi-version concurrency control on a map from keys to version logs.

  The abstract store (\<open>store_state\<close>) knows nothing of pages, trees, chains, descriptors or
  compression. \<open>store_rep n\<close> relates an engine to an abstract store and says that its resources are
  enough for \<open>n\<close> more commands. The simulation is proved once for any pair of machines in the
  locale \<open>simulation\<close>, and interpreted on the engine.
\<close>

subsection \<open>Simulation\<close>

fun run :: "('s \<Rightarrow> 'c \<Rightarrow> ('s \<times> 'r) option) \<Rightarrow> 's \<Rightarrow> 'c list \<Rightarrow> ('s \<times> 'r list) option" where
  "run step s [] = Some (s, [])"
| "run step s (c # cs) =
     (case step s c of
        None \<Rightarrow> None
      | Some (s', r) \<Rightarrow> (case run step s' cs of None \<Rightarrow> None | Some (s'', rs) \<Rightarrow> Some (s'', r # rs)))"

text \<open>The abstract machine checks a response and moves on, or refuses the response.\<close>

fun check_run :: "('a \<Rightarrow> 'c \<Rightarrow> 'r \<Rightarrow> 'a option) \<Rightarrow> 'a \<Rightarrow> ('c \<times> 'r) list \<Rightarrow> 'a option" where
  "check_run spec a [] = Some a"
| "check_run spec a ((c, r) # crs) =
     (case spec a c r of None \<Rightarrow> None | Some a' \<Rightarrow> check_run spec a' crs)"

locale simulation =
  fixes rep :: "nat \<Rightarrow> 's \<Rightarrow> 'a \<Rightarrow> bool"
    and step :: "'s \<Rightarrow> 'c \<Rightarrow> ('s \<times> 'r) option"
    and spec :: "'a \<Rightarrow> 'c \<Rightarrow> 'r \<Rightarrow> 'a option"
    and command_ok :: "'c \<Rightarrow> bool"
  assumes step_law: "rep (Suc n) s a \<Longrightarrow> command_ok c \<Longrightarrow>
    \<exists>s' r a'. step s c = Some (s', r) \<and> spec a c r = Some a' \<and> rep n s' a'"
begin

lemma run_simulates:
  assumes "rep (length cs + n) s a" "\<forall>c \<in> set cs. command_ok c"
  shows "\<exists>s' rs a'. run step s cs = Some (s', rs) \<and> length rs = length cs \<and>
    check_run spec a (zip cs rs) = Some a' \<and> rep n s' a'"
  using assms
proof (induction cs arbitrary: s a)
  case (Cons c cs)
  have "rep (Suc (length cs + n)) s a" "command_ok c" using Cons.prems by simp_all
  from step_law [OF this] obtain s1 r a1 where
    1: "step s c = Some (s1, r)" "spec a c r = Some a1" "rep (length cs + n) s1 a1" by blast
  from Cons.IH [OF 1(3)] Cons.prems(2) obtain s2 rs a2 where
    2: "run step s1 cs = Some (s2, rs)" "length rs = length cs" "check_run spec a1 (zip cs rs) = Some a2"
    "rep n s2 a2" by auto
  with 1 show ?case by (intro exI [of _ s2] exI [of _ "r # rs"] exI [of _ a2]) simp
qed simp

end

subsection \<open>The abstract store\<close>

text \<open>The versions of each key, oldest first; the identifiers that readers take for unfinished,
  among them those of rolled back transactions; the transactions that run; the next identifier and
  the most that may run.\<close>

record store_state =
  ss_versions :: "key \<Rightarrow> version list"
  ss_active :: "int list"
  ss_running :: "int set"
  ss_next :: int
  ss_limit :: int

datatype command =
    Start
  | Commit int
  | Rollback int
  | Read int key
  | Exists int key
  | Write int key "byte list"
  | Remove int key

datatype response = Started int | Done | Found "byte list option" | Answer bool | Written bool

definition store_full :: "store_state \<Rightarrow> bool" where
  "store_full s \<longleftrightarrow>
     ss_limit s \<le> int (card (ss_running s)) \<or> ss_limit s * 64 \<le> int (length (ss_active s))"

definition store_read :: "store_state \<Rightarrow> int \<Rightarrow> key \<Rightarrow> byte list option" where
  "store_read s t k = (if t \<in> ss_running s then read_log t (ss_active s) (ss_versions s k) else None)"

definition store_append :: "store_state \<Rightarrow> int \<Rightarrow> key \<Rightarrow> byte list option \<Rightarrow> store_state" where
  "store_append s t k v = s\<lparr>ss_versions := (ss_versions s)(k := ss_versions s k @ [(t, v)])\<rparr>"

text \<open>A transaction that is refused gets \<open>-1\<close>. A write may be refused (the key is locked, or its chain
  page is full); then nothing changes.\<close>

fun store_spec :: "store_state \<Rightarrow> command \<Rightarrow> response \<Rightarrow> store_state option" where
  "store_spec s Start (Started t) =
     (if store_full s then (if t = -1 then Some s else None)
      else if t = ss_next s
      then Some (s\<lparr>ss_active := ss_active s @ [t], ss_running := insert t (ss_running s), ss_next := t + 1\<rparr>)
      else None)"
| "store_spec s (Commit t) Done =
     Some (s\<lparr>ss_active := filter (\<lambda>x. x \<noteq> t) (ss_active s), ss_running := ss_running s - {t}\<rparr>)"
| "store_spec s (Rollback t) Done = Some (s\<lparr>ss_running := ss_running s - {t}\<rparr>)"
| "store_spec s (Read t k) (Found r) = (if r = store_read s t k then Some s else None)"
| "store_spec s (Exists t k) (Answer b) = (if b = (store_read s t k \<noteq> None) then Some s else None)"
| "store_spec s (Write t k v) (Written ok) =
     (if \<not> ok then Some s else if t \<in> ss_running s then Some (store_append s t k (Some v)) else None)"
| "store_spec s (Remove t k) (Written ok) =
     (if \<not> ok then Some s else if t \<in> ss_running s then Some (store_append s t k None) else None)"
| "store_spec s _ _ = None"

text \<open>The engine as a machine. The flag says whether the allocation of a lock node succeeds.\<close>

fun store_exec :: "garry_engine_handle \<Rightarrow> bool \<times> command \<Rightarrow> (garry_engine_handle \<times> response) option" where
  "store_exec eng (m, Start) = (case garry_storage_begin eng of (eng, t) \<Rightarrow> Some (eng, Started t))"
| "store_exec eng (m, Commit t) = Some (garry_storage_commit eng t, Done)"
| "store_exec eng (m, Rollback t) = Some (garry_storage_rollback eng t, Done)"
| "store_exec eng (m, Read t k) = map_option (\<lambda>(eng, r). (eng, Found r)) (garry_storage_get eng t k)"
| "store_exec eng (m, Exists t k) = map_option (\<lambda>(eng, b). (eng, Answer b)) (garry_storage_exists eng t k)"
| "store_exec eng (m, Write t k v) =
     map_option (\<lambda>(eng, ok). (eng, Written ok)) (garry_storage_set m eng t k v)"
| "store_exec eng (m, Remove t k) =
     map_option (\<lambda>(eng, ok). (eng, Written ok)) (garry_storage_delete m eng t k)"

text \<open>Keys of 1 to 255 bytes and values of 1 to 256 bytes: longer keys are not encoded, longer
  values go to overflow pages of the log.\<close>

fun command_ok :: "command \<Rightarrow> bool" where
  "command_ok (Read t k) \<longleftrightarrow> k \<noteq> [] \<and> length k < 256"
| "command_ok (Exists t k) \<longleftrightarrow> k \<noteq> [] \<and> length k < 256"
| "command_ok (Write t k v) \<longleftrightarrow> k \<noteq> [] \<and> length k < 256 \<and> v \<noteq> [] \<and> length v \<le> 256"
| "command_ok (Remove t k) \<longleftrightarrow> k \<noteq> [] \<and> length k < 256"
| "command_ok _ \<longleftrightarrow> True"

subsection \<open>The representation\<close>

definition stored :: "garry_engine_handle \<Rightarrow> version \<Rightarrow> version" where
  "stored eng = (\<lambda>(t, v). (t, Option.bind v (compress_value eng)))"

definition small_value :: "version \<Rightarrow> bool" where
  "small_value x \<longleftrightarrow> (case snd x of None \<Rightarrow> True | Some d \<Rightarrow> d \<noteq> [] \<and> length d \<le> 256)"

text \<open>The table of the engine, apart from the pages.\<close>

definition table_rep :: "garry_engine_handle \<Rightarrow> store_state \<Rightarrow> bool" where
  "table_rep eng s \<longleftrightarrow>
     txn_inv eng \<and> eng_active_txns eng = ss_active s \<and> {t. garry_txn_is_active t eng} = ss_running s \<and>
     eng_next_txid eng = ss_next s \<and> eng_max_txns eng = ss_limit s"

definition logs_rep :: "garry_engine_handle \<Rightarrow> (key \<Rightarrow> version list) \<Rightarrow> store_state \<Rightarrow> bool" where
  "logs_rep eng V s \<longleftrightarrow>
     (\<forall>k. V k = map (stored eng) (ss_versions s k) \<and> list_all small_value (ss_versions s k))"

definition store_rep :: "nat \<Rightarrow> garry_engine_handle \<Rightarrow> store_state \<Rightarrow> bool" where
  "store_rep n eng s \<longleftrightarrow>
     (\<exists>h H ls P. h + n \<le> H \<and> kv_on h eng ls P \<and> tree_pool (n * (29 + 15 * H)) (n * (3 + H)) (eng_pool eng) \<and>
        logs_rep eng (versions ls) s) \<and>
     table_rep eng s \<and> eng_next_txid eng + int n < 2 ^ 31"

lemma store_repI:
  "h + n \<le> H \<Longrightarrow> kv_on h eng ls P \<Longrightarrow> tree_pool (n * (29 + 15 * H)) (n * (3 + H)) (eng_pool eng) \<Longrightarrow>
     logs_rep eng (versions ls) s \<Longrightarrow> table_rep eng s \<Longrightarrow> eng_next_txid eng + int n < 2 ^ 31 \<Longrightarrow> store_rep n eng s"
  unfolding store_rep_def by blast

lemma store_rep_less: "store_rep (Suc n) eng s \<Longrightarrow> store_rep n eng s"
  unfolding store_rep_def
proof (elim conjE exE)
  fix h H ls P
  assume a: "h + Suc n \<le> H" "kv_on h eng ls P"
    "tree_pool (Suc n * (29 + 15 * H)) (Suc n * (3 + H)) (eng_pool eng)" "logs_rep eng (versions ls) s"
    "table_rep eng s" "eng_next_txid eng + int (Suc n) < 2 ^ 31"
  have "tree_pool (n * (29 + 15 * H)) (n * (3 + H)) (eng_pool eng)" by (rule tree_pool_mono [OF a(3)]) simp_all
  with a show "(\<exists>h H ls P. h + n \<le> H \<and> kv_on h eng ls P \<and>
      tree_pool (n * (29 + 15 * H)) (n * (3 + H)) (eng_pool eng) \<and> logs_rep eng (versions ls) s) \<and>
      table_rep eng s \<and> eng_next_txid eng + int n < 2 ^ 31"
    by (intro conjI exI [of _ h] exI [of _ H] exI [of _ ls] exI [of _ P]) simp_all
qed

text \<open>The parts of the relation, before a step.\<close>

lemma store_rep_open:
  assumes "store_rep (Suc n) eng s"
  obtains h H ls P where "h + Suc n \<le> H" "kv_on h eng ls P"
    "tree_pool (Suc n * (29 + 15 * H)) (Suc n * (3 + H)) (eng_pool eng)" "logs_rep eng (versions ls) s"
    "table_rep eng s" "eng_next_txid eng + int (Suc n) < 2 ^ 31"
    "\<And>t. garry_txn_is_active t eng \<longleftrightarrow> t \<in> ss_running s"
  using assms unfolding store_rep_def table_rep_def by blast

lemma small_value_ok: "small_value (t, Some d) \<Longrightarrow> value_ok eng d"
  by (simp add: small_value_def value_ok_def)

text \<open>Reading the stored versions and unpacking the result is reading the versions.\<close>

lemma read_stored:
  "read_log t a (map (stored eng) xs) = Option.bind (read_log t a xs) (compress_value eng)"
  by (induction xs rule: rev_induct) (auto simp: read_log_snoc stored_def)

lemma read_log_small:
  "list_all small_value xs \<Longrightarrow> read_log t a xs = Some d \<Longrightarrow> d \<noteq> [] \<and> length d \<le> 256"
  by (induction xs rule: rev_induct) (auto simp: read_log_snoc small_value_def split: if_splits)

lemma unpack_read:
  assumes "list_all small_value xs"
  shows "Option.bind (read_log t a (map (stored eng) xs)) (decompress_value eng) = read_log t a xs"
    "read_log t a (map (stored eng) xs) \<noteq> None \<longleftrightarrow> read_log t a xs \<noteq> None"
proof -
  have "Option.bind (read_log t a (map (stored eng) xs)) (decompress_value eng) = read_log t a xs \<and>
    (read_log t a (map (stored eng) xs) \<noteq> None \<longleftrightarrow> read_log t a xs \<noteq> None)"
  proof (cases "read_log t a xs")
    case None
    then show ?thesis by (simp add: read_stored)
  next
    case (Some d)
    from read_log_small [OF assms Some] have "value_ok eng d" by (simp add: value_ok_def)
    then obtain payload where "compress_value eng d = Some payload" "decompress_value eng payload = Some d"
      by (rule payload_ok)
    with Some show ?thesis by (simp add: read_stored)
  qed
  then show "Option.bind (read_log t a (map (stored eng) xs)) (decompress_value eng) = read_log t a xs"
    "read_log t a (map (stored eng) xs) \<noteq> None \<longleftrightarrow> read_log t a xs \<noteq> None" by simp_all
qed

lemma logs_repD:
  assumes "logs_rep eng V s"
  shows "V k = map (stored eng) (ss_versions s k)" "list_all small_value (ss_versions s k)"
  using assms by (simp_all add: logs_rep_def)

lemma logs_rep_append:
  assumes "logs_rep eng V s" "small_value (t, v)"
  shows "logs_rep eng (V(k := V k @ [(t, Option.bind v (compress_value eng))])) (store_append s t k v)"
  using assms by (auto simp: logs_rep_def store_append_def stored_def)

lemma stored_cong: "eng_compression eng' = eng_compression eng \<Longrightarrow> stored eng' = stored eng"
proof -
  assume "eng_compression eng' = eng_compression eng"
  then have "compress_value eng' = compress_value eng" by (simp add: compress_value_def fun_eq_iff)
  then show ?thesis by (simp add: stored_def)
qed

lemma logs_rep_cong:
  "logs_rep eng V s \<Longrightarrow> eng_compression eng' = eng_compression eng \<Longrightarrow> ss_versions s' = ss_versions s \<Longrightarrow>
     logs_rep eng' V s'"
  using stored_cong [of eng' eng] by (simp add: logs_rep_def)

lemma table_rep_session:
  "table_rep eng s \<Longrightarrow> same_session eng eng' \<Longrightarrow> ss_active s' = ss_active s \<Longrightarrow> ss_running s' = ss_running s \<Longrightarrow>
     ss_next s' = ss_next s \<Longrightarrow> ss_limit s' = ss_limit s \<Longrightarrow> table_rep eng' s'"
  by (simp add: table_rep_def same_session_def)

lemma running_id:
  assumes "table_rep eng s" "t \<in> ss_running s"
  shows "garry_txn_is_active t eng" "0 < t" "t < eng_next_txid eng"
proof -
  show a: "garry_txn_is_active t eng" using assms by (auto simp: table_rep_def)
  then have "t \<in> set (eng_active_txns eng)"
    using find_txn_slot_None_iff [of eng t] by (auto simp: garry_txn_is_active_def split: option.splits)
  with assms(1) show "0 < t" "t < eng_next_txid eng" using txn_invD(4) [of eng t] by (auto simp: table_rep_def)
qed

text \<open>A step that acts on the versions only.\<close>

lemma store_rep_after:
  assumes rep: "store_rep (Suc n) eng s" and V: "logs_rep eng (versions ls) s" and h: "h + Suc n \<le> H"
    and af: "kv_after h' (n * (29 + 15 * H)) (n * (3 + H)) b eng W eng'" "h' \<le> Suc h"
    and W: "logs_rep eng W s'"
    and s': "ss_active s' = ss_active s" "ss_running s' = ss_running s" "ss_next s' = ss_next s"
      "ss_limit s' = ss_limit s"
  shows "store_rep n eng' s'"
proof -
  obtain ls' P' where k: "kv_on h' eng' ls' P'" "versions ls' = W"
    "tree_pool (n * (29 + 15 * H)) (n * (3 + H)) (eng_pool eng')" "same_session eng eng'"
    using af(1) by (auto simp: kv_after_def)
  show ?thesis
  proof (rule store_repI [OF _ k(1,3)])
    show "h' + n \<le> H" using h af(2) by simp
    show "logs_rep eng' (versions ls') s'"
      using W k(2,4) by (auto simp: same_session_def elim: logs_rep_cong)
    show "table_rep eng' s'" using rep s' k(4) by (auto simp: store_rep_def intro: table_rep_session)
    show "eng_next_txid eng' + int n < 2 ^ 31" using rep k(4) by (simp add: store_rep_def same_session_def)
  qed
qed

lemma step_look:
  assumes rep: "store_rep (Suc n) eng s" and k: "k \<noteq> []"
  obtains eng' where
    "t \<in> ss_running s \<Longrightarrow> length k < 256 \<Longrightarrow> garry_storage_get eng t k = Some (eng', store_read s t k)"
    "t \<in> ss_running s \<Longrightarrow> garry_storage_exists eng t k = Some (eng', store_read s t k \<noteq> None)"
    "garry_storage_data eng t k = Some (eng',
       if read_log t (ss_active s) (ss_versions s k) \<noteq> None then GARRY_DATA_HAS_VALUE else GARRY_DATA_NOT_FOUND)"
    "store_rep n eng' s"
proof -
  obtain h H ls P where r: "h + Suc n \<le> H" "kv_on h eng ls P"
    "tree_pool (Suc n * (29 + 15 * H)) (Suc n * (3 + H)) (eng_pool eng)" "logs_rep eng (versions ls) s"
    and tab: "table_rep eng s" and nx: "eng_next_txid eng + int (Suc n) < 2 ^ 31"
    and run: "\<And>t. garry_txn_is_active t eng \<longleftrightarrow> t \<in> ss_running s"
    using rep by (rule store_rep_open) blast
  let ?n = "n * (29 + 15 * H)" and ?m = "n * (3 + H)"
  have "pool_idle (?n + 2 + 2 * Suc h) (eng_pool eng)"
    by (rule pool_idle_mono [OF tree_poolD(1) [OF r(3)]]) (use r(1) in simp)
  from r(2) this k obtain pool where g:
    "garry_txn_is_active t eng \<Longrightarrow> length k \<le> GARRY_MAX_KEY_SIZE \<Longrightarrow> garry_storage_get eng t k =
       Some (eng\<lparr>eng_pool := pool\<rparr>, Option.bind (read_key eng (versions ls) t k) (decompress_value eng))"
    "garry_txn_is_active t eng \<Longrightarrow>
       garry_storage_exists eng t k = Some (eng\<lparr>eng_pool := pool\<rparr>, read_key eng (versions ls) t k \<noteq> None)"
    "garry_storage_data eng t k = Some (eng\<lparr>eng_pool := pool\<rparr>,
       if read_key eng (versions ls) t k \<noteq> None then GARRY_DATA_HAS_VALUE else GARRY_DATA_NOT_FOUND)"
    "pool_idle ?n pool" "page_frame {} (eng_pool eng) pool" "bp_next_page pool = bp_next_page (eng_pool eng)"
    "kv_on h (eng\<lparr>eng_pool := pool\<rparr>) ls P"
    by (rule look_kv [where t = t]) blast
  have v: "Option.bind (read_key eng (versions ls) t k) (decompress_value eng) = read_log t (ss_active s) (ss_versions s k)"
    "read_key eng (versions ls) t k \<noteq> None \<longleftrightarrow> read_log t (ss_active s) (ss_versions s k) \<noteq> None"
    using unpack_read [OF logs_repD(2) [OF r(4)], where t = t and eng = eng and a = "ss_active s"] tab
    by (simp_all add: read_key_def logs_repD(1) [OF r(4)] table_rep_def)
  have "tree_pool ?n ?m pool"
    by (rule tree_pool_mono [OF tree_pool_frame [OF r(3) g(4-6)]]) simp_all
  then have "kv_after h ?n ?m (length ls) eng (versions ls) (eng\<lparr>eng_pool := pool\<rparr>)"
    by (intro kv_afterI [OF g(7) refl]) simp_all
  then have rep': "store_rep n (eng\<lparr>eng_pool := pool\<rparr>) s"
    by (rule store_rep_after [OF rep r(4,1) _ _ r(4)]) simp_all
  show ?thesis
  proof (rule that [OF _ _ _ rep'])
    show "garry_storage_get eng t k = Some (eng\<lparr>eng_pool := pool\<rparr>, store_read s t k)"
      if "t \<in> ss_running s" "length k < 256"
      using g(1) that run v(1) by (simp add: store_read_def GARRY_MAX_KEY_SIZE_def)
    show "garry_storage_exists eng t k = Some (eng\<lparr>eng_pool := pool\<rparr>, store_read s t k \<noteq> None)"
      if "t \<in> ss_running s"
      using g(2) that run v(2) by (simp add: store_read_def)
    show "garry_storage_data eng t k = Some (eng\<lparr>eng_pool := pool\<rparr>,
        if read_log t (ss_active s) (ss_versions s k) \<noteq> None then GARRY_DATA_HAS_VALUE else GARRY_DATA_NOT_FOUND)"
      using g(3) v(2) by simp
  qed
qed

lemma step_read:
  assumes rep: "store_rep (Suc n) eng s" and k: "k \<noteq> []" "length k < 256"
  shows "\<exists>eng'. garry_storage_get eng t k = Some (eng', store_read s t k) \<and> store_rep n eng' s"
    "\<exists>eng'. garry_storage_exists eng t k = Some (eng', store_read s t k \<noteq> None) \<and> store_rep n eng' s"
proof -
  have run: "garry_txn_is_active t eng \<longleftrightarrow> t \<in> ss_running s" using rep by (rule store_rep_open) blast
  have "(\<exists>eng'. garry_storage_get eng t k = Some (eng', store_read s t k) \<and> store_rep n eng' s) \<and>
    (\<exists>eng'. garry_storage_exists eng t k = Some (eng', store_read s t k \<noteq> None) \<and> store_rep n eng' s)"
  proof (cases "t \<in> ss_running s")
    case False
    with store_rep_less [OF rep] run k show ?thesis
      by (auto simp: garry_storage_get_def garry_storage_exists_def store_read_def GARRY_MAX_KEY_SIZE_def)
  next
    case True
    from rep k(1) obtain eng' where
      "t \<in> ss_running s \<Longrightarrow> length k < 256 \<Longrightarrow> garry_storage_get eng t k = Some (eng', store_read s t k)"
      "t \<in> ss_running s \<Longrightarrow> garry_storage_exists eng t k = Some (eng', store_read s t k \<noteq> None)"
      "store_rep n eng' s" by (rule step_look [where t = t]) blast
    with True k(2) show ?thesis by auto
  qed
  then show "\<exists>eng'. garry_storage_get eng t k = Some (eng', store_read s t k) \<and> store_rep n eng' s"
    "\<exists>eng'. garry_storage_exists eng t k = Some (eng', store_read s t k \<noteq> None) \<and> store_rep n eng' s" by simp_all
qed

lemma step_write:
  assumes rep: "store_rep (Suc n) eng s" and k: "k \<noteq> []" "length k < 256" and v: "v \<noteq> []" "length v \<le> 256"
  shows "\<exists>eng' ok. garry_storage_set m eng t k v = Some (eng', ok) \<and> (ok \<longrightarrow> t \<in> ss_running s) \<and>
    store_rep n eng' (if ok then store_append s t k (Some v) else s)"
proof -
  obtain h H ls P where r: "h + Suc n \<le> H" "kv_on h eng ls P"
    "tree_pool (Suc n * (29 + 15 * H)) (Suc n * (3 + H)) (eng_pool eng)" "logs_rep eng (versions ls) s"
    and tab: "table_rep eng s" and nx: "eng_next_txid eng + int (Suc n) < 2 ^ 31"
    and run: "\<And>t. garry_txn_is_active t eng \<longleftrightarrow> t \<in> ss_running s"
    using rep by (rule store_rep_open) blast
  show ?thesis
  proof (cases "t \<in> ss_running s")
    case False
    with False store_rep_less [OF rep] run k show ?thesis
      by (intro exI [of _ eng] exI [of _ False]) (simp add: garry_storage_set_def GARRY_MAX_KEY_SIZE_def)
  next
    case True
    let ?n = "n * (29 + 15 * H)" and ?m = "n * (3 + H)"
    have i: "i32 t" using running_id [OF tab True] nx by (simp add: i32_def)
    have vo: "value_ok eng v" using v by (simp add: value_ok_def)
    have "tree_pool (?n + 29 + 15 * h) (h + 3 + ?m) (eng_pool eng)"
      by (rule tree_pool_mono [OF r(3)]) (use r(1) in simp_all)
    from set_kv [OF r(2) this k running_id(1) [OF tab True] i vo] obtain eng' ok h' where w:
      "garry_storage_set m eng t k v = Some (eng', ok)" "h' \<le> Suc h"
      "kv_after h' ?n ?m (Suc (length ls)) eng
         (if ok then (versions ls)(k := versions ls k @ [(t, compress_value eng v)]) else versions ls) eng'"
      by blast
    have "logs_rep eng
        (if ok then (versions ls)(k := versions ls k @ [(t, compress_value eng v)]) else versions ls)
        (if ok then store_append s t k (Some v) else s)"
      using logs_rep_append [OF r(4), of t "Some v" k] v r(4) by (simp add: small_value_def)
    then have "store_rep n eng' (if ok then store_append s t k (Some v) else s)"
      by (rule store_rep_after [OF rep r(4,1) w(3,2)]) (simp_all add: store_append_def)
    with w(1) True show ?thesis by blast
  qed
qed

text \<open>A page of 2048 bytes or more has room for six versions of such values.\<close>

lemma room_for_six:
  assumes "list_all small_value xs" "length xs \<le> 5" "2048 \<le> ps" "length payload \<le> 300"
  shows "log_room ps (map (stored eng) xs) (Some payload)"
proof -
  let ?f = "\<lambda>x :: version. 18 + (case snd x of None \<Rightarrow> 0 | Some d \<Rightarrow> int (length d))"
  have le: "?f (stored eng x) \<le> 318" if "small_value x" for x
  proof (cases "snd x")
    case (Some d)
    with that have "value_ok eng d" by (simp add: small_value_def value_ok_def)
    then obtain p where "compress_value eng d = Some p" "length p \<le> 300" by (rule payload_ok)
    with Some show ?thesis by (simp add: stored_def case_prod_unfold)
  qed (simp add: stored_def case_prod_unfold)
  have "sum_list (map ?f (map (stored eng) xs)) \<le> int (length xs) * 318"
    using assms(1)
  proof (induction xs)
    case (Cons x xs)
    with le [of x] show ?case by simp
  qed simp
  also have "\<dots> \<le> 1590" using assms(2) by simp
  finally show ?thesis using assms(2-4) unfolding log_room_def by simp
qed

lemma write_succeeds:
  assumes rep: "store_rep (Suc n) eng s" and k: "k \<noteq> []" "length k < 256" and v: "v \<noteq> []" "length v \<le> 256"
    and t: "t \<in> ss_running s" and room: "length (ss_versions s k) \<le> 5"
    and free: "\<not> garry_has_conflict (eng_lock_mgr eng) t k GARRY_LOCK_EXCLUSIVE"
  shows "\<exists>eng'. garry_storage_set True eng t k v = Some (eng', True)"
proof -
  obtain h H ls P where r: "h + Suc n \<le> H" "kv_on h eng ls P"
    "tree_pool (Suc n * (29 + 15 * H)) (Suc n * (3 + H)) (eng_pool eng)" "logs_rep eng (versions ls) s"
    and tab: "table_rep eng s" and nx: "eng_next_txid eng + int (Suc n) < 2 ^ 31"
    using rep by (rule store_rep_open) blast
  have i: "i32 t" using running_id [OF tab t] nx by (simp add: i32_def)
  have vo: "value_ok eng v" using v by (simp add: value_ok_def)
  obtain payload where pl: "compress_value eng v = Some payload" "length payload \<le> 300"
    using payload_ok [OF vo] by metis
  have tp: "tree_pool (n * (29 + 15 * H) + 29 + 15 * h) (h + 3 + n * (3 + H)) (eng_pool eng)"
    by (rule tree_pool_mono [OF r(3)]) (use r(1) in simp_all)
  have "2048 \<le> eng_page_size eng" using tree_poolD(3) [OF r(3)] kv_onD(1) [OF r(2)] by simp
  then have "log_room (eng_page_size eng) (versions ls k) (compress_value eng v)"
    using room_for_six [OF logs_repD(2) [OF r(4)] room _ pl(2)] by (simp add: pl(1) logs_repD(1) [OF r(4)])
  moreover have "snd (garry_lock_acquire True (eng_lock_mgr eng) t k GARRY_LOCK_EXCLUSIVE)"
    using free k(2) by (simp add: garry_lock_acquire_def)
  ultimately show ?thesis
    using set_kv [OF r(2) tp k running_id(1) [OF tab t] i vo, of True] by auto
qed

lemma step_remove:
  assumes rep: "store_rep (Suc n) eng s" and k: "k \<noteq> []" "length k < 256"
  shows "\<exists>eng' ok. garry_storage_delete m eng t k = Some (eng', ok) \<and> (ok \<longrightarrow> t \<in> ss_running s) \<and>
    store_rep n eng' (if ok then store_append s t k None else s)"
proof -
  obtain h H ls P where r: "h + Suc n \<le> H" "kv_on h eng ls P"
    "tree_pool (Suc n * (29 + 15 * H)) (Suc n * (3 + H)) (eng_pool eng)" "logs_rep eng (versions ls) s"
    and tab: "table_rep eng s" and nx: "eng_next_txid eng + int (Suc n) < 2 ^ 31"
    and run: "\<And>t. garry_txn_is_active t eng \<longleftrightarrow> t \<in> ss_running s"
    using rep by (rule store_rep_open) blast
  show ?thesis
  proof (cases "t \<in> ss_running s")
    case False
    with False store_rep_less [OF rep] run k show ?thesis
      by (intro exI [of _ eng] exI [of _ False]) (simp add: garry_storage_delete_def)
  next
    case True
    let ?n = "n * (29 + 15 * H)" and ?m = "n * (3 + H)"
    have i: "i32 t" using running_id [OF tab True] nx by (simp add: i32_def)
    have "tree_pool (?n + 4 + 2 * h) ?m (eng_pool eng)"
      by (rule tree_pool_mono [OF r(3)]) (use r(1) in simp_all)
    from delete_kv [OF r(2) this k(1) running_id(1) [OF tab True] i] obtain eng' ok where w:
      "garry_storage_delete m eng t k = Some (eng', ok)"
      "kv_after h ?n ?m (length ls) eng (if ok then (versions ls)(k := versions ls k @ [(t, None)]) else versions ls) eng'"
      by blast
    have W: "logs_rep eng (if ok then (versions ls)(k := versions ls k @ [(t, None)]) else versions ls)
        (if ok then store_append s t k None else s)"
      using logs_rep_append [OF r(4), of t None k] r(4) by (simp add: small_value_def)
    have "store_rep n eng' (if ok then store_append s t k None else s)"
      by (rule store_rep_after [OF rep r(4,1) w(2) _ W]) (simp_all add: store_append_def)
    with w(1) True show ?thesis by blast
  qed
qed

text \<open>A step that acts on the table only.\<close>

lemma store_rep_table:
  assumes rep: "store_rep (Suc n) eng s"
    and sel: "eng_btree_root eng' = eng_btree_root eng" "eng_page_size eng' = eng_page_size eng"
      "eng_compression eng' = eng_compression eng"
    and pool: "\<And>m. pool_idle m (eng_pool eng) \<Longrightarrow> pool_idle m (eng_pool eng')"
      "page_frame {} (eng_pool eng) (eng_pool eng')" "bp_next_page (eng_pool eng') = bp_next_page (eng_pool eng)"
    and tab: "table_rep eng' s'" "eng_next_txid eng' \<le> eng_next_txid eng + 1"
    and vs: "ss_versions s' = ss_versions s"
  shows "store_rep n eng' s'"
proof -
  obtain h H ls P where r: "h + Suc n \<le> H" "kv_on h eng ls P"
    "tree_pool (Suc n * (29 + 15 * H)) (Suc n * (3 + H)) (eng_pool eng)" "logs_rep eng (versions ls) s"
    and nx: "eng_next_txid eng + int (Suc n) < 2 ^ 31"
    using rep by (rule store_rep_open) blast
  show ?thesis
  proof (rule store_repI)
    show "h + n \<le> H" using r(1) by simp
    show "kv_on h eng' ls P" by (rule kv_on_view [OF r(2) pool(2) refl sel(1,2)])
    have "tree_pool (Suc n * (29 + 15 * H)) (Suc n * (3 + H)) (eng_pool eng')"
      by (rule tree_pool_frame [OF r(3) pool(1) [OF tree_poolD(1) [OF r(3)]] pool(2,3)])
    then show "tree_pool (n * (29 + 15 * H)) (n * (3 + H)) (eng_pool eng')"
      by (rule tree_pool_mono) simp_all
    show "logs_rep eng' (versions ls) s'" by (rule logs_rep_cong [OF r(4) sel(3) vs])
    show "eng_next_txid eng' + int n < 2 ^ 31" using tab(2) nx by simp
  qed (rule tab(1))
qed

lemma end_fields [simp]:
  "eng_btree_root (garry_storage_commit eng t) = eng_btree_root eng"
  "eng_btree_root (garry_storage_rollback eng t) = eng_btree_root eng"
  "eng_compression (garry_storage_commit eng t) = eng_compression eng"
  "eng_compression (garry_storage_rollback eng t) = eng_compression eng"
  by (simp_all add: garry_storage_commit_def garry_storage_rollback_def garry_mvcc_commit_def
      garry_mvcc_rollback_def remove_active_txn_def Let_def case_prod_unfold split: option.split)

lemma commit_view:
  assumes "pool_idle n (eng_pool eng)"
  shows "page_frame {} (eng_pool eng) (eng_pool (garry_storage_commit eng t))"
  using commit_pool [OF assms, of t] by (simp add: page_frame_def)

lemma step_commit:
  assumes "store_rep (Suc n) eng s"
  shows "store_rep n (garry_storage_commit eng t)
    (s\<lparr>ss_active := filter (\<lambda>x. x \<noteq> t) (ss_active s), ss_running := ss_running s - {t}\<rparr>)"
proof -
  from assms obtain m where idle: "pool_idle m (eng_pool eng)" and tab: "table_rep eng s"
    by (auto simp: store_rep_def dest: tree_poolD(1))
  then have inv: "txn_inv eng" by (simp add: table_rep_def)
  note st = storage_end_table [OF inv, of t]
  show ?thesis
    by (rule store_rep_table [OF assms])
      (use idle tab st running_commit [OF inv, of t] commit_pool [of _ eng t] commit_view [OF idle]
        in \<open>simp_all add: table_rep_def\<close>)
qed

lemma step_rollback:
  assumes "store_rep (Suc n) eng s"
  shows "store_rep n (garry_storage_rollback eng t) (s\<lparr>ss_running := ss_running s - {t}\<rparr>)"
proof -
  have tab: "table_rep eng s" using assms by (simp add: store_rep_def)
  then have inv: "txn_inv eng" by (simp add: table_rep_def)
  show ?thesis
    by (rule store_rep_table [OF assms])
      (use tab storage_end_table [OF inv, of t] running_rollback [OF inv, of t] in \<open>simp_all add: table_rep_def\<close>)
qed

lemma step_begin:
  assumes "store_rep (Suc n) eng s"
  shows "\<exists>eng' t s'. garry_storage_begin eng = (eng', t) \<and> store_spec s Start (Started t) = Some s' \<and>
    store_rep n eng' s'"
proof -
  have tab: "table_rep eng s" using assms by (simp add: store_rep_def)
  then have inv: "txn_inv eng" by (simp add: table_rep_def)
  then have np: "0 < eng_next_txid eng" by (simp add: txn_inv_def)
  have full: "store_full s \<longleftrightarrow> eng_max_txns eng \<le> int (length (filter in_progress (eng_txn_states eng))) \<or>
      eng_max_txns eng * 64 \<le> int (length (eng_active_txns eng))"
    using tab by (auto simp: store_full_def table_rep_def length_filter_in_progress)
  show ?thesis
  proof (cases rule: begin_cases [of eng])
    case refused
    with full store_rep_less [OF assms] show ?thesis by (simp add: garry_storage_begin_def)
  next
    case begun
    let ?t = "eng_next_txid eng"
      and ?s = "s\<lparr>ss_active := ss_active s @ [ss_next s], ss_running := insert (ss_next s) (ss_running s),
                ss_next := ss_next s + 1\<rparr>"
    obtain eng' where b: "garry_storage_begin eng = (eng', ?t)" using begun(1) by (simp add: garry_storage_begin_def)
    have e: "eng_btree_root eng' = eng_btree_root eng" "eng_page_size eng' = eng_page_size eng"
      "eng_compression eng' = eng_compression eng" "eng_pool eng' = eng_pool eng"
      "eng_next_txid eng' = ?t + 1" "eng_active_txns eng' = eng_active_txns eng @ [?t]"
      "eng_max_txns eng' = eng_max_txns eng"
      using b begun(1) by (auto simp: garry_storage_begin_def)
    have inv': "txn_inv eng'" using begin_inv [OF inv] b by (simp add: garry_storage_begin_def)
    have "table_rep eng' ?s"
      using tab inv' running_begin [OF inv b] np by (simp add: table_rep_def e)
    then have "store_rep n eng' ?s"
      by (intro store_rep_table [OF assms e(1-3)]) (simp_all add: e)
    moreover have "ss_next s = ?t" using tab by (simp add: table_rep_def)
    moreover have "\<not> store_full s" using begun(2,3) full by simp
    ultimately show ?thesis using b by simp
  qed
qed

interpretation mvcc: simulation store_rep store_exec "\<lambda>s (m, c). store_spec s c" "\<lambda>(m, c). command_ok c"
proof unfold_locales
  fix n eng s and mc :: "bool \<times> command"
  assume rep: "store_rep (Suc n) eng s" and "case mc of (m, c) \<Rightarrow> command_ok c"
  then obtain m c where mc: "mc = (m, c)" and ok: "command_ok c" by (cases mc) simp
  have "\<exists>s' r a'. store_exec eng (m, c) = Some (s', r) \<and> store_spec s c r = Some a' \<and> store_rep n s' a'"
  proof (cases c)
    case Start
    from step_begin [OF rep] obtain eng' t s' where
      "garry_storage_begin eng = (eng', t)" "store_spec s Start (Started t) = Some s'" "store_rep n eng' s'" by blast
    then show ?thesis unfolding Start by (intro exI [of _ eng'] exI [of _ "Started t"] exI [of _ s']) simp
  next
    case (Commit t)
    with step_commit [OF rep, of t] show ?thesis by simp
  next
    case (Rollback t)
    with step_rollback [OF rep, of t] show ?thesis by simp
  next
    case (Read t k)
    with step_read(1) [OF rep, of k t] ok obtain eng' where
      "garry_storage_get eng t k = Some (eng', store_read s t k)" "store_rep n eng' s" by auto
    then show ?thesis unfolding Read by (intro exI [of _ eng'] exI [of _ "Found (store_read s t k)"] exI [of _ s]) simp
  next
    case (Exists t k)
    with step_read(2) [OF rep, of k t] ok obtain eng' where
      "garry_storage_exists eng t k = Some (eng', store_read s t k \<noteq> None)" "store_rep n eng' s" by auto
    then show ?thesis unfolding Exists
      by (intro exI [of _ eng'] exI [of _ "Answer (store_read s t k \<noteq> None)"] exI [of _ s]) simp
  next
    case (Write t k v)
    with step_write [OF rep, of k v m t] ok obtain eng' b where
      "garry_storage_set m eng t k v = Some (eng', b)" "b \<longrightarrow> t \<in> ss_running s"
      "store_rep n eng' (if b then store_append s t k (Some v) else s)" by auto
    then show ?thesis unfolding Write
      by (intro exI [of _ eng'] exI [of _ "Written b"] exI [of _ "if b then store_append s t k (Some v) else s"]) simp
  next
    case (Remove t k)
    with step_remove [OF rep, of k m t] ok obtain eng' b where
      "garry_storage_delete m eng t k = Some (eng', b)" "b \<longrightarrow> t \<in> ss_running s"
      "store_rep n eng' (if b then store_append s t k None else s)" by auto
    then show ?thesis unfolding Remove
      by (intro exI [of _ eng'] exI [of _ "Written b"] exI [of _ "if b then store_append s t k None else s"]) simp
  qed
  then show "\<exists>s' r a'. store_exec eng mc = Some (s', r) \<and> (case mc of (m, c) \<Rightarrow> store_spec s c) r = Some a' \<and> store_rep n s' a'"
    by (simp add: mc)
qed

subsection \<open>Properties\<close>

text \<open>C2. The storage layer implements multi-version concurrency control: any sequence of begins,
  commits, rollbacks, reads, existence tests, writes and deletions returns, with responses that the
  abstract store of version logs gives, and ends in an engine that represents the abstract store's
  final state. Trees, splits, chains, descriptors, compression, the page cache and its evictions do
  not show.\<close>

theorem storage_implements_mvcc:
  assumes "store_rep (length cs) eng s" "\<forall>(m, c) \<in> set cs. command_ok c"
  shows "\<exists>eng' rs s'. run store_exec eng cs = Some (eng', rs) \<and> length rs = length cs \<and>
    check_run (\<lambda>s (m, c). store_spec s c) s (zip cs rs) = Some s' \<and> store_rep 0 eng' s'"
  using mvcc.run_simulates [of cs 0 eng s] assms by simp

lemma store_rep_mono: "store_rep n eng s \<Longrightarrow> m \<le> n \<Longrightarrow> store_rep m eng s"
  by (induction n) (auto simp: le_Suc_eq dest: store_rep_less)

lemma set_rep:
  assumes "store_rep (Suc n) eng s" "k \<noteq> []" "length k < 256" "v \<noteq> []" "length v \<le> 256"
    and "garry_storage_set m eng t k v = Some (eng1, True)"
  shows "t \<in> ss_running s" "store_rep n eng1 (store_append s t k (Some v))"
  using step_write [OF assms(1-5), of m t] assms(6) by auto

lemma get_rep:
  assumes "store_rep (Suc n) eng s" "k \<noteq> []" "length k < 256"
  obtains eng' where "garry_storage_get eng t k = Some (eng', store_read s t k)" "store_rep n eng' s"
  using step_read(1) [OF assms] by blast

lemma running_active:
  assumes "store_rep n eng s" "t \<in> ss_running s"
  shows "t \<in> set (ss_active s)" "t < ss_next s"
proof -
  have tab: "table_rep eng s" using assms(1) by (simp add: store_rep_def)
  then have "garry_txn_is_active t eng" using assms(2) by (auto simp: table_rep_def)
  then show "t \<in> set (ss_active s)"
    using find_txn_slot_None_iff [of eng t] tab by (auto simp: garry_txn_is_active_def table_rep_def split: option.splits)
  show "t < ss_next s" using running_id(3) [OF tab assms(2)] tab by (simp add: table_rep_def)
qed

lemma append_read:
  assumes "t \<in> set (ss_active s)" "t \<in> ss_running s"
  shows "store_read (store_append s t k v) t' k' = (if t' = t \<and> k' = k then v else store_read s t' k')"
  using assms by (auto simp: store_read_def store_append_def read_log_snoc may_see_def)

text \<open>C3. Read your writes, and nobody else's: after a successful set the transaction reads the value
  back, and every read of another key or by another transaction returns what it returned before.\<close>

theorem storage_set_then_get:
  assumes "store_rep 2 eng s" "k \<noteq> []" "length k < 256" "v \<noteq> []" "length v \<le> 256"
    and "garry_storage_set m eng t k v = Some (eng1, True)"
    and "k' \<noteq> []" "length k' < 256"
  shows "\<exists>eng2 before eng3. garry_storage_get eng t' k' = Some (eng2, before) \<and>
    garry_storage_get eng1 t' k' = Some (eng3, if t' = t \<and> k' = k then Some v else before)"
proof -
  have "store_rep (Suc (Suc 0)) eng s" using assms(1) by (simp add: numeral_2_eq_2)
  note w = set_rep [OF this assms(2-6)]
  obtain eng2 where 2: "garry_storage_get eng t' k' = Some (eng2, store_read s t' k')"
    using get_rep [OF store_rep_mono [OF assms(1)], of 0 k' t'] assms(7,8) by auto
  obtain eng3 where 3: "garry_storage_get eng1 t' k' = Some (eng3, store_read (store_append s t k (Some v)) t' k')"
    using get_rep [OF w(2) assms(7,8), of t'] by blast
  from 2 3 append_read [OF running_active(1) [OF assms(1) w(1)] w(1)] show ?thesis by simp
qed

text \<open>C6. Writes go through: a set by a running transaction succeeds when no other transaction holds
  a lock on the key and the key has at most five versions.\<close>

theorem storage_set_succeeds:
  assumes "store_rep (Suc n) eng s" "t \<in> ss_running s"
    and "k \<noteq> []" "length k < 256" "v \<noteq> []" "length v \<le> 256"
    and "length (ss_versions s k) \<le> 5" "\<not> garry_has_conflict (eng_lock_mgr eng) t k GARRY_LOCK_EXCLUSIVE"
  shows "\<exists>eng'. garry_storage_set True eng t k v = Some (eng', True) \<and>
    store_rep n eng' (store_append s t k (Some v))"
  using write_succeeds [OF assms(1,3-6,2,7,8)] set_rep(2) [OF assms(1,3-6)] by blast

lemma begin_rep:
  assumes "store_rep (Suc n) eng s" "garry_storage_begin eng = (eng', t)" "t \<noteq> -1"
  shows "t = ss_next s"
    "store_rep n eng' (s\<lparr>ss_active := ss_active s @ [t], ss_running := insert t (ss_running s), ss_next := t + 1\<rparr>)"
  using step_begin [OF assms(1)] assms(2,3) by (auto split: if_splits)

text \<open>What the next transaction reads of a key after the end of a writer.\<close>

lemma next_reads:
  assumes rep: "store_rep 4 eng s" and k: "k \<noteq> []" "length k < 256" and w: "v \<noteq> []" "length v \<le> 256"
      "garry_storage_set m eng t k v = Some (eng1, True)"
    and nxt: "garry_storage_begin (if keep then garry_storage_commit eng1 t else garry_storage_rollback eng1 t)
      = (eng2, t2)" "t2 \<noteq> -1"
  shows "\<exists>eng3. garry_storage_get eng2 t2 k =
    Some (eng3, if keep then Some v else read_log t2 (ss_active s) (ss_versions s k))"
proof -
  have r: "store_rep (Suc (Suc (Suc (Suc 0)))) eng s" using rep by (simp add: eval_nat_numeral)
  note a = set_rep [OF r k w]
  let ?s1 = "store_append s t k (Some v)"
  let ?s2 = "?s1\<lparr>ss_active := if keep then filter (\<lambda>x. x \<noteq> t) (ss_active ?s1) else ss_active ?s1,
    ss_running := ss_running ?s1 - {t}\<rparr>"
  have "store_rep (Suc (Suc 0)) (if keep then garry_storage_commit eng1 t else garry_storage_rollback eng1 t) ?s2"
    using step_commit [OF a(2), of t] step_rollback [OF a(2), of t] by simp
  note b = begin_rep [OF this nxt]
  have lt: "t < t2" using running_active(2) [OF r a(1)] b(1) by (simp add: store_append_def)
  obtain eng3 where g: "garry_storage_get eng2 t2 k = Some (eng3,
      store_read (?s2\<lparr>ss_active := ss_active ?s2 @ [t2], ss_running := insert t2 (ss_running ?s2), ss_next := t2 + 1\<rparr>) t2 k)"
    using get_rep [OF b(2) k, of t2] by blast
  have "read_log t2 (ss_active s @ [t2]) (ss_versions s k) = read_log t2 (ss_active s) (ss_versions s k)"
    by (rule read_log_cong) auto
  with g lt running_active(1) [OF r a(1)] show ?thesis
    by (auto simp: store_read_def store_append_def read_log_snoc may_see_def)
qed

text \<open>C4. Committed writes are read: a value that a transaction set and committed is what the next
  transaction that begins gets for the key.\<close>

theorem storage_commit_is_read:
  assumes "store_rep 4 eng s" "k \<noteq> []" "length k < 256" "v \<noteq> []" "length v \<le> 256"
    and "garry_storage_set m eng t k v = Some (eng1, True)"
    and "garry_storage_begin (garry_storage_commit eng1 t) = (eng2, t2)" "t2 \<noteq> -1"
  shows "\<exists>eng3. garry_storage_get eng2 t2 k = Some (eng3, Some v)"
  using next_reads [OF assms(1-6), of True eng2 t2] assms(7,8) by simp

text \<open>C5. Rolled back writes are not read: after a rollback the next transaction gets for the key what
  the versions before the write give it.\<close>

theorem storage_rollback_is_not_read:
  assumes "store_rep 4 eng s" "k \<noteq> []" "length k < 256" "v \<noteq> []" "length v \<le> 256"
    and "garry_storage_set m eng t k v = Some (eng1, True)"
    and "garry_storage_begin (garry_storage_rollback eng1 t) = (eng2, t2)" "t2 \<noteq> -1"
  shows "\<exists>eng3. garry_storage_get eng2 t2 k = Some (eng3, read_log t2 (ss_active s) (ss_versions s k))"
  using next_reads [OF assms(1-6), of False eng2 t2] assms(7,8) by simp

subsection \<open>Witnesses\<close>

text \<open>A fresh database with compression: an empty leaf on page 1, and transaction 1.\<close>

definition fresh_engine :: garry_engine_handle where
  "fresh_engine = demo_engine\<lparr>eng_page_size := 4096, eng_compression := 1, eng_pool := empty_tree\<rparr>"

definition fresh_store :: store_state where
  "fresh_store = \<lparr>ss_versions = (\<lambda>_. []), ss_active = [], ss_running = {}, ss_next = 1, ss_limit = 4\<rparr>"

lemma fresh_engine_sel:
  "eng_page_size fresh_engine = 4096" "eng_pool fresh_engine = empty_tree" "eng_btree_root fresh_engine = 1"
  "eng_active_txns fresh_engine = []" "eng_txn_states fresh_engine = []" "eng_next_txid fresh_engine = 1"
  "eng_max_txns fresh_engine = 4" "eng_lock_mgr fresh_engine = garry_create_lock_manager"
  "eng_compression fresh_engine = 1"
  by (simp_all add: fresh_engine_def demo_engine_def)

lemma empty_tree_frame: "page_frame {1} tree_file_pool empty_tree"
proof -
  have "node_ok (fresh_node GARRY_NODE_LEAF)" by (rule demo_leaf_ok(2))
  moreover have "tree_pool (0 + 2) 0 tree_file_pool" by (rule tree_file_pool_ready) simp_all
  ultimately show ?thesis
    unfolding empty_tree_def using store_tree_node(3) [of 0 0 tree_file_pool 1] by (simp add: tree_file_pool_eq)
qed

lemma empty_tree_page_size: "bp_page_size empty_tree = 4096"
  using empty_tree_frame by (simp add: page_frame_def tree_file_pool_eq)

lemma btree_on_leaf: "btree_on 0 pool root es P \<Longrightarrow> P = {root}"
proof -
  assume "btree_on 0 pool root es P"
  then obtain t where "balanced 0 t" "root_page t = root" "set (tree_pages t) = P" by (auto simp: btree_on_def)
  then show ?thesis by (cases t) auto
qed

lemma empty_tree_kv:
  assumes "eng_pool eng = empty_tree" "eng_page_size eng = 4096" "eng_btree_root eng = 1"
  shows "kv_on 0 eng [] {1}"
proof -
  obtain P where P: "btree_on 0 empty_tree 1 [] P" using empty_tree_holds(2) btree_holds_on by blast
  have "page_frame {1} tree_file_pool empty_tree" by (rule empty_tree_frame)
  then have "0 < bp_next_page empty_tree" by (simp add: page_frame_def tree_file_pool_eq)
  then show ?thesis
    using P btree_on_leaf [OF P] by (intro kv_onI) (simp_all add: assms empty_tree_page_size)
qed

lemma fresh_store_rep: "store_rep 6 fresh_engine fresh_store"
proof -
  have inv: "txn_inv fresh_engine"
    by (simp add: txn_inv_def fresh_engine_sel lock_create_inv)
  show ?thesis
  proof (rule store_repI)
    show "kv_on 0 fresh_engine [] {1}" by (rule empty_tree_kv) (simp_all add: fresh_engine_sel)
    show "tree_pool (6 * (29 + 15 * 6)) (6 * (3 + 6)) (eng_pool fresh_engine)"
      unfolding fresh_engine_sel by (rule empty_tree_holds(1)) simp_all
    show "table_rep fresh_engine fresh_store"
      using inv by (simp add: table_rep_def fresh_engine_sel fresh_store_def garry_txn_is_active_def find_txn_slot_def)
    show "logs_rep fresh_engine (versions []) fresh_store"
      by (simp add: logs_rep_def versions_def fresh_store_def)
  qed (simp_all add: fresh_engine_sel)
qed

lemma begin_has_room:
  assumes "store_rep (Suc n) eng s" "\<not> store_full s" "0 < ss_next s"
  obtains eng' where "garry_storage_begin eng = (eng', ss_next s)"
    "store_rep n eng' (s\<lparr>ss_active := ss_active s @ [ss_next s], ss_running := insert (ss_next s) (ss_running s),
                        ss_next := ss_next s + 1\<rparr>)"
proof -
  from step_begin [OF assms(1)] assms(2) obtain eng' t where
    b: "garry_storage_begin eng = (eng', t)" "t = ss_next s" by (auto split: if_splits)
  with begin_rep(2) [OF assms(1) b(1)] assms(3) that show ?thesis by simp
qed

text \<open>Transaction 1 has written one key.\<close>

definition busy_store :: store_state where
  "busy_store = \<lparr>ss_versions = (\<lambda>_. []), ss_active = [1], ss_running = {1}, ss_next = 2, ss_limit = 4\<rparr>"

definition busy_engine :: garry_engine_handle where
  "busy_engine = fst (garry_storage_begin fresh_engine)"

lemma busy_rep: "store_rep 5 busy_engine busy_store" "eng_lock_mgr busy_engine = garry_create_lock_manager"
proof -
  have r: "store_rep (Suc 5) fresh_engine fresh_store" using fresh_store_rep by simp
  have nf: "\<not> store_full fresh_store" "0 < ss_next fresh_store"
    by (simp_all add: store_full_def fresh_store_def)
  obtain eng' where "garry_storage_begin fresh_engine = (eng', ss_next fresh_store)"
    "store_rep 5 eng' (fresh_store\<lparr>ss_active := ss_active fresh_store @ [ss_next fresh_store],
       ss_running := insert (ss_next fresh_store) (ss_running fresh_store), ss_next := ss_next fresh_store + 1\<rparr>)"
    by (rule begin_has_room [OF r nf]) blast
  then show "store_rep 5 busy_engine busy_store" by (simp add: busy_engine_def busy_store_def fresh_store_def)
  show "eng_lock_mgr busy_engine = garry_create_lock_manager"
    by (simp add: busy_engine_def garry_storage_begin_def garry_mvcc_begin_def Let_def fresh_engine_sel)
qed

lemma busy_free: "\<not> garry_has_conflict (eng_lock_mgr busy_engine) 1 k GARRY_LOCK_EXCLUSIVE"
  by (simp add: busy_rep(2) garry_create_lock_manager_def garry_has_conflict_def)

lemma busy_set:
  obtains eng1 where "garry_storage_set True busy_engine 1 [107] [1, 2, 3] = Some (eng1, True)"
    "store_rep 4 eng1 (store_append busy_store 1 [107] (Some [1, 2, 3]))"
proof -
  have r: "store_rep (Suc 4) busy_engine busy_store" using busy_rep(1) by simp
  from write_succeeds [OF r, of "[107]" "[1, 2, 3]" 1] busy_free [of "[107]"]
  obtain eng1 where w: "garry_storage_set True busy_engine 1 [107] [1, 2, 3] = Some (eng1, True)"
    by (auto simp: busy_store_def)
  from that [OF w] set_rep(2) [OF r _ _ _ _ w] show ?thesis by simp
qed

theorem storage_set_succeeds_witness:
  "\<exists>eng'. garry_storage_set True busy_engine 1 [107] [1, 2, 3] = Some (eng', True)"
proof -
  have r: "store_rep (Suc 4) busy_engine busy_store" using busy_rep(1) by simp
  from storage_set_succeeds [OF r, of 1 "[107]" "[1, 2, 3]"] busy_free [of "[107]"]
  show ?thesis by (auto simp: busy_store_def)
qed

theorem storage_set_then_get_witness:
  "\<exists>eng1 eng2. garry_storage_set True busy_engine 1 [107] [1, 2, 3] = Some (eng1, True) \<and>
     garry_storage_get eng1 1 [107] = Some (eng2, Some [1, 2, 3])"
proof -
  obtain eng1 where w: "garry_storage_set True busy_engine 1 [107] [1, 2, 3] = Some (eng1, True)"
    by (rule busy_set)
  have "store_rep 2 busy_engine busy_store" by (rule store_rep_mono [OF busy_rep(1)]) simp
  from storage_set_then_get [OF this _ _ _ _ w, of "[107]" 1] w show ?thesis by auto
qed

lemma busy_end:
  assumes "store_rep 4 eng1 (store_append busy_store 1 [107] (Some [1, 2, 3]))"
  obtains eng2 where "garry_storage_begin (garry_storage_commit eng1 1) = (eng2, 2)"
    and "\<exists>eng2. garry_storage_begin (garry_storage_rollback eng1 1) = (eng2, 2)"
proof -
  have r: "store_rep (Suc 3) eng1 (store_append busy_store 1 [107] (Some [1, 2, 3]))" using assms by simp
  have c: "store_rep (Suc 2) (garry_storage_commit eng1 1) ((store_append busy_store 1 [107] (Some [1, 2, 3]))
      \<lparr>ss_active := [], ss_running := {}\<rparr>)"
    "store_rep (Suc 2) (garry_storage_rollback eng1 1) ((store_append busy_store 1 [107] (Some [1, 2, 3]))
      \<lparr>ss_running := {}\<rparr>)"
    using step_commit [OF r, of 1] step_rollback [OF r, of 1]
    by (simp_all add: store_append_def busy_store_def numeral_3_eq_3 numeral_2_eq_2)
  obtain e2 where b2: "garry_storage_begin (garry_storage_commit eng1 1) = (e2, 2)"
    by (rule begin_has_room [OF c(1)]) (simp_all add: store_full_def store_append_def busy_store_def)
  obtain e3 where b3: "garry_storage_begin (garry_storage_rollback eng1 1) = (e3, 2)"
    by (rule begin_has_room [OF c(2)]) (simp_all add: store_full_def store_append_def busy_store_def)
  from that [OF b2] b3 show ?thesis by blast
qed

theorem storage_commit_is_read_witness:
  "\<exists>eng1 eng2 eng3. garry_storage_set True busy_engine 1 [107] [1, 2, 3] = Some (eng1, True) \<and>
     garry_storage_begin (garry_storage_commit eng1 1) = (eng2, 2) \<and>
     garry_storage_get eng2 2 [107] = Some (eng3, Some [1, 2, 3])"
proof -
  obtain eng1 where w: "garry_storage_set True busy_engine 1 [107] [1, 2, 3] = Some (eng1, True)"
    "store_rep 4 eng1 (store_append busy_store 1 [107] (Some [1, 2, 3]))" by (rule busy_set)
  obtain eng2 where b: "garry_storage_begin (garry_storage_commit eng1 1) = (eng2, 2)"
    by (rule busy_end [OF w(2)])
  have "store_rep 4 busy_engine busy_store" by (rule store_rep_mono [OF busy_rep(1)]) simp
  from storage_commit_is_read [OF this _ _ _ _ w(1) b] w(1) b show ?thesis by auto
qed

theorem storage_rollback_is_not_read_witness:
  "\<exists>eng1 eng2 eng3. garry_storage_set True busy_engine 1 [107] [1, 2, 3] = Some (eng1, True) \<and>
     garry_storage_begin (garry_storage_rollback eng1 1) = (eng2, 2) \<and>
     garry_storage_get eng2 2 [107] = Some (eng3, None)"
proof -
  obtain eng1 where w: "garry_storage_set True busy_engine 1 [107] [1, 2, 3] = Some (eng1, True)"
    "store_rep 4 eng1 (store_append busy_store 1 [107] (Some [1, 2, 3]))" by (rule busy_set)
  obtain eng2 where b: "garry_storage_begin (garry_storage_rollback eng1 1) = (eng2, 2)"
    using busy_end [OF w(2)] by metis
  have "store_rep 4 busy_engine busy_store" by (rule store_rep_mono [OF busy_rep(1)]) simp
  from storage_rollback_is_not_read [OF this _ _ _ _ w(1) b] w(1) b show ?thesis
    by (auto simp: busy_store_def)
qed

text \<open>A history of two transactions.\<close>

definition small_history :: "(bool \<times> command) list" where
  "small_history =
     [(True, Write 1 [107] [1, 2, 3]), (True, Commit 1), (True, Start), (True, Read 2 [107]), (True, Remove 2 [107])]"

theorem storage_implements_mvcc_witness:
  "\<exists>eng' rs s'. run store_exec busy_engine small_history = Some (eng', rs) \<and> length rs = 5 \<and>
     check_run (\<lambda>s (m, c). store_spec s c) busy_store (zip small_history rs) = Some s'"
proof -
  have "store_rep (length small_history) busy_engine busy_store"
    using busy_rep(1) by (simp add: small_history_def eval_nat_numeral)
  from storage_implements_mvcc [OF this] obtain eng' rs s' where
    "run store_exec busy_engine small_history = Some (eng', rs)" "length rs = length small_history"
    "check_run (\<lambda>s (m, c). store_spec s c) busy_store (zip small_history rs) = Some s'"
    by (auto simp: small_history_def)
  then show ?thesis by (auto simp: small_history_def)
qed

text \<open>The pages after a transaction has set one key of an empty store, with resources for more.\<close>

lemma busy_engine_sel: "eng_pool busy_engine = empty_tree" "eng_page_size busy_engine = 4096"
  "eng_btree_root busy_engine = 1" "eng_compression busy_engine = 1"
  by (simp_all add: busy_engine_def garry_storage_begin_def garry_mvcc_begin_def Let_def fresh_engine_sel)

lemma busy_set_kv:
  assumes "n < 2 ^ 29" "m < 2 ^ 29" "k \<noteq> []" "length k < 256" "v \<noteq> []" "length v \<le> 256"
  obtains h eng1 ls P where "garry_storage_set True busy_engine 1 k v = Some (eng1, True)" "h \<le> 1"
    "kv_on h eng1 ls P" "length ls \<le> 1" "tree_pool n m (eng_pool eng1)" "same_session busy_engine eng1"
    "versions ls = (versions [])(k := [(1, compress_value busy_engine v)])"
proof -
  have kv: "kv_on 0 busy_engine [] {1}" by (rule empty_tree_kv [OF busy_engine_sel(1-3)])
  have tp: "tree_pool (n + 29 + 15 * 0) (0 + 3 + m) (eng_pool busy_engine)"
    unfolding busy_engine_sel by (rule empty_tree_holds(1)) (use assms(1,2) in simp_all)
  have r: "store_rep (Suc 4) busy_engine busy_store" using busy_rep(1) by simp
  then have tab: "table_rep busy_engine busy_store" by (rule store_rep_open)
  from running_id [OF tab, of 1] have act: "garry_txn_is_active 1 busy_engine" by (simp add: busy_store_def)
  from set_kv [OF kv tp assms(3,4) act _ , of v True] assms(5,6) obtain eng1 ok h where s:
    "garry_storage_set True busy_engine 1 k v = Some (eng1, ok)" "h \<le> Suc 0"
    "kv_after h n m 1 busy_engine (if ok then (versions [])(k := versions [] k @
        [(1, compress_value busy_engine v)]) else versions []) eng1"
    by (auto simp: value_ok_def i32_def)
  have ok: ok
    using write_succeeds [OF r assms(3-6), of 1] s(1) busy_free by (auto simp: busy_store_def)
  with s that show ?thesis by (auto simp: kv_after_def versions_def)
qed

end
