(* ===== verification/Garry_Recovery.thy ===== *)
theory Garry_Recovery
  imports Garry_Store
begin

text \<open>
  Recovery: \<open>garry_wal_recover\<close> of \<open>src/src/wal_recovery.c\<close>.

  The first pass over the log is \<open>collect_committed\<close> of \<open>Garry_Wal\<close>; the second replays the
  updates and deletions of the committed transactions into the engine. The engine owns the log it
  is recovered from, and replaying does not touch it, so the position in the file is carried
  separately. A result of \<open>None\<close> is a descent that never ends; memory allocation succeeds. What is
  read lies in zeroed buffers.

  The lemmas relate a replay to the map from keys to version logs: on an engine whose pages are
  intact it ends, succeeds, keeps the engine well formed, gives the first committed update of a key
  without a chain, and appends the committed deletions of a key with a chain once more.
\<close>

subsection \<open>wal\_recovery.c\<close>

text \<open>The value of an update record, if it can be read.\<close>

definition recovery_value :: "garry_engine_handle \<Rightarrow> buffer \<Rightarrow> garry_engine_handle \<times> byte list option" where
  "recovery_value eng rec =
     (let vlen = garry_read_int32 rec 12
      in if vlen < 0 \<or> vlen > int GARRY_MAX_RECORD_SIZE then (eng, None)
         else if garry_read_int32 rec 784 \<noteq> 0
         then (case garry_overflow_read (eng_pool eng) (garry_read_int32 rec 788) vlen of
                 (pool, r) \<Rightarrow> (eng\<lparr>eng_pool := pool\<rparr>, r))
         else if 528 + vlen > 792 then (eng, None)
         else (eng, Some (read_bytes rec 528 vlen)))"

text \<open>A key without a chain gets one with the value. Whether the insertion succeeded is not asked.\<close>

definition recovery_insert ::
  "garry_engine_handle \<Rightarrow> int \<Rightarrow> byte list \<Rightarrow> byte list \<Rightarrow> (garry_engine_handle \<times> bool) option" where
  "recovery_insert eng txid key val =
     (case garry_chain_allocate eng of
        (eng, cid) \<Rightarrow>
          if cid < 0 then Some (eng, False)
          else
            (let (desc, desc_len) = garry_encode_descriptor cid False (\<lambda>_. 0)
             in case garry_btree_insert (eng_pool eng) (eng_btree_root eng) key
                       (read_bytes desc 0 desc_len) of
                  None \<Rightarrow> None
                | Some (pool, root, inserted) \<Rightarrow>
                    (let eng = eng\<lparr>eng_pool := pool, eng_btree_root := root\<rparr>
                     in case compress_value eng val of
                          None \<Rightarrow> Some (eng, False)
                        | Some payload \<Rightarrow> Some (garry_mvcc_recovery_apply eng cid txid payload))))"

text \<open>One record of the second pass; the flag is false when the recovery fails.\<close>

definition recovery_replay ::
  "garry_engine_handle \<Rightarrow> int list \<Rightarrow> buffer \<Rightarrow> (garry_engine_handle \<times> bool) option" where
  "recovery_replay eng committed rec =
     (let kind = garry_read_int32 rec 0;
          txid = garry_read_int32 rec 4;
          klen = garry_read_int32 rec 8;
          key = read_bytes rec 16 klen
      in if kind \<noteq> wal_kind_code GARRY_WAL_UPDATE \<and> kind \<noteq> wal_kind_code GARRY_WAL_DELETE then Some (eng, True)
         else if txid \<notin> set committed then Some (eng, True)
         else if klen < 0 \<or> klen > int GARRY_MAX_RECORD_SIZE then Some (eng, True)
         else if 16 + klen > 792 then Some (eng, True)
         else if kind = wal_kind_code GARRY_WAL_DELETE
         then (case engine_search eng key of
                 None \<Rightarrow> None
               | Some (eng, None) \<Rightarrow> Some (eng, True)
               | Some (eng, Some lookup) \<Rightarrow>
                   (let (chain_id, has_children) =
                          garry_decode_descriptor (buf_of lookup) (int (length lookup))
                    in Some (fst (garry_mvcc_delete eng txid chain_id), True)))
         else
           (case recovery_value eng rec of
              (eng, None) \<Rightarrow> Some (eng, True)
            | (eng, Some val) \<Rightarrow>
                (case engine_search eng key of
                   None \<Rightarrow> None
                 | Some (eng, Some lookup) \<Rightarrow>
                     (let (chain_id, has_children) =
                            garry_decode_descriptor (buf_of lookup) (int (length lookup));
                          pool = eng_pool eng
                      in Some (if chain_id + 1 > bp_next_page pool
                               then eng\<lparr>eng_pool := pool\<lparr>bp_next_page := chain_id + 1\<rparr>\<rparr>
                               else eng, True))
                 | Some (eng, None) \<Rightarrow> recovery_insert eng txid key val)))"

text \<open>The loop of the second pass.\<close>

function replay_loop ::
  "garry_stream \<Rightarrow> garry_engine_handle \<Rightarrow> int list \<Rightarrow> (garry_stream \<times> garry_engine_handle \<times> bool) option" where
  "replay_loop fd eng committed =
     (case garry_file_read fd 792 of
        (fd', rec) \<Rightarrow>
          if length rec < 792 then Some (fd', eng, True)
          else
            (case recovery_replay eng committed (buf_of rec) of
               None \<Rightarrow> None
             | Some (eng, ok) \<Rightarrow>
                 if ok then replay_loop fd' eng committed else Some (fd', eng, False)))"
  by pat_completeness auto
termination
  by (relation "measure (\<lambda>(fd, _). length (st_data fd) - st_pos fd)")
    (auto simp: garry_file_read_def Let_def)

declare replay_loop.simps [simp del]

definition garry_wal_recover :: "garry_engine_handle \<Rightarrow> (garry_engine_handle \<times> bool) option" where
  "garry_wal_recover eng =
     (let wal = eng_wal eng
      in if \<not> st_is_open (wl_fd wal) then Some (eng, False)
         else
           (let fd = fst (garry_file_seek (wl_fd wal) 0 0);
                (fd, committed, next_txid) = collect_committed fd [] (eng_next_txid eng);
                eng = eng\<lparr>eng_next_txid := next_txid\<rparr>;
                fd = fst (garry_file_seek fd 0 0)
            in map_option (\<lambda>(fd, eng, ok). (eng\<lparr>eng_wal := (eng_wal eng)\<lparr>wl_fd := fd\<rparr>\<rparr>, ok))
                 (replay_loop fd eng committed)))"

subsection \<open>The second pass as a fold over the records\<close>

fun replay_all :: "garry_engine_handle \<Rightarrow> int list \<Rightarrow> byte list list \<Rightarrow> (garry_engine_handle \<times> bool) option" where
  "replay_all eng committed [] = Some (eng, True)"
| "replay_all eng committed (r # rs) =
     (case recovery_replay eng committed (buf_of r) of
        None \<Rightarrow> None
      | Some (eng, ok) \<Rightarrow> if ok then replay_all eng committed rs else Some (eng, False))"

lemma replay_loop_chunks:
  assumes "st_pos fd \<le> length (st_data fd)"
    and "replay_all eng c (chunks (drop (st_pos fd) (st_data fd))) = Some (eng', True)"
  shows "replay_loop fd eng c = Some (fd\<lparr>st_pos := length (st_data fd)\<rparr>, eng', True)"
  using assms
proof (induction fd eng c rule: replay_loop.induct)
  case (1 fd eng c)
  let ?d = "drop (st_pos fd) (st_data fd)"
  let ?r = "take 792 ?d"
  let ?fd = "fd\<lparr>st_pos := st_pos fd + length ?r\<rparr>"
  have read: "garry_file_read fd 792 = (?fd, ?r)" by (simp add: garry_file_read_def)
  show ?case
  proof (cases "length ?r < 792")
    case True
    then have "length ?d < 792" "st_pos fd + length ?r = length (st_data fd)"
      using "1.prems"(1) by auto
    with True read "1.prems"(2) show ?thesis by (simp add: replay_loop.simps [of fd] chunks_short)
  next
    case False
    then have c: "chunks ?d = ?r # chunks (drop 792 ?d)"
      by (simp add: chunks.simps [of ?d])
    have p: "st_pos ?fd \<le> length (st_data ?fd)" "drop (st_pos ?fd) (st_data ?fd) = drop 792 ?d"
      using False "1.prems"(1) by (auto simp: add.commute min_def split: if_splits)
    from "1.prems"(2) obtain e1 where e1: "recovery_replay eng c (buf_of ?r) = Some (e1, True)"
      "replay_all e1 c (chunks (drop 792 ?d)) = Some (eng', True)"
      unfolding c by (auto split: option.splits if_splits)
    have "replay_loop ?fd e1 c = Some (?fd\<lparr>st_pos := length (st_data ?fd)\<rparr>, eng', True)"
      by (rule "1.IH" [OF read [symmetric] False e1(1) refl TrueI p(1)]) (simp only: p(2) e1(2))
    with False read e1(1) show ?thesis by (simp add: replay_loop.simps [of fd])
  qed
qed

subsection \<open>What a replay does to the version logs\<close>

text \<open>The keys that have a chain, with the log of each.\<close>

definition index_of :: "chains \<Rightarrow> key \<Rightarrow> version list option" where
  "index_of ls k = map_option snd (map_of ls k)"

lemma index_versions: "versions ls k = (case index_of ls k of None \<Rightarrow> [] | Some xs \<Rightarrow> xs)"
  by (auto simp: versions_def index_of_def split: option.split)

definition record_key :: "garry_wal_record \<Rightarrow> key" where
  "record_key r = read_bytes (wr_key r) 0 (wr_key_len r)"

definition record_value :: "garry_wal_record \<Rightarrow> byte list" where
  "record_value r = read_bytes (wr_new_data r) 0 (wr_value_len r)"

text \<open>A record as the engine logs it: keys of at most 255 bytes and values in the record itself.\<close>

definition replayable :: "garry_engine_handle \<Rightarrow> garry_wal_record \<Rightarrow> bool" where
  "replayable eng r \<longleftrightarrow> record_ok r \<and> 0 \<le> wr_key_len r \<and> wr_key_len r < 256 \<and>
     (wr_kind r = GARRY_WAL_UPDATE \<longrightarrow>
        \<not> wr_new_is_overflow r \<and> 0 \<le> wr_value_len r \<and> wr_value_len r \<le> 256 \<and> value_ok eng (record_value r))"

definition replay_effect ::
  "garry_engine_handle \<Rightarrow> int list \<Rightarrow> (key \<Rightarrow> version list option) \<Rightarrow> garry_wal_record \<Rightarrow>
   (key \<Rightarrow> version list option)" where
  "replay_effect eng committed m r =
     (if wr_txid r \<notin> set committed then m
      else
        (case (wr_kind r, m (record_key r)) of
           (GARRY_WAL_UPDATE, None) \<Rightarrow>
             m(record_key r \<mapsto> [(wr_txid r, compress_value eng (record_value r))])
         | (GARRY_WAL_DELETE, Some xs) \<Rightarrow>
             if log_room (eng_page_size eng) xs None then m(record_key r \<mapsto> xs @ [(wr_txid r, None)]) else m
         | _ \<Rightarrow> m))"

lemma take_prefix_bytes:
  assumes "read_bytes b p 256 = read_bytes d 0 256" "n \<le> 256"
  shows "read_bytes b p n = read_bytes d 0 n"
proof (rule nth_equalityI)
  fix j assume j: "j < length (read_bytes b p n)"
  then have "j < nat 256" using assms(2) by simp
  then have "b (p + int j) = d (int j)"
    using assms(1) by (metis add_0 nth_read_bytes)
  then show "read_bytes b p n ! j = read_bytes d 0 n ! j" using j by simp
qed simp

text \<open>What the replay reads from the bytes of a record.\<close>

lemma replay_fields:
  assumes "replayable eng r"
  shows "read_bytes (buf_of (wal_bytes r)) 16 (wr_key_len r) = record_key r"
    "wr_kind r = GARRY_WAL_UPDATE \<Longrightarrow> recovery_value eng (buf_of (wal_bytes r)) = (eng, Some (record_value r))"
proof -
  have ok: "record_ok r" and l: "wr_key_len r \<le> 256" using assms by (simp_all add: replayable_def)
  note f = wal_bytes_fields [OF ok]
  show "read_bytes (buf_of (wal_bytes r)) 16 (wr_key_len r) = record_key r"
    unfolding record_key_def by (rule take_prefix_bytes [OF f(5) l])
  assume u: "wr_kind r = GARRY_WAL_UPDATE"
  then have v: "\<not> wr_new_is_overflow r" "0 \<le> wr_value_len r" "wr_value_len r \<le> 256"
    using assms by (simp_all add: replayable_def)
  have "read_bytes (buf_of (wal_bytes r)) 528 (wr_value_len r) = record_value r"
    unfolding record_value_def by (rule take_prefix_bytes [OF f(6) v(3)])
  then show "recovery_value eng (buf_of (wal_bytes r)) = (eng, Some (record_value r))"
    using v by (simp add: recovery_value_def f GARRY_MAX_RECORD_SIZE_def Let_def)
qed

lemma length_record_key [simp]: "length (record_key r) = nat (wr_key_len r)"
  by (simp add: record_key_def)

lemma decode_full:
  assumes "i32 c"
  shows "garry_decode_descriptor (buf_of (descriptor_bytes c hc)) (int (length (descriptor_bytes c hc))) = (c, hc)"
  by (rule decode_descriptor [OF _ assms]) simp_all

text \<open>An insertion of the recovery is one of \<open>garry_storage_set\<close> that succeeds, with the version.\<close>

lemma recovery_insert_chain:
  assumes "find_or_create_chain eng key = Some (eng', Some c, True)"
  obtains e1 where "engine_search eng key = Some (e1, None)"
    "recovery_insert e1 txid key val =
       (case compress_value eng' val of
          None \<Rightarrow> Some (eng', False)
        | Some payload \<Rightarrow> Some (garry_mvcc_recovery_apply eng' c txid payload))"
proof -
  obtain e1 where e1: "engine_search eng key = Some (e1, None)"
    using assms by (auto simp: find_or_create_chain_def split: option.splits prod.splits)
  obtain e2 cid where e2: "garry_chain_allocate e1 = (e2, cid)" by fastforce
  obtain desc n where d: "garry_encode_descriptor cid False (\<lambda>_. 0) = (desc, n)" by fastforce
  obtain p root where s: "\<not> cid < 0" "eng' = e2\<lparr>eng_pool := p, eng_btree_root := root\<rparr>" "c = cid"
    "garry_btree_insert (eng_pool e2) (eng_btree_root e2) key (read_bytes desc 0 n) = Some (p, root, True)"
    using assms by (auto simp: find_or_create_chain_def e1 e2 d Let_def split: option.splits prod.splits if_splits)
  show ?thesis
  proof (rule that [OF e1])
    show "recovery_insert e1 txid key val =
        (case compress_value eng' val of
           None \<Rightarrow> Some (eng', False)
         | Some payload \<Rightarrow> Some (garry_mvcc_recovery_apply eng' c txid payload))"
      unfolding recovery_insert_def s(2,3) e2 Let_def using s(1,4) by (simp add: d)
  qed
qed

lemma index_put_log:
  assumes "distinct (map chain_of ls)" "map_of ls k = Some (c, xs)"
  shows "index_of (put_log c ys ls) = (index_of ls)(k \<mapsto> ys)"
proof
  fix k'
  have m: "(k, c, xs) \<in> set ls" by (rule map_of_SomeD [OF assms(2)])
  show "index_of (put_log c ys ls) k' = ((index_of ls)(k \<mapsto> ys)) k'"
  proof (cases "map_of ls k'")
    case (Some r)
    obtain c' xs' where r: "r = (c', xs')" by (cases r)
    have "(k', c', xs') \<in> set ls" using Some unfolding r by (rule map_of_SomeD)
    then have "c' = c \<longrightarrow> k' = k" using chain_unique [OF assms(1) m] by blast
    with Some assms(2) show ?thesis by (auto simp: index_of_def map_of_put_log r)
  qed (use assms(2) in \<open>auto simp: index_of_def map_of_put_log\<close>)
qed

lemma mvcc_write_wal: "eng_wal (fst (mvcc_write eng t c v)) = eng_wal eng"
  using write_table [of eng t c v] by auto

lemma room_for_first:
  "2048 \<le> ps \<Longrightarrow> length payload \<le> 300 \<Longrightarrow> log_room ps [] (Some payload)"
  by (simp add: log_room_def)

text \<open>One record.\<close>

definition replayed ::
  "nat \<Rightarrow> nat \<Rightarrow> nat \<Rightarrow> garry_engine_handle \<Rightarrow> (key \<Rightarrow> version list option) \<Rightarrow> garry_engine_handle \<Rightarrow> bool" where
  "replayed h n m eng M eng' \<longleftrightarrow>
     (\<exists>h' ls P. h' \<le> h \<and> kv_on h' eng' ls P \<and> index_of ls = M) \<and>
     tree_pool n m (eng_pool eng') \<and> same_session eng eng' \<and> eng_wal eng' = eng_wal eng"

lemma replayedI:
  "kv_on h' eng' ls P \<Longrightarrow> h' \<le> h \<Longrightarrow> index_of ls = M \<Longrightarrow> tree_pool n m (eng_pool eng') \<Longrightarrow>
     same_session eng eng' \<Longrightarrow> eng_wal eng' = eng_wal eng \<Longrightarrow> replayed h n m eng M eng'"
  unfolding replayed_def by blast

lemma replay_update_kv:
  assumes kv: "kv_on h eng ls P" and tp: "tree_pool (n + 29 + 15 * h) (h + 3 + m) (eng_pool eng)"
    and r: "replayable eng r" "wr_kind r = GARRY_WAL_UPDATE" "wr_txid r \<in> set committed"
  shows "\<exists>eng'. recovery_replay eng committed (buf_of (wal_bytes r)) = Some (eng', True) \<and>
    replayed (Suc h) n m eng (replay_effect eng committed (index_of ls) r) eng'"
proof -
  let ?k = "record_key r" and ?v = "record_value r" and ?t = "wr_txid r" and ?b = "buf_of (wal_bytes r)"
  have ok: "record_ok r" and kl: "0 \<le> wr_key_len r" "wr_key_len r < 256" and vo: "value_ok eng ?v"
    using r by (simp_all add: replayable_def)
  note f = wal_bytes_fields [OF ok] and rf = replay_fields [OF r(1)]
  have rep: "recovery_replay eng committed ?b =
      (case engine_search eng ?k of
         None \<Rightarrow> None
       | Some (eng, Some lookup) \<Rightarrow>
           (let (chain_id, has_children) = garry_decode_descriptor (buf_of lookup) (int (length lookup));
                pool = eng_pool eng
            in Some (if chain_id + 1 > bp_next_page pool
                     then eng\<lparr>eng_pool := pool\<lparr>bp_next_page := chain_id + 1\<rparr>\<rparr>
                     else eng, True))
       | Some (eng, None) \<Rightarrow> recovery_insert eng ?t ?k ?v)"
    using kl r(3) unfolding recovery_replay_def Let_def f(1-4) r(2) rf(1) rf(2) [OF r(2)]
    by (simp add: GARRY_MAX_RECORD_SIZE_def)
  have tp2: "tree_pool ((n + 2) + 27 + 15 * h) (h + 3 + m) (eng_pool eng)"
    by (rule tree_pool_mono [OF tp]) simp_all
  have "length ?k < 256" using kl by simp
  from find_or_create_kv [OF kv tp2 this] obtain e1 c ls1 h1 P1 where fc:
    "find_or_create_chain eng ?k = Some (e1, Some c, map_of ls ?k = None)" "h1 \<le> Suc h"
    "tree_pool (n + 2) m (eng_pool e1)" "kv_on h1 e1 ls1 P1" "map_of ls1 ?k = Some (c, versions ls ?k)"
    "e1 = eng\<lparr>eng_pool := eng_pool e1, eng_btree_root := eng_btree_root e1\<rparr>"
    "\<forall>k'. k' \<noteq> ?k \<longrightarrow> map_of ls1 k' = map_of ls k'"
    by blast
  have s1: "same_session eng e1"
    by (subst fc(6)) (rule same_session_trans [OF same_session_fields(1) same_session_fields(2)])
  show ?thesis
  proof (cases "map_of ls ?k")
    case (Some q)
    obtain c' xs where q: "q = (c', xs)" by (cases q)
    have mem: "(?k, c', xs) \<in> set ls" using Some unfolding q by (rule map_of_SomeD)
    have "pool_idle (n + 2 * Suc h) (eng_pool eng)" by (rule pool_idle_mono [OF tree_poolD(1) [OF tp]]) simp
    from kv this obtain p where p:
      "engine_search eng ?k = Some (eng\<lparr>eng_pool := p\<rparr>, map_option (\<lambda>r. descriptor_bytes (fst r) False) (map_of ls ?k))"
      "pool_idle n p" "page_frame {} (eng_pool eng) p" "bp_next_page p = bp_next_page (eng_pool eng)"
      "kv_on h (eng\<lparr>eng_pool := p\<rparr>) ls P"
      by (rule engine_search_kv) blast
    have "i32 c'" "c' < bp_next_page p" using kv_onD(5) [OF kv mem] chain_bound(2) [OF kv mem] p(4) by simp_all
    then have "recovery_replay eng committed ?b = Some (eng\<lparr>eng_pool := p\<rparr>, True)"
      using Some by (simp add: rep p(1) q decode_full)
    moreover have "tree_pool n m p"
      by (rule tree_pool_mono [OF tree_pool_frame [OF tp p(2-4)]]) simp_all
    then have "replayed (Suc h) n m eng (replay_effect eng committed (index_of ls) r) (eng\<lparr>eng_pool := p\<rparr>)"
      using Some r(2) by (intro replayedI [OF p(5)]) (simp_all add: replay_effect_def index_of_def)
    ultimately show ?thesis by blast
  next
    case None
    obtain payload where pl: "compress_value eng ?v = Some payload" "length payload \<le> 300"
      using payload_ok [OF vo] by metis
    have c1: "compress_value e1 ?v = Some payload" using pl(1) s1 by (simp add: compress_value_def same_session_def)
    have t32: "i32 ?t" using ok by (simp add: record_ok_def)
    have ps: "2048 \<le> eng_page_size e1" using tree_poolD(3) [OF fc(3)] kv_onD(1) [OF fc(4)] by simp
    have v0: "versions ls ?k = []" "versions ls1 ?k = []" using None fc(5) by (simp_all add: versions_def)
    from fc(4,5) payload_fits(1) [OF fc(4,3) t32 pl(2)] fc(3) obtain e2 ok2 where w:
      "mvcc_write e1 ?t c (Some payload) = (e2, ok2)" "tree_pool n m (eng_pool e2)"
      "kv_on h1 e2 (put_log c (if ok2 then versions ls ?k @ [(?t, Some payload)] else versions ls ?k) ls1) P1"
      "same_session e1 e2" "ok2 \<longleftrightarrow> log_room (eng_page_size e1) (versions ls1 ?k) (Some payload)"
      by (rule write_kv)
    have ok2: ok2 using w(5) room_for_first [OF ps pl(2)] by (simp add: v0)
    from fc(1) None have "find_or_create_chain eng ?k = Some (e1, Some c, True)" by simp
    then obtain e0 where e0: "engine_search eng ?k = Some (e0, None)"
      "recovery_insert e0 ?t ?k ?v =
         (case compress_value e1 ?v of
            None \<Rightarrow> Some (e1, False)
          | Some payload \<Rightarrow> Some (garry_mvcc_recovery_apply e1 c ?t payload))"
      by (rule recovery_insert_chain)
    have "recovery_replay eng committed ?b = Some (e2, True)"
      using w(1) ok2 by (simp add: rep e0 c1 garry_mvcc_recovery_apply_def mvcc_write_def)
    moreover have "index_of (put_log c [(?t, Some payload)] ls1) = replay_effect eng committed (index_of ls) r"
    proof -
      have "index_of (put_log c [(?t, Some payload)] ls1) = (index_of ls1)(?k \<mapsto> [(?t, Some payload)])"
        by (rule index_put_log [OF kv_onD(3) [OF fc(4)] fc(5)])
      also have "\<dots> = (index_of ls)(?k \<mapsto> [(?t, Some payload)])"
        using fc(7) by (auto simp: index_of_def fun_eq_iff)
      finally show ?thesis using None r(2,3) pl(1) by (simp add: replay_effect_def index_of_def)
    qed
    moreover have "eng_wal e2 = eng_wal eng"
      using mvcc_write_wal [of e1 ?t c "Some payload"] by (simp add: w(1)) (subst fc(6), simp)
    ultimately have "replayed (Suc h) n m eng (replay_effect eng committed (index_of ls) r) e2"
      using w(2-4) ok2 fc(2) v0 s1 by (intro replayedI [of h1 e2]) (auto intro: same_session_trans)
    with \<open>recovery_replay eng committed ?b = Some (e2, True)\<close> show ?thesis by blast
  qed
qed

lemma replay_delete_kv:
  assumes kv: "kv_on h eng ls P" and tp: "tree_pool (n + 29 + 15 * h) (h + 3 + m) (eng_pool eng)"
    and r: "replayable eng r" "wr_kind r = GARRY_WAL_DELETE" "wr_txid r \<in> set committed"
  shows "\<exists>eng'. recovery_replay eng committed (buf_of (wal_bytes r)) = Some (eng', True) \<and>
    replayed (Suc h) n m eng (replay_effect eng committed (index_of ls) r) eng'"
proof -
  let ?k = "record_key r" and ?t = "wr_txid r" and ?b = "buf_of (wal_bytes r)"
  have ok: "record_ok r" and kl: "0 \<le> wr_key_len r" "wr_key_len r < 256"
    using r by (simp_all add: replayable_def)
  have t32: "i32 ?t" using ok by (simp add: record_ok_def)
  note f = wal_bytes_fields [OF ok] and rf = replay_fields(1) [OF r(1)]
  have rep: "recovery_replay eng committed ?b =
      (case engine_search eng ?k of
         None \<Rightarrow> None
       | Some (eng, None) \<Rightarrow> Some (eng, True)
       | Some (eng, Some lookup) \<Rightarrow>
           (let (chain_id, has_children) = garry_decode_descriptor (buf_of lookup) (int (length lookup))
            in Some (fst (garry_mvcc_delete eng ?t chain_id), True)))"
    using kl r(3) unfolding recovery_replay_def Let_def f(1-4) r(2) rf
    by (simp add: GARRY_MAX_RECORD_SIZE_def)
  have "pool_idle ((n + 2) + 2 * Suc h) (eng_pool eng)" by (rule pool_idle_mono [OF tree_poolD(1) [OF tp]]) simp
  from kv this obtain p where p:
    "engine_search eng ?k = Some (eng\<lparr>eng_pool := p\<rparr>, map_option (\<lambda>r. descriptor_bytes (fst r) False) (map_of ls ?k))"
    "pool_idle (n + 2) p" "page_frame {} (eng_pool eng) p" "bp_next_page p = bp_next_page (eng_pool eng)"
    "kv_on h (eng\<lparr>eng_pool := p\<rparr>) ls P"
    by (rule engine_search_kv) blast
  let ?e1 = "eng\<lparr>eng_pool := p\<rparr>"
  have tp1: "tree_pool (n + 2) m p" by (rule tree_pool_mono [OF tree_pool_frame [OF tp p(2-4)]]) simp_all
  show ?thesis
  proof (cases "map_of ls ?k")
    case None
    then have "recovery_replay eng committed ?b = Some (?e1, True)" by (simp add: rep p(1))
    moreover have "replayed (Suc h) n m eng (replay_effect eng committed (index_of ls) r) ?e1"
      using None tree_pool_mono [OF tp1, of n m]
      by (intro replayedI [OF p(5)]) (simp_all add: replay_effect_def index_of_def r(2))
    ultimately show ?thesis by blast
  next
    case (Some q)
    obtain c xs where q: "q = (c, xs)" by (cases q)
    have m: "map_of ls ?k = Some (c, xs)" using Some q by simp
    have tp2: "tree_pool (n + 2) m (eng_pool ?e1)" using tp1 by simp
    from p(5) m payload_fits(2) [OF p(5) tp2 t32, of "[]"] tp2 obtain e2 ok2 where w:
      "mvcc_write ?e1 ?t c None = (e2, ok2)" "tree_pool n m (eng_pool e2)"
      "kv_on h e2 (put_log c (if ok2 then xs @ [(?t, None)] else xs) ls) P"
      "same_session ?e1 e2" "ok2 \<longleftrightarrow> log_room (eng_page_size ?e1) (versions ls ?k) None"
      by (rule write_kv) simp_all
    have "recovery_replay eng committed ?b = Some (e2, True)"
      using w(1) kv_onD(5) [OF kv map_of_SomeD [OF m]] by (simp add: rep p(1) m decode_full mvcc_write_def)
    moreover have "index_of (put_log c (if ok2 then xs @ [(?t, None)] else xs) ls) =
        replay_effect eng committed (index_of ls) r"
      unfolding index_put_log [OF kv_onD(3) [OF kv] m]
      using w(5) m r(2,3) by (auto simp: replay_effect_def index_of_def versions_def)
    moreover have "eng_wal e2 = eng_wal eng" using mvcc_write_wal [of ?e1 ?t c None] by (simp add: w(1))
    ultimately show ?thesis
      using w(2-4) same_session_trans [OF same_session_fields(1) w(4)]
      by (intro exI [of _ e2] conjI replayedI [OF w(3)]) simp_all
  qed
qed

lemma replay_other:
  assumes "replayable eng r" "wr_txid r \<notin> set committed \<or> wr_kind r \<notin> {GARRY_WAL_UPDATE, GARRY_WAL_DELETE}"
  shows "recovery_replay eng committed (buf_of (wal_bytes r)) = Some (eng, True)"
    "replay_effect eng committed M r = M"
proof -
  have ok: "record_ok r" using assms(1) by (simp add: replayable_def)
  show "recovery_replay eng committed (buf_of (wal_bytes r)) = Some (eng, True)"
    using assms(2) by (cases "wr_kind r") (simp_all add: recovery_replay_def wal_bytes_fields [OF ok] Let_def)
  show "replay_effect eng committed M r = M"
    using assms(2) by (auto simp: replay_effect_def split: garry_wal_record_kind.splits option.splits)
qed

lemma replay_record_kv:
  assumes kv: "kv_on h eng ls P" and tp: "tree_pool (n + 29 + 15 * h) (h + 3 + m) (eng_pool eng)"
    and r: "replayable eng r"
  shows "\<exists>eng'. recovery_replay eng committed (buf_of (wal_bytes r)) = Some (eng', True) \<and>
    replayed (Suc h) n m eng (replay_effect eng committed (index_of ls) r) eng'"
proof -
  consider (update) "wr_kind r = GARRY_WAL_UPDATE" "wr_txid r \<in> set committed"
    | (delete) "wr_kind r = GARRY_WAL_DELETE" "wr_txid r \<in> set committed"
    | (other) "wr_txid r \<notin> set committed \<or> wr_kind r \<notin> {GARRY_WAL_UPDATE, GARRY_WAL_DELETE}" by blast
  then show ?thesis
  proof cases
    case update
    from replay_update_kv [OF kv tp r this] show ?thesis .
  next
    case delete
    from replay_delete_kv [OF kv tp r this] show ?thesis .
  next
    case other
    from replay_other [OF r other] tree_pool_mono [OF tp, of n m] show ?thesis
      by (intro exI [of _ eng] conjI replayedI [OF kv]) simp_all
  qed
qed

lemma replay_cong:
  assumes "eng_compression eng' = eng_compression eng" "eng_page_size eng' = eng_page_size eng"
  shows "replayable eng' = replayable eng" "replay_effect eng' = replay_effect eng"
proof -
  show "replayable eng' = replayable eng" by (simp add: replayable_def value_ok_def fun_eq_iff assms)
  have c: "compress_value eng' = compress_value eng" by (simp add: compress_value_def fun_eq_iff assms(1))
  show "replay_effect eng' = replay_effect eng" unfolding replay_effect_def assms(2) c by (rule refl)
qed

lemma session_replay:
  "same_session eng eng' \<Longrightarrow> replayable eng' = replayable eng \<and> replay_effect eng' = replay_effect eng"
  using replay_cong [of eng' eng] by (simp add: same_session_def)

text \<open>All records. The resources are those of as many commands of the store.\<close>

lemma replay_all_kv:
  assumes "kv_on h eng ls P" "h + length rs \<le> H"
    and "tree_pool (n + length rs * (29 + 15 * H)) (m + length rs * (3 + H)) (eng_pool eng)"
    and "list_all (replayable eng) rs"
  shows "\<exists>eng'. replay_all eng committed (map wal_bytes rs) = Some (eng', True) \<and>
    replayed H n m eng (foldl (replay_effect eng committed) (index_of ls) rs) eng'"
  using assms
proof (induction rs arbitrary: h eng ls P)
  case Nil
  then show ?case by (auto intro: replayedI)
next
  case (Cons r rs)
  let ?n = "n + length rs * (29 + 15 * H)" and ?m = "m + length rs * (3 + H)"
  have "tree_pool (?n + 29 + 15 * h) (h + 3 + ?m) (eng_pool eng)"
    by (rule tree_pool_mono [OF Cons.prems(3)]) (use Cons.prems(2) in simp_all)
  from replay_record_kv [OF Cons.prems(1) this, of r committed] Cons.prems(4) obtain e1 where e1:
    "recovery_replay eng committed (buf_of (wal_bytes r)) = Some (e1, True)"
    "replayed (Suc h) ?n ?m eng (replay_effect eng committed (index_of ls) r) e1" by auto
  then obtain h1 ls1 P1 where k1: "h1 \<le> Suc h" "kv_on h1 e1 ls1 P1"
    "index_of ls1 = replay_effect eng committed (index_of ls) r" "tree_pool ?n ?m (eng_pool e1)"
    "same_session eng e1" "eng_wal e1 = eng_wal eng"
    by (auto simp: replayed_def)
  have s: "replayable e1 = replayable eng" "replay_effect e1 = replay_effect eng"
    using session_replay [OF k1(5)] by simp_all
  then have "list_all (replayable e1) rs" using Cons.prems(4) by simp
  from Cons.IH [OF k1(2) _ k1(4) this] k1(1) Cons.prems(2) obtain e2 where e2:
    "replay_all e1 committed (map wal_bytes rs) = Some (e2, True)"
    "replayed H n m e1 (foldl (replay_effect e1 committed) (index_of ls1) rs) e2" by auto
  then have "replayed H n m eng (foldl (replay_effect eng committed) (index_of ls) (r # rs)) e2"
    using k1(3,5,6) same_session_trans [OF k1(5), of e2] unfolding s(2) by (simp add: replayed_def)
  with e1(1) e2(1) show ?case by auto
qed

subsection \<open>Recovery\<close>

text \<open>The engine shows these logs, can replay \<open>n\<close> records, and its log file holds these records,
  perhaps with a torn one behind them.\<close>

definition recoverable ::
  "garry_engine_handle \<Rightarrow> (key \<Rightarrow> version list option) \<Rightarrow> garry_wal_record list \<Rightarrow> bool" where
  "recoverable eng M rs \<longleftrightarrow>
     (\<exists>h H ls P. h + length rs \<le> H \<and> kv_on h eng ls P \<and> index_of ls = M \<and>
        tree_pool (2 * H + 4 + length rs * (29 + 15 * H)) (length rs * (3 + H)) (eng_pool eng)) \<and>
     st_is_open (wl_fd (eng_wal eng)) \<and>
     (\<exists>torn. st_data (wl_fd (eng_wal eng)) = concat (map wal_bytes rs) @ torn \<and> length torn < 792) \<and>
     list_all (replayable eng) rs"

text \<open>The engine is well formed, shows these logs, and can serve a read.\<close>

definition shows_logs :: "garry_engine_handle \<Rightarrow> (key \<Rightarrow> version list option) \<Rightarrow> bool" where
  "shows_logs eng M \<longleftrightarrow>
     (\<exists>h ls P. kv_on h eng ls P \<and> index_of ls = M \<and> pool_idle (2 + 2 * Suc h) (eng_pool eng))"

lemma txn_is_active_cong:
  assumes "eng_active_txns eng' = eng_active_txns eng" "eng_txn_states eng' = eng_txn_states eng"
  shows "garry_txn_is_active t eng' = garry_txn_is_active t eng"
  unfolding garry_txn_is_active_def find_txn_slot_def assms by (rule refl)

lemma kv_on_next: "kv_on h eng ls P \<Longrightarrow> kv_on h (eng\<lparr>eng_next_txid := t\<rparr>) ls P"
  by (rule kv_on_cong) simp_all

lemma recover_spec:
  assumes "recoverable eng M rs"
  obtains eng' where "garry_wal_recover eng = Some (eng', True)"
    "shows_logs eng' (foldl (replay_effect eng (committed_in rs)) M rs)"
    "eng_next_txid eng' = foldl bump_txid (eng_next_txid eng) (committed_in rs)"
    "eng_active_txns eng' = eng_active_txns eng" "eng_compression eng' = eng_compression eng"
    "eng_page_size eng' = eng_page_size eng"
    "\<And>t. garry_txn_is_active t eng' \<longleftrightarrow> garry_txn_is_active t eng"
    "eng_max_txns eng' = eng_max_txns eng"
    "txn_inv eng \<and> eng_active_txns eng = [] \<longrightarrow> txn_inv eng'"
    "wl_fd (eng_wal eng') = (wl_fd (eng_wal eng))\<lparr>st_pos := length (st_data (wl_fd (eng_wal eng)))\<rparr>"
proof -
  let ?fd = "wl_fd (eng_wal eng)" and ?C = "committed_in rs"
  obtain h H ls P torn where r: "h + length rs \<le> H" "kv_on h eng ls P" "index_of ls = M"
    "tree_pool (2 * H + 4 + length rs * (29 + 15 * H)) (length rs * (3 + H)) (eng_pool eng)"
    "st_is_open ?fd" "st_data ?fd = concat (map wal_bytes rs) @ torn" "length torn < 792"
    "list_all (replayable eng) rs"
    using assms by (auto simp: recoverable_def)
  let ?n = "foldl bump_txid (eng_next_txid eng) ?C"
  let ?e = "eng\<lparr>eng_next_txid := ?n\<rparr>"
  have ch: "chunks (st_data ?fd) = map wal_bytes rs" unfolding r(6) by (rule chunks_wal [OF r(7)])
  have "list_all record_ok rs" using r(8) by (auto simp: list_all_iff replayable_def)
  note ids = commit_ids_wal [OF this]
  let ?fds = "?fd\<lparr>st_pos := 0\<rparr>" and ?fde = "?fd\<lparr>st_pos := length (st_data ?fd)\<rparr>"
  have seek: "fst (garry_file_seek ?fd 0 0) = ?fds" "fst (garry_file_seek ?fde 0 0) = ?fds"
    by (simp_all add: garry_file_seek_def)
  have col: "collect_committed ?fds [] (eng_next_txid eng) = (?fde, ?C, ?n)"
    by (simp add: collect_chunks ch ids)
  have cong: "replayable ?e = replayable eng" "replay_effect ?e = replay_effect eng"
    by (rule replay_cong; simp)+
  have rp: "list_all (replayable ?e) rs" using r(8) by (simp add: cong(1))
  have tp: "tree_pool (2 * H + 4 + length rs * (29 + 15 * H)) (0 + length rs * (3 + H)) (eng_pool ?e)" using r(4) by simp
  from replay_all_kv [OF kv_on_next [OF r(2)] r(1) tp rp, of ?C] obtain e2 where
    e2: "replay_all ?e ?C (map wal_bytes rs) = Some (e2, True)"
    "replayed H (2 * H + 4) 0 ?e (foldl (replay_effect eng ?C) M rs) e2"
    unfolding cong(2) r(3) by blast
  have loop: "replay_loop ?fds ?e ?C = Some (?fde, e2, True)"
    using replay_loop_chunks [of ?fds ?e ?C e2] e2(1) by (simp add: ch)
  let ?e3 = "e2\<lparr>eng_wal := (eng_wal e2)\<lparr>wl_fd := ?fde\<rparr>\<rparr>"
  have ss: "same_session ?e e2" using e2(2) by (simp add: replayed_def)
  show ?thesis
  proof (rule that [of ?e3])
    show "garry_wal_recover eng = Some (?e3, True)"
      unfolding garry_wal_recover_def Let_def seek(1) col using r(5) by (simp add: seek(2) loop)
    obtain h' ls' P' where "h' \<le> H" "kv_on h' e2 ls' P'" "index_of ls' = foldl (replay_effect eng ?C) M rs"
      and tp2: "tree_pool (2 * H + 4) 0 (eng_pool e2)" using e2(2) by (auto simp: replayed_def)
    moreover have "pool_idle (2 + 2 * Suc h') (eng_pool e2)"
      by (rule pool_idle_mono [OF tree_poolD(1) [OF tp2]]) (use \<open>h' \<le> H\<close> in simp)
    moreover have "kv_on h' ?e3 ls' P'" by (rule kv_on_cong [OF \<open>kv_on h' e2 ls' P'\<close>]) simp_all
    ultimately show "shows_logs ?e3 (foldl (replay_effect eng ?C) M rs)" by (auto simp: shows_logs_def)
    show "garry_txn_is_active t ?e3 \<longleftrightarrow> garry_txn_is_active t eng" for t
      using ss txn_is_active_cong [of ?e3 e2 t] txn_is_active_cong [of ?e eng t] by (simp add: same_session_def)
    show "txn_inv eng \<and> eng_active_txns eng = [] \<longrightarrow> txn_inv ?e3"
    proof
      assume "txn_inv eng \<and> eng_active_txns eng = []"
      then have "txn_inv ?e" using bump_txid_ge [of "eng_next_txid eng" ?C] by (simp add: txn_inv_def)
      with ss have "txn_inv e2" by (simp add: same_session_def)
      then show "txn_inv ?e3" by (rule txn_inv_cong) (simp_all add: inv_locks \<open>txn_inv e2\<close>)
    qed
  qed (use ss in \<open>simp_all add: same_session_def\<close>)
qed

subsection \<open>What is read after a recovery\<close>

text \<open>The committed changes of a key, and what they do to its log.\<close>

definition key_changes :: "garry_wal_record list \<Rightarrow> key \<Rightarrow> garry_wal_record list" where
  "key_changes rs k =
     filter (\<lambda>r. record_key r = k \<and> wr_txid r \<in> set (committed_in rs) \<and>
                 wr_kind r \<in> {GARRY_WAL_UPDATE, GARRY_WAL_DELETE}) rs"

definition change_log ::
  "garry_engine_handle \<Rightarrow> version list option \<Rightarrow> garry_wal_record \<Rightarrow> version list option" where
  "change_log eng x r =
     (case x of
        None \<Rightarrow>
          if wr_kind r = GARRY_WAL_UPDATE then Some [(wr_txid r, compress_value eng (record_value r))] else None
      | Some xs \<Rightarrow>
          if wr_kind r = GARRY_WAL_DELETE \<and> log_room (eng_page_size eng) xs None
          then Some (xs @ [(wr_txid r, None)]) else Some xs)"

lemma replay_effect_at:
  "replay_effect eng C M r k =
     (if record_key r = k \<and> wr_txid r \<in> set C \<and> wr_kind r \<in> {GARRY_WAL_UPDATE, GARRY_WAL_DELETE}
      then change_log eng (M k) r else M k)"
  by (cases "wr_kind r"; cases "M (record_key r)") (auto simp: replay_effect_def change_log_def)

lemma foldl_replay_at:
  "foldl (replay_effect eng (committed_in rs)) M rs k = foldl (change_log eng) (M k) (key_changes rs k)"
proof -
  have "foldl (replay_effect eng C) M rs' k =
      foldl (change_log eng) (M k)
        (filter (\<lambda>r. record_key r = k \<and> wr_txid r \<in> set C \<and>
                     wr_kind r \<in> {GARRY_WAL_UPDATE, GARRY_WAL_DELETE}) rs')" for C rs'
    by (induction rs' arbitrary: M) (auto simp: replay_effect_at)
  then show ?thesis by (simp add: key_changes_def)
qed

text \<open>Starting a transaction on a recovered engine and reading a key.\<close>

lemma recover_then_read:
  assumes "recoverable eng M rs" "txn_inv eng" "eng_active_txns eng = []" "0 < eng_max_txns eng"
    and "k \<noteq> []" "length k < 256"
  obtains eng1 eng2 t eng3 where "garry_wal_recover eng = Some (eng1, True)" "garry_storage_begin eng1 = (eng2, t)"
    "\<forall>u \<in> set (committed_in rs). u < t" "eng_next_txid eng \<le> t"
    "garry_storage_get eng2 t k = Some (eng3,
       Option.bind (read_log t [t] (case foldl (change_log eng) (M k) (key_changes rs k) of
                                      None \<Rightarrow> [] | Some xs \<Rightarrow> xs)) (decompress_value eng))"
proof -
  let ?M = "foldl (replay_effect eng (committed_in rs)) M rs"
  from assms(1) obtain eng1 where e1: "garry_wal_recover eng = Some (eng1, True)" "shows_logs eng1 ?M"
    "eng_next_txid eng1 = foldl bump_txid (eng_next_txid eng) (committed_in rs)"
    "eng_active_txns eng1 = eng_active_txns eng" "eng_compression eng1 = eng_compression eng"
    "eng_max_txns eng1 = eng_max_txns eng" "txn_inv eng \<and> eng_active_txns eng = [] \<longrightarrow> txn_inv eng1"
    by (rule recover_spec)
  let ?t = "eng_next_txid eng1"
  let ?e2 = "eng1\<lparr>eng_next_txid := ?t + 1, eng_active_txns := [?t],
    eng_txn_states := [\<lparr>ti_txid = ?t, ti_state = GARRY_TXN_ACTIVE, ti_modified_pages = []\<rparr>]\<rparr>"
  have a: "eng_active_txns eng1 = []" using e1(4) assms(3) by simp
  then have s: "eng_txn_states eng1 = []" using txn_invD(3) [of eng1] e1(7) assms(2,3) by simp
  have b: "garry_storage_begin eng1 = (?e2, ?t)"
    using a s e1(6) assms(4) by (simp add: garry_storage_begin_def garry_mvcc_begin_def Let_def)
  have act: "garry_txn_is_active ?t ?e2" by (simp add: garry_txn_is_active_def find_txn_slot_def)
  obtain h ls P where kv: "kv_on h eng1 ls P" "index_of ls = ?M" "pool_idle (2 + 2 * Suc h) (eng_pool eng1)"
    using e1(2) by (auto simp: shows_logs_def)
  have kv2: "kv_on h ?e2 ls P" by (rule kv_on_cong [OF kv(1)]) simp_all
  have idle: "pool_idle (0 + 2 + 2 * Suc h) (eng_pool ?e2)" using kv(3) by simp
  have kk: "length k \<le> GARRY_MAX_KEY_SIZE" using assms(6) by (simp add: GARRY_MAX_KEY_SIZE_def)
  from kv2 idle assms(5) act obtain pool where g: "garry_storage_get ?e2 ?t k =
       Some (?e2\<lparr>eng_pool := pool\<rparr>, Option.bind (read_key ?e2 (versions ls) ?t k) (decompress_value ?e2))"
    by (rule read_kv) (use kk in blast)
  have "decompress_value ?e2 = decompress_value eng" by (simp add: decompress_value_def fun_eq_iff e1(5))
  moreover have "read_key ?e2 (versions ls) ?t k =
      read_log ?t [?t] (case foldl (change_log eng) (M k) (key_changes rs k) of None \<Rightarrow> [] | Some xs \<Rightarrow> xs)"
    by (simp add: read_key_def index_versions kv(2) foldl_replay_at)
  ultimately show ?thesis using g e1(3) by (intro that [OF e1(1) b])
    (auto simp: bump_txid_ge bump_txid_greater)
qed

lemma change_log_simps [simp]:
  "change_log eng None r =
     (if wr_kind r = GARRY_WAL_UPDATE then Some [(wr_txid r, compress_value eng (record_value r))] else None)"
  "change_log eng (Some xs) r =
     (if wr_kind r = GARRY_WAL_DELETE \<and> log_room (eng_page_size eng) xs None
      then Some (xs @ [(wr_txid r, None)]) else Some xs)"
  by (simp_all add: change_log_def)

lemma only_updates:
  "list_all (\<lambda>r. wr_kind r = GARRY_WAL_UPDATE) rs \<Longrightarrow> foldl (change_log eng) (Some xs) rs = Some xs"
  by (induction rs) simp_all

lemma no_deletion:
  "filter (\<lambda>r. wr_kind r = GARRY_WAL_DELETE) rs = [] \<Longrightarrow> foldl (change_log eng) (Some xs) rs = Some xs"
  by (induction rs) (simp_all split: if_splits)

lemma one_deletion:
  "log_room (eng_page_size eng) xs None \<Longrightarrow> filter (\<lambda>r. wr_kind r = GARRY_WAL_DELETE) rs = [r] \<Longrightarrow>
     foldl (change_log eng) (Some xs) rs = Some (xs @ [(wr_txid r, None)])"
  by (induction rs) (auto simp: no_deletion split: if_splits)

lemma restored_read:
  assumes "recoverable eng M rs" "txn_inv eng" "eng_active_txns eng = []" "0 < eng_max_txns eng"
    and "k \<noteq> []" "length k < 256" "M k = None" "key_changes rs k = r # rs'"
    and "list_all (\<lambda>r. wr_kind r = GARRY_WAL_UPDATE) (r # rs')"
  shows "\<exists>eng1 eng2 t eng3. garry_wal_recover eng = Some (eng1, True) \<and> garry_storage_begin eng1 = (eng2, t) \<and>
    garry_storage_get eng2 t k = Some (eng3, Some (record_value r))"
proof -
  from assms(1-6) obtain eng1 eng2 t eng3 where g:
    "garry_wal_recover eng = Some (eng1, True)" "garry_storage_begin eng1 = (eng2, t)"
    "\<forall>u \<in> set (committed_in rs). u < t"
    "garry_storage_get eng2 t k = Some (eng3,
       Option.bind (read_log t [t] (case foldl (change_log eng) (M k) (key_changes rs k) of
                                      None \<Rightarrow> [] | Some xs \<Rightarrow> xs)) (decompress_value eng))"
    by (rule recover_then_read)
  have mem: "r \<in> set (key_changes rs k)" by (simp add: assms(8))
  then have r: "r \<in> set rs" "wr_txid r < t" using g(3) by (auto simp: key_changes_def)
  then have "value_ok eng (record_value r)"
    using assms(1,9) by (auto simp: recoverable_def list_all_iff replayable_def)
  then obtain payload where p: "compress_value eng (record_value r) = Some payload"
    "decompress_value eng payload = Some (record_value r)" by (rule payload_ok)
  have "foldl (change_log eng) (M k) (key_changes rs k) = Some [(wr_txid r, Some payload)]"
    using assms(7,9) p(1) by (simp add: assms(8) only_updates)
  then show ?thesis using g r(2) p(2) by (auto simp: read_log_def may_see_def)
qed

subsection \<open>Crashed engines\<close>

text \<open>An engine that starts on the pages another one left behind and on a log with these records.\<close>

definition crash_engine :: "garry_engine_handle \<Rightarrow> garry_wal_record list \<Rightarrow> garry_engine_handle" where
  "crash_engine eng rs =
     fresh_engine\<lparr>eng_pool := eng_pool eng, eng_btree_root := eng_btree_root eng,
       eng_wal := \<lparr>wl_fd = garry_file_open (concat (map wal_bytes rs)) 1000000 True, wl_last_lsn = 0\<rparr>\<rparr>"

definition logged_update :: "int \<Rightarrow> byte list \<Rightarrow> byte list \<Rightarrow> garry_wal_record" where
  "logged_update txn key val = the (snd (garry_make_update_record empty_tree txn key val))"

lemma crash_engine_sel [simp]:
  "eng_pool (crash_engine eng rs) = eng_pool eng" "eng_btree_root (crash_engine eng rs) = eng_btree_root eng"
  "eng_page_size (crash_engine eng rs) = 4096" "eng_compression (crash_engine eng rs) = 1"
  "eng_active_txns (crash_engine eng rs) = []" "eng_max_txns (crash_engine eng rs) = 4"
  "eng_wal (crash_engine eng rs) =
     \<lparr>wl_fd = garry_file_open (concat (map wal_bytes rs)) 1000000 True, wl_last_lsn = 0\<rparr>"
  by (simp_all add: crash_engine_def fresh_engine_sel)

lemma crash_txn_inv: "txn_inv (crash_engine eng rs)"
  by (simp add: crash_engine_def txn_inv_def fresh_engine_sel lock_create_inv)

lemma logged_update_sel:
  assumes "length val \<le> 256"
  shows "wr_kind (logged_update txn key val) = GARRY_WAL_UPDATE" "wr_txid (logged_update txn key val) = txn"
    "record_key (logged_update txn key val) = key" "record_value (logged_update txn key val) = val"
    "wr_key_len (logged_update txn key val) = int (length key)"
    "wr_value_len (logged_update txn key val) = int (length val)"
    "\<not> wr_new_is_overflow (logged_update txn key val)" "wr_new_overflow_head (logged_update txn key val) = 0"
  using assms
  by (auto simp: logged_update_def garry_make_update_record_def empty_record_def Let_def record_key_def
      record_value_def buffer_simps)

lemma delete_record_sel:
  "wr_kind (garry_make_delete_record txn key) = GARRY_WAL_DELETE"
  "wr_txid (garry_make_delete_record txn key) = txn" "record_key (garry_make_delete_record txn key) = key"
  "wr_key_len (garry_make_delete_record txn key) = int (length key)"
  by (simp_all add: garry_make_delete_record_def empty_record_def Let_def record_key_def buffer_simps)

lemma commit_record_sel:
  "wr_kind (garry_make_commit_record txn) = GARRY_WAL_COMMIT" "wr_txid (garry_make_commit_record txn) = txn"
  by (simp_all add: garry_make_commit_record_def empty_record_def)

lemma logged_replayable:
  "i32 txn \<Longrightarrow> length key < 256 \<Longrightarrow> length val \<le> 256 \<Longrightarrow> val \<noteq> [] \<Longrightarrow>
     replayable eng (logged_update txn key val)"
  "i32 txn \<Longrightarrow> length key < 256 \<Longrightarrow> replayable eng (garry_make_delete_record txn key)"
  "i32 txn \<Longrightarrow> replayable eng (garry_make_commit_record txn)"
  by (simp_all add: replayable_def record_ok_def logged_update_sel value_ok_def i32_def
      garry_make_delete_record_def garry_make_commit_record_def empty_record_def Let_def)

lemma crash_recoverable:
  assumes "kv_on h eng ls P" "eng_page_size eng = 4096" "list_all (replayable (crash_engine eng rs)) rs"
    and "tree_pool (2 * (h + length rs) + 4 + length rs * (29 + 15 * (h + length rs)))
           (length rs * (3 + (h + length rs))) (eng_pool eng)"
  shows "recoverable (crash_engine eng rs) (index_of ls) rs"
  unfolding recoverable_def
proof (intro conjI exI)
  show "kv_on h (crash_engine eng rs) ls P" by (rule kv_on_cong [OF assms(1)]) (simp_all add: assms(2))
  show "h + length rs \<le> h + length rs" by (rule le_refl)
  show "st_data (wl_fd (eng_wal (crash_engine eng rs))) = concat (map wal_bytes rs) @ []"
    by (simp add: garry_file_open_def)
qed (use assms(3,4) in \<open>simp_all add: garry_file_open_def\<close>)

text \<open>An empty store, and a store with one key.\<close>

lemma crash_empty:
  assumes "list_all (replayable (crash_engine fresh_engine rs)) rs" "length rs \<le> 100"
  shows "recoverable (crash_engine fresh_engine rs) (\<lambda>_. None) rs"
proof -
  have kv: "kv_on 0 fresh_engine [] {1}" by (rule empty_tree_kv) (simp_all add: fresh_engine_sel)
  have a: "length rs * (29 + 15 * length rs) \<le> 100 * 1529" by (rule mult_le_mono) (use assms(2) in simp_all)
  have b: "length rs * (3 + length rs) \<le> 100 * 103" by (rule mult_le_mono) (use assms(2) in simp_all)
  have "tree_pool (2 * (0 + length rs) + 4 + length rs * (29 + 15 * (0 + length rs)))
      (length rs * (3 + (0 + length rs))) (eng_pool fresh_engine)"
    unfolding fresh_engine_sel by (rule empty_tree_holds(1)) (use a b assms(2) in simp_all)
  from crash_recoverable [OF kv fresh_engine_sel(1) assms(1) this]
  have "recoverable (crash_engine fresh_engine rs) (index_of []) rs" .
  moreover have "index_of [] = (\<lambda>_. None)" by (simp add: index_of_def fun_eq_iff)
  ultimately show ?thesis by simp
qed

lemma crash_written:
  obtains eng xs M where "garry_storage_set True busy_engine 1 [107] [1] = Some (eng, True)"
    "M [107] = Some xs" "log_room 4096 xs None"
    "\<And>rs. length rs = 4 \<Longrightarrow> list_all (replayable (crash_engine eng rs)) rs \<Longrightarrow>
       recoverable (crash_engine eng rs) M rs"
proof -
  have "(1000 :: nat) < 2 ^ 29" "[107 :: 8 word] \<noteq> []" "length [107 :: 8 word] < 256" "[1 :: 8 word] \<noteq> []"
    "length [1 :: 8 word] \<le> 256" by simp_all
  from busy_set_kv [OF this(1,1-5)] obtain h eng ls P where s:
    "garry_storage_set True busy_engine 1 [107] [1] = Some (eng, True)" "h \<le> 1"
    "kv_on h eng ls P" "tree_pool 1000 1000 (eng_pool eng)" "same_session busy_engine eng"
    "versions ls = (versions [])([107] := [(1, compress_value busy_engine [1])])" by metis
  have ps: "eng_page_size eng = 4096" using s(5) busy_engine_sel by (simp add: same_session_def)
  have v: "versions ls [107] = [(1, compress_value busy_engine [1])]" using s(6) by simp
  then obtain r where r: "map_of ls [107] = Some r" by (auto simp: versions_def split: option.splits)
  have i: "index_of ls [107] = Some [(1, compress_value busy_engine [1])]"
    using v r by (simp add: index_versions) (simp add: index_of_def)
  have "value_ok busy_engine [1]" by (simp add: value_ok_def)
  then obtain pl where "compress_value busy_engine [1] = Some pl" "length pl \<le> 300"
    by (rule payload_ok) blast
  then have room: "log_room 4096 [(1, compress_value busy_engine [1])] None" by (simp add: log_room_def)
  have "recoverable (crash_engine eng rs) (index_of ls) rs"
    if "length rs = 4" "list_all (replayable (crash_engine eng rs)) rs" for rs
    by (rule crash_recoverable [OF s(3) ps that(2)])
      (rule tree_pool_mono [OF s(4)], use s(2) that(1) in simp_all)
  from that [OF s(1) i room this] show ?thesis by blast
qed

text \<open>C15. Recovery ends and succeeds on a well-formed engine, with room for the replay, whose log holds replayable records, followed
  by less than one record of torn bytes. Replayable are commits, rollbacks, checkpoints, deletions and
  updates with keys of less than 256 bytes, where the value of an update lies in the record (at most
  256 bytes; a longer one is logged through overflow pages) and is not empty if the engine compresses.
  Then a key without a chain gets one with the first committed update of it, the committed
  deletions of a key with a chain are appended to its log, every other log is untouched, the pages
  stay well formed, and the next transaction identifier lies past the committed ones.\<close>

theorem recovery_replays_log:
  assumes "recoverable eng M rs"
  shows "\<exists>eng'. garry_wal_recover eng = Some (eng', True) \<and>
    shows_logs eng' (foldl (replay_effect eng (committed_in rs)) M rs) \<and>
    eng_next_txid eng \<le> eng_next_txid eng' \<and> (\<forall>t \<in> set (committed_in rs). t < eng_next_txid eng')"
proof -
  from assms obtain eng' where e: "garry_wal_recover eng = Some (eng', True)"
    "shows_logs eng' (foldl (replay_effect eng (committed_in rs)) M rs)"
    "eng_next_txid eng' = foldl bump_txid (eng_next_txid eng) (committed_in rs)"
    by (rule recover_spec)
  then show ?thesis by (auto simp: bump_txid_ge bump_txid_greater)
qed

theorem recovery_replays_log_witness:
  "\<exists>eng'. garry_wal_recover (crash_engine fresh_engine [logged_update 7 [107] [1], garry_make_commit_record 7])
      = Some (eng', True) \<and>
    shows_logs eng' [[107] \<mapsto> [(7, compress_value fresh_engine [1])]] \<and> 7 < eng_next_txid eng'"
proof -
  let ?rs = "[logged_update 7 [107] [1], garry_make_commit_record 7]"
  have "recoverable (crash_engine fresh_engine ?rs) (\<lambda>_. None) ?rs"
    by (rule crash_empty) (simp_all add: logged_replayable i32_def)
  moreover have "compress_value (crash_engine fresh_engine ?rs) = compress_value fresh_engine"
    by (simp add: compress_value_def fresh_engine_sel fun_eq_iff)
  ultimately show ?thesis using recovery_replays_log [of "crash_engine fresh_engine ?rs" "\<lambda>_. None" ?rs]
    by (auto simp: committed_in_def logged_update_sel commit_record_sel replay_effect_def)
qed



text \<open>C39. A committed write can be lost in a crash: if a key has no chain and the log holds two committed
  updates of it, the recovery replays the first and passes over the second, because the key is in
  the index by then; a new transaction reads the older value.\<close>

theorem recovery_loses_later_update:
  assumes "recoverable eng M rs" "txn_inv eng" "eng_active_txns eng = []" "0 < eng_max_txns eng"
    and "k \<noteq> []" "length k < 256" "M k = None" "key_changes rs k = [r1, r2]"
    and "wr_kind r1 = GARRY_WAL_UPDATE" "wr_kind r2 = GARRY_WAL_UPDATE"
  shows "\<exists>eng1 eng2 t eng3. garry_wal_recover eng = Some (eng1, True) \<and> garry_storage_begin eng1 = (eng2, t) \<and>
    garry_storage_get eng2 t k = Some (eng3, Some (record_value r1))"
  using restored_read [OF assms(1-8)] assms(9,10) by simp

theorem recovery_loses_later_update_witness:
  "\<exists>eng1 eng2 t eng3.
    garry_wal_recover (crash_engine fresh_engine
      [logged_update 1 [107] [1], garry_make_commit_record 1, logged_update 2 [107] [2], garry_make_commit_record 2])
      = Some (eng1, True) \<and>
    garry_storage_begin eng1 = (eng2, t) \<and> garry_storage_get eng2 t [107] = Some (eng3, Some [1])"
proof -
  let ?rs = "[logged_update 1 [107] [1], garry_make_commit_record 1,
    logged_update 2 [107] [2], garry_make_commit_record 2]"
  have "recoverable (crash_engine fresh_engine ?rs) (\<lambda>_. None) ?rs"
    by (rule crash_empty) (simp_all add: logged_replayable i32_def)
  from recovery_loses_later_update [OF this crash_txn_inv, of "[107]" "logged_update 1 [107] [1]"
      "logged_update 2 [107] [2]"]
  show ?thesis by (simp add: committed_in_def key_changes_def logged_update_sel delete_record_sel commit_record_sel)
qed

text \<open>Opening a database can delete a key: whatever versions a key has, and even if the last of
  them is a value committed after the deletion, the recovery appends a committed deletion in the
  log once more, and a new transaction finds nothing.\<close>

theorem recovery_repeats_deletion:
  assumes "recoverable eng M rs" "txn_inv eng" "eng_active_txns eng = []" "0 < eng_max_txns eng"
    and "k \<noteq> []" "length k < 256" "M k = Some xs" "log_room (eng_page_size eng) xs None"
    and "filter (\<lambda>r. wr_kind r = GARRY_WAL_DELETE) (key_changes rs k) = [r]"
  shows "\<exists>eng1 eng2 t eng3. garry_wal_recover eng = Some (eng1, True) \<and> garry_storage_begin eng1 = (eng2, t) \<and>
    garry_storage_get eng2 t k = Some (eng3, None)"
proof -
  from assms(1-6) obtain eng1 eng2 t eng3 where g:
    "garry_wal_recover eng = Some (eng1, True)" "garry_storage_begin eng1 = (eng2, t)"
    "\<forall>u \<in> set (committed_in rs). u < t"
    "garry_storage_get eng2 t k = Some (eng3,
       Option.bind (read_log t [t] (case foldl (change_log eng) (M k) (key_changes rs k) of
                                      None \<Rightarrow> [] | Some xs \<Rightarrow> xs)) (decompress_value eng))"
    by (rule recover_then_read)
  have "r \<in> set (filter (\<lambda>r. wr_kind r = GARRY_WAL_DELETE) (key_changes rs k))" by (simp add: assms(9))
  then have "wr_txid r < t" using g(3) by (auto simp: key_changes_def)
  moreover have "foldl (change_log eng) (Some xs) (key_changes rs k) = Some (xs @ [(wr_txid r, None)])"
    using assms(8,9) by (rule one_deletion)
  ultimately show ?thesis using g assms(7) by (auto simp: read_log_snoc may_see_def)
qed

theorem recovery_repeats_deletion_witness:
  "\<exists>eng eng1 eng2 t eng3. garry_storage_set True busy_engine 1 [107] [1] = Some (eng, True) \<and>
    garry_wal_recover (crash_engine eng
      [garry_make_delete_record 1 [107], garry_make_commit_record 1,
       logged_update 2 [107] [1], garry_make_commit_record 2]) = Some (eng1, True) \<and>
    garry_storage_begin eng1 = (eng2, t) \<and> garry_storage_get eng2 t [107] = Some (eng3, None)"
proof -
  let ?rs = "[garry_make_delete_record 1 [107], garry_make_commit_record 1,
    logged_update 2 [107] [1], garry_make_commit_record 2]"
  obtain eng xs M where w: "garry_storage_set True busy_engine 1 [107] [1] = Some (eng, True)"
    "M [107] = Some xs" "log_room 4096 xs None" "list_all (replayable (crash_engine eng ?rs)) ?rs \<Longrightarrow>
       recoverable (crash_engine eng ?rs) M ?rs"
    by (rule crash_written) auto
  have rec: "recoverable (crash_engine eng ?rs) M ?rs"
    by (rule w(4)) (simp add: logged_replayable i32_def)
  from recovery_repeats_deletion [OF rec crash_txn_inv, of "[107]" xs "garry_make_delete_record 1 [107]"] w(2,3)
  have "\<exists>eng1 eng2 t eng3. garry_wal_recover (crash_engine eng ?rs) = Some (eng1, True) \<and>
      garry_storage_begin eng1 = (eng2, t) \<and> garry_storage_get eng2 t [107] = Some (eng3, None)"
    by (simp add: committed_in_def key_changes_def logged_update_sel delete_record_sel commit_record_sel)
  with w(1) show ?thesis by blast
qed

end
