(* ===== verification/Garry_Engine.thy ===== *)
theory Garry_Engine
  imports Garry_Recovery
begin

text \<open>
  The life of an engine: \<open>garry_engine_init\<close>, \<open>garry_engine_open\<close> and \<open>garry_engine_close\<close> of
  \<open>src/src/transaction.c\<close>, \<open>src/src/storage_engine.c\<close>, \<open>src/src/gc.c\<close> and
  \<open>src/src/wal_checkpoint.c\<close>.

  What opening the two files gives is an argument: a stream for the log, and for the database file
  its bytes, \<open>garry_disk\<close>, because opening reads the file twice, once in a page of 65536 bytes to find
  the page size and then in pages of that size; \<open>pages_of\<close> gives both views. \<open>mem\<close> is the
  memory the cache is allocated in, \<open>tmp\<close> the page that pruning allocates. A handle that is not
  made is \<open>None\<close>; memory allocation succeeds. Closing returns the two files, which are all that
  remains. Paths are strings, and \<open>PATH_MAX\<close> is that of Linux.

  The lemmas show that a created engine is the empty store, and that closing an engine and opening
  its files again gives an engine with the same version logs, on which the log has been replayed,
  provided the page size is found: it is for a file of at least 65536 bytes, and a shorter file is
  taken for one of pages of 4096 bytes.
\<close>

subsection \<open>transaction.c\<close>

definition GARRY_HEADER_PAGE :: int where "GARRY_HEADER_PAGE = 0"
definition GARRY_FIRST_PAGE_ID :: int where "GARRY_FIRST_PAGE_ID = 2"
definition PATH_MAX :: nat where "PATH_MAX = 4096"

definition side_path :: "string \<Rightarrow> string \<Rightarrow> string" where
  "side_path path ending = take (PATH_MAX - 6) path @ ending"

text \<open>The header page is pinned, written, marked dirty and released, if it can be pinned.\<close>

definition store_header :: "garry_engine_handle \<Rightarrow> garry_engine_handle" where
  "store_header eng =
     (case garry_pool_pin_page (eng_pool eng) GARRY_HEADER_PAGE of
        (pool, None) \<Rightarrow> eng\<lparr>eng_pool := pool\<rparr>
      | (pool, Some idx) \<Rightarrow>
          (let pool = pool_write pool idx (garry_write_db_header (bp_pages pool idx) (eng_header eng));
               pool = garry_pool_mark_dirty pool GARRY_HEADER_PAGE
           in eng\<lparr>eng_pool := garry_pool_release_page pool GARRY_HEADER_PAGE\<rparr>))"

text \<open>A root page that is an empty internal node, as a page of zeros reads, becomes an empty leaf.\<close>

definition init_root :: "garry_engine_handle \<Rightarrow> garry_engine_handle" where
  "init_root eng =
     (let root = eng_btree_root eng
      in case garry_pool_pin_page (eng_pool eng) root of
           (pool, None) \<Rightarrow> eng\<lparr>eng_pool := pool\<rparr>
         | (pool, Some idx) \<Rightarrow>
             (let (pool, root_node) = garry_load_node pool root;
                  pool =
                    (if nd_entry_count root_node = 0 \<and> nd_kind root_node \<noteq> GARRY_NODE_LEAF
                     then garry_pool_mark_dirty
                            (garry_store_node pool root
                               (root_node\<lparr>nd_kind := GARRY_NODE_LEAF,
                                          nd_header := garry_create_header GARRY_NODE_LEAF 0,
                                          nd_entry_count := 0, nd_next_page := -1, nd_prev_page := -1\<rparr>)) root
                     else pool)
              in eng\<lparr>eng_pool := garry_pool_release_page pool root\<rparr>))"

text \<open>\<open>memset\<close> of a handle.\<close>

definition zero_wal :: "garry_stream \<Rightarrow> garry_wal_log" where
  "zero_wal fd = \<lparr>wl_fd = garry_file_close fd, wl_last_lsn = 0\<rparr>"

definition zero_settings :: garry_engine_settings where
  "zero_settings =
     \<lparr>es_page_size = 0, es_compression = 0, es_max_txns = 0, es_max_versions = 0, es_max_key_size = 0,
      es_max_subscripts = 0, es_btree_flags = 0, es_pool_size = 0, es_max_record_size = 0\<rparr>"

definition garry_engine_init ::
  "garry_file \<Rightarrow> (nat \<Rightarrow> buffer) \<Rightarrow> garry_stream \<Rightarrow> string \<Rightarrow> garry_engine_settings \<Rightarrow> garry_engine_handle option" where
  "garry_engine_init fd mem wal_fd path settings =
     (case garry_pool_create fd mem (nat (es_pool_size settings)) (es_page_size settings) of
        None \<Rightarrow> None
      | Some pool \<Rightarrow>
          (let pool = pool\<lparr>bp_next_page := GARRY_FIRST_PAGE_ID, bp_free_list_head := -1\<rparr>
           in case garry_wal_log_init (zero_wal wal_fd) wal_fd (Some (side_path path ''-wal''))
                     (Some (side_path path ''-ckpt'')) of
                (wal, status) \<Rightarrow>
                  if status \<noteq> GARRY_OK then None
                  else
                    (let header = garry_create_db_header settings;
                         eng = \<lparr>eng_page_size = es_page_size settings, eng_compression = es_compression settings,
                                eng_btree_root = dh_root_page header, eng_pool = pool, eng_next_txid = 1,
                                eng_max_txns = es_max_txns settings, eng_active_txns = [], eng_txn_states = [],
                                eng_wal = wal, eng_lock_mgr = garry_create_lock_manager,
                                eng_settings = settings, eng_header = header, eng_key_count = 0\<rparr>;
                         eng = store_header eng;
                         eng = init_root eng;
                         eng = eng\<lparr>eng_header := (eng_header eng)
                                 \<lparr>dh_free_list_head := bp_free_list_head (eng_pool eng),
                                  dh_total_pages := bp_next_page (eng_pool eng)\<rparr>\<rparr>;
                         eng = store_header eng
                     in Some (eng\<lparr>eng_pool := garry_pool_flush_all (eng_pool eng)\<rparr>))))"

text \<open>The bytes of a database file, and how they look in pages of a size: a page that does not lie
  in the file reads as zeros, as the short-read branch of \<open>garry_file_read_page\<close> makes it.\<close>

record garry_disk =
  dk_is_open :: bool
  dk_bytes :: "byte list"
  dk_wok :: "int \<Rightarrow> bool"

definition pages_of :: "garry_disk \<Rightarrow> int \<Rightarrow> garry_file" where
  "pages_of disk page_size =
     \<lparr>f_is_open = dk_is_open disk,
      f_pages = (\<lambda>page_num.
        if 0 \<le> page_num \<and> (page_num + 1) * page_size \<le> int (length (dk_bytes disk))
        then (\<lambda>i. dk_bytes disk ! nat (page_num * page_size + i)) else (\<lambda>_. 0)),
      f_wok = dk_wok disk\<rparr>"

text \<open>The page size in the header, which is read with a read of \<open>GARRY_MAX_PAGE_SIZE\<close> bytes.\<close>

definition open_page_size :: "garry_disk \<Rightarrow> int" where
  "open_page_size disk =
     (let hdr_raw = garry_file_read_page (pages_of disk 65536) 0 (\<lambda>_. 0) 65536;
          page_size = dh_page_size (garry_read_db_header hdr_raw)
      in if page_size < 512 \<or> page_size > 65536 then 4096 else page_size)"

definition garry_engine_open ::
  "garry_disk \<Rightarrow> (nat \<Rightarrow> buffer) \<Rightarrow> garry_stream \<Rightarrow> string \<Rightarrow> garry_engine_handle option option" where
  "garry_engine_open disk mem wal_fd path =
     (if \<not> dk_is_open disk then Some None
      else
        (let page_size = open_page_size disk
         in case garry_pool_create (pages_of disk page_size) mem (nat (es_pool_size garry_default_engine_settings)) page_size of
              None \<Rightarrow> Some None
            | Some pool \<Rightarrow>
                (let pool = pool\<lparr>bp_next_page := GARRY_FIRST_PAGE_ID, bp_free_list_head := -1\<rparr>
                 in case garry_pool_pin_page pool GARRY_HEADER_PAGE of
                      (pool, None) \<Rightarrow> Some None
                    | (pool, Some idx) \<Rightarrow>
                        (let header = garry_read_db_header (bp_pages pool idx);
                             pool = pool\<lparr>bp_free_list_head := dh_free_list_head header,
                                         bp_next_page := dh_total_pages header\<rparr>;
                             pool = garry_pool_release_page pool GARRY_HEADER_PAGE
                         in case garry_wal_log_init (zero_wal wal_fd) wal_fd (Some (side_path path ''-wal''))
                                   (Some (side_path path ''-ckpt'')) of
                              (wal, status) \<Rightarrow>
                                if status \<noteq> GARRY_OK then Some None
                                else
                                  (case garry_wal_recover
                                     \<lparr>eng_page_size = dh_page_size header, eng_compression = dh_compression header,
                                      eng_btree_root = dh_root_page header, eng_pool = pool,
                                      eng_next_txid = dh_next_txid header, eng_max_txns = dh_max_txns header,
                                      eng_active_txns = [], eng_txn_states = [], eng_wal = wal,
                                      eng_lock_mgr = garry_create_lock_manager,
                                      eng_settings = zero_settings
                                        \<lparr>es_page_size := dh_page_size header,
                                         es_compression := dh_compression header,
                                         es_max_txns := dh_max_txns header,
                                         es_max_versions := dh_max_versions header,
                                         es_max_key_size := dh_max_key_size header,
                                         es_max_subscripts := dh_max_subscripts header,
                                         es_btree_flags := dh_btree_flags header\<rparr>,
                                      eng_header = header, eng_key_count = 0\<rparr> of
                                     None \<Rightarrow> None
                                   | Some (eng, ok) \<Rightarrow> Some (if ok then Some eng else None))))))"

definition garry_engine_close :: "garry_engine_handle \<Rightarrow> garry_file \<times> garry_stream" where
  "garry_engine_close eng =
     (let eng = eng\<lparr>eng_header := (eng_header eng)
                  \<lparr>dh_free_list_head := bp_free_list_head (eng_pool eng),
                   dh_total_pages := bp_next_page (eng_pool eng),
                   dh_next_txid := eng_next_txid eng\<rparr>\<rparr>;
          eng = store_header eng;
          pool = garry_pool_flush_all (eng_pool eng);
          wal = garry_wal_log_close (eng_wal eng)
      in (garry_pool_close pool, wl_fd wal))"

subsection \<open>storage\_engine.c\<close>

definition garry_storage_init ::
  "garry_file \<Rightarrow> (nat \<Rightarrow> buffer) \<Rightarrow> garry_stream \<Rightarrow> string option \<Rightarrow> garry_engine_settings \<Rightarrow>
   garry_engine_handle option" where
  "garry_storage_init fd mem wal_fd path settings =
     (case path of None \<Rightarrow> None | Some path \<Rightarrow> garry_engine_init fd mem wal_fd path settings)"

definition garry_storage_open ::
  "garry_disk \<Rightarrow> (nat \<Rightarrow> buffer) \<Rightarrow> garry_stream \<Rightarrow> string option \<Rightarrow> garry_engine_handle option option" where
  "garry_storage_open disk mem wal_fd path =
     (case path of None \<Rightarrow> Some None | Some path \<Rightarrow> garry_engine_open disk mem wal_fd path)"

definition garry_storage_close :: "garry_engine_handle \<Rightarrow> garry_file \<times> garry_stream" where
  "garry_storage_close eng =
     (let eng = eng\<lparr>eng_header := (eng_header eng)
                  \<lparr>dh_root_page := eng_btree_root eng,
                   dh_total_pages := bp_next_page (eng_pool eng),
                   dh_next_txid := eng_next_txid eng\<rparr>\<rparr>;
          eng = store_header eng;
          eng = eng\<lparr>eng_wal := garry_wal_log_flush (eng_wal eng)\<rparr>
      in garry_engine_close eng)"

subsection \<open>gc.c\<close>

definition GARRY_CHAIN_MAX_ACTIVE :: nat where "GARRY_CHAIN_MAX_ACTIVE = 4"

text \<open>The pages that are in the cache and are chain pages are pruned. The result is \<open>None\<close> where
  pruning or the snapshot runs over its array, or an overflow chain does not end.\<close>

fun gc_pages :: "buffer \<Rightarrow> int list \<Rightarrow> garry_engine_handle \<Rightarrow> int list \<Rightarrow> garry_engine_handle option" where
  "gc_pages tmp snapshot eng [] = Some eng"
| "gc_pages tmp snapshot eng (pid # pids) =
     (case garry_pool_try_pin (eng_pool eng) pid of
        (pool, None) \<Rightarrow> gc_pages tmp snapshot (eng\<lparr>eng_pool := pool\<rparr>) pids
      | (pool, Some idx) \<Rightarrow>
          (if garry_read_int32 (bp_pages pool idx) 0 = node_kind_ord GARRY_NODE_CHAIN
           then (case garry_chain_page_prune pool (bp_pages pool idx) (eng_page_size eng) snapshot tmp of
                   None \<Rightarrow> None
                 | Some (pool, buf) \<Rightarrow>
                     (let pool = garry_pool_mark_dirty (pool_write pool idx buf) pid
                      in gc_pages tmp snapshot (eng\<lparr>eng_pool := garry_pool_release_page pool pid\<rparr>) pids))
           else gc_pages tmp snapshot (eng\<lparr>eng_pool := garry_pool_release_page pool pid\<rparr>) pids))"

definition garry_mvcc_gc :: "buffer \<Rightarrow> garry_engine_handle \<Rightarrow> garry_engine_handle option" where
  "garry_mvcc_gc tmp eng =
     (let snapshot = eng_active_txns eng
      in if length snapshot > GARRY_CHAIN_MAX_ACTIVE then None
         else gc_pages tmp snapshot eng [1..dh_total_pages (eng_header eng) - 1])"

subsection \<open>wal\_checkpoint.c\<close>

text \<open>The result has the sequence number, or nothing when the log is not open. Truncating does not
  move the position in the file.\<close>

definition garry_wal_checkpoint :: "buffer \<Rightarrow> garry_engine_handle \<Rightarrow> (garry_engine_handle \<times> int option) option" where
  "garry_wal_checkpoint tmp eng =
     (if \<not> st_is_open (wl_fd (eng_wal eng)) then Some (eng, None)
      else
        (let checkpoint_lsn = wl_last_lsn (eng_wal eng)
         in case garry_mvcc_gc tmp eng of
              None \<Rightarrow> None
            | Some eng \<Rightarrow>
                (let eng = eng\<lparr>eng_pool := garry_pool_flush_all (eng_pool eng)\<rparr>;
                     wal = garry_wal_log_flush (eng_wal eng);
                     wal = wal\<lparr>wl_fd := garry_file_truncate (wl_fd wal) 0, wl_last_lsn := 0\<rparr>
                 in Some (eng\<lparr>eng_wal := wal\<rparr>, Some checkpoint_lsn))))"

subsection \<open>The header page\<close>

lemma store_header_eq:
  "store_header eng =
     eng\<lparr>eng_pool := fst (page_update (eng_pool eng) 0 (\<lambda>b. garry_write_db_header b (eng_header eng)))\<rparr>"
  by (simp add: store_header_def page_update_def GARRY_HEADER_PAGE_def Let_def split: prod.split option.split)

lemma agree_write_header:
  assumes "agree 0 ps b b'" "52 \<le> ps"
  shows "agree 0 ps (garry_write_db_header b hdr) (garry_write_db_header b' hdr)"
proof -
  let ?bs = "concat (map le32_bytes (header_fields hdr))"
  have w: "garry_write_db_header c hdr =
      garry_write_int32 (put_bytes c 0 ?bs) 52 (garry_compute_header_checksum (put_bytes c 0 ?bs))" for c
    by (simp add: garry_write_db_header_def header_fields_def garry_write_int32_def Let_def put_bytes_append
        write_le32_put_bytes)
  have a: "agree 0 ps (put_bytes b 0 ?bs) (put_bytes b' 0 ?bs)" by (rule agree_put_bytes [OF assms(1)])
  then have "garry_compute_header_checksum (put_bytes b 0 ?bs) = garry_compute_header_checksum (put_bytes b' 0 ?bs)"
    using assms(2) by (intro checksum_cong agreeD [OF a]) auto
  then show ?thesis using agree_write_le32 [OF a] by (simp add: w garry_write_int32_def)
qed

lemma agree_read_header:
  assumes "agree 0 ps b b'" "56 \<le> ps"
  shows "garry_read_db_header b = garry_read_db_header b'"
proof -
  have "garry_compute_header_checksum b = garry_compute_header_checksum b'"
    by (rule checksum_cong) (use assms in \<open>auto simp: agree_def\<close>)
  moreover have "garry_read_int32 b off = garry_read_int32 b' off" if "0 \<le> off" "off \<le> 52" for off
    unfolding garry_read_int32_def by (rule agree_read_le32 [OF assms(1)]) (use that assms(2) in simp_all)
  ultimately show ?thesis by (simp add: garry_read_db_header_def)
qed

text \<open>The header page holds these fields.\<close>

definition header_on :: "garry_buffer_pool \<Rightarrow> garry_db_header \<Rightarrow> bool" where
  "header_on pool hdr \<longleftrightarrow> (\<exists>cs. garry_read_db_header (page_view pool 0) = hdr\<lparr>dh_checksum := cs\<rparr>)"

lemma store_header_tree:
  assumes "tree_pool (n + 2) m (eng_pool eng)" "0 < bp_next_page (eng_pool eng)"
  obtains pool where "store_header eng = eng\<lparr>eng_pool := pool\<rparr>" "tree_pool n m pool"
    "page_frame {0} (eng_pool eng) pool" "bp_next_page pool = bp_next_page (eng_pool eng)"
    "list_all i32 (header_fields (eng_header eng)) \<Longrightarrow> header_on pool (eng_header eng)"
proof -
  let ?f = "\<lambda>b. garry_write_db_header b (eng_header eng)"
  note d = tree_poolD [OF assms(1)]
  have cong: "agree 0 (bp_page_size (eng_pool eng)) (?f b) (?f b')"
    if "agree 0 (bp_page_size (eng_pool eng)) b b'" for b b'
    by (rule agree_write_header [OF that]) (use d(3) in simp)
  from page_update_idle [OF d(1) order_refl assms(2), where f = ?f, OF cong] obtain pool where p:
    "page_update (eng_pool eng) 0 ?f = (pool, True)" "pool_idle n pool"
    "bp_page_size pool = bp_page_size (eng_pool eng)" "bp_next_page pool = bp_next_page (eng_pool eng)"
    "bp_free_list_head pool = bp_free_list_head (eng_pool eng)"
    "\<And>q. agree 0 (bp_page_size (eng_pool eng))
       (if q = 0 then ?f (page_view (eng_pool eng) 0) else page_view (eng_pool eng) q) (page_view pool q)"
    by blast
  show ?thesis
  proof (rule that)
    show "store_header eng = eng\<lparr>eng_pool := pool\<rparr>" by (simp add: store_header_eq p(1))
    show "tree_pool n m pool" using p(2-5) d by (simp add: tree_pool_def)
    have "agree 0 (bp_page_size (eng_pool eng)) (page_view (eng_pool eng) q) (page_view pool q)" if "q \<noteq> 0" for q
      using p(6) [of q] that by simp
    then show "page_frame {0} (eng_pool eng) pool" using p(3-5) by (simp add: page_frame_def)
    assume "list_all i32 (header_fields (eng_header eng))"
    then show "header_on pool (eng_header eng)"
      using agree_read_header [OF p(6) [of 0]] d(3)
      by (simp add: header_on_def read_write_db_header) (blast dest: sym)
  qed (rule p(4))
qed

subsection \<open>A new page cache\<close>

definition fresh_cache :: "garry_buffer_pool \<Rightarrow> bool" where
  "fresh_cache pool \<longleftrightarrow> 0 < bp_capacity pool \<and> (\<forall>i. \<not> bp_loaded pool i \<and> \<not> bp_dirty pool i \<and> bp_pin_counts pool i = 0)"

lemma created_cache:
  assumes "garry_pool_create fd mem cap ps = Some pool"
  shows "fresh_cache (pool\<lparr>bp_next_page := n, bp_free_list_head := f\<rparr>)"
  using assms by (auto simp: garry_pool_create_def fresh_cache_def split: if_splits)

lemma create_Some:
  "0 < cap \<Longrightarrow> cap \<le> 256 \<Longrightarrow> 512 \<le> ps \<Longrightarrow> ps \<le> 65536 \<Longrightarrow> \<exists>pool. garry_pool_create fd mem cap ps = Some pool"
  by (simp add: garry_pool_create_def)

text \<open>A new cache on a file whose pages from \<open>n\<close> on were never written.\<close>

lemma new_cache:
  assumes "garry_pool_create fd mem cap ps = Some pool" "2048 \<le> ps" "0 \<le> n" "f = -1"
    and "\<And>q. f_wok fd q" "\<And>q. n \<le> q \<Longrightarrow> agree 0 ps (f_pages fd q) (\<lambda>_. 0)"
    and "N < 2 ^ 31" "n + int m \<le> 2 ^ 31 - GARRY_PAGE_ID_BIAS"
  shows "tree_pool N m (pool\<lparr>bp_next_page := n, bp_free_list_head := f\<rparr>)"
    "page_view (pool\<lparr>bp_next_page := n, bp_free_list_head := f\<rparr>) = f_pages fd"
proof -
  have e: "pool = \<lparr>bp_capacity = cap, bp_page_size = ps, bp_pages = mem, bp_page_ids = (\<lambda>_. 0),
      bp_pin_counts = (\<lambda>_. 0), bp_dirty = (\<lambda>_. False), bp_loaded = (\<lambda>_. False), bp_last_access = (\<lambda>_. 0),
      bp_fd = fd, bp_next_page = 0, bp_free_list_head = -1, bp_access_counter = 0\<rparr>"
    "1 \<le> cap" "cap \<le> 256" "ps \<le> 65536"
    using assms(1) by (auto simp: garry_pool_create_def split: if_splits)
  show "tree_pool N m (pool\<lparr>bp_next_page := n, bp_free_list_head := f\<rparr>)"
    using assms(2-8) e(2-4)
    by (simp add: e(1) tree_pool_def pool_idle_def pool_ready_def pool_inv_def inj_on_def)
  have "find_slot (pool\<lparr>bp_next_page := n, bp_free_list_head := f\<rparr>) q = None" for q
    by (simp add: find_slot_None_iff e(1))
  then show "page_view (pool\<lparr>bp_next_page := n, bp_free_list_head := f\<rparr>) = f_pages fd"
    by (simp add: page_view_def fun_eq_iff e(1))
qed

text \<open>The first pin of a new cache does not look at the allocator.\<close>

lemma first_pin:
  assumes "fresh_cache pool" "0 \<le> pid"
  shows "garry_pool_pin_page pool pid =
    (touch_pin (claim_slot pool 0 pid
       (garry_file_read_page (bp_fd pool) pid (zero_page pool 0) (bp_page_size pool))) 0, Some 0)"
proof -
  have n: "\<not> bp_loaded pool i" for i using assms(1) by (simp add: fresh_cache_def)
  have c: "[0..<bp_capacity pool] = 0 # [1..<bp_capacity pool]"
    using assms(1) upt_conv_Cons [of 0 "bp_capacity pool"] by (simp add: fresh_cache_def)
  have "find_slot pool pid = None" by (simp add: find_slot_None_iff n)
  moreover have "find_eviction_candidate pool = Some 0" by (simp add: find_eviction_candidate_def c n)
  ultimately show ?thesis using assms(2) by (simp add: garry_pool_pin_page_def ensure_loaded_def n)
qed

lemma first_pin_allocator:
  assumes "fresh_cache pool" "0 \<le> pid" "garry_pool_pin_page pool pid = (p, Some i)"
  shows "garry_pool_pin_page (pool\<lparr>bp_next_page := n, bp_free_list_head := f\<rparr>) pid =
    (p\<lparr>bp_next_page := n, bp_free_list_head := f\<rparr>, Some i)"
proof -
  have "fresh_cache (pool\<lparr>bp_next_page := n, bp_free_list_head := f\<rparr>)" using assms(1) by (simp add: fresh_cache_def)
  from first_pin [OF this assms(2)] first_pin [OF assms(1,2)] assms(3) show ?thesis
    by (cases pool) (auto simp: touch_pin_def claim_slot_def zero_page_def Let_def cong: if_cong)
qed

subsection \<open>The root of a new database\<close>

lemma hit_pin:
  "find_slot pool pid = Some i \<Longrightarrow> 0 \<le> pid \<Longrightarrow> garry_pool_pin_page pool pid = (touch_pin pool i, Some i)"
  by (simp add: garry_pool_pin_page_def ensure_loaded_def)

lemma touch_ready:
  assumes "pool_ready (Suc n) pool" "find_slot pool pid = Some i"
  shows "pool_ready n (touch_pin pool i)"
proof -
  let ?ac = "bp_access_counter pool"
  have r: "pool_inv pool" "uint ?ac + int (Suc n) < 2 ^ 32 - 1" "\<And>j. j < bp_capacity pool \<Longrightarrow> bp_last_access pool j \<le> ?ac"
    using assms(1) by (auto simp: pool_ready_def)
  have "uint (?ac + 1) = uint ?ac + uint (1 :: 32 word)" by (rule stamp_step [OF r(2)]) simp
  then have u: "uint (?ac + 1) = uint ?ac + 1" by simp
  have "pool_inv (touch_pin pool i)" by (rule touch_pin_inv [OF r(1)]) (use find_slot_SomeD [OF assms(2)] in simp)
  moreover have "bp_last_access pool j \<le> ?ac + 1" if "j < bp_capacity pool" for j
    using r(3) [OF that] u by (simp add: word_le_def)
  ultimately show ?thesis using assms(1) r(2) u by (simp add: pool_ready_def)
qed

text \<open>A page that its only holder pins once more and releases.\<close>

definition held :: "nat \<Rightarrow> nat \<Rightarrow> int \<Rightarrow> garry_buffer_pool \<Rightarrow> bool" where
  "held n i pid pool \<longleftrightarrow> pool_ready n pool \<and> find_slot pool pid = Some i \<and>
     (\<forall>j < bp_capacity pool. bp_pin_counts pool j = (if j = i then 1 else 0))"

lemma held_touch_release:
  assumes "held (Suc n) i pid pool" "0 \<le> pid"
  shows "held n i pid (garry_pool_release_page (touch_pin pool i) pid)"
proof -
  have h: "pool_ready (Suc n) pool" "find_slot pool pid = Some i"
    "\<And>j. j < bp_capacity pool \<Longrightarrow> bp_pin_counts pool j = (if j = i then 1 else 0)"
    using assms(1) by (auto simp: held_def)
  note t = touch_ready [OF h(1,2)]
  have "pool_ready n (garry_pool_release_page (touch_pin pool i) pid)"
    by (rule ready_change [OF t]) (simp_all add: release_page_inv pool_ready_inv [OF t])
  then show ?thesis using h assms(2) by (simp add: held_def release_page_pins)
qed

lemma held_touch_store:
  assumes "held (Suc n) i pid pool" "0 \<le> pid"
  shows "held n i pid
    (garry_pool_release_page (garry_pool_mark_dirty (pool_write (touch_pin pool i) i page) pid) pid)"
proof -
  have h: "pool_ready (Suc n) pool" "find_slot pool pid = Some i"
    "\<And>j. j < bp_capacity pool \<Longrightarrow> bp_pin_counts pool j = (if j = i then 1 else 0)"
    using assms(1) by (auto simp: held_def)
  note t = touch_ready [OF h(1,2)]
  have "pool_ready n (garry_pool_release_page (garry_pool_mark_dirty (pool_write (touch_pin pool i) i page) pid) pid)"
    by (rule ready_change [OF t])
      (use h(2) in \<open>simp_all add: release_page_inv write_dirty_inv [OF pool_ready_inv [OF t] _ assms(2)]\<close>)
  then show ?thesis using h assms(2) by (simp add: held_def release_page_pins)
qed

lemma held_release: "held n i pid pool \<Longrightarrow> 0 \<le> pid \<Longrightarrow> pool_idle n (garry_pool_release_page pool pid)"
  by (rule release_idle) (auto simp: held_def)

lemma read_zero_page:
  assumes "agree 0 ps b (\<lambda>_. 0)" "512 \<le> ps"
  shows "read_node b ps = fresh_node GARRY_NODE_INTERNAL"
proof -
  have z: "garry_read_int32 b off = 0" if "0 \<le> off" "off \<le> 52" for off
    using agree_int32 [OF assms(1), of off] that assms(2)
    by (simp add: garry_read_int32_def garry_read_le32_def)
  have "kind_of_page 0 = GARRY_NODE_INTERNAL" by (simp add: kind_of_page_def)
  then show ?thesis
    by (simp add: read_node_def garry_page_record_count_def z fresh_node_def zero_header_def Let_def)
qed

lemma init_root_tree:
  assumes tp: "tree_pool (n + 4) m (eng_pool eng)"
    and root: "0 \<le> eng_btree_root eng" "eng_btree_root eng < bp_next_page (eng_pool eng)"
    and zero: "agree 0 (bp_page_size (eng_pool eng)) (page_view (eng_pool eng) (eng_btree_root eng)) (\<lambda>_. 0)"
  obtains pool where "init_root eng = eng\<lparr>eng_pool := pool\<rparr>" "tree_pool n m pool"
    "page_frame {eng_btree_root eng} (eng_pool eng) pool" "bp_next_page pool = bp_next_page (eng_pool eng)"
    "btree_on 0 pool (eng_btree_root eng) [] {eng_btree_root eng}"
proof -
  let ?pool = "eng_pool eng" and ?r = "eng_btree_root eng" and ?ps = "bp_page_size (eng_pool eng)"
  note d = tree_poolD [OF tp]
  have "pool_idle (Suc (Suc n) + 2) ?pool" using d(1) by (rule pool_idle_mono) simp
  from this root obtain p i where p: "garry_pool_pin_page ?pool ?r = (p, Some i)" "pool_ready (Suc (Suc n)) p"
    "same_view ?pool p" "find_slot p ?r = Some i" "bp_capacity p = bp_capacity ?pool"
    "agree 0 ?ps (page_view ?pool ?r) (bp_pages p i)"
    "\<And>j. j < bp_capacity ?pool \<Longrightarrow> bp_pin_counts p j = (if j = i then 1 else 0)"
    by (rule idle_pin_cases) blast
  have s: "bp_page_size p = ?ps" "bp_next_page p = bp_next_page ?pool"
    "bp_free_list_head p = bp_free_list_head ?pool" using p(3) by (simp_all add: same_view_def)
  have h: "held (Suc (Suc n)) i ?r p" using p(2,4,5,7) by (simp add: held_def)
  let ?p2 = "garry_pool_release_page (touch_pin p i) ?r"
  let ?nd = "(fresh_node GARRY_NODE_INTERNAL)\<lparr>nd_kind := GARRY_NODE_LEAF,
    nd_header := garry_create_header GARRY_NODE_LEAF 0, nd_entry_count := 0, nd_next_page := -1, nd_prev_page := -1\<rparr>"
  have h2: "held (Suc n) i ?r ?p2" by (rule held_touch_release [OF h root(1)])
  have "agree 0 ?ps (bp_pages p i) (\<lambda>_. 0)" by (rule agree_trans [OF agree_sym [OF p(6)] zero])
  then have "read_node (bp_pages p i) ?ps = fresh_node GARRY_NODE_INTERNAL" by (rule read_zero_page) (use d(3) in simp)
  then have load: "garry_load_node p ?r = (?p2, fresh_node GARRY_NODE_INTERNAL)"
    by (simp add: load_node_look page_look_def hit_pin [OF p(4) root(1)] s(1))
  have nd: "node_ok ?nd"
    by (simp add: node_ok_def node_consts id_ok_def num_children_def garry_create_header_def)
  have inv: "pool_inv ?pool" by (rule pool_idle_inv [OF d(1)])
  obtain page where w: "write_node ?nd ?ps (bp_pages p i) = (page, True)" "page_of_node page ?ps ?nd"
    by (rule write_node_fits [OF nd _ pool_invD(3) [OF inv] node_fits_2048 [OF nd d(3)]]) (use d(3) in simp)
  let ?p3 = "garry_pool_release_page (garry_pool_mark_dirty (pool_write (touch_pin ?p2 i) i page) ?r) ?r"
  have f2: "find_slot ?p2 ?r = Some i" using h2 by (simp add: held_def)
  have store: "garry_store_node ?p2 ?r ?nd = ?p3"
    unfolding garry_store_node_def hit_pin [OF f2 root(1)] by (simp add: s(1) w(1))
  have h3: "held n i ?r ?p3" by (rule held_touch_store [OF h2 root(1)])
  let ?p4 = "garry_pool_release_page (garry_pool_mark_dirty ?p3 ?r) ?r"
  have h4: "held n i ?r (garry_pool_mark_dirty ?p3 ?r)"
  proof -
    have r: "pool_ready n ?p3" using h3 by (simp add: held_def)
    have "pool_ready n (garry_pool_mark_dirty ?p3 ?r)"
      by (rule ready_change [OF r]) (simp_all add: mark_dirty_inv pool_ready_inv [OF r])
    then show ?thesis using h3 by (simp add: held_def)
  qed
  have f2': "find_slot (touch_pin ?p2 i) ?r = Some i" using f2 by simp
  have tv: "page_view (touch_pin q j) = page_view q" for q j by (rule page_view_cong) simp_all
  define q where "q = ?p4"
  have q: "page_view q = (page_view p)(?r := page)" "bp_page_size q = ?ps" "bp_next_page q = bp_next_page ?pool"
    "bp_free_list_head q = bp_free_list_head ?pool" "pool_idle n q"
    using held_release [OF h4 root(1)]
    by (simp_all add: q_def pool_write_view [OF f2'] tv s del: touch_pin_sel(13))
  show ?thesis
  proof (rule that)
    have "nd_entry_count (fresh_node GARRY_NODE_INTERNAL) = 0" "nd_kind (fresh_node GARRY_NODE_INTERNAL) = GARRY_NODE_INTERNAL"
      by (simp_all add: fresh_node_def blank_node_def)
    then show "init_root eng = eng\<lparr>eng_pool := q\<rparr>"
      unfolding init_root_def Let_def p(1) using load by (simp add: store q_def)
    show "tree_pool n m q" using q(2-5) d by (simp add: tree_pool_def)
    show "bp_next_page q = bp_next_page ?pool" by (rule q(3))
    show "page_frame {?r} ?pool q" using p(3) q by (simp add: page_frame_def same_view_def)
    have "node_at q ?r ?nd" using root nd w(2) q by (simp add: node_at_def)
    from node_at_leaf [OF this] have "leaf_at q ?r [] (-1)" by (simp add: node_entries_def)
    then show "btree_on 0 q ?r [] {?r}"
      unfolding btree_on_def by (intro exI [of _ "Lf ?r []"]) (simp add: keys_sorted_def)
  qed
qed

subsection \<open>Flushing\<close>

lemma flush_slots_rest:
  "bp_last_access (flush_slots pool is) = bp_last_access pool \<and>
   bp_access_counter (flush_slots pool is) = bp_access_counter pool \<and>
   f_wok (bp_fd (flush_slots pool is)) = f_wok (bp_fd pool)"
  by (induction "is" arbitrary: pool) (simp_all add: garry_file_write_page_def split: prod.split)

lemma flush_all_tree:
  assumes "tree_pool n m pool"
  shows "tree_pool n m (garry_pool_flush_all pool)" "page_frame {} pool (garry_pool_flush_all pool)"
    "bp_next_page (garry_pool_flush_all pool) = bp_next_page pool"
    "agree 0 (bp_page_size pool) (f_pages (bp_fd (garry_pool_flush_all pool)) q) (page_view pool q)"
    "f_wok (bp_fd (garry_pool_flush_all pool)) = f_wok (bp_fd pool)"
proof -
  note d = tree_poolD [OF assms]
  have inv: "pool_inv pool" by (rule pool_idle_inv [OF d(1)])
  note s = flush_all_spec [OF inv]
  have r: "bp_last_access (garry_pool_flush_all pool) = bp_last_access pool"
    "bp_access_counter (garry_pool_flush_all pool) = bp_access_counter pool"
    "f_wok (bp_fd (garry_pool_flush_all pool)) = f_wok (bp_fd pool)"
    using flush_slots_rest [of pool "[0..<bp_capacity pool]"] by (simp_all add: garry_pool_flush_all_def)
  then show "f_wok (bp_fd (garry_pool_flush_all pool)) = f_wok (bp_fd pool)" by blast
  show "tree_pool n m (garry_pool_flush_all pool)"
    using assms s r by (simp add: tree_pool_def pool_idle_def pool_ready_def)
  show "page_frame {} pool (garry_pool_flush_all pool)" using s by (simp add: page_frame_def)
  show "bp_next_page (garry_pool_flush_all pool) = bp_next_page pool" using s by blast
  show "agree 0 (bp_page_size pool) (f_pages (bp_fd (garry_pool_flush_all pool)) q) (page_view pool q)"
    by (rule flush_all_durable [OF inv]) (use d(1) in \<open>simp add: pool_idle_def pool_ready_def\<close>)
qed

text \<open>After a flush closing writes nothing more.\<close>

lemma close_slots_clean:
  "\<forall>i \<in> set is. \<not> bp_dirty pool i \<Longrightarrow> close_slots pool is = pool"
  by (induction "is") simp_all

lemma close_flushed:
  assumes "tree_pool n m pool"
  shows "garry_pool_close (garry_pool_flush_all pool) = (bp_fd (garry_pool_flush_all pool))\<lparr>f_is_open := False\<rparr>"
proof -
  note d = tree_poolD [OF assms]
  have "\<forall>p. f_wok (bp_fd pool) p" using d(1) by (simp add: pool_idle_def pool_ready_def)
  then have "\<forall>i \<in> set [0..<bp_capacity (garry_pool_flush_all pool)]. \<not> bp_dirty (garry_pool_flush_all pool) i"
    using flush_all_spec [OF pool_idle_inv [OF d(1)]] by simp
  then show ?thesis unfolding garry_pool_close_def by (simp add: close_slots_clean)
qed

subsection \<open>Creating a database\<close>

text \<open>Settings the engine is made for, and a new file on a device that takes every write.\<close>

definition settings_ok :: "garry_engine_settings \<Rightarrow> bool" where
  "settings_ok settings \<longleftrightarrow>
     0 < es_pool_size settings \<and> es_pool_size settings \<le> 256 \<and>
     2048 \<le> es_page_size settings \<and> es_page_size settings \<le> 65536 \<and> es_page_size settings smod 512 = 0 \<and>
     0 < es_max_txns settings \<and>
     list_all i32 [es_compression settings, es_max_txns settings, es_max_versions settings,
       es_max_key_size settings, es_max_subscripts settings]"

definition new_file :: "garry_file \<Rightarrow> bool" where
  "new_file fd \<longleftrightarrow> (\<forall>q. f_wok fd q) \<and> (\<forall>q i. f_pages fd q i = 0)"

text \<open>The header agrees with the handle, and its fields are 32-bit integers.\<close>

definition header_matches :: "garry_engine_handle \<Rightarrow> bool" where
  "header_matches eng \<longleftrightarrow>
     list_all i32 (header_fields (eng_header eng)) \<and> dh_page_size (eng_header eng) = eng_page_size eng \<and>
     dh_compression (eng_header eng) = eng_compression eng \<and> dh_max_txns (eng_header eng) = eng_max_txns eng"

lemma engine_init_spec:
  assumes st: "settings_ok settings" and fd: "new_file fd" and wal: "st_is_open wal_fd"
    and res: "n < 2 ^ 30" "m < 2 ^ 30"
  obtains eng where "garry_engine_init fd mem wal_fd path settings = Some eng" "kv_on 0 eng [] {1}"
    "tree_pool n m (eng_pool eng)" "txn_inv eng" "eng_active_txns eng = []" "eng_next_txid eng = 1"
    "eng_max_txns eng = es_max_txns settings" "eng_compression eng = es_compression settings"
    "eng_wal eng = \<lparr>wl_fd = wal_fd, wl_last_lsn = 0\<rparr>" "eng_lock_mgr eng = garry_create_lock_manager"
    "header_matches eng" "eng_page_size eng = es_page_size settings"
    "header_on (eng_pool eng) (eng_header eng)" "dh_root_page (eng_header eng) = 1"
    "\<And>q. agree 0 (eng_page_size eng) (f_pages (bp_fd (eng_pool eng)) q) (page_view (eng_pool eng) q)"
proof -
  let ?ps = "es_page_size settings"
  have s: "0 < es_pool_size settings" "es_pool_size settings \<le> 256" "2048 \<le> ?ps" "?ps \<le> 65536" "?ps smod 512 = 0"
    "0 < es_max_txns settings" "i32 (es_compression settings)" "i32 (es_max_txns settings)"
    "i32 (es_max_versions settings)" "i32 (es_max_key_size settings)" "i32 (es_max_subscripts settings)"
    using st by (simp_all add: settings_ok_def)
  obtain pool0 where c: "garry_pool_create fd mem (nat (es_pool_size settings)) ?ps = Some pool0"
    using create_Some [of "nat (es_pool_size settings)" ?ps fd mem] s(1-4) by (auto simp: nat_le_iff)
  define pool where "pool = pool0\<lparr>bp_next_page := GARRY_FIRST_PAGE_ID, bp_free_list_head := -1\<rparr>"
  have nc: "tree_pool (n + 8) m pool" "page_view pool = f_pages fd"
    unfolding pool_def
    using new_cache [OF c s(3), of GARRY_FIRST_PAGE_ID "-1" "n + 8" m] fd res
    by (simp_all add: new_file_def GARRY_FIRST_PAGE_ID_def node_consts agree_def)
  have pn: "bp_next_page pool = 2" "bp_page_size pool = ?ps" "bp_free_list_head pool = -1"
    using c by (auto simp: pool_def GARRY_FIRST_PAGE_ID_def garry_pool_create_def split: if_splits)
  have wl: "garry_wal_log_init (zero_wal wal_fd) wal_fd (Some (side_path path ''-wal''))
      (Some (side_path path ''-ckpt'')) = (\<lparr>wl_fd = wal_fd, wl_last_lsn = 0\<rparr>, GARRY_OK)"
    using wal by (simp add: garry_wal_log_init_def zero_wal_def)
  define header where "header = garry_create_db_header settings"
  have hd: "list_all i32 (header_fields header)" "dh_root_page header = 1" "dh_page_size header = ?ps"
    "dh_compression header = es_compression settings" "dh_max_txns header = es_max_txns settings"
    using s by (simp_all add: header_def garry_create_db_header_def header_fields_def GARRY_DB_MAGIC_def
        GARRY_DB_VERSION_def i32_def)
  define e0 where "e0 = \<lparr>eng_page_size = ?ps, eng_compression = es_compression settings,
    eng_btree_root = dh_root_page header, eng_pool = pool, eng_next_txid = 1,
    eng_max_txns = es_max_txns settings, eng_active_txns = [], eng_txn_states = [],
    eng_wal = \<lparr>wl_fd = wal_fd, wl_last_lsn = 0\<rparr>, eng_lock_mgr = garry_create_lock_manager,
    eng_settings = settings, eng_header = header, eng_key_count = 0\<rparr>"
  have "tree_pool (n + 6 + 2) m (eng_pool e0)" using nc(1) by (simp add: e0_def add.commute)
  from store_header_tree [OF this] pn(1) obtain p1 where p1: "store_header e0 = e0\<lparr>eng_pool := p1\<rparr>"
    "tree_pool (n + 6) m p1" "page_frame {0} pool p1" "bp_next_page p1 = 2"
    by (auto simp: e0_def)
  let ?e1 = "e0\<lparr>eng_pool := p1\<rparr>"
  have "tree_pool (n + 2 + 4) m (eng_pool ?e1)" using p1(2) by (simp add: add.commute)
  moreover have "agree 0 (bp_page_size p1) (page_view p1 1) (\<lambda>_. 0)"
    using p1(3) fd by (auto simp: page_frame_def nc(2) new_file_def agree_def)
  ultimately obtain p2 where p2: "init_root ?e1 = ?e1\<lparr>eng_pool := p2\<rparr>" "tree_pool (n + 2) m p2"
    "page_frame {1} p1 p2" "bp_next_page p2 = 2" "btree_on 0 p2 1 [] {1}"
    using init_root_tree [of "n + 2" m ?e1] p1(4) hd(2) by (auto simp: e0_def)
  define e3 where "e3 = e0\<lparr>eng_pool := p2, eng_header := header\<lparr>dh_free_list_head := -1, dh_total_pages := 2\<rparr>\<rparr>"
  have fl: "bp_free_list_head p2 = -1" "bp_page_size p2 = ?ps"
    using p1(3) p2(3) pn by (simp_all add: page_frame_def)
  have "tree_pool (n + 2) m (eng_pool e3)" "0 < bp_next_page (eng_pool e3)"
    using p2(2,4) by (simp_all add: e3_def)
  then obtain p4 where p4: "store_header e3 = e3\<lparr>eng_pool := p4\<rparr>" "tree_pool n m p4" "page_frame {0} p2 p4"
    "bp_next_page p4 = 2" "list_all i32 (header_fields (eng_header e3)) \<Longrightarrow> header_on p4 (eng_header e3)"
    using store_header_tree [of n m e3] p2(4) by (auto simp: e3_def)
  define eng where "eng = e3\<lparr>eng_pool := garry_pool_flush_all p4\<rparr>"
  note fa = flush_all_tree [OF p4(2)]
  have ps4: "bp_page_size p4 = ?ps" using p4(3) fl by (simp add: page_frame_def)
  have i3: "list_all i32 (header_fields (eng_header e3))"
    using hd(1) by (simp add: e3_def header_fields_def i32_def)
  have frame: "page_frame {0} p2 (garry_pool_flush_all p4)" using page_frame_trans [OF p4(3) fa(2)] by simp
  have psf: "bp_page_size (garry_pool_flush_all p4) = ?ps" using frame fl by (simp add: page_frame_def)
  show ?thesis
  proof (rule that [of eng])
    show "garry_engine_init fd mem wal_fd path settings = Some eng"
    proof -
      have "garry_engine_init fd mem wal_fd path settings =
          (let eng = init_root (store_header e0);
               eng = eng\<lparr>eng_header := (eng_header eng)\<lparr>dh_free_list_head := bp_free_list_head (eng_pool eng),
                       dh_total_pages := bp_next_page (eng_pool eng)\<rparr>\<rparr>;
               eng = store_header eng
           in Some (eng\<lparr>eng_pool := garry_pool_flush_all (eng_pool eng)\<rparr>))"
        unfolding garry_engine_init_def by (simp add: c pool_def [symmetric] wl e0_def header_def Let_def)
      also have "\<dots> = Some eng"
        using p4(1) by (simp add: p1(1) p2(1) p2(4) fl eng_def e3_def Let_def) (simp add: e0_def)
      finally show ?thesis .
    qed
    show "kv_on 0 eng [] {1}"
      using btree_on_frame [OF p2(5) frame] fa(3) p4(4) psf
      by (intro kv_onI) (simp_all add: eng_def e3_def e0_def hd(2))
    show "tree_pool n m (eng_pool eng)" using fa(1) by (simp add: eng_def)
    show "txn_inv eng" using s(6) by (simp add: txn_inv_def eng_def e3_def e0_def lock_create_inv)
    show "header_matches eng"
      using i3 by (simp add: header_matches_def eng_def) (simp add: e3_def e0_def hd)
    show "header_on (eng_pool eng) (eng_header eng)"
      using p4(5) [OF i3] flush_all_spec [of p4] pool_idle_inv [OF tree_poolD(1) [OF p4(2)]]
      by (simp add: header_on_def eng_def)
    show "agree 0 (eng_page_size eng) (f_pages (bp_fd (eng_pool eng)) q) (page_view (eng_pool eng) q)" for q
      using fa(4) [of q] flush_all_spec [of p4] pool_idle_inv [OF tree_poolD(1) [OF p4(2)]] ps4
      by (simp add: eng_def e3_def e0_def)
  qed (simp_all add: eng_def e3_def e0_def hd)
qed

subsection \<open>Closing\<close>

text \<open>The header that closing writes.\<close>

definition closing_header :: "garry_engine_handle \<Rightarrow> garry_db_header" where
  "closing_header eng = (eng_header eng)
     \<lparr>dh_root_page := eng_btree_root eng, dh_total_pages := bp_next_page (eng_pool eng),
      dh_next_txid := eng_next_txid eng, dh_free_list_head := bp_free_list_head (eng_pool eng)\<rparr>"

text \<open>The file shows the pages of a cache.\<close>

definition shows_pages :: "garry_file \<Rightarrow> garry_buffer_pool \<Rightarrow> bool" where
  "shows_pages fd pool \<longleftrightarrow>
     pool_inv pool \<and> (\<forall>q. agree 0 (bp_page_size pool) (f_pages fd q) (page_view pool q))"

lemma close_wal [simp]:
  "st_data (wl_fd (garry_wal_log_close (garry_wal_log_flush wal))) = st_data (wl_fd wal)"
  by (simp add: garry_wal_log_close_def garry_wal_log_flush_def garry_file_close_def garry_file_sync_def)

lemma close_spec:
  assumes tp: "tree_pool (n + 4) m (eng_pool eng)" and next0: "0 < bp_next_page (eng_pool eng)"
    and hdr: "list_all i32 (header_fields (closing_header eng))"
  obtains fd wal pool where "garry_storage_close eng = (fd, wal)" "st_data wal = st_data (wl_fd (eng_wal eng))"
    "shows_pages fd pool" "page_frame {0} (eng_pool eng) pool" "bp_next_page pool = bp_next_page (eng_pool eng)"
    "header_on pool (closing_header eng)"
proof -
  define e0 where "e0 = eng\<lparr>eng_header := (eng_header eng)\<lparr>dh_root_page := eng_btree_root eng,
    dh_total_pages := bp_next_page (eng_pool eng), dh_next_txid := eng_next_txid eng\<rparr>\<rparr>"
  have "tree_pool (n + 2 + 2) m (eng_pool e0)" "0 < bp_next_page (eng_pool e0)"
    using tp next0 by (simp_all add: e0_def numeral_eq_Suc)
  then obtain p1 where p1: "store_header e0 = e0\<lparr>eng_pool := p1\<rparr>" "tree_pool (n + 2) m p1"
    "page_frame {0} (eng_pool eng) p1" "bp_next_page p1 = bp_next_page (eng_pool eng)"
    using store_header_tree [of "n + 2" m e0] by (auto simp: e0_def)
  define e2 where "e2 = e0\<lparr>eng_pool := p1, eng_wal := garry_wal_log_flush (eng_wal eng),
    eng_header := closing_header eng\<rparr>"
  have "tree_pool (n + 2) m (eng_pool e2)" "0 < bp_next_page (eng_pool e2)"
    using p1(2,4) next0 by (simp_all add: e2_def)
  then obtain p3 where p3: "store_header e2 = e2\<lparr>eng_pool := p3\<rparr>" "tree_pool n m p3"
    "page_frame {0} p1 p3" "bp_next_page p3 = bp_next_page (eng_pool eng)" "header_on p3 (closing_header eng)"
    using store_header_tree [of n m e2] hdr p1(4) by (auto simp: e2_def)
  let ?fl = "garry_pool_flush_all p3"
  note fa = flush_all_tree [OF p3(2)]
  have fs: "pool_inv ?fl" "page_view ?fl = page_view p3" "bp_page_size ?fl = bp_page_size p3"
    using flush_all_spec [OF pool_idle_inv [OF tree_poolD(1) [OF p3(2)]]] by blast+
  show ?thesis
  proof (rule that)
    have fr: "bp_free_list_head p1 = bp_free_list_head (eng_pool eng)" using p1(3) by (simp add: page_frame_def)
    have "garry_storage_close eng = garry_engine_close (e0\<lparr>eng_pool := p1, eng_wal := garry_wal_log_flush (eng_wal eng)\<rparr>)"
      using p1(1) by (simp add: garry_storage_close_def e0_def Let_def)
    also have "\<dots> = (garry_pool_close ?fl, wl_fd (garry_wal_log_close (garry_wal_log_flush (eng_wal eng))))"
    proof -
      have "(e0\<lparr>eng_pool := p1, eng_wal := garry_wal_log_flush (eng_wal eng)\<rparr>)\<lparr>eng_header :=
          (eng_header e0)\<lparr>dh_free_list_head := bp_free_list_head p1, dh_total_pages := bp_next_page p1,
             dh_next_txid := eng_next_txid e0\<rparr>\<rparr> = e2"
        by (simp add: e2_def e0_def closing_header_def fr p1(4))
      then show ?thesis using p3(1) by (simp add: garry_engine_close_def Let_def) (simp add: e2_def)
    qed
    finally show "garry_storage_close eng =
        ((bp_fd ?fl)\<lparr>f_is_open := False\<rparr>, wl_fd (garry_wal_log_close (garry_wal_log_flush (eng_wal eng))))"
      by (simp add: close_flushed [OF p3(2)])
    show "shows_pages ((bp_fd ?fl)\<lparr>f_is_open := False\<rparr>) ?fl" using fa(4) fs by (simp add: shows_pages_def)
    show "page_frame {0} (eng_pool eng) ?fl"
      using page_frame_trans [OF p1(3) page_frame_trans [OF p3(3) fa(2)]] by simp
    show "header_on ?fl (closing_header eng)" using p3(5) fs(2) by (simp add: header_on_def)
  qed (use fa(3) p3(4) in simp_all)
qed

subsection \<open>Opening\<close>

text \<open>The file that a closed database is opened from: the pages are what closing left, the operating
  system completes the writes, and the file has the size at which the header is read, or else the
  page size that opening falls back to.\<close>

definition reopens :: "garry_file \<Rightarrow> int \<Rightarrow> garry_disk \<Rightarrow> bool" where
  "reopens fd ps disk \<longleftrightarrow>
     dk_is_open disk \<and> (\<forall>q. dk_wok disk q) \<and>
     (\<forall>q \<ge> 0. agree 0 ps (f_pages (pages_of disk ps) q) (f_pages fd q)) \<and>
     (65536 \<le> length (dk_bytes disk) \<or> ps = 4096)"

lemma page_size_range: "512 \<le> open_page_size disk \<and> open_page_size disk \<le> 65536"
  by (simp add: open_page_size_def Let_def)

lemma open_short_file: "length (dk_bytes disk) < 65536 \<Longrightarrow> open_page_size disk = 4096"
  by (simp add: open_page_size_def garry_file_read_page_def pages_of_def garry_read_db_header_def
      garry_read_int32_def garry_read_le32_def Let_def)

lemma open_long_file:
  assumes "65536 \<le> length (dk_bytes disk)" "512 \<le> ps" "ps \<le> 65536"
    and "dh_page_size (garry_read_db_header (f_pages (pages_of disk ps) 0)) = ps"
  shows "open_page_size disk = ps"
proof -
  let ?b = "garry_file_read_page (pages_of disk 65536) 0 (\<lambda>_. 0) 65536"
  have "agree 0 56 ?b (f_pages (pages_of disk ps) 0)"
    using assms(1-3) by (simp add: agree_def garry_file_read_page_def pages_of_def)
  then have "garry_read_db_header ?b = garry_read_db_header (f_pages (pages_of disk ps) 0)"
    by (rule agree_read_header) simp
  with assms show ?thesis by (simp add: open_page_size_def)
qed

lemma reopened_page_size:
  assumes "reopens fd ps disk" "shows_pages fd pool" "bp_page_size pool = ps"
    and "header_on pool hdr" "dh_page_size hdr = ps"
  shows "open_page_size disk = ps"
proof (cases "65536 \<le> length (dk_bytes disk)")
  case True
  have r: "512 \<le> ps" "ps \<le> 65536" using assms(2,3) pool_invD(2,3) [of pool] by (auto simp: shows_pages_def)
  have "agree 0 ps (f_pages (pages_of disk ps) 0) (page_view pool 0)"
    using assms(1-3) by (auto simp: reopens_def shows_pages_def intro: agree_trans)
  then have "garry_read_db_header (f_pages (pages_of disk ps) 0) = garry_read_db_header (page_view pool 0)"
    by (rule agree_read_header) (use r in simp)
  with assms(4,5) have "dh_page_size (garry_read_db_header (f_pages (pages_of disk ps) 0)) = ps"
    by (auto simp: header_on_def)
  with True r show ?thesis by (rule open_long_file)
next
  case False
  then show ?thesis using assms(1) open_short_file by (simp add: reopens_def)
qed

lemma open_cache:
  assumes "shows_pages fd pool" "reopens fd (bp_page_size pool) disk" "2048 \<le> bp_page_size pool"
    and "header_on pool hdr" "dh_free_list_head hdr = -1" "dh_total_pages hdr = bp_next_page pool"
    and "0 < bp_next_page pool" "N < 2 ^ 30" "bp_next_page pool + int m \<le> 2 ^ 31 - GARRY_PAGE_ID_BIAS"
  obtains pool0 p header where
    "garry_pool_create (pages_of disk (bp_page_size pool)) mem (nat (es_pool_size garry_default_engine_settings))
       (bp_page_size pool) = Some pool0"
    "garry_pool_pin_page (pool0\<lparr>bp_next_page := GARRY_FIRST_PAGE_ID, bp_free_list_head := -1\<rparr>)
       GARRY_HEADER_PAGE = (p, Some 0)"
    "garry_read_db_header (bp_pages p 0) = hdr\<lparr>dh_checksum := header\<rparr>"
    "tree_pool N m (garry_pool_release_page
       (p\<lparr>bp_free_list_head := dh_free_list_head hdr, bp_next_page := dh_total_pages hdr\<rparr>) GARRY_HEADER_PAGE)"
    "page_frame {q. q < 0} (pool\<lparr>bp_free_list_head := dh_free_list_head hdr\<rparr>) (garry_pool_release_page
       (p\<lparr>bp_free_list_head := dh_free_list_head hdr, bp_next_page := dh_total_pages hdr\<rparr>) GARRY_HEADER_PAGE)"
proof -
  let ?ps = "bp_page_size pool" and ?F = "dh_free_list_head hdr" and ?T = "dh_total_pages hdr"
  have inv: "pool_inv pool" and sv: "\<And>q. agree 0 ?ps (f_pages fd q) (page_view pool q)"
    using assms(1) by (auto simp: shows_pages_def)
  have ro: "\<And>q. 0 \<le> q \<Longrightarrow> agree 0 ?ps (f_pages (pages_of disk ?ps) q) (f_pages fd q)"
    "\<And>q. f_wok (pages_of disk ?ps) q"
    using assms(2) by (auto simp: reopens_def pages_of_def)
  have pv: "agree 0 ?ps (f_pages (pages_of disk ?ps) q) (page_view pool q)" if "0 \<le> q" for q
    by (rule agree_trans [OF ro(1) [OF that] sv])
  obtain pool0 where c: "garry_pool_create (pages_of disk ?ps) mem (nat (es_pool_size garry_default_engine_settings)) ?ps = Some pool0"
    using create_Some [of "nat (es_pool_size garry_default_engine_settings)" ?ps "pages_of disk ?ps" mem]
      assms(3) pool_invD(3) [OF inv] by (auto simp: garry_default_engine_settings_def)
  have beyond: "agree 0 ?ps (f_pages (pages_of disk ?ps) q) (\<lambda>_. 0)" if "?T \<le> q" for q
  proof -
    have "find_slot pool q = None"
      using pool_invD(6) [OF inv] that assms(6) by (force simp: find_slot_None_iff)
    then have "page_view pool q = f_pages (bp_fd pool) q" by (simp add: page_view_def)
    with pv [of q] pool_invD(11) [OF inv, of q] that assms(6,7) show ?thesis by (auto intro: agree_trans)
  qed
  let ?P0 = "pool0\<lparr>bp_next_page := ?T, bp_free_list_head := ?F\<rparr>"
  have n: "tree_pool (N + 2) m ?P0" "page_view ?P0 = f_pages (pages_of disk ?ps)"
    using new_cache [OF c assms(3), of ?T ?F "N + 2" m] beyond ro(2) assms(5-9) by simp_all
  have pn: "bp_next_page ?P0 = ?T" "bp_page_size ?P0 = ?ps" "bp_free_list_head ?P0 = ?F"
    using c by (auto simp: garry_pool_create_def split: if_splits)
  from tree_poolD(1) [OF n(1)] order_refl _ obtain p' i where p':
    "garry_pool_pin_page ?P0 0 = (p', Some i)" "pool_ready N p'" "same_view ?P0 p'" "find_slot p' 0 = Some i"
    "bp_capacity p' = bp_capacity ?P0" "agree 0 (bp_page_size ?P0) (page_view ?P0 0) (bp_pages p' i)"
    "\<And>j. j < bp_capacity ?P0 \<Longrightarrow> bp_pin_counts p' j = (if j = i then 1 else 0)"
    by (rule idle_pin_cases) (use assms(6,7) pn in simp_all)
  let ?P1 = "pool0\<lparr>bp_next_page := GARRY_FIRST_PAGE_ID, bp_free_list_head := -1\<rparr>"
  have f1: "fresh_cache ?P1" by (rule created_cache [OF c])
  obtain p where p: "garry_pool_pin_page ?P1 0 = (p, Some 0)" using first_pin [OF f1] by simp
  have eq: "p\<lparr>bp_free_list_head := ?F, bp_next_page := ?T\<rparr> = p'" "i = 0"
  proof -
    have "?P1\<lparr>bp_next_page := ?T, bp_free_list_head := ?F\<rparr> = ?P0" by (cases pool0) simp
    with first_pin_allocator [OF f1 order_refl p, where n = ?T and f = ?F] p'(1)
    have "p\<lparr>bp_next_page := ?T, bp_free_list_head := ?F\<rparr> = p'" "i = 0" by simp_all
    then show "p\<lparr>bp_free_list_head := ?F, bp_next_page := ?T\<rparr> = p'" "i = 0" by (cases p, auto)
  qed
  then have pg: "bp_pages p 0 = bp_pages p' i" by auto
  have "agree 0 ?ps (page_view pool 0) (bp_pages p 0)"
    unfolding pg by (rule agree_trans [OF agree_sym [OF pv [OF order_refl]] p'(6) [unfolded n(2) pn(2)]])
  then have rd: "garry_read_db_header (page_view pool 0) = garry_read_db_header (bp_pages p 0)"
    by (rule agree_read_header) (use assms(3) in simp)
  then obtain cs where cs: "garry_read_db_header (bp_pages p 0) = hdr\<lparr>dh_checksum := cs\<rparr>"
    using assms(4) by (auto simp: header_on_def)
  let ?rel = "garry_pool_release_page p' 0"
  have sp: "bp_page_size p' = ?ps" "bp_next_page p' = ?T" "bp_free_list_head p' = ?F"
    "\<And>q. agree 0 ?ps (f_pages (pages_of disk ?ps) q) (page_view p' q)"
    using p'(3) pn by (simp_all add: same_view_def n(2))
  have idle: "pool_idle N ?rel"
    using p'(5,7) by (intro release_idle [OF p'(2,4) order_refl]) simp
  show ?thesis
  proof (rule that [OF c _ cs])
    show "garry_pool_pin_page ?P1 GARRY_HEADER_PAGE = (p, Some 0)" using p by (simp add: GARRY_HEADER_PAGE_def)
    show "tree_pool N m (garry_pool_release_page (p\<lparr>bp_free_list_head := ?F, bp_next_page := ?T\<rparr>) GARRY_HEADER_PAGE)"
      unfolding eq(1) using idle sp assms(3,5,6,9) by (simp add: GARRY_HEADER_PAGE_def tree_pool_def)
    have "agree 0 ?ps (page_view pool q) (page_view ?rel q)" if "0 \<le> q" for q
      using agree_trans [OF agree_sym [OF pv [OF that]] sp(4)] by simp
    moreover have "page_view (pool\<lparr>bp_free_list_head := ?F\<rparr>) = page_view pool"
      by (rule page_view_cong) (simp_all add: find_slot_def)
    ultimately show "page_frame {q. q < 0} (pool\<lparr>bp_free_list_head := ?F\<rparr>)
        (garry_pool_release_page (p\<lparr>bp_free_list_head := ?F, bp_next_page := ?T\<rparr>) GARRY_HEADER_PAGE)"
      unfolding eq(1) using sp assms(6) by (simp add: GARRY_HEADER_PAGE_def page_frame_def)
  qed
qed

subsection \<open>Restarting\<close>

text \<open>An engine that can be closed and opened again, and replay its log: it shows the logs \<open>M\<close>, the
  records of the write-ahead log are \<open>rs\<close>, and the header is one of 32-bit integers that agrees with
  the handle.\<close>

definition restartable ::
  "garry_engine_handle \<Rightarrow> (key \<Rightarrow> version list option) \<Rightarrow> garry_wal_record list \<Rightarrow> bool" where
  "restartable eng M rs \<longleftrightarrow>
     (\<exists>h H ls P. h + length rs \<le> H \<and> kv_on h eng ls P \<and> index_of ls = M \<and>
        2 * H + 4 + length rs * (29 + 15 * H) < 2 ^ 30 \<and>
        tree_pool 4 (length rs * (3 + H)) (eng_pool eng)) \<and>
     header_matches eng \<and> i32 (eng_next_txid eng) \<and> 0 < eng_next_txid eng \<and> 0 < eng_max_txns eng \<and>
     (\<exists>torn. st_data (wl_fd (eng_wal eng)) = concat (map wal_bytes rs) @ torn \<and> length torn < 792) \<and>
     list_all (replayable eng) rs"

lemma kv_on_root:
  assumes "kv_on h eng ls P"
  shows "0 \<le> eng_btree_root eng" "eng_btree_root eng < bp_next_page (eng_pool eng)"
proof -
  have b: "btree_on h (eng_pool eng) (eng_btree_root eng) (map index_entry ls) P" using assms by (simp add: kv_on_def)
  then obtain t where "root_page t = eng_btree_root eng" "set (tree_pages t) = P" by (auto simp: btree_on_def)
  with root_page_in [of t] have "eng_btree_root eng \<in> P" by simp
  from btree_on_bound [OF b this] show "0 \<le> eng_btree_root eng" "eng_btree_root eng < bp_next_page (eng_pool eng)"
    by simp_all
qed

lemma kv_on_positive:
  assumes "kv_on h eng ls P"
  shows "P \<inter> {q. q \<le> 0} = {}" "\<forall>r \<in> set ls. chain_of r \<notin> {q. q \<le> 0}"
proof -
  note d = kv_onD [OF assms] and hd = kv_on_header(2,3) [OF assms]
  show "P \<inter> {q. q \<le> 0} = {}" using btree_on_bound [OF d(2)] hd(1) by force
  have "0 \<le> c" if "(k, c, xs) \<in> set ls" for k c xs using d(6) [OF that] by (simp add: key_log_def)
  then show "\<forall>r \<in> set ls. chain_of r \<notin> {q. q \<le> 0}" using hd(2) by (force simp: chain_of_def image_iff)
qed

lemma page_frame_allocator:
  assumes "page_frame Q a b" "page_frame R (b\<lparr>bp_free_list_head := f\<rparr>) c" "f = bp_free_list_head b"
  shows "page_frame (Q \<union> R) a c"
proof -
  have "b\<lparr>bp_free_list_head := f\<rparr> = b" by (simp add: assms(3))
  with page_frame_trans [OF assms(1)] assms(2) show ?thesis by simp
qed

lemma closed_pages:
  assumes r: "restartable eng M rs" and close: "garry_storage_close eng = (fd, wal)"
  shows "\<exists>pool. st_data wal = st_data (wl_fd (eng_wal eng)) \<and> shows_pages fd pool \<and>
    page_frame {0} (eng_pool eng) pool \<and> bp_next_page pool = bp_next_page (eng_pool eng) \<and>
    header_on pool (closing_header eng)"
proof -
  let ?pool = "eng_pool eng"
  obtain h ls P m where k: "kv_on h eng ls P" "tree_pool 4 m ?pool"
    and hm: "list_all i32 (header_fields (eng_header eng))" and t32: "i32 (eng_next_txid eng)"
    using r by (auto simp: restartable_def header_matches_def)
  note d = tree_poolD [OF k(2)]
  have n0: "0 < bp_next_page ?pool" by (rule kv_on_header(1) [OF k(1)])
  have "i32 (bp_next_page ?pool)" "i32 (eng_btree_root eng)"
    using n0 tree_poolD(4) [OF tree_pool_mono [OF k(2), of 0 0]] kv_on_root [OF k(1)]
    by (simp_all add: i32_def node_consts)
  then have hd: "list_all i32 (header_fields (closing_header eng))"
    using hm t32 d(5) by (simp add: header_fields_def closing_header_def)
  have "tree_pool (0 + 4) m ?pool" using k(2) by simp
  from close_spec [OF this n0 hd] close show ?thesis by (metis prod.inject)
qed

text \<open>A file that a closed database can be opened from: its first pages, byte after byte. The cache
  ends before the file does, and what lies past the cache is zeros.\<close>

definition disk_image :: "garry_file \<Rightarrow> int \<Rightarrow> nat \<Rightarrow> garry_disk" where
  "disk_image fd page_size pages =
     \<lparr>dk_is_open = True, dk_bytes = concat (map (\<lambda>q. read_bytes (f_pages fd (int q)) 0 page_size) [0..<pages]),
      dk_wok = (\<lambda>_. True)\<rparr>"

lemma nth_blocks:
  assumes "\<And>q. length (f q) = m" "q < n" "i < m"
  shows "concat (map f [0..<n]) ! (q * m + i) = f q ! i"
  using assms(2)
proof (induction n)
  case 0
  then show ?case by simp
next
  case (Suc n)
  have l: "length (concat (map f [0..<k])) = k * m" for k
    by (induction k) (simp_all add: assms(1))
  have "q * m + i < Suc q * m" using assms(3) by simp
  then have "q * m + i < n * m" if "q < n" using that mult_le_mono1 [of "Suc q" n m] by linarith
  then show ?case using Suc by (cases "q = n") (auto simp: nth_append l)
qed

lemma length_disk_image: "length (dk_bytes (disk_image fd ps n)) = n * nat ps"
  by (induction n) (simp_all add: disk_image_def)

lemma disk_image_reopens:
  assumes "shows_pages fd pool" "bp_next_page pool \<le> int n" "128 \<le> n"
  shows "reopens fd (bp_page_size pool) (disk_image fd (bp_page_size pool) n)"
proof -
  let ?ps = "bp_page_size pool"
  have inv: "pool_inv pool" and fd: "\<And>q. agree 0 ?ps (f_pages fd q) (page_view pool q)"
    using assms(1) by (auto simp: shows_pages_def)
  have ps: "512 \<le> ?ps" by (rule pool_invD(2) [OF inv])
  have len: "int (length (dk_bytes (disk_image fd ?ps n))) = int n * ?ps"
    using ps by (simp add: length_disk_image)
  have "agree 0 ?ps (f_pages (pages_of (disk_image fd ?ps n) ?ps) q) (f_pages fd q)" if q: "0 \<le> q" for q
  proof (cases "q < int n")
    case True
    have "(q + 1) * ?ps \<le> int n * ?ps" using True ps by (intro mult_right_mono) simp_all
    moreover have "dk_bytes (disk_image fd ?ps n) ! nat (q * ?ps + i) = f_pages fd q i" if "0 \<le> i" "i < ?ps" for i
    proof -
      have "nat (q * ?ps + i) = nat q * nat ?ps + nat i" using q that ps by (simp add: nat_add_distrib nat_mult_distrib)
      with nth_blocks [of "\<lambda>q. read_bytes (f_pages fd (int q)) 0 ?ps" "nat ?ps" "nat q" n "nat i"] q True that
      show ?thesis by (simp add: disk_image_def)
    qed
    ultimately show ?thesis using q by (simp add: agree_def pages_of_def len)
  next
    case False
    then have "int n * ?ps < (q + 1) * ?ps" using ps by (intro mult_strict_right_mono) simp_all
    then have z: "f_pages (pages_of (disk_image fd ?ps n) ?ps) q = (\<lambda>_. 0)" by (auto simp: pages_of_def len)
    have "find_slot pool q = None"
      using pool_invD(6) [OF inv] False assms(2) by (force simp: find_slot_None_iff)
    then have "page_view pool q = f_pages (bp_fd pool) q" by (simp add: page_view_def)
    with fd [of q] pool_invD(11) [OF inv, of q] False assms(2) show ?thesis
      unfolding z by (auto intro: agree_trans agree_sym)
  qed
  moreover have "128 * 512 \<le> n * nat ?ps" using assms(3) ps by (intro mult_le_mono) simp_all
  moreover have "dk_is_open (disk_image fd ?ps n)" "\<forall>q. dk_wok (disk_image fd ?ps n) q"
    by (simp_all add: disk_image_def)
  ultimately show ?thesis by (simp add: reopens_def length_disk_image)
qed

lemma closed_file_reopens:
  assumes "restartable eng M rs" "garry_storage_close eng = (fd, wal)"
  shows "\<exists>disk. reopens fd (eng_page_size eng) disk"
proof -
  from closed_pages [OF assms] obtain pool where p: "shows_pages fd pool" "page_frame {0} (eng_pool eng) pool"
    by blast
  have "bp_page_size pool = eng_page_size eng"
    using p(2) assms(1) kv_onD(1) by (auto simp: restartable_def page_frame_def)
  moreover have "bp_next_page pool \<le> int (max 128 (nat (bp_next_page pool)))" by simp
  ultimately show ?thesis using disk_image_reopens [OF p(1) _ max.cobounded1] by metis
qed

lemma restart_spec:
  assumes r: "restartable eng M rs" and close: "garry_storage_close eng = (fd, wal)"
    and files: "reopens fd (eng_page_size eng) disk"
  obtains eng0 where "recoverable eng0 M rs" "txn_inv eng0" "eng_active_txns eng0 = []" "0 < eng_max_txns eng0"
    "eng_next_txid eng0 = eng_next_txid eng" "eng_compression eng0 = eng_compression eng"
    "eng_page_size eng0 = eng_page_size eng" "open_page_size disk = eng_page_size eng"
    "\<And>path. garry_storage_open disk mem (garry_file_open (st_data wal) room True) (Some path) =
       map_option (\<lambda>(eng, ok). if ok then Some eng else None) (garry_wal_recover eng0)"
proof -
  obtain h H ls P torn where k: "h + length rs \<le> H" "kv_on h eng ls P" "index_of ls = M"
    "2 * H + 4 + length rs * (29 + 15 * H) < 2 ^ 30" "tree_pool 4 (length rs * (3 + H)) (eng_pool eng)"
    and hm: "header_matches eng" and t32: "i32 (eng_next_txid eng)" "0 < eng_next_txid eng" "0 < eng_max_txns eng"
    and w: "st_data (wl_fd (eng_wal eng)) = concat (map wal_bytes rs) @ torn" "length torn < 792"
    and rep: "list_all (replayable eng) rs"
    using r by (auto simp: restartable_def)
  let ?N = "2 * H + 4 + length rs * (29 + 15 * H)" and ?m = "length rs * (3 + H)" and ?pool = "eng_pool eng"
  let ?hdr = "closing_header eng"
  note d = tree_poolD [OF k(5)]
  have n0: "0 < bp_next_page ?pool" by (rule kv_on_header(1) [OF k(2)])
  have hm': "list_all i32 (header_fields (eng_header eng))" "dh_page_size (eng_header eng) = eng_page_size eng"
    "dh_compression (eng_header eng) = eng_compression eng" "dh_max_txns (eng_header eng) = eng_max_txns eng"
    using hm by (simp_all add: header_matches_def)
  from closed_pages [OF r close] obtain pool where c: "st_data wal = st_data (wl_fd (eng_wal eng))"
    "shows_pages fd pool" "page_frame {0} ?pool pool" "bp_next_page pool = bp_next_page ?pool" "header_on pool ?hdr"
    by blast
  have ps: "bp_page_size pool = eng_page_size eng" "bp_free_list_head pool = bp_free_list_head ?pool"
    using c(3) kv_onD(1) [OF k(2)] by (simp_all add: page_frame_def)
  have disk': "reopens fd (bp_page_size pool) disk" using files by (simp add: ps)
  have pre: "2048 \<le> bp_page_size pool" "dh_free_list_head ?hdr = -1" "dh_total_pages ?hdr = bp_next_page pool"
    "0 < bp_next_page pool" "bp_next_page pool + int ?m \<le> 2 ^ 31 - GARRY_PAGE_ID_BIAS"
    using d kv_onD(1) [OF k(2)] n0 by (simp_all add: ps(1) c(4) closing_header_def)
  from open_cache [OF c(2) disk' pre(1) c(5) pre(2-4) k(4) pre(5), of mem] obtain pool0 p cs where o:
    "garry_pool_create (pages_of disk (eng_page_size eng)) mem (nat (es_pool_size garry_default_engine_settings))
       (eng_page_size eng) = Some pool0"
    "garry_pool_pin_page (pool0\<lparr>bp_next_page := GARRY_FIRST_PAGE_ID, bp_free_list_head := -1\<rparr>)
       GARRY_HEADER_PAGE = (p, Some 0)"
    "garry_read_db_header (bp_pages p 0) = ?hdr\<lparr>dh_checksum := cs\<rparr>"
    "tree_pool ?N ?m (garry_pool_release_page
       (p\<lparr>bp_free_list_head := dh_free_list_head ?hdr, bp_next_page := dh_total_pages ?hdr\<rparr>) GARRY_HEADER_PAGE)"
    "page_frame {q. q < 0} (pool\<lparr>bp_free_list_head := dh_free_list_head ?hdr\<rparr>) (garry_pool_release_page
       (p\<lparr>bp_free_list_head := dh_free_list_head ?hdr, bp_next_page := dh_total_pages ?hdr\<rparr>) GARRY_HEADER_PAGE)"
    unfolding ps(1) by blast
  define q where "q = garry_pool_release_page
    (p\<lparr>bp_free_list_head := dh_free_list_head ?hdr, bp_next_page := dh_total_pages ?hdr\<rparr>) GARRY_HEADER_PAGE"
  let ?wfd = "garry_file_open (st_data wal) room True"
  define e0 where "e0 = \<lparr>eng_page_size = eng_page_size eng, eng_compression = eng_compression eng,
    eng_btree_root = eng_btree_root eng, eng_pool = q, eng_next_txid = eng_next_txid eng,
    eng_max_txns = eng_max_txns eng, eng_active_txns = [], eng_txn_states = [],
    eng_wal = \<lparr>wl_fd = ?wfd, wl_last_lsn = 0\<rparr>, eng_lock_mgr = garry_create_lock_manager,
    eng_settings = zero_settings\<lparr>es_page_size := eng_page_size eng, es_compression := eng_compression eng,
      es_max_txns := eng_max_txns eng, es_max_versions := dh_max_versions (eng_header eng),
      es_max_key_size := dh_max_key_size (eng_header eng), es_max_subscripts := dh_max_subscripts (eng_header eng),
      es_btree_flags := dh_btree_flags (eng_header eng)\<rparr>,
    eng_header = ?hdr\<lparr>dh_checksum := cs\<rparr>, eng_key_count = 0\<rparr>"
  have frame: "page_frame {q. q \<le> 0} ?pool q"
  proof -
    have "{0} \<union> {q. q < 0} = {q :: int. q \<le> 0}" by auto
    with page_frame_allocator [OF c(3) o(5)] show ?thesis by (simp add: q_def closing_header_def ps(2))
  qed
  have kv0: "kv_on h e0 ls P"
    by (rule kv_on_frame [OF k(2) _ kv_on_positive [OF k(2)]]) (use frame in \<open>simp_all add: e0_def\<close>)
  have sel: "eng_pool e0 = q" "st_data (wl_fd (eng_wal e0)) = concat (map wal_bytes rs) @ torn"
    "st_is_open (wl_fd (eng_wal e0)) = True"
    by (simp_all add: e0_def garry_file_open_def c(1) w(1))
  have cong: "replayable e0 = replayable eng" by (rule replay_cong(1)) (simp_all add: e0_def)
  have found: "open_page_size disk = eng_page_size eng"
    using reopened_page_size [OF files c(2) ps(1) c(5)] hm'(2) by (simp add: closing_header_def)
  show ?thesis
  proof (rule that [of e0])
    show "open_page_size disk = eng_page_size eng" by (rule found)
    show "recoverable e0 M rs"
      unfolding recoverable_def cong sel using k(1,3) kv0 o(4) [folded q_def] w(2) rep by blast
    show "txn_inv e0" using t32 by (simp add: txn_inv_def e0_def lock_create_inv)
    show "garry_storage_open disk mem ?wfd (Some path) =
        map_option (\<lambda>(eng, ok). if ok then Some eng else None) (garry_wal_recover e0)" for path
    proof -
      have f: "dk_is_open disk" "open_page_size disk = eng_page_size eng"
        using files found by (simp_all add: reopens_def)
      have wl: "garry_wal_log_init (zero_wal ?wfd) ?wfd (Some (side_path path ''-wal''))
          (Some (side_path path ''-ckpt'')) = (\<lparr>wl_fd = ?wfd, wl_last_lsn = 0\<rparr>, GARRY_OK)"
        by (simp add: garry_wal_log_init_def zero_wal_def garry_file_open_def)
      have "garry_storage_open disk mem ?wfd (Some path) = (case garry_wal_recover e0 of
          None \<Rightarrow> None | Some (eng, ok) \<Rightarrow> Some (if ok then Some eng else None))"
        unfolding garry_storage_open_def garry_engine_open_def Let_def f(2)
        using f(1) by (simp add: o(1,2,3) wl e0_def q_def closing_header_def hm'(2-4))
      then show ?thesis by (simp add: map_option_case case_prod_unfold split: option.split)
    qed
  qed (simp_all add: e0_def t32)
qed

subsection \<open>What the log and the header go through\<close>

lemma append_with_room:
  assumes "wal_rep wal rs" "length (st_data (wl_fd wal)) + 792 \<le> st_room (wl_fd wal)"
  shows "wal_rep (fst (garry_wal_log_append wal rec)) (rs @ [rec])"
    "st_room (wl_fd (fst (garry_wal_log_append wal rec))) = st_room (wl_fd wal)"
proof -
  let ?fd = "wl_fd wal"
  have e: "st_pos ?fd = length (st_data ?fd)" "st_is_open ?fd" "0 \<le> wl_last_lsn wal"
    "st_data ?fd = concat (map wal_bytes rs)" using assms(1) by (simp_all add: wal_rep_def)
  have w: "garry_file_write_bytes ?fd (wal_bytes rec) =
      (?fd\<lparr>st_data := st_data ?fd @ wal_bytes rec, st_pos := st_pos ?fd + 792\<rparr>, 792)"
    using assms(2) by (simp add: write_at_end [OF e(1) wal_bytes_not_Nil] e(1) Let_def min_def)
  have "garry_wal_log_append wal rec =
      (wal\<lparr>wl_fd := ?fd\<lparr>st_data := st_data ?fd @ wal_bytes rec, st_pos := st_pos ?fd + 792\<rparr>,
         wl_last_lsn := wl_last_lsn wal + 1\<rparr>, wl_last_lsn wal + 1)"
    using e(2) by (simp add: garry_wal_log_append_def wal_write_record_def wal_image_read w Let_def)
  then show "wal_rep (fst (garry_wal_log_append wal rec)) (rs @ [rec])"
    "st_room (wl_fd (fst (garry_wal_log_append wal rec))) = st_room (wl_fd wal)"
    using e by (simp_all add: wal_rep_def)
qed

lemma make_update_logged:
  "length val \<le> 256 \<Longrightarrow> garry_make_update_record pool txn key val = (pool, Some (logged_update txn key val))"
  by (simp add: logged_update_def garry_make_update_record_def Let_def)

lemma find_or_create_rest:
  assumes "find_or_create_chain eng key = Some (eng', r)"
  shows "eng_header eng' = eng_header eng" "eng_wal eng' = eng_wal eng"
  using assms
  by (auto simp: find_or_create_chain_def engine_search_def garry_chain_allocate_def Let_def
      split: option.splits prod.splits if_splits)

lemma note_modified_rest [simp]:
  "eng_header (note_modified eng t c) = eng_header eng" "eng_wal (note_modified eng t c) = eng_wal eng"
  by (simp_all add: note_modified_def Let_def split: option.split)

lemma mvcc_set_rest:
  "eng_header (fst (garry_mvcc_set eng t c v)) = eng_header eng"
  "eng_wal (fst (garry_mvcc_set eng t c v)) = eng_wal eng"
  by (simp_all add: garry_mvcc_set_def Let_def split: option.split prod.split)

lemma set_rest:
  assumes "garry_storage_set b eng t k v = Some (eng', True)" "length v \<le> 256"
  shows "eng_header eng' = eng_header eng" "eng_wal eng' = fst (garry_wal_log_append (eng_wal eng) (logged_update t k v))"
proof -
  obtain mgr where l: "garry_lock_acquire b (eng_lock_mgr eng) t k GARRY_LOCK_EXCLUSIVE = (mgr, True)"
    using assms(1) by (auto simp: garry_storage_set_def Let_def split: if_splits prod.splits)
  obtain e1 c new where f: "find_or_create_chain (eng\<lparr>eng_lock_mgr := mgr\<rparr>) k = Some (e1, Some c, new)"
    using assms(1) by (auto simp: garry_storage_set_def l split: if_splits option.splits)
  let ?e2 = "log_record e1 (Some (logged_update t k v))"
  have e1: "e1\<lparr>eng_pool := eng_pool e1\<rparr> = e1" by simp
  obtain p e3 where s: "garry_mvcc_set ?e2 t c p = (e3, True)"
    "eng' = (if new then e3\<lparr>eng_key_count := eng_key_count e3 + 1\<rparr> else e3)"
    using assms(1)
    by (auto simp: garry_storage_set_def l f make_update_logged [OF assms(2)] e1 Let_def
        split: if_splits option.splits prod.splits bool.splits)
  have "eng_header e3 = eng_header ?e2" "eng_wal e3 = eng_wal ?e2"
    using mvcc_set_rest [of ?e2 t c p] by (simp_all add: s(1))
  with find_or_create_rest [OF f] s(2) show "eng_header eng' = eng_header eng"
    "eng_wal eng' = fst (garry_wal_log_append (eng_wal eng) (logged_update t k v))"
    by (simp_all add: log_record_def)
qed

lemma end_rest [simp]:
  "eng_header (garry_storage_commit eng t) = eng_header eng"
  "eng_header (garry_storage_rollback eng t) = eng_header eng"
  "eng_max_txns (garry_storage_commit eng t) = eng_max_txns eng"
  "eng_max_txns (garry_storage_rollback eng t) = eng_max_txns eng"
  "eng_page_size (garry_storage_commit eng t) = eng_page_size eng"
  "eng_page_size (garry_storage_rollback eng t) = eng_page_size eng"
  "eng_next_txid (garry_storage_commit eng t) = eng_next_txid eng"
  "eng_next_txid (garry_storage_rollback eng t) = eng_next_txid eng"
  "eng_pool (garry_storage_rollback eng t) = eng_pool eng"
  "eng_wal (garry_storage_commit eng t) =
     garry_wal_log_flush (fst (garry_wal_log_append (eng_wal eng) (garry_make_commit_record t)))"
  "eng_wal (garry_storage_rollback eng t) = fst (garry_wal_log_append (eng_wal eng) (garry_make_abort_record t))"
  by (simp_all add: garry_storage_commit_def garry_storage_rollback_def garry_mvcc_commit_def
      garry_mvcc_rollback_def remove_active_txn_def Let_def case_prod_unfold split: option.split)

subsection \<open>A write on a new database\<close>

lemma engine_init_store_rep:
  assumes init: "kv_on 0 eng [] {1}" "tree_pool (n * (29 + 15 * n)) (n * (3 + n)) (eng_pool eng)" "txn_inv eng"
    "eng_active_txns eng = []" "eng_next_txid eng = 1" "int n < 2 ^ 30"
  shows "store_rep n eng \<lparr>ss_versions = (\<lambda>_. []), ss_active = [], ss_running = {}, ss_next = 1,
    ss_limit = eng_max_txns eng\<rparr>" (is "store_rep n eng ?s")
proof (rule store_repI)
  show "kv_on 0 eng [] {1}" by (rule init(1))
  show "tree_pool (n * (29 + 15 * n)) (n * (3 + n)) (eng_pool eng)" by (rule init(2))
  show "table_rep eng ?s"
    using init(3-5) by (simp add: table_rep_def garry_txn_is_active_def find_txn_slot_def)
  show "logs_rep eng (versions []) ?s" by (simp add: logs_rep_def versions_def)
qed (use init(5,6) in simp_all)

text \<open>The two ways a transaction ends.\<close>

definition ending :: "bool \<Rightarrow> garry_engine_handle \<Rightarrow> int \<Rightarrow> garry_engine_handle" where
  "ending commit = (if commit then garry_storage_commit else garry_storage_rollback)"

definition end_record :: "bool \<Rightarrow> int \<Rightarrow> garry_wal_record" where
  "end_record commit = (if commit then garry_make_commit_record else garry_make_abort_record)"

lemma end_record_sel:
  "wr_kind (end_record c t) = (if c then GARRY_WAL_COMMIT else GARRY_WAL_ABORT)" "wr_txid (end_record c t) = t"
  by (simp_all add: end_record_def garry_make_commit_record_def garry_make_abort_record_def empty_record_def)

lemma end_replayable: "i32 t \<Longrightarrow> replayable eng (end_record c t)"
  by (simp add: end_record_def replayable_def record_ok_def garry_make_commit_record_def
      garry_make_abort_record_def empty_record_def i32_def)

lemma flush_wal_rep: "wal_rep wal rs \<Longrightarrow> wal_rep (garry_wal_log_flush wal) rs"
  by (simp add: wal_rep_def garry_wal_log_flush_def garry_file_sync_def)

lemma index_single:
  assumes "versions ls = (versions [])(k := xs)" "xs \<noteq> []" "length ls \<le> 1"
  shows "index_of ls = [k \<mapsto> xs]"
proof -
  have v: "versions ls k = xs" using assms(1) by simp
  then have "ls \<noteq> []" using assms(2) by (auto simp: versions_def)
  then obtain r where r: "ls = [r]" using assms(3) by (cases ls) auto
  obtain k' c ys where e: "r = (k', c, ys)" by (cases r) auto
  have "k' = k" "ys = xs" using v assms(2) by (auto simp: versions_def r e split: if_splits)
  then show ?thesis by (auto simp: index_of_def r e fun_eq_iff)
qed

lemma ending_pages:
  assumes "tree_pool n m (eng_pool eng)"
  shows "tree_pool n m (eng_pool (ending c eng t))" "page_frame {} (eng_pool eng) (eng_pool (ending c eng t))"
proof -
  note cp = commit_pool [OF tree_poolD(1) [OF assms], of t]
  show "tree_pool n m (eng_pool (ending c eng t))" using assms cp by (simp add: tree_pool_def ending_def)
  show "page_frame {} (eng_pool eng) (eng_pool (ending c eng t))"
    using commit_view [OF tree_poolD(1) [OF assms], of t] by (simp add: ending_def)
qed

text \<open>A new database on which one value was set, and the transaction ended.\<close>

lemma created_write:
  assumes st: "settings_ok settings" and fd: "new_file fd"
    and wal: "wal_fd = garry_file_open [] room True" "1584 \<le> room"
    and kv: "k \<noteq> []" "length k < 256" "v \<noteq> []" "length v \<le> 256"
  obtains eng eng1 eng2 where "garry_storage_init fd mem wal_fd (Some path) settings = Some eng"
    "garry_storage_begin eng = (eng1, 1)" "garry_storage_set True eng1 1 k v = Some (eng2, True)"
    "eng_page_size eng2 = es_page_size settings" "eng_compression eng2 = es_compression settings"
    "eng_next_txid eng2 = 2"
    "\<And>c. restartable (ending c eng2 1) [k \<mapsto> [(1, compress_value eng2 v)]] [logged_update 1 k v, end_record c 1]"
proof -
  have "1000 < (2 :: nat) ^ 30" "st_is_open wal_fd" by (simp_all add: wal(1) garry_file_open_def)
  from engine_init_spec [OF st fd this(2,1,1), of mem path] obtain eng where e:
    "garry_engine_init fd mem wal_fd path settings = Some eng" "kv_on 0 eng [] {1}" "tree_pool 1000 1000 (eng_pool eng)"
    "txn_inv eng" "eng_active_txns eng = []" "eng_next_txid eng = 1" "eng_max_txns eng = es_max_txns settings"
    "eng_compression eng = es_compression settings" "eng_wal eng = \<lparr>wl_fd = wal_fd, wl_last_lsn = 0\<rparr>"
    "eng_lock_mgr eng = garry_create_lock_manager" "header_matches eng" "eng_page_size eng = es_page_size settings" by metis
  have mt: "0 < eng_max_txns eng" using st e(7) by (simp add: settings_ok_def)
  have s0: "eng_txn_states eng = []" using txn_invD(3) [OF e(4)] e(5) by simp
  let ?e1 = "eng\<lparr>eng_next_txid := 2, eng_active_txns := [1],
    eng_txn_states := [\<lparr>ti_txid = 1, ti_state = GARRY_TXN_ACTIVE, ti_modified_pages = []\<rparr>]\<rparr>"
  have b: "garry_storage_begin eng = (?e1, 1)"
    using e(5,6) s0 mt by (simp add: garry_storage_begin_def garry_mvcc_begin_def Let_def)
  have act: "garry_txn_is_active 1 ?e1" by (simp add: garry_txn_is_active_def find_txn_slot_def)
  have kv1: "kv_on 0 ?e1 [] {1}" by (rule kv_on_cong [OF e(2)]) simp_all
  have tp1: "tree_pool (4 + 29 + 15 * 0) (0 + 3 + 12) (eng_pool ?e1)"
    using tree_pool_mono [OF e(3), of 33 15] by simp
  have vo: "value_ok ?e1 v" using kv by (simp add: value_ok_def)
  have acq: "snd (garry_lock_acquire True (eng_lock_mgr ?e1) 1 k GARRY_LOCK_EXCLUSIVE)"
    using kv(2) by (simp add: e(10) garry_lock_acquire_def garry_create_lock_manager_def garry_lock_held_def
        garry_has_conflict_def Let_def)
  obtain payload where pl: "compress_value ?e1 v = Some payload" "length payload \<le> 300"
    using payload_ok [OF vo] by metis
  have ps: "2048 \<le> eng_page_size ?e1" using tree_poolD(3) [OF e(3)] kv_onD(1) [OF e(2)] by simp
  have "log_room (eng_page_size ?e1) (versions [] k) (compress_value ?e1 v)"
    unfolding pl(1) using room_for_first [OF ps pl(2)] by (simp add: versions_def)
  with set_kv [OF kv1 tp1 kv(1,2) act _ vo, of True] acq obtain eng2 h where s:
    "garry_storage_set True ?e1 1 k v = Some (eng2, True)" "h \<le> Suc 0"
    "kv_after h 4 12 (Suc 0) ?e1 ((versions [])(k := versions [] k @ [(1, compress_value ?e1 v)])) eng2"
    by (auto simp: i32_def)
  then obtain ls P where l: "kv_on h eng2 ls P" "versions ls = (versions [])(k := [(1, compress_value ?e1 v)])"
    "length ls \<le> 1" "tree_pool 4 12 (eng_pool eng2)" "same_session ?e1 eng2"
    by (auto simp: kv_after_def versions_def)
  have ss: "eng_page_size eng2 = eng_page_size eng" "eng_compression eng2 = eng_compression eng"
    "eng_max_txns eng2 = eng_max_txns eng" "eng_next_txid eng2 = 2" using l(5) by (simp_all add: same_session_def)
  have cv: "compress_value eng2 = compress_value ?e1" by (simp add: compress_value_def fun_eq_iff ss)
  have idx: "index_of ls = [k \<mapsto> [(1, compress_value eng2 v)]]" using index_single [OF l(2)] l(3) by (simp add: cv)
  note sr = set_rest [OF s(1) kv(4)]
  have w0: "wal_rep (eng_wal ?e1) []" by (simp add: e(9) wal(1) wal_rep_def garry_file_open_def)
  have r0: "st_room (wl_fd (eng_wal ?e1)) = room" "st_data (wl_fd (eng_wal ?e1)) = []"
    by (simp_all add: e(9) wal(1) garry_file_open_def)
  have w1: "wal_rep (eng_wal eng2) [logged_update 1 k v]" "st_room (wl_fd (eng_wal eng2)) = room"
    using append_with_room [OF w0, of "logged_update 1 k v"] wal(2) r0 by (simp_all add: sr(2))
  have "wal_rep (eng_wal (ending c eng2 1)) [logged_update 1 k v, end_record c 1]" for c
  proof -
    have "wal_rep (fst (garry_wal_log_append (eng_wal eng2) (end_record c 1))) ([logged_update 1 k v] @ [end_record c 1])"
      by (rule append_with_room [OF w1(1)]) (use w1 wal(2) in \<open>simp add: wal_rep_def\<close>)
    then show ?thesis by (cases c) (simp_all add: ending_def end_record_def flush_wal_rep)
  qed
  then have wd: "st_data (wl_fd (eng_wal (ending c eng2 1))) =
      concat (map wal_bytes [logged_update 1 k v, end_record c 1]) @ []" for c by (simp add: wal_rep_def)
  have hm: "header_matches (ending c eng2 1)" for c
    using e(11) by (simp add: header_matches_def ending_def sr(1) ss end_fields)
  have kve: "kv_on h (ending c eng2 1) ls P" for c
    by (rule kv_on_view [OF l(1) ending_pages(2) [OF l(4)] refl]) (simp_all add: ending_def)
  have rep: "list_all (replayable (ending c eng2 1)) [logged_update 1 k v, end_record c 1]" for c
    using kv by (simp add: logged_replayable end_replayable i32_def)
  have res: "restartable (ending c eng2 1) [k \<mapsto> [(1, compress_value eng2 v)]] [logged_update 1 k v, end_record c 1]" for c
    unfolding restartable_def
  proof (intro conjI exI)
    show "h + length [logged_update 1 k v, end_record c 1] \<le> 3" using s(2) by simp
    show "kv_on h (ending c eng2 1) ls P" by (rule kve)
    show "st_data (wl_fd (eng_wal (ending c eng2 1))) =
      concat (map wal_bytes [logged_update 1 k v, end_record c 1]) @ []" by (rule wd)
    show "tree_pool 4 (length [logged_update 1 k v, end_record c 1] * (3 + 3)) (eng_pool (ending c eng2 1))"
      using ending_pages(1) [OF l(4)] by simp
  qed (use idx hm rep mt in \<open>simp_all add: ending_def ss i32_def\<close>)
  from that [OF _ b s(1) _ _ ss(4) res] show ?thesis using e(1) by (simp add: garry_storage_init_def ss e(8,12))
qed

subsection \<open>Properties\<close>

text \<open>C22. Creating a database makes an empty store, and makes it durable: with settings in the
  documented ranges, a new file and a log that opens, the engine represents the abstract store
  without versions and transactions, the header page reads back as the header of the handle, and
  every page is in the file as the engine sees it.\<close>

theorem engine_init_empty_store:
  assumes "settings_ok settings" "new_file fd" "st_is_open wal_fd" "n \<le> 1000"
  shows "\<exists>eng. garry_storage_init fd mem wal_fd (Some path) settings = Some eng \<and>
    store_rep n eng \<lparr>ss_versions = (\<lambda>_. []), ss_active = [], ss_running = {}, ss_next = 1,
      ss_limit = es_max_txns settings\<rparr> \<and>
    header_on (eng_pool eng) (eng_header eng) \<and>
    (\<forall>q. agree 0 (eng_page_size eng) (f_pages (bp_fd (eng_pool eng)) q) (page_view (eng_pool eng) q))"
proof -
  have a: "n * (29 + 15 * n) \<le> 1000 * 15029" "n * (3 + n) \<le> 1000 * 1003"
    using assms(4) by (intro mult_le_mono; simp)+
  have "15029000 < (2 :: nat) ^ 30" "1003000 < (2 :: nat) ^ 30" by simp_all
  from engine_init_spec [OF assms(1-3) this, of mem path] obtain eng where e:
    "garry_engine_init fd mem wal_fd path settings = Some eng" "kv_on 0 eng [] {1}"
    "tree_pool 15029000 1003000 (eng_pool eng)" "txn_inv eng" "eng_active_txns eng = []" "eng_next_txid eng = 1"
    "eng_max_txns eng = es_max_txns settings" "header_on (eng_pool eng) (eng_header eng)"
    "\<forall>q. agree 0 (eng_page_size eng) (f_pages (bp_fd (eng_pool eng)) q) (page_view (eng_pool eng) q)" by metis
  have "tree_pool (n * (29 + 15 * n)) (n * (3 + n)) (eng_pool eng)" by (rule tree_pool_mono [OF e(3)]) (use a in simp_all)
  from engine_init_store_rep [OF e(2) this e(4-6)] assms(4) e(1,7-9) show ?thesis
    by (simp add: garry_storage_init_def)
qed

theorem engine_init_empty_store_witness:
  "\<exists>eng. garry_storage_init demo_file (\<lambda>_ _. 0) (garry_file_open [] 0 True) (Some ''db'')
      garry_default_engine_settings = Some eng \<and> store_rep 10 eng fresh_store"
proof -
  have "settings_ok garry_default_engine_settings"
    by (simp add: settings_ok_def garry_default_engine_settings_def i32_def GARRY_COMPRESS_NONE_def)
  moreover have "new_file demo_file" by (simp add: new_file_def demo_file_def)
  moreover have "st_is_open (garry_file_open [] 0 True)" by (simp add: garry_file_open_def)
  ultimately show ?thesis
    using engine_init_empty_store [of garry_default_engine_settings demo_file "garry_file_open [] 0 True" 10
        "\<lambda>_ _. 0" "''db''"]
    by (auto simp: fresh_store_def garry_default_engine_settings_def)
qed

text \<open>C17. Closing a database and opening its file again keeps every version log, when the file has at
  least 65536 bytes or its pages have 4096 bytes: the page size is read from the header of the file,
  the open succeeds, the new engine and its cache have the page size of the old one, it shows the
  logs of the old one with the records of the write-ahead log replayed, no transaction runs, and the
  next transaction identifier is not lower than it was and lies past every commit. The records of
  the log are those that recovery can replay: commits, rollbacks and deletions, and updates with a
  key of less than 256 bytes and a value of at most 256 bytes, which is not empty under compression.\<close>

theorem restart_keeps_logs:
  assumes "restartable eng M rs" "garry_storage_close eng = (fd, wal)" "reopens fd (eng_page_size eng) disk"
  shows "\<exists>eng'. garry_storage_open disk mem (garry_file_open (st_data wal) room True) (Some path) = Some (Some eng') \<and>
    open_page_size disk = eng_page_size eng \<and>
    eng_page_size eng' = eng_page_size eng \<and> bp_page_size (eng_pool eng') = eng_page_size eng \<and>
    shows_logs eng' (foldl (replay_effect eng (committed_in rs)) M rs) \<and> eng_active_txns eng' = [] \<and>
    eng_next_txid eng \<le> eng_next_txid eng' \<and> (\<forall>t \<in> set (committed_in rs). t < eng_next_txid eng')"
proof -
  from restart_spec [OF assms, of mem room] obtain eng0 where e:
    "recoverable eng0 M rs" "eng_active_txns eng0 = []" "eng_next_txid eng0 = eng_next_txid eng"
    "eng_compression eng0 = eng_compression eng" "eng_page_size eng0 = eng_page_size eng"
    "garry_storage_open disk mem (garry_file_open (st_data wal) room True) (Some path) =
       map_option (\<lambda>(eng, ok). if ok then Some eng else None) (garry_wal_recover eng0)"
    "open_page_size disk = eng_page_size eng" by metis
  from e(1) obtain eng' where r: "garry_wal_recover eng0 = Some (eng', True)"
    "shows_logs eng' (foldl (replay_effect eng0 (committed_in rs)) M rs)"
    "eng_next_txid eng' = foldl bump_txid (eng_next_txid eng0) (committed_in rs)"
    "eng_active_txns eng' = eng_active_txns eng0" "eng_page_size eng' = eng_page_size eng0" by (rule recover_spec)
  have "replay_effect eng0 = replay_effect eng" by (rule replay_cong(2) [OF e(4,5)])
  moreover have "bp_page_size (eng_pool eng') = eng_page_size eng'"
    using r(2) kv_onD(1) by (force simp: shows_logs_def)
  ultimately show ?thesis using r e by (auto simp: bump_txid_ge bump_txid_greater)
qed

text \<open>What a new transaction reads after a restart.\<close>

lemma restart_read:
  assumes "restartable eng M rs" "garry_storage_close eng = (fd, wal)" "reopens fd (eng_page_size eng) disk"
    and "k \<noteq> []" "length k < 256"
  shows "\<exists>eng1 eng2 t eng3.
    garry_storage_open disk mem (garry_file_open (st_data wal) room True) (Some path) = Some (Some eng1) \<and>
    garry_storage_begin eng1 = (eng2, t) \<and> eng_next_txid eng \<le> t \<and>
    garry_storage_get eng2 t k = Some (eng3,
       Option.bind (read_log t [t] (case foldl (change_log eng) (M k) (key_changes rs k) of
                                      None \<Rightarrow> [] | Some xs \<Rightarrow> xs)) (decompress_value eng))"
proof -
  from restart_spec [OF assms(1-3), of mem room] obtain eng0 where e:
    "recoverable eng0 M rs" "txn_inv eng0" "eng_active_txns eng0 = []" "0 < eng_max_txns eng0"
    "eng_next_txid eng0 = eng_next_txid eng" "eng_compression eng0 = eng_compression eng"
    "eng_page_size eng0 = eng_page_size eng"
    "garry_storage_open disk mem (garry_file_open (st_data wal) room True) (Some path) =
       map_option (\<lambda>(eng, ok). if ok then Some eng else None) (garry_wal_recover eng0)" by metis
  have cv: "compress_value eng0 = compress_value eng" by (simp add: compress_value_def fun_eq_iff e(6))
  have c: "change_log eng0 = change_log eng" unfolding change_log_def e(7) cv by (rule refl)
  have d: "decompress_value eng0 = decompress_value eng" by (simp add: decompress_value_def fun_eq_iff e(6))
  from e(1-4) assms(4,5) obtain eng1 eng2 t eng3 where g: "garry_wal_recover eng0 = Some (eng1, True)"
    "garry_storage_begin eng1 = (eng2, t)" "eng_next_txid eng0 \<le> t"
    "garry_storage_get eng2 t k = Some (eng3,
       Option.bind (read_log t [t] (case foldl (change_log eng0) (M k) (key_changes rs k) of
                                      None \<Rightarrow> [] | Some xs \<Rightarrow> xs)) (decompress_value eng0))"
    by (rule recover_then_read) blast
  then show ?thesis using e(5,8) by (auto simp: c d)
qed

lemma write_ends_restart:
  assumes "settings_ok settings" "new_file fd" "wal_fd = garry_file_open [] room True" "1584 \<le> room"
    and "k \<noteq> []" "length k < 256" "v \<noteq> []" "length v \<le> 256"
  shows "\<exists>eng1 eng2 eng3. garry_storage_init fd mem wal_fd (Some path) settings = Some eng1 \<and>
    garry_storage_begin eng1 = (eng2, 1) \<and> garry_storage_set True eng2 1 k v = Some (eng3, True) \<and>
    (\<forall>fd' wal'. garry_storage_close (ending c eng3 1) = (fd', wal') \<longrightarrow>
      (\<exists>disk. reopens fd' (es_page_size settings) disk) \<and>
      (\<forall>disk. reopens fd' (es_page_size settings) disk \<longrightarrow>
        (\<exists>eng4 eng5 t eng6.
          garry_storage_open disk mem' (garry_file_open (st_data wal') room' True) (Some path) = Some (Some eng4) \<and>
          garry_storage_begin eng4 = (eng5, t) \<and> garry_storage_get eng5 t k = Some (eng6, Some v))))"
proof -
  from assms obtain eng1 eng2 eng3 where e: "garry_storage_init fd mem wal_fd (Some path) settings = Some eng1"
    "garry_storage_begin eng1 = (eng2, 1)" "garry_storage_set True eng2 1 k v = Some (eng3, True)"
    "eng_page_size eng3 = es_page_size settings" "eng_compression eng3 = es_compression settings"
    "eng_next_txid eng3 = 2"
    "\<And>c. restartable (ending c eng3 1) [k \<mapsto> [(1, compress_value eng3 v)]] [logged_update 1 k v, end_record c 1]"
    by (rule created_write) blast
  have "\<exists>eng4 eng5 t eng6.
      garry_storage_open disk mem' (garry_file_open (st_data wal') room' True) (Some path) = Some (Some eng4) \<and>
      garry_storage_begin eng4 = (eng5, t) \<and> garry_storage_get eng5 t k = Some (eng6, Some v)"
    if c: "garry_storage_close (ending c eng3 1) = (fd', wal')" and f: "reopens fd' (es_page_size settings) disk"
    for fd' wal' disk
  proof -
    let ?rs = "[logged_update 1 k v, end_record c 1]" and ?xs = "[(1, compress_value eng3 v)]"
    have fs: "reopens fd' (eng_page_size (ending c eng3 1)) disk" using f e(4) by (simp add: ending_def)
    have kc: "foldl (change_log (ending c eng3 1)) (Some ?xs) (key_changes ?rs k) = Some ?xs"
      using assms(8) by (cases c) (simp_all add: key_changes_def committed_in_def end_record_sel logged_update_sel)
    from restart_read [OF e(7) c fs assms(5,6), of mem' room' path] obtain eng4 eng5 t eng6 where r:
      "garry_storage_open disk mem' (garry_file_open (st_data wal') room' True) (Some path) = Some (Some eng4)"
      "garry_storage_begin eng4 = (eng5, t)" "eng_next_txid (ending c eng3 1) \<le> t"
      "garry_storage_get eng5 t k = Some (eng6, Option.bind (read_log t [t] ?xs) (decompress_value (ending c eng3 1)))"
      using kc by auto
    have dc: "decompress_value (ending c eng3 1) = decompress_value eng3"
      by (simp add: decompress_value_def fun_eq_iff ending_def)
    have "value_ok eng3 v" using assms(7,8) by (simp add: value_ok_def)
    then obtain payload where p: "compress_value eng3 v = Some payload" "decompress_value eng3 payload = Some v"
      by (rule payload_ok)
    have "1 < t" using r(3) e(6) by (simp add: ending_def split: if_splits)
    with r p show ?thesis by (auto simp: read_log_def may_see_def dc)
  qed
  moreover have "\<exists>disk. reopens fd' (es_page_size settings) disk"
    if "garry_storage_close (ending c eng3 1) = (fd', wal')" for fd' wal'
  proof -
    have "eng_page_size (ending c eng3 1) = es_page_size settings" using e(4) by (simp add: ending_def)
    with closed_file_reopens [OF e(7) that] show ?thesis by simp
  qed
  ultimately show ?thesis using e(1-3) by blast
qed

text \<open>C18. A committed value survives a restart: on a new database, a value that is set and committed is
  what the first transaction after closing and opening again gets for the key, from any file with
  the pages that closing left which has at least 65536 bytes or pages of 4096 bytes. There is such a
  file.\<close>

theorem committed_write_survives_restart:
  assumes "settings_ok settings" "new_file fd" "wal_fd = garry_file_open [] room True" "1584 \<le> room"
    and "k \<noteq> []" "length k < 256" "v \<noteq> []" "length v \<le> 256"
  shows "\<exists>eng1 eng2 eng3. garry_storage_init fd mem wal_fd (Some path) settings = Some eng1 \<and>
    garry_storage_begin eng1 = (eng2, 1) \<and> garry_storage_set True eng2 1 k v = Some (eng3, True) \<and>
    (\<forall>fd' wal'. garry_storage_close (garry_storage_commit eng3 1) = (fd', wal') \<longrightarrow>
      (\<exists>disk. reopens fd' (es_page_size settings) disk) \<and>
      (\<forall>disk. reopens fd' (es_page_size settings) disk \<longrightarrow>
        (\<exists>eng4 eng5 t eng6.
          garry_storage_open disk mem' (garry_file_open (st_data wal') room' True) (Some path) = Some (Some eng4) \<and>
          garry_storage_begin eng4 = (eng5, t) \<and> garry_storage_get eng5 t k = Some (eng6, Some v))))"
  using write_ends_restart [OF assms, of mem path True mem' room'] by (simp only: ending_def if_True)

text \<open>C40. A rolled-back value comes back with a restart: on a new database, a value that is set and
  rolled back is what the first transaction after closing and opening again gets for the key, from
  any file with the pages that closing left which has at least 65536 bytes or pages of 4096 bytes.
  Its version stays in the chain, and what hides it is an entry of the transaction table, which is
  not kept.\<close>

theorem rolled_back_write_returns_after_restart:
  assumes "settings_ok settings" "new_file fd" "wal_fd = garry_file_open [] room True" "1584 \<le> room"
    and "k \<noteq> []" "length k < 256" "v \<noteq> []" "length v \<le> 256"
  shows "\<exists>eng1 eng2 eng3. garry_storage_init fd mem wal_fd (Some path) settings = Some eng1 \<and>
    garry_storage_begin eng1 = (eng2, 1) \<and> garry_storage_set True eng2 1 k v = Some (eng3, True) \<and>
    (\<forall>fd' wal'. garry_storage_close (garry_storage_rollback eng3 1) = (fd', wal') \<longrightarrow>
      (\<exists>disk. reopens fd' (es_page_size settings) disk) \<and>
      (\<forall>disk. reopens fd' (es_page_size settings) disk \<longrightarrow>
        (\<exists>eng4 eng5 t eng6.
          garry_storage_open disk mem' (garry_file_open (st_data wal') room' True) (Some path) = Some (Some eng4) \<and>
          garry_storage_begin eng4 = (eng5, t) \<and> garry_storage_get eng5 t k = Some (eng6, Some v))))"
  using write_ends_restart [OF assms, of mem path False mem' room'] by (simp only: ending_def if_False)

lemma default_settings_ok: "settings_ok garry_default_engine_settings" "es_page_size garry_default_engine_settings = 4096"
  "es_compression garry_default_engine_settings = 0"
  by (simp_all add: settings_ok_def garry_default_engine_settings_def i32_def GARRY_COMPRESS_NONE_def)

text \<open>Settings with another page size than the default.\<close>

abbreviation large_pages :: garry_engine_settings where
  "large_pages \<equiv> garry_default_engine_settings\<lparr>es_page_size := 8192\<rparr>"

lemma large_pages_ok: "settings_ok large_pages" "es_page_size large_pages = 8192" "es_compression large_pages = 0"
  by (simp_all add: settings_ok_def garry_default_engine_settings_def i32_def GARRY_COMPRESS_NONE_def)

lemma demo_new_file: "new_file demo_file"
  by (simp add: new_file_def demo_file_def)

abbreviation demo_log :: garry_stream where
  "demo_log \<equiv> garry_file_open [] 10000 True"

theorem committed_write_survives_restart_witness:
  "\<exists>eng1 eng2 eng3 fd wal disk eng4 eng5 t eng6.
    garry_storage_init demo_file (\<lambda>_ _. 0) demo_log (Some ''db'') large_pages = Some eng1 \<and>
    garry_storage_begin eng1 = (eng2, 1) \<and> garry_storage_set True eng2 1 [107] [1] = Some (eng3, True) \<and>
    garry_storage_close (garry_storage_commit eng3 1) = (fd, wal) \<and> reopens fd 8192 disk \<and>
    garry_storage_open disk (\<lambda>_ _. 0) (garry_file_open (st_data wal) 10000 True) (Some ''db'') = Some (Some eng4) \<and>
    garry_storage_begin eng4 = (eng5, t) \<and> garry_storage_get eng5 t [107] = Some (eng6, Some [1])"
proof -
  have "(1584 :: nat) \<le> 10000" "[107 :: byte] \<noteq> []" "length [107 :: byte] < 256" "[1 :: byte] \<noteq> []"
    "length [1 :: byte] \<le> 256" by simp_all
  from committed_write_survives_restart [OF large_pages_ok(1) demo_new_file refl this, of "\<lambda>_ _. 0" "''db''"
      "\<lambda>_ _. 0" 10000] large_pages_ok(2) surj_pair
  show ?thesis by metis
qed

theorem rolled_back_write_returns_after_restart_witness:
  "\<exists>eng1 eng2 eng3 fd wal disk eng4 eng5 t eng6.
    garry_storage_init demo_file (\<lambda>_ _. 0) demo_log (Some ''db'') garry_default_engine_settings = Some eng1 \<and>
    garry_storage_begin eng1 = (eng2, 1) \<and> garry_storage_set True eng2 1 [107] [1] = Some (eng3, True) \<and>
    garry_storage_close (garry_storage_rollback eng3 1) = (fd, wal) \<and> reopens fd 4096 disk \<and>
    garry_storage_open disk (\<lambda>_ _. 0) (garry_file_open (st_data wal) 10000 True) (Some ''db'') = Some (Some eng4) \<and>
    garry_storage_begin eng4 = (eng5, t) \<and> garry_storage_get eng5 t [107] = Some (eng6, Some [1])"
proof -
  have "(1584 :: nat) \<le> 10000" "[107 :: byte] \<noteq> []" "length [107 :: byte] < 256" "[1 :: byte] \<noteq> []"
    "length [1 :: byte] \<le> 256" by simp_all
  from rolled_back_write_returns_after_restart [OF default_settings_ok(1) demo_new_file refl this, of "\<lambda>_ _. 0" "''db''"
      "\<lambda>_ _. 0" 10000] default_settings_ok(2) surj_pair
  show ?thesis by metis
qed

theorem restart_keeps_logs_witness:
  "\<exists>eng fd wal disk eng'. garry_storage_close eng = (fd, wal) \<and> reopens fd 8192 disk \<and>
    garry_storage_open disk (\<lambda>_ _. 0) (garry_file_open (st_data wal) 10000 True) (Some ''db'') = Some (Some eng') \<and>
    shows_logs eng' [[107] \<mapsto> [(1, Some [1])]] \<and> 1 < eng_next_txid eng'"
proof -
  have "(1584 :: nat) \<le> 10000" "[107 :: byte] \<noteq> []" "length [107 :: byte] < 256" "[1 :: byte] \<noteq> []"
    "length [1 :: byte] \<le> 256" by simp_all
  from created_write [OF large_pages_ok(1) demo_new_file refl this, of "\<lambda>_ _. 0" "''db''"] obtain eng2 where e:
    "eng_page_size eng2 = 8192" "eng_compression eng2 = 0"
    "\<And>c. restartable (ending c eng2 1) [[107] \<mapsto> [(1, compress_value eng2 [1])]]
       [logged_update 1 [107] [1], end_record c 1]"
    by (metis large_pages_ok(2,3))
  let ?eng = "ending True eng2 1" and ?rs = "[logged_update 1 [107] [1], end_record True 1]"
  obtain fd wal where c: "garry_storage_close ?eng = (fd, wal)" by fastforce
  from closed_file_reopens [OF e(3) c] obtain disk where d: "reopens fd (eng_page_size ?eng) disk" by blast
  from restart_keeps_logs [OF e(3) c d, of "\<lambda>_ _. 0" 10000 "''db''"] obtain eng' where o:
    "garry_storage_open disk (\<lambda>_ _. 0) (garry_file_open (st_data wal) 10000 True) (Some ''db'') = Some (Some eng')"
    "shows_logs eng' (foldl (replay_effect ?eng (committed_in ?rs)) [[107] \<mapsto> [(1, compress_value eng2 [1])]] ?rs)"
    "\<forall>t \<in> set (committed_in ?rs). t < eng_next_txid eng'" by blast
  have "compress_value eng2 [1] = Some [1]" by (simp add: compress_value_def e(2) GARRY_COMPRESS_LZ4_def)
  then have "shows_logs eng' [[107] \<mapsto> [(1, Some [1])]]"
    using o(2) by (simp add: replay_effect_def committed_in_def end_record_sel logged_update_sel)
  moreover have "1 < eng_next_txid eng'" using o(3) by (simp add: committed_in_def end_record_sel logged_update_sel)
  moreover have "reopens fd 8192 disk" using d e(1) by (simp add: ending_def)
  ultimately show ?thesis using c o(1) by blast
qed

end
