(* ===== verification/Garry_Navigation.thy ===== *)
theory Garry_Navigation
  imports Garry_Store
begin

text \<open>
  Scanning and navigating the store: \<open>src/src/storage_cursor.h\<close>, \<open>src/src/storage_cursor.c\<close> and
  \<open>src/src/storage_navigation.c\<close>.

  A storage cursor is a cursor of the index and a transaction; the engine it points to is passed
  along. The loops end only if the leaves of the index do, so they are partial functions: \<open>None\<close> is
  a call that never returns. Output buffers are as large as the code expects and a descriptor is
  followed by zeroes in the lookup buffer.

  The lemmas show that on a well-formed store a scan delivers exactly the visible keys with the
  prefix, in order, with their values, and that the first, next and previous keys are those of that
  list.
\<close>

subsection \<open>Storage cursors (storage\_cursor.c)\<close>

record garry_storage_cursor =
  sc_btree_cur :: garry_btree_cursor_handle
  sc_txn :: int

definition garry_storage_cursor_open ::
  "garry_engine_handle \<Rightarrow> int \<Rightarrow> byte list option \<Rightarrow> int \<Rightarrow> (garry_engine_handle \<times> garry_storage_cursor) option" where
  "garry_storage_cursor_open eng txn pfx plen =
     (let buf = (case pfx of None \<Rightarrow> (\<lambda>_. 0)
                 | Some bs \<Rightarrow> if plen > 0 then put_bytes (\<lambda>_. 0) 0 (take (nat plen) bs) else (\<lambda>_. 0))
      in map_option (\<lambda>(pool, cur). (eng\<lparr>eng_pool := pool\<rparr>, \<lparr>sc_btree_cur = cur, sc_txn = txn\<rparr>))
           (garry_btree_cursor_open (eng_pool eng) (eng_btree_root eng) (Some buf) plen))"

text \<open>Which of the outputs \<open>value\<close> and \<open>vlen\<close> the caller asks for.\<close>

datatype outputs = Value_and_length | Value_only | Length_only | Neither

text \<open>The descriptor in the slot before the current one, if the cursor stands on one.\<close>

definition cursor_chain :: "garry_btree_cursor_handle \<Rightarrow> int option" where
  "cursor_chain cur =
     (let node = cu_current_node cur; idx = cu_current_slot cur - 1
      in if \<not> cu_node_loaded cur then None
         else if idx < 0 \<or> idx \<ge> nd_entry_count node then None
         else
           (let lookup = nd_values node idx
            in if length lookup = 0 \<or> int (length lookup) > GARRY_LOOKUP_BUF_SIZE then None
               else (let cid = garry_decode_cid_from_descriptor lookup in if cid < 0 then None else Some cid)))"

text \<open>What is stored through the outputs: \<open>None\<close> skips the entry, \<open>Some None\<close> stores nothing.\<close>

definition cursor_output :: "garry_engine_handle \<Rightarrow> outputs \<Rightarrow> byte list \<Rightarrow> byte list option option" where
  "cursor_output eng outs val =
     (case outs of
        Value_and_length \<Rightarrow>
          if eng_compression eng = GARRY_COMPRESS_LZ4
          then (case lz4_decompress val GARRY_MAX_RECORD_SIZE of
                  None \<Rightarrow> None
                | Some d \<Rightarrow> Some (if length d \<le> GARRY_MAX_RECORD_SIZE then Some d else None))
          else Some (Some val)
      | Length_only \<Rightarrow> Some (Some [])
      | _ \<Rightarrow> Some None)"

text \<open>The loop of \<open>garry_storage_cursor_next\<close>; the result is \<open>None\<close> for \<open>GARRY_FALSE\<close>, else the key and
  what is stored through the outputs.\<close>

partial_function (option) storage_cursor_loop ::
  "outputs \<Rightarrow> garry_engine_handle \<Rightarrow> garry_storage_cursor \<Rightarrow>
   (garry_engine_handle \<times> garry_storage_cursor \<times> (byte list \<times> byte list option) option) option" where
  "storage_cursor_loop outs eng cur =
     (case garry_btree_cursor_next (eng_pool eng) (sc_btree_cur cur) of
        None \<Rightarrow> None
      | Some (pool, bc, r) \<Rightarrow>
          (let eng = eng\<lparr>eng_pool := pool\<rparr>; cur = cur\<lparr>sc_btree_cur := bc\<rparr>
           in case r of
                None \<Rightarrow> Some (eng, cur, None)
              | Some bkey \<Rightarrow>
                  (case cursor_chain bc of
                     None \<Rightarrow> storage_cursor_loop outs eng cur
                   | Some cid \<Rightarrow>
                       (case garry_mvcc_get eng (sc_txn cur) cid of
                          (eng, None) \<Rightarrow> storage_cursor_loop outs eng cur
                        | (eng, Some val) \<Rightarrow>
                            if outs = Value_only then Some (eng, cur, None)
                            else (case cursor_output eng outs val of
                                    None \<Rightarrow> storage_cursor_loop outs eng cur
                                  | Some out \<Rightarrow> Some (eng, cur, Some (bkey, out)))))))"

definition garry_storage_cursor_next ::
  "outputs \<Rightarrow> garry_engine_handle \<Rightarrow> garry_storage_cursor \<Rightarrow>
   (garry_engine_handle \<times> garry_storage_cursor \<times> (byte list \<times> byte list option) option) option" where
  "garry_storage_cursor_next outs eng cur =
     (if cu_exhausted (sc_btree_cur cur) then Some (eng, cur, None) else storage_cursor_loop outs eng cur)"

definition garry_storage_cursor_peek ::
  "garry_engine_handle \<Rightarrow> garry_storage_cursor \<Rightarrow> garry_engine_handle \<times> byte list option" where
  "garry_storage_cursor_peek eng cur =
     (if cu_exhausted (sc_btree_cur cur) then (eng, None)
      else (case garry_btree_cursor_peek (eng_pool eng) (sc_btree_cur cur) of
              (pool, r) \<Rightarrow> (eng\<lparr>eng_pool := pool\<rparr>, r)))"

partial_function (option) skip_prefix_loop ::
  "byte list \<Rightarrow> garry_engine_handle \<Rightarrow> garry_storage_cursor \<Rightarrow>
   (garry_engine_handle \<times> garry_storage_cursor \<times> bool) option" where
  "skip_prefix_loop skip eng cur =
     (case garry_storage_cursor_next Neither eng cur of
        None \<Rightarrow> None
      | Some (eng, cur, None) \<Rightarrow> Some (eng, cur, False)
      | Some (eng, cur, Some (key, _)) \<Rightarrow>
          if length key \<ge> length skip \<and> take (length skip) key = skip
          then skip_prefix_loop skip eng cur
          else Some (eng, cur\<lparr>sc_btree_cur := (sc_btree_cur cur)\<lparr>cu_saved_key := key, cu_has_saved := True\<rparr>\<rparr>, True))"

definition garry_storage_cursor_skip_prefix ::
  "garry_engine_handle \<Rightarrow> garry_storage_cursor \<Rightarrow> byte list \<Rightarrow>
   (garry_engine_handle \<times> garry_storage_cursor \<times> bool) option" where
  "garry_storage_cursor_skip_prefix eng cur skip =
     (if cu_exhausted (sc_btree_cur cur) then Some (eng, cur, False) else skip_prefix_loop skip eng cur)"

definition garry_storage_cursor_close :: "garry_storage_cursor \<Rightarrow> garry_storage_cursor" where
  "garry_storage_cursor_close cur = cur\<lparr>sc_btree_cur := garry_btree_cursor_close (sc_btree_cur cur)\<rparr>"

subsection \<open>Navigation (storage\_navigation.c)\<close>

definition garry_storage_first ::
  "garry_engine_handle \<Rightarrow> int \<Rightarrow> (garry_engine_handle \<times> byte list option) option" where
  "garry_storage_first eng txn =
     (if \<not> garry_txn_is_active txn eng then Some (eng, None)
      else
        (case garry_storage_cursor_open eng txn None 0 of
           None \<Rightarrow> None
         | Some (eng, cur) \<Rightarrow>
             map_option (\<lambda>(eng, cur, r). (eng, map_option fst r)) (garry_storage_cursor_next Neither eng cur)))"

text \<open>The last leaf, and the walk back over the leaves from the last entry of each.\<close>

partial_function (option) last_leaf :: "garry_buffer_pool \<Rightarrow> int \<Rightarrow> (garry_buffer_pool \<times> int option) option" where
  "last_leaf pool page =
     (let (pool, node) = garry_load_node pool page
      in if nd_kind node = GARRY_NODE_LEAF then Some (pool, Some page)
         else if nd_entry_count node = 0 then Some (pool, None)
         else last_leaf pool (nd_children node (nd_entry_count node)))"

fun last_visible :: "garry_btree_node \<Rightarrow> garry_engine_handle \<Rightarrow> int \<Rightarrow> int list \<Rightarrow> garry_engine_handle \<times> byte list option" where
  "last_visible node eng txn [] = (eng, None)"
| "last_visible node eng txn (idx # idxs) =
     (let lookup = nd_values node idx; cid = garry_decode_cid_from_descriptor lookup
      in if length lookup > 0 \<and> int (length lookup) \<le> GARRY_LOOKUP_BUF_SIZE \<and> cid \<ge> 0
         then (case garry_mvcc_get eng txn cid of
                 (eng, Some val) \<Rightarrow> (eng, Some (nd_keys node idx))
               | (eng, None) \<Rightarrow> last_visible node eng txn idxs)
         else last_visible node eng txn idxs)"

partial_function (option) walk_back ::
  "garry_engine_handle \<Rightarrow> int \<Rightarrow> int \<Rightarrow> (garry_engine_handle \<times> byte list option) option" where
  "walk_back eng txn page =
     (if page < 0 then Some (eng, None)
      else
        (let (pool, node) = garry_load_node (eng_pool eng) page
         in case last_visible node (eng\<lparr>eng_pool := pool\<rparr>) txn (rev [0..nd_entry_count node - 1]) of
              (eng, Some key) \<Rightarrow> Some (eng, Some key)
            | (eng, None) \<Rightarrow> walk_back eng txn (nd_prev_page node)))"

definition garry_storage_last ::
  "garry_engine_handle \<Rightarrow> int \<Rightarrow> (garry_engine_handle \<times> byte list option) option" where
  "garry_storage_last eng txn =
     (if \<not> garry_txn_is_active txn eng then Some (eng, None)
      else
        (case last_leaf (eng_pool eng) (eng_btree_root eng) of
           None \<Rightarrow> None
         | Some (pool, None) \<Rightarrow> Some (eng\<lparr>eng_pool := pool\<rparr>, None)
         | Some (pool, Some page) \<Rightarrow> walk_back (eng\<lparr>eng_pool := pool\<rparr>) txn page))"

partial_function (option) next_key_loop ::
  "byte list \<Rightarrow> garry_engine_handle \<Rightarrow> garry_storage_cursor \<Rightarrow> (garry_engine_handle \<times> byte list option) option" where
  "next_key_loop after eng cur =
     (case garry_storage_cursor_next Neither eng cur of
        None \<Rightarrow> None
      | Some (eng, cur, None) \<Rightarrow> Some (eng, None)
      | Some (eng, cur, Some (k, _)) \<Rightarrow>
          if garry_byte_compare k after > 0 then Some (eng, Some k) else next_key_loop after eng cur)"

definition garry_storage_next_key ::
  "garry_engine_handle \<Rightarrow> int \<Rightarrow> byte list \<Rightarrow> (garry_engine_handle \<times> byte list option) option" where
  "garry_storage_next_key eng txn after =
     (if \<not> garry_txn_is_active txn eng then Some (eng, None)
      else if length after = 0 then Some (eng, None)
      else
        (case garry_storage_cursor_open eng txn None 0 of
           None \<Rightarrow> None
         | Some (eng, cur) \<Rightarrow> next_key_loop after eng cur))"

partial_function (option) prev_key_loop ::
  "byte list \<Rightarrow> byte list option \<Rightarrow> garry_engine_handle \<Rightarrow> garry_storage_cursor \<Rightarrow>
   (garry_engine_handle \<times> byte list option) option" where
  "prev_key_loop before found eng cur =
     (case garry_storage_cursor_next Neither eng cur of
        None \<Rightarrow> None
      | Some (eng, cur, None) \<Rightarrow> Some (eng, found)
      | Some (eng, cur, Some (k, _)) \<Rightarrow>
          prev_key_loop before (if garry_byte_compare k before < 0 then Some k else found) eng cur)"

definition garry_storage_prev_key ::
  "garry_engine_handle \<Rightarrow> int \<Rightarrow> byte list \<Rightarrow> (garry_engine_handle \<times> byte list option) option" where
  "garry_storage_prev_key eng txn before =
     (if \<not> garry_txn_is_active txn eng then Some (eng, None)
      else if length before = 0 then Some (eng, None)
      else
        (case garry_storage_cursor_open eng txn None 0 of
           None \<Rightarrow> None
         | Some (eng, cur) \<Rightarrow> prev_key_loop before None eng cur))"

subsection \<open>What a cursor shows\<close>

text \<open>The entries of the store the cursor has yet to visit, each costing at most \<open>2 * m\<close> pins of index
  pages.\<close>

definition scan_at ::
  "nat \<Rightarrow> garry_engine_handle \<Rightarrow> garry_btree_cursor_handle \<Rightarrow> chains \<Rightarrow> bool" where
  "scan_at m eng bc rs \<longleftrightarrow>
     (\<exists>s es ess. cursor_at (eng_pool eng) bc s es ess \<and> Suc (length ess) \<le> m \<and>
        filter (cursor_wants bc) (drop s es @ concat ess) = map index_entry rs)"

lemma scan_at_frame:
  "scan_at m eng bc rs \<Longrightarrow> page_frame {} (eng_pool eng) (eng_pool eng') \<Longrightarrow> scan_at m eng' bc rs"
  unfolding scan_at_def using cursor_at_frame by blast

lemma scan_atD: "scan_at m eng bc rs \<Longrightarrow> \<not> cu_exhausted bc \<and> \<not> cu_has_saved bc"
  by (auto simp: scan_at_def cursor_at_def)

text \<open>What an entry gives the caller; \<open>None\<close> if it is passed over.\<close>

definition shown ::
  "outputs \<Rightarrow> garry_engine_handle \<Rightarrow> int \<Rightarrow> key \<times> int \<times> version list \<Rightarrow> (byte list \<times> byte list option) option" where
  "shown outs eng t = (\<lambda>(k, c, xs).
     case read_log t (eng_active_txns eng) xs of
       None \<Rightarrow> None
     | Some v \<Rightarrow> map_option (Pair k) (cursor_output eng outs v))"

lemma shown_cong: "eng_active_txns eng' = eng_active_txns eng \<Longrightarrow> eng_compression eng' = eng_compression eng \<Longrightarrow>
    shown outs eng' t = shown outs eng t"
proof -
  assume a: "eng_active_txns eng' = eng_active_txns eng" "eng_compression eng' = eng_compression eng"
  then have c: "cursor_output eng' outs = cursor_output eng outs" by (simp add: cursor_output_def fun_eq_iff)
  show ?thesis unfolding shown_def a(1) c by (rule refl)
qed

lemma cursor_output_value:
  "cursor_output eng Value_and_length v = map_option Some (decompress_value eng v)"
proof (cases "lz4_decompress v GARRY_MAX_RECORD_SIZE")
  case (Some d)
  then have "length d \<le> GARRY_MAX_RECORD_SIZE"
    using decompress_loop_within [of GARRY_MAX_RECORD_SIZE v "[]" d]
    by (simp add: lz4_decompress_def split: if_splits)
  with Some show ?thesis by (simp add: cursor_output_def decompress_value_def)
qed (simp add: cursor_output_def decompress_value_def)

lemma shown_value:
  "shown Value_and_length eng t (k, c, xs) =
     map_option (\<lambda>d. (k, Some d)) (Option.bind (read_log t (eng_active_txns eng) xs) (decompress_value eng))"
  by (simp add: shown_def cursor_output_value option.map_comp o_def split: option.split)

lemma shown_neither:
  "shown Neither eng t (k, c, xs) =
     (if read_log t (eng_active_txns eng) xs = None then None else Some (k, None))"
  by (auto simp: shown_def cursor_output_def split: option.split)

lemma cursor_chain_stands:
  assumes "stands_on bc (descriptor_bytes c False)" "i32 c" "0 \<le> c"
  shows "cursor_chain bc = Some c"
  using assms length_descriptor_bytes [of c False] decode_cid_descriptor(1) [OF assms(2), of False]
  by (auto simp: cursor_chain_def stands_on_def Let_def GARRY_LOOKUP_BUF_SIZE_def descriptor_bytes_def)

text \<open>One step of the index cursor.\<close>

lemma index_step:
  assumes "scan_at m eng bc rs" "pool_idle (n + 2 * m) (eng_pool eng)"
  obtains pool bc' r where "garry_btree_cursor_next (eng_pool eng) bc = Some (pool, bc', r)"
    "pool_idle n pool" "page_frame {} (eng_pool eng) pool"
    "rs = [] \<Longrightarrow> r = None \<and> cu_exhausted bc'"
    "\<And>k c xs rs'. rs = (k, c, xs) # rs' \<Longrightarrow> r = Some k \<and> stands_on bc' (descriptor_bytes c False) \<and>
       scan_at m (eng\<lparr>eng_pool := pool\<rparr>) bc' rs'"
proof -
  obtain s es ess where a: "cursor_at (eng_pool eng) bc s es ess" "Suc (length ess) \<le> m"
    "filter (cursor_wants bc) (drop s es @ concat ess) = map index_entry rs"
    using assms(1) by (auto simp: scan_at_def)
  have "pool_idle (n + 2 * Suc (length ess)) (eng_pool eng)"
    by (rule pool_idle_mono [OF assms(2)]) (use a(2) in simp)
  from cursor_advance_chain [OF this a(1)] obtain pool bc' r where c:
    "cursor_advance (eng_pool eng) bc = Some (pool, bc', r)" "pool_idle n pool"
    "page_frame {} (eng_pool eng) pool" "delivered bc (length ess) (drop s es @ concat ess) pool bc' r" by blast
  have nx: "garry_btree_cursor_next (eng_pool eng) bc = Some (pool, bc', r)"
    using a(1) c(1) by (simp add: garry_btree_cursor_next_def cursor_at_def)
  show ?thesis
  proof (rule that [OF nx c(2,3)])
    show "r = None \<and> cu_exhausted bc'" if "rs = []"
      using c(4) that by (simp add: delivered_def a(3) del: filter_append)
    fix k ch xs rs' assume rs: "rs = (k, ch, xs) # rs'"
    then have e: "filter (cursor_wants bc) (drop s es @ concat ess) =
        (k, descriptor_bytes ch False) # map index_entry rs'"
      using a(3) by (simp add: index_entry_def)
    from c(4) obtain s' es' ess' where d: "r = Some k" "stands_on bc' (descriptor_bytes ch False)"
      "cursor_at pool bc' s' es' ess'" "length ess' \<le> length ess"
      "filter (cursor_wants bc) (drop s' es' @ concat ess') = map index_entry rs'" "same_prefix bc bc'"
      unfolding delivered_def e by auto
    have "scan_at m (eng\<lparr>eng_pool := pool\<rparr>) bc' rs'"
      unfolding scan_at_def
      by (rule exI [of _ s'], rule exI [of _ es'], rule exI [of _ ess'])
        (use d a(2) in \<open>simp add: same_prefix_wants [OF d(6)] del: filter_append\<close>)
    with d show "r = Some k \<and> stands_on bc' (descriptor_bytes ch False) \<and>
        scan_at m (eng\<lparr>eng_pool := pool\<rparr>) bc' rs'" by simp
  qed
qed

text \<open>A scan state: the engine shows the store, the cursor has these entries left, and the pool can serve
  the visits.\<close>

definition visit_cost :: "nat \<Rightarrow> nat" where
  "visit_cost m = 2 * m + 2"

definition scanning ::
  "nat \<Rightarrow> nat \<Rightarrow> chains \<Rightarrow> int set \<Rightarrow> garry_engine_handle \<Rightarrow> garry_storage_cursor \<Rightarrow> chains \<Rightarrow> bool" where
  "scanning m h ls P eng cur rs \<longleftrightarrow>
     kv_on h eng ls P \<and> set rs \<subseteq> set ls \<and> scan_at m eng (sc_btree_cur cur) rs \<and>
     pool_idle (Suc (length rs) * visit_cost m) (eng_pool eng)"

definition same_store :: "garry_engine_handle \<Rightarrow> garry_engine_handle \<Rightarrow> bool" where
  "same_store eng eng' \<longleftrightarrow> (\<exists>pool. eng' = eng\<lparr>eng_pool := pool\<rparr> \<and> page_frame {} (eng_pool eng) pool)"

lemma same_store_pool: "page_frame {} (eng_pool eng) pool \<Longrightarrow> same_store eng (eng\<lparr>eng_pool := pool\<rparr>)"
  by (auto simp: same_store_def)

lemma same_store_trans: "same_store a b \<Longrightarrow> same_store b c \<Longrightarrow> same_store a c"
  unfolding same_store_def by (fastforce dest: page_frame_trans)

lemma same_store_sel:
  assumes "same_store eng eng'"
  shows "eng_active_txns eng' = eng_active_txns eng" "eng_compression eng' = eng_compression eng"
    "eng_btree_root eng' = eng_btree_root eng" "eng_page_size eng' = eng_page_size eng"
    "shown outs eng' t = shown outs eng t" "decompress_value eng' = decompress_value eng"
    "kv_on h eng ls P \<Longrightarrow> kv_on h eng' ls P"
proof -
  obtain pool where e: "eng' = eng\<lparr>eng_pool := pool\<rparr>" "page_frame {} (eng_pool eng) pool"
    using assms unfolding same_store_def by blast
  show "eng_active_txns eng' = eng_active_txns eng" "eng_compression eng' = eng_compression eng"
    "eng_btree_root eng' = eng_btree_root eng" "eng_page_size eng' = eng_page_size eng"
    "decompress_value eng' = decompress_value eng"
    by (simp_all add: e(1) decompress_value_def fun_eq_iff)
  show "shown outs eng' t = shown outs eng t" by (rule shown_cong) (simp_all add: e(1))
  show "kv_on h eng ls P \<Longrightarrow> kv_on h eng' ls P" by (rule kv_on_view [OF _ e(2)]) (simp_all add: e(1))
qed

text \<open>The cursor stands behind the entry it has just shown.\<close>

definition stands_at ::
  "outputs \<Rightarrow> chains \<Rightarrow> garry_engine_handle \<Rightarrow> garry_storage_cursor \<Rightarrow> byte list \<times> byte list option \<Rightarrow> bool" where
  "stands_at outs ls eng cur x \<longleftrightarrow>
     (\<exists>c xs. (fst x, c, xs) \<in> set ls \<and> stands_on (sc_btree_cur cur) (descriptor_bytes c False) \<and>
        shown outs eng (sc_txn cur) (fst x, c, xs) = Some x)"

text \<open>What one call of \<open>garry_storage_cursor_next\<close> does.\<close>

definition steps_to ::
  "outputs \<Rightarrow> nat \<Rightarrow> nat \<Rightarrow> chains \<Rightarrow> int set \<Rightarrow> garry_engine_handle \<Rightarrow> garry_storage_cursor \<Rightarrow> chains \<Rightarrow>
   garry_engine_handle \<Rightarrow> garry_storage_cursor \<Rightarrow> (byte list \<times> byte list option) option \<Rightarrow> bool" where
  "steps_to outs m h ls P eng cur rs eng' cur' r \<longleftrightarrow>
     same_store eng eng' \<and> sc_txn cur' = sc_txn cur \<and>
     (case List.map_filter (shown outs eng (sc_txn cur)) rs of
        [] \<Rightarrow> r = None \<and> cu_exhausted (sc_btree_cur cur')
      | x # xs \<Rightarrow> r = Some x \<and> stands_at outs ls eng' cur' x \<and> (\<exists>rs'. scanning m h ls P eng' cur' rs' \<and> length rs' < length rs \<and>
          List.map_filter (shown outs eng (sc_txn cur)) rs' = xs))"

lemma cursor_loop_step:
  assumes "scanning m h ls P eng cur ((k, c, xs) # rs)" "outs \<noteq> Value_only"
  obtains pool bc where
    "storage_cursor_loop outs eng cur =
       (case shown outs eng (sc_txn cur) (k, c, xs) of
          None \<Rightarrow> storage_cursor_loop outs (eng\<lparr>eng_pool := pool\<rparr>) (cur\<lparr>sc_btree_cur := bc\<rparr>)
        | Some x \<Rightarrow> Some (eng\<lparr>eng_pool := pool\<rparr>, cur\<lparr>sc_btree_cur := bc\<rparr>, Some x))"
    "page_frame {} (eng_pool eng) pool"
    "scanning m h ls P (eng\<lparr>eng_pool := pool\<rparr>) (cur\<lparr>sc_btree_cur := bc\<rparr>) rs"
    "stands_on bc (descriptor_bytes c False)" "(k, c, xs) \<in> set ls"
proof -
  have a: "kv_on h eng ls P" "(k, c, xs) \<in> set ls" "set rs \<subseteq> set ls"
    "scan_at m eng (sc_btree_cur cur) ((k, c, xs) # rs)"
    "pool_idle (Suc (length rs) * visit_cost m + 2 + 2 * m) (eng_pool eng)"
    using assms(1) by (simp_all add: scanning_def visit_cost_def algebra_simps)
  from a(4,5) obtain p bc r where i: "garry_btree_cursor_next (eng_pool eng) (sc_btree_cur cur) = Some (p, bc, r)"
    "pool_idle (Suc (length rs) * visit_cost m + 2) p" "page_frame {} (eng_pool eng) p"
    "r = Some k" "stands_on bc (descriptor_bytes c False)" "scan_at m (eng\<lparr>eng_pool := p\<rparr>) bc rs"
    by (rule index_step) blast
  let ?e = "eng\<lparr>eng_pool := p\<rparr>"
  note kv = same_store_sel(7) [OF same_store_pool [OF i(3)] a(1)]
  note d = kv_onD [OF kv]
  have c: "i32 c" "0 \<le> c" using d(5) [OF a(2)] key_logD(1) [OF d(6) [OF a(2)]] by simp_all
  have "pool_idle (Suc (length rs) * visit_cost m + 2) (eng_pool ?e)" using i(2) by simp
  from this d(6) [OF a(2)] obtain q where g:
    "garry_mvcc_get ?e (sc_txn cur) c = (?e\<lparr>eng_pool := q\<rparr>, read_log (sc_txn cur) (eng_active_txns ?e) xs)"
    "pool_idle (Suc (length rs) * visit_cost m) q" "same_view (eng_pool ?e) q"
    by (rule mvcc_get_spec [where s = "sc_txn cur"]) blast
  have fq: "page_frame {} p q" using same_view_frame [OF g(3)] by simp
  have fr: "page_frame {} (eng_pool eng) q" using page_frame_trans [OF i(3) fq] by simp
  have out: "cursor_output (eng\<lparr>eng_pool := q\<rparr>) outs v = cursor_output eng outs v" for v
    by (simp add: cursor_output_def)
  show ?thesis
  proof (rule that [of q bc])
    show "storage_cursor_loop outs eng cur =
       (case shown outs eng (sc_txn cur) (k, c, xs) of
          None \<Rightarrow> storage_cursor_loop outs (eng\<lparr>eng_pool := q\<rparr>) (cur\<lparr>sc_btree_cur := bc\<rparr>)
        | Some x \<Rightarrow> Some (eng\<lparr>eng_pool := q\<rparr>, cur\<lparr>sc_btree_cur := bc\<rparr>, Some x))"
      using g(1) assms(2)
      by (subst storage_cursor_loop.simps)
        (simp add: i(1,4) cursor_chain_stands [OF i(5) c] shown_def out split: option.split)
    show "scanning m h ls P (eng\<lparr>eng_pool := q\<rparr>) (cur\<lparr>sc_btree_cur := bc\<rparr>) rs"
      using same_store_sel(7) [OF same_store_pool [OF fr] a(1)] a(3) g(2) scan_at_frame [OF i(6), of "eng\<lparr>eng_pool := q\<rparr>"] fq
      by (simp add: scanning_def)
  qed (use fr i(5) a(2) in simp_all)
qed

lemma cursor_loop_end:
  assumes "scanning m h ls P eng cur []"
  obtains pool bc where
    "storage_cursor_loop outs eng cur = Some (eng\<lparr>eng_pool := pool\<rparr>, cur\<lparr>sc_btree_cur := bc\<rparr>, None)"
    "page_frame {} (eng_pool eng) pool" "cu_exhausted bc"
proof -
  have a: "scan_at m eng (sc_btree_cur cur) []" "pool_idle (2 + 2 * m) (eng_pool eng)"
    using assms by (simp_all add: scanning_def visit_cost_def)
  from a obtain p bc r where i: "garry_btree_cursor_next (eng_pool eng) (sc_btree_cur cur) = Some (p, bc, r)"
    "page_frame {} (eng_pool eng) p" "r = None" "cu_exhausted bc"
    by (rule index_step) blast
  show ?thesis
    by (rule that [of p bc]) (use i in \<open>subst storage_cursor_loop.simps, simp_all\<close>)
qed

lemma storage_cursor_step:
  assumes "scanning m h ls P eng cur rs" "outs \<noteq> Value_only"
  shows "\<exists>eng' cur' r. garry_storage_cursor_next outs eng cur = Some (eng', cur', r) \<and>
    steps_to outs m h ls P eng cur rs eng' cur' r"
proof -
  have "\<exists>eng' cur' r. storage_cursor_loop outs eng cur = Some (eng', cur', r) \<and>
    steps_to outs m h ls P eng cur rs eng' cur' r"
    using assms(1)
  proof (induction rs arbitrary: eng cur)
    case Nil
    then obtain pool bc where
      "storage_cursor_loop outs eng cur = Some (eng\<lparr>eng_pool := pool\<rparr>, cur\<lparr>sc_btree_cur := bc\<rparr>, None)"
      "page_frame {} (eng_pool eng) pool" "cu_exhausted bc" by (rule cursor_loop_end)
    then show ?case by (auto simp: steps_to_def same_store_pool)
  next
    case (Cons x rs)
    obtain k c xs where x: "x = (k, c, xs)" by (cases x)
    from Cons.prems(1) [unfolded x] assms(2) obtain pool bc where s:
      "storage_cursor_loop outs eng cur =
         (case shown outs eng (sc_txn cur) (k, c, xs) of
            None \<Rightarrow> storage_cursor_loop outs (eng\<lparr>eng_pool := pool\<rparr>) (cur\<lparr>sc_btree_cur := bc\<rparr>)
          | Some x \<Rightarrow> Some (eng\<lparr>eng_pool := pool\<rparr>, cur\<lparr>sc_btree_cur := bc\<rparr>, Some x))"
      "page_frame {} (eng_pool eng) pool"
      "scanning m h ls P (eng\<lparr>eng_pool := pool\<rparr>) (cur\<lparr>sc_btree_cur := bc\<rparr>) rs"
      "stands_on bc (descriptor_bytes c False)" "(k, c, xs) \<in> set ls"
      by (rule cursor_loop_step)
    let ?e = "eng\<lparr>eng_pool := pool\<rparr>" and ?c = "cur\<lparr>sc_btree_cur := bc\<rparr>"
    note e = same_store_pool [OF s(2)]
    show ?case
    proof (cases "shown outs eng (sc_txn cur) (k, c, xs)")
      case (Some y)
      then have "fst y = k" by (auto simp: shown_def split: option.splits)
      then have "stands_at outs ls ?e ?c y"
        using Some s(4,5) same_store_sel(5) [OF e] by (auto simp: stands_at_def)
      with Some show ?thesis using s(1,3) e by (auto simp: steps_to_def x map_filter_simps)
    next
      case None
      from Cons.IH [OF s(3)] obtain e2 c2 r where
        r: "storage_cursor_loop outs ?e ?c = Some (e2, c2, r)" "steps_to outs m h ls P ?e ?c rs e2 c2 r" by blast
      have "steps_to outs m h ls P eng cur (x # rs) e2 c2 r"
        using r(2) same_store_trans [OF e, of e2] None
        unfolding steps_to_def same_store_sel(5) [OF e]
        by (auto simp: x map_filter_simps split: list.splits)
      with r(1) s(1) None show ?thesis by auto
    qed
  qed
  then show ?thesis using assms(1) scan_atD [of m eng "sc_btree_cur cur" rs]
    by (simp add: garry_storage_cursor_next_def scanning_def)
qed

subsection \<open>Opening\<close>

lemma storage_cursor_open_scanning:
  assumes "kv_on h eng ls P" "pool_idle (Suc (length ls) * visit_cost (4 ^ h) + 2 * Suc h) (eng_pool eng)"
    and "plen = int (length (case pfx of None \<Rightarrow> [] | Some bs \<Rightarrow> bs))"
  obtains eng' cur where "garry_storage_cursor_open eng t pfx plen = Some (eng', cur)" "same_store eng eng'"
    "sc_txn cur = t"
    "scanning (4 ^ h) h ls P eng' cur
       (filter (\<lambda>r. Sublist.prefix (case pfx of None \<Rightarrow> [] | Some bs \<Rightarrow> bs) (fst r)) ls)"
proof -
  let ?p = "case pfx of None \<Rightarrow> [] | Some bs \<Rightarrow> bs"
  define buf where "buf = (case pfx of None \<Rightarrow> (\<lambda>_. 0)
    | Some bs \<Rightarrow> if plen > 0 then put_bytes (\<lambda>_. 0) 0 (take (nat plen) bs) else (\<lambda>_. 0))"
  have buf: "read_bytes buf 0 plen = ?p"
    using assms(3) by (auto simp: buf_def read_put_same split: option.split)
  have w: "wanted (Some buf) plen (index_entry r) \<longleftrightarrow> Sublist.prefix ?p (fst r)" for r
    using buf assms(3) by (cases "?p = []") (auto simp: wanted_def index_entry_def split: prod.split)
  have p0: "0 \<le> plen" "plen = 0 \<or> Some buf \<noteq> None" using assms(3) by simp_all
  note d = kv_onD [OF assms(1)]
  from btree_on_holds [OF d(2)] assms(2) p0 obtain pool bc es1 ess where c:
    "garry_btree_cursor_open (eng_pool eng) (eng_btree_root eng) (Some buf) plen = Some (pool, bc)"
    "pool_idle (Suc (length ls) * visit_cost (4 ^ h)) pool" "page_frame {} (eng_pool eng) pool"
    "cursor_at pool bc 0 es1 ess" "Suc (length ess) \<le> 4 ^ h"
    "filter (cursor_wants bc) (drop 0 es1 @ concat ess) = filter (wanted (Some buf) plen) (map index_entry ls)"
    by (rule cursor_open_tree) blast
  let ?e = "eng\<lparr>eng_pool := pool\<rparr>" and ?c = "\<lparr>sc_btree_cur = bc, sc_txn = t\<rparr>"
  let ?rs = "filter (\<lambda>r. Sublist.prefix ?p (fst r)) ls"
  have f: "filter (wanted (Some buf) plen) (map index_entry ls) = map index_entry ?rs"
    by (simp add: filter_map o_def w)
  show ?thesis
  proof (rule that)
    show "garry_storage_cursor_open eng t pfx plen = Some (?e, ?c)"
      using c(1) by (simp add: garry_storage_cursor_open_def buf_def Let_def)
    show "same_store eng ?e" by (rule same_store_pool [OF c(3)])
    have "scan_at (4 ^ h) ?e bc ?rs"
      unfolding scan_at_def
      by (rule exI [of _ 0], rule exI [of _ es1], rule exI [of _ ess]) (use c f in simp)
    moreover have "pool_idle (Suc (length ?rs) * visit_cost (4 ^ h)) pool"
      by (rule pool_idle_mono [OF c(2)]) simp
    ultimately show "scanning (4 ^ h) h ls P ?e ?c ?rs"
      using same_store_sel(7) [OF same_store_pool [OF c(3)] assms(1)] by (simp add: scanning_def)
  qed simp
qed

subsection \<open>Scans\<close>

text \<open>Calling \<open>garry_storage_cursor_next\<close> until it returns false, at most \<open>k\<close> times; \<open>None\<close> if the
  end is not reached.\<close>

fun storage_collect ::
  "nat \<Rightarrow> outputs \<Rightarrow> garry_engine_handle \<Rightarrow> garry_storage_cursor \<Rightarrow>
   (garry_engine_handle \<times> (byte list \<times> byte list option) list) option" where
  "storage_collect 0 outs eng cur = None"
| "storage_collect (Suc k) outs eng cur =
     (case garry_storage_cursor_next outs eng cur of
        None \<Rightarrow> None
      | Some (eng, cur, None) \<Rightarrow> Some (eng, [])
      | Some (eng, cur, Some x) \<Rightarrow>
          map_option (\<lambda>(eng, xs). (eng, x # xs)) (storage_collect k outs eng cur))"

lemma storage_collect_shown:
  assumes "scanning m h ls P eng cur rs" "outs \<noteq> Value_only" "length rs < k"
  shows "\<exists>eng'. storage_collect k outs eng cur =
      Some (eng', List.map_filter (shown outs eng (sc_txn cur)) rs) \<and> same_store eng eng'"
  using assms(1,3)
proof (induction k arbitrary: eng cur rs)
  case (Suc k)
  from storage_cursor_step [OF Suc.prems(1) assms(2)] obtain eng' cur' r where
    s: "garry_storage_cursor_next outs eng cur = Some (eng', cur', r)"
    "steps_to outs m h ls P eng cur rs eng' cur' r" by blast
  show ?case
  proof (cases "List.map_filter (shown outs eng (sc_txn cur)) rs")
    case Nil
    with s show ?thesis by (simp add: steps_to_def)
  next
    case (Cons x xs)
    with s(2) obtain rs' where r: "r = Some x" "same_store eng eng'" "sc_txn cur' = sc_txn cur"
      "scanning m h ls P eng' cur' rs'" "length rs' < length rs"
      "List.map_filter (shown outs eng (sc_txn cur)) rs' = xs"
      by (auto simp: steps_to_def)
    have "length rs' < k" using r(5) Suc.prems(2) by simp
    from Suc.IH [OF r(4) this] obtain e2 where
      "storage_collect k outs eng' cur' = Some (e2, xs)" "same_store eng' e2"
      using r(3,6) same_store_sel(5) [OF r(2)] by auto
    with s(1) r(1) same_store_trans [OF r(2)] Cons show ?thesis by auto
  qed
qed simp

subsection \<open>The visible keys\<close>

text \<open>The engine shows the abstract store, has at most \<open>m\<close> keys below an index of height \<open>h\<close>, and can
  serve one scan.\<close>

definition view_rep :: "nat \<Rightarrow> nat \<Rightarrow> garry_engine_handle \<Rightarrow> store_state \<Rightarrow> bool" where
  "view_rep h m eng s \<longleftrightarrow>
     (\<exists>ls P. kv_on h eng ls P \<and> logs_rep eng (versions ls) s \<and> length ls \<le> m) \<and> table_rep eng s \<and>
     pool_idle (Suc m * visit_cost (4 ^ h) + 2 * Suc h) (eng_pool eng)"

definition visible_keys :: "store_state \<Rightarrow> int \<Rightarrow> chains \<Rightarrow> key list" where
  "visible_keys s t rs = filter (\<lambda>k. store_read s t k \<noteq> None) (map fst rs)"

lemma kv_keys_sorted: "kv_on h eng ls P \<Longrightarrow> sorted_wrt (<) (map fst ls)"
  using btree_holds_sorted [OF btree_on_holds [OF kv_onD(2)]]
  by (simp add: keys_sorted_def index_entry_def o_def case_prod_beta)

lemma versions_of_entry:
  assumes "kv_on h eng ls P" "(k, c, xs) \<in> set ls"
  shows "versions ls k = xs"
proof -
  have "distinct (map fst ls)" using kv_keys_sorted [OF assms(1)] strict_sorted_iff by blast
  with assms(2) show ?thesis by (simp add: versions_def)
qed

lemma shown_store:
  assumes "kv_on h eng ls P" "logs_rep eng (versions ls) s" "table_rep eng s" "t \<in> ss_running s"
    and "(k, c, xs) \<in> set ls"
  shows "shown Value_and_length eng t (k, c, xs) = map_option (\<lambda>d. (k, Some d)) (store_read s t k)"
    "shown Neither eng t (k, c, xs) = (if store_read s t k = None then None else Some (k, None))"
proof -
  have xs: "xs = map (stored eng) (ss_versions s k)"
    using versions_of_entry [OF assms(1,5)] logs_repD(1) [OF assms(2)] by simp
  have a: "eng_active_txns eng = ss_active s" using assms(3) by (simp add: table_rep_def)
  note u = unpack_read [OF logs_repD(2) [OF assms(2), where k = k], where t = t and eng = eng and a = "ss_active s"]
  show "shown Value_and_length eng t (k, c, xs) = map_option (\<lambda>d. (k, Some d)) (store_read s t k)"
    using u(1) assms(4) by (simp add: shown_value store_read_def xs a)
  show "shown Neither eng t (k, c, xs) = (if store_read s t k = None then None else Some (k, None))"
    using u(2) assms(4) by (auto simp: shown_neither store_read_def xs a)
qed

lemma map_filter_keys:
  assumes "\<And>r. r \<in> set rs \<Longrightarrow> f r = (case g (fst r) of None \<Rightarrow> None | Some v \<Rightarrow> Some (fst r, e v))"
  shows "List.map_filter f rs =
    map (\<lambda>k. (k, e (the (g k)))) (filter (\<lambda>k. g k \<noteq> None) (map fst rs))"
  using assms by (induction rs) (auto simp: map_filter_simps split: option.splits)

lemma map_filter_shown:
  assumes "kv_on h eng ls P" "logs_rep eng (versions ls) s" "table_rep eng s" "t \<in> ss_running s"
    and "set rs \<subseteq> set ls"
  shows "List.map_filter (shown Value_and_length eng t) rs =
      map (\<lambda>k. (k, Some (the (store_read s t k)))) (visible_keys s t rs)"
    "List.map_filter (shown Neither eng t) rs = map (\<lambda>k. (k, None)) (visible_keys s t rs)"
proof -
  note sh = shown_store [OF assms(1-4)]
  have "shown Value_and_length eng t r = (case store_read s t (fst r) of None \<Rightarrow> None | Some v \<Rightarrow> Some (fst r, Some v))"
    "shown Neither eng t r = (case store_read s t (fst r) of None \<Rightarrow> None | Some v \<Rightarrow> Some (fst r, None))"
    if "r \<in> set rs" for r
    using sh [of "fst r" "fst (snd r)" "snd (snd r)"] assms(5) that by (auto split: option.split)
  then show "List.map_filter (shown Value_and_length eng t) rs =
      map (\<lambda>k. (k, Some (the (store_read s t k)))) (visible_keys s t rs)"
    "List.map_filter (shown Neither eng t) rs = map (\<lambda>k. (k, None)) (visible_keys s t rs)"
    by (simp_all add: visible_keys_def map_filter_keys [where e = Some] map_filter_keys [where e = "\<lambda>_. None"])
qed

lemma visible_keys_sorted: "sorted_wrt (<) (map fst rs) \<Longrightarrow> sorted_wrt (<) (visible_keys s t rs)"
  unfolding visible_keys_def by (rule sorted_wrt_filter)

lemma visible_keys_prefix:
  "set (visible_keys s t (filter (\<lambda>r. Sublist.prefix pfx (fst r)) rs)) =
     {k \<in> set (visible_keys s t rs). Sublist.prefix pfx k}"
  by (auto simp: visible_keys_def)

lemma visible_keys_set:
  assumes "logs_rep eng (versions ls) s"
  shows "set (visible_keys s t ls) = {k. store_read s t k \<noteq> None}"
proof -
  have "k \<in> fst ` set ls" if "store_read s t k \<noteq> None" for k
  proof (rule ccontr)
    assume "k \<notin> fst ` set ls"
    then have "map_of ls k = None" by (simp add: map_of_eq_None_iff)
    then have "versions ls k = []" by (simp add: versions_def)
    then have "ss_versions s k = []" using logs_repD(1) [OF assms, of k] by simp
    with that show False by (simp add: store_read_def split: if_splits)
  qed
  then show ?thesis by (auto simp: visible_keys_def)
qed

text \<open>A cursor on the store, opened for a running transaction.\<close>

lemma open_view:
  assumes "view_rep h m eng s" "plen = int (length (case pfx of None \<Rightarrow> [] | Some bs \<Rightarrow> bs))"
  obtains ls P eng' cur where "garry_storage_cursor_open eng t pfx plen = Some (eng', cur)" "same_store eng eng'"
    "sc_txn cur = t" "length ls \<le> m" "kv_on h eng ls P" "logs_rep eng (versions ls) s" "table_rep eng s"
    "scanning (4 ^ h) h ls P eng' cur
       (filter (\<lambda>r. Sublist.prefix (case pfx of None \<Rightarrow> [] | Some bs \<Rightarrow> bs) (fst r)) ls)"
proof -
  obtain ls P where v: "kv_on h eng ls P" "logs_rep eng (versions ls) s" "length ls \<le> m" "table_rep eng s"
    "pool_idle (Suc m * visit_cost (4 ^ h) + 2 * Suc h) (eng_pool eng)"
    using assms(1) by (auto simp: view_rep_def)
  have "Suc (length ls) * visit_cost (4 ^ h) \<le> Suc m * visit_cost (4 ^ h)"
    by (rule mult_le_mono1) (use v(3) in simp)
  then have "pool_idle (Suc (length ls) * visit_cost (4 ^ h) + 2 * Suc h) (eng_pool eng)"
    by (intro pool_idle_mono [OF v(5)]) (rule add_le_mono1)
  from v(1) this assms(2) obtain eng' cur where
    "garry_storage_cursor_open eng t pfx plen = Some (eng', cur)" "same_store eng eng'" "sc_txn cur = t"
    "scanning (4 ^ h) h ls P eng' cur
       (filter (\<lambda>r. Sublist.prefix (case pfx of None \<Rightarrow> [] | Some bs \<Rightarrow> bs) (fst r)) ls)"
    by (rule storage_cursor_open_scanning)
  with v that show ?thesis by blast
qed

text \<open>A scan of the store shows exactly what point reads show: opening a storage cursor with a
  prefix for a running transaction and calling \<open>garry_storage_cursor_next\<close> until it reports the end
  returns, and delivers, in strictly ascending key order, each key with the prefix that the
  transaction can read, with the value it reads there, and nothing else.\<close>

theorem storage_scan_exact:
  assumes "view_rep h m eng s" "t \<in> ss_running s" "length pfx \<le> 256"
  shows "\<exists>eng1 cur eng2 xs. garry_storage_cursor_open eng t (Some pfx) (int (length pfx)) = Some (eng1, cur) \<and>
    storage_collect (Suc m) Value_and_length eng1 cur = Some (eng2, map (\<lambda>(k, v). (k, Some v)) xs) \<and>
    sorted_wrt (<) (map fst xs) \<and>
    set xs = {(k, v). Sublist.prefix pfx k \<and> store_read s t k = Some v}"
proof -
  from assms(1) obtain ls P eng1 cur where o:
    "garry_storage_cursor_open eng t (Some pfx) (int (length pfx)) = Some (eng1, cur)" "same_store eng eng1"
    "sc_txn cur = t" "length ls \<le> m" "kv_on h eng ls P" "logs_rep eng (versions ls) s" "table_rep eng s"
    "scanning (4 ^ h) h ls P eng1 cur (filter (\<lambda>r. Sublist.prefix pfx (fst r)) ls)"
    by (rule open_view [where pfx = "Some pfx"]) auto
  let ?rs = "filter (\<lambda>r. Sublist.prefix pfx (fst r)) ls"
  have le: "length ?rs < Suc m"
    by (rule le_imp_less_Suc, rule order_trans [OF length_filter_le]) (rule o(4))
  have sub: "set ?rs \<subseteq> set ls" by simp
  let ?ks = "visible_keys s t ?rs"
  let ?xs = "map (\<lambda>k. (k, the (store_read s t k))) ?ks"
  from storage_collect_shown [OF o(8) _ le, of Value_and_length] obtain eng2 where
    "storage_collect (Suc m) Value_and_length eng1 cur =
       Some (eng2, List.map_filter (shown Value_and_length eng1 (sc_txn cur)) ?rs)" by auto
  moreover have "List.map_filter (shown Value_and_length eng1 (sc_txn cur)) ?rs = map (\<lambda>(k, v). (k, Some v)) ?xs"
    using map_filter_shown(1) [OF o(5-7) assms(2) sub] by (simp add: o(3) same_store_sel(5) [OF o(2)] o_def)
  moreover have "sorted_wrt (<) (map fst ?xs)"
    using visible_keys_sorted [of ?rs s t] sorted_wrt_filter [OF kv_keys_sorted [OF o(5)], of "Sublist.prefix pfx"]
    by (simp add: o_def filter_map)
  moreover have "set ?xs = {(k, v). Sublist.prefix pfx k \<and> store_read s t k = Some v}"
  proof -
    have "set ?ks = {k. Sublist.prefix pfx k \<and> store_read s t k \<noteq> None}"
      using visible_keys_set [OF o(6), of t] by (auto simp: visible_keys_prefix)
    then show ?thesis by (auto simp: image_iff)
  qed
  ultimately show ?thesis using o(1)
    by (intro exI [of _ eng1] exI [of _ cur] exI [of _ eng2] exI [of _ ?xs]) (simp del: storage_collect.simps)
qed

subsection \<open>Neighbours\<close>

definition reading ::
  "nat \<Rightarrow> nat \<Rightarrow> chains \<Rightarrow> int set \<Rightarrow> store_state \<Rightarrow> garry_engine_handle \<Rightarrow> garry_storage_cursor \<Rightarrow> chains \<Rightarrow> bool" where
  "reading m h ls P s eng cur rs \<longleftrightarrow>
     scanning m h ls P eng cur rs \<and> logs_rep eng (versions ls) s \<and> table_rep eng s \<and> sc_txn cur \<in> ss_running s"

lemma reading_store:
  assumes "logs_rep eng V s" "table_rep eng s" "same_store eng eng'"
  shows "logs_rep eng' V s" "table_rep eng' s"
proof -
  obtain pool where e: "eng' = eng\<lparr>eng_pool := pool\<rparr>" using assms(3) by (auto simp: same_store_def)
  show "logs_rep eng' V s" by (rule logs_rep_cong [OF assms(1)]) (simp_all add: e)
  have "same_session eng eng'" by (simp add: e)
  from table_rep_session [OF assms(2) this] show "table_rep eng' s" by simp
qed

text \<open>What one call does that asks for keys only.\<close>

definition visits ::
  "nat \<Rightarrow> nat \<Rightarrow> chains \<Rightarrow> int set \<Rightarrow> store_state \<Rightarrow> int \<Rightarrow> chains \<Rightarrow>
   garry_engine_handle \<Rightarrow> garry_storage_cursor \<Rightarrow> (byte list \<times> byte list option) option \<Rightarrow> bool" where
  "visits m h ls P s t rs eng' cur' r \<longleftrightarrow>
     (case visible_keys s t rs of
        [] \<Rightarrow> r = None
      | k # ks \<Rightarrow> r = Some (k, None) \<and> sc_txn cur' = t \<and> stands_at Neither ls eng' cur' (k, None) \<and>
          (\<exists>rs'. reading m h ls P s eng' cur' rs' \<and> length rs' < length rs \<and> visible_keys s t rs' = ks))"

lemma next_visible:
  assumes "reading m h ls P s eng cur rs"
  obtains eng' cur' r where "garry_storage_cursor_next Neither eng cur = Some (eng', cur', r)"
    "same_store eng eng'" "visits m h ls P s (sc_txn cur) rs eng' cur' r"
proof -
  have a: "scanning m h ls P eng cur rs" "logs_rep eng (versions ls) s" "table_rep eng s" "sc_txn cur \<in> ss_running s"
    using assms by (simp_all add: reading_def)
  have kv: "kv_on h eng ls P" "set rs \<subseteq> set ls" using a(1) by (simp_all add: scanning_def)
  from storage_cursor_step [OF a(1), of Neither] obtain eng' cur' r where
    s: "garry_storage_cursor_next Neither eng cur = Some (eng', cur', r)"
    "steps_to Neither m h ls P eng cur rs eng' cur' r" by auto
  have st: "same_store eng eng'" "sc_txn cur' = sc_txn cur" using s(2) by (simp_all add: steps_to_def)
  note mf = map_filter_shown(2) [OF kv(1) a(2-4)]
  have "visits m h ls P s (sc_txn cur) rs eng' cur' r"
  proof (cases "visible_keys s (sc_txn cur) rs")
    case Nil
    with s(2) show ?thesis by (simp add: steps_to_def mf [OF kv(2)] visits_def)
  next
    case (Cons k ks)
    with s(2) obtain rs' where r: "r = Some (k, None)" "scanning m h ls P eng' cur' rs'" "length rs' < length rs"
      "List.map_filter (shown Neither eng (sc_txn cur)) rs' = map (\<lambda>k. (k, None)) ks"
      "stands_at Neither ls eng' cur' (k, None)"
      by (auto simp: steps_to_def mf [OF kv(2)])
    have "set rs' \<subseteq> set ls" using r(2) by (simp add: scanning_def)
    from r(4) [unfolded mf [OF this]] have "visible_keys s (sc_txn cur) rs' = ks"
      by (auto dest: map_injective simp: inj_on_def)
    moreover have "reading m h ls P s eng' cur' rs'"
      using r(2) reading_store [OF a(2,3) st(1)] a(4) st(2) by (simp add: reading_def)
    ultimately show ?thesis using r(1,3,5) st(2) Cons by (auto simp: visits_def)
  qed
  with that [OF s(1) st(1)] show ?thesis by blast
qed

lemma next_key_loop_spec:
  "reading m h ls P s eng cur rs \<Longrightarrow>
     \<exists>eng'. next_key_loop after eng cur = Some (eng', List.find (\<lambda>k. after < k) (visible_keys s (sc_txn cur) rs)) \<and>
       same_store eng eng'"
proof (induction "length rs" arbitrary: eng cur rs rule: less_induct)
  case less
  from less.prems obtain eng' cur' r where n: "garry_storage_cursor_next Neither eng cur = Some (eng', cur', r)"
    "same_store eng eng'" "visits m h ls P s (sc_txn cur) rs eng' cur' r"
    by (rule next_visible)
  show ?case
  proof (cases "visible_keys s (sc_txn cur) rs")
    case Nil
    with n show ?thesis by (subst next_key_loop.simps) (simp add: visits_def)
  next
    case (Cons k ks)
    with n(3) obtain rs' where r: "r = Some (k, None)" "sc_txn cur' = sc_txn cur"
      "reading m h ls P s eng' cur' rs'" "length rs' < length rs" "visible_keys s (sc_txn cur) rs' = ks"
      by (auto simp: visits_def)
    from less.hyps [OF r(4,3)] obtain e2 where
      "next_key_loop after eng' cur' = Some (e2, List.find (\<lambda>k. after < k) ks)" "same_store eng' e2"
      using r(2,5) by auto
    with n(1) r(1) Cons same_store_trans [OF n(2)] n(2) show ?thesis
      by (subst next_key_loop.simps) (auto simp: byte_compare_lexicographic)
  qed
qed

lemma prev_key_loop_spec:
  "reading m h ls P s eng cur rs \<Longrightarrow>
     \<exists>eng'. prev_key_loop before found eng cur =
       Some (eng', foldl (\<lambda>r k. if k < before then Some k else r) found (visible_keys s (sc_txn cur) rs)) \<and>
       same_store eng eng'"
proof (induction "length rs" arbitrary: eng cur rs found rule: less_induct)
  case less
  from less.prems obtain eng' cur' r where n: "garry_storage_cursor_next Neither eng cur = Some (eng', cur', r)"
    "same_store eng eng'" "visits m h ls P s (sc_txn cur) rs eng' cur' r"
    by (rule next_visible)
  show ?case
  proof (cases "visible_keys s (sc_txn cur) rs")
    case Nil
    with n show ?thesis by (subst prev_key_loop.simps) (simp add: visits_def)
  next
    case (Cons k ks)
    with n(3) obtain rs' where r: "r = Some (k, None)" "sc_txn cur' = sc_txn cur"
      "reading m h ls P s eng' cur' rs'" "length rs' < length rs" "visible_keys s (sc_txn cur) rs' = ks"
      by (auto simp: visits_def)
    let ?f = "if k < before then Some k else found"
    from less.hyps [OF r(4,3), of ?f] obtain e2 where e2:
      "prev_key_loop before ?f eng' cur' =
         Some (e2, foldl (\<lambda>r k. if k < before then Some k else r) ?f ks)" "same_store eng' e2"
      using r(2,5) by auto
    have "prev_key_loop before found eng cur = prev_key_loop before ?f eng' cur'"
      using n(1) r(1) by (subst prev_key_loop.simps) (simp add: byte_compare_lexicographic)
    with e2 Cons same_store_trans [OF n(2) e2(2)] show ?thesis by auto
  qed
qed

text \<open>The least of these keys above a bound, and the greatest below.\<close>

definition least_above :: "key set \<Rightarrow> key \<Rightarrow> key option \<Rightarrow> bool" where
  "least_above K a r \<longleftrightarrow>
     (case r of None \<Rightarrow> \<forall>k \<in> K. k \<le> a | Some k \<Rightarrow> k \<in> K \<and> a < k \<and> (\<forall>k' \<in> K. a < k' \<longrightarrow> k \<le> k'))"

definition greatest_below :: "key set \<Rightarrow> key \<Rightarrow> key option \<Rightarrow> bool" where
  "greatest_below K b r \<longleftrightarrow>
     (case r of None \<Rightarrow> \<forall>k \<in> K. b \<le> k | Some k \<Rightarrow> k \<in> K \<and> k < b \<and> (\<forall>k' \<in> K. k' < b \<longrightarrow> k' \<le> k))"

lemma find_least_above: "sorted_wrt (<) ks \<Longrightarrow> least_above (set ks) a (List.find (\<lambda>k. a < k) ks)"
  by (induction ks) (auto simp: least_above_def not_less less_imp_le split: option.splits)

lemma foldl_greatest_below:
  "sorted_wrt (<) ks \<Longrightarrow>
     greatest_below (set ks) b (foldl (\<lambda>r k. if k < b then Some k else r) None ks)"
proof (induction ks rule: rev_induct)
  case (snoc k ks)
  have "sorted_wrt (<) ks" "\<forall>x \<in> set ks. x < k" using snoc.prems by (simp_all add: sorted_wrt_append)
  with snoc.IH show ?case
    by (auto simp: greatest_below_def not_less less_imp_le split: option.splits)
qed (simp add: greatest_below_def)

text \<open>C14. Navigation is exact: for a running transaction \<open>garry_storage_next_key\<close> returns the least
  key above the given one that the transaction can read, \<open>garry_storage_prev_key\<close> the greatest below
  it, and each reports that there is none only if there is none. Both end.\<close>

theorem storage_neighbours_exact:
  assumes "view_rep h m eng s" "t \<in> ss_running s" "key \<noteq> []"
  shows "\<exists>eng1 r1 eng2 r2. garry_storage_next_key eng t key = Some (eng1, r1) \<and>
      least_above {k. store_read s t k \<noteq> None} key r1 \<and>
    garry_storage_prev_key eng t key = Some (eng2, r2) \<and>
      greatest_below {k. store_read s t k \<noteq> None} key r2"
proof -
  from assms(1) obtain ls P e cur where o: "garry_storage_cursor_open eng t None 0 = Some (e, cur)"
    "same_store eng e" "sc_txn cur = t" "kv_on h eng ls P" "logs_rep eng (versions ls) s" "table_rep eng s"
    "scanning (4 ^ h) h ls P e cur ls"
    by (rule open_view [where pfx = None]) auto
  have rd: "reading (4 ^ h) h ls P s e cur ls"
    using o(3,7) reading_store [OF o(5,6,2)] assms(2) by (simp add: reading_def)
  have sk: "sorted_wrt (<) (visible_keys s t ls)" by (rule visible_keys_sorted [OF kv_keys_sorted [OF o(4)]])
  note vs = visible_keys_set [OF o(5), of t]
  have act: "garry_txn_is_active t eng" by (rule running_id(1) [OF o(6) assms(2)])
  obtain e1 where "next_key_loop key e cur = Some (e1, List.find (\<lambda>k. key < k) (visible_keys s t ls))"
    using next_key_loop_spec [OF rd] o(3) by blast
  moreover obtain e2 where "prev_key_loop key None e cur =
      Some (e2, foldl (\<lambda>r k. if k < key then Some k else r) None (visible_keys s t ls))"
    using prev_key_loop_spec [OF rd] o(3) by blast
  ultimately show ?thesis
    using act assms(3) o(1) find_least_above [OF sk, of key] foldl_greatest_below [OF sk, of key]
    by (simp add: garry_storage_next_key_def garry_storage_prev_key_def vs)
qed

text \<open>\<open>garry_storage_first\<close> returns the least key a running transaction can read, and reports
  that there is none only if the transaction can read no key.\<close>

theorem storage_first_exact:
  assumes "view_rep h m eng s" "t \<in> ss_running s"
  shows "\<exists>eng' r. garry_storage_first eng t = Some (eng', r) \<and>
    (case r of None \<Rightarrow> {k. store_read s t k \<noteq> None} = {}
     | Some k \<Rightarrow> store_read s t k \<noteq> None \<and> (\<forall>k' \<in> {k. store_read s t k \<noteq> None}. k \<le> k'))"
proof -
  from assms(1) obtain ls P e cur where o: "garry_storage_cursor_open eng t None 0 = Some (e, cur)"
    "same_store eng e" "sc_txn cur = t" "kv_on h eng ls P" "logs_rep eng (versions ls) s" "table_rep eng s"
    "scanning (4 ^ h) h ls P e cur ls"
    by (rule open_view [where pfx = None]) auto
  have rd: "reading (4 ^ h) h ls P s e cur ls"
    using o(3,7) reading_store [OF o(5,6,2)] assms(2) by (simp add: reading_def)
  have sk: "sorted_wrt (<) (visible_keys s t ls)" by (rule visible_keys_sorted [OF kv_keys_sorted [OF o(4)]])
  note vs = visible_keys_set [OF o(5), of t]
  have act: "garry_txn_is_active t eng" by (rule running_id(1) [OF o(6) assms(2)])
  from rd obtain e1 c1 r where n: "garry_storage_cursor_next Neither e cur = Some (e1, c1, r)"
    "visits (4 ^ h) h ls P s (sc_txn cur) ls e1 c1 r"
    by (rule next_visible)
  have "garry_storage_first eng t = Some (e1, map_option fst r)"
    using act o(1) n(1) by (simp add: garry_storage_first_def)
  moreover have "case map_option fst r of None \<Rightarrow> {k. store_read s t k \<noteq> None} = {}
     | Some k \<Rightarrow> store_read s t k \<noteq> None \<and> (\<forall>k' \<in> {k. store_read s t k \<noteq> None}. k \<le> k')"
  proof (cases "visible_keys s t ls")
    case Nil
    with n(2) o(3) vs show ?thesis by (simp add: visits_def)
  next
    case (Cons k ks)
    with n(2) o(3) have "r = Some (k, None)" by (simp add: visits_def)
    moreover have "{k. store_read s t k \<noteq> None} = set (k # ks)" using vs Cons by simp
    ultimately show ?thesis using sk Cons by (auto simp: less_imp_le)
  qed
  ultimately show ?thesis by blast
qed

subsection \<open>Skipping a prefix\<close>

lemma skip_test: "length key \<ge> length skip \<and> take (length skip) key = skip \<longleftrightarrow> Sublist.prefix skip key"
  by (simp add: take_prefix)

text \<open>The cursor has put a key back.\<close>

definition put_back :: "garry_storage_cursor \<Rightarrow> key \<Rightarrow> garry_storage_cursor" where
  "put_back cur k = cur\<lparr>sc_btree_cur := (sc_btree_cur cur)\<lparr>cu_saved_key := k, cu_has_saved := True\<rparr>\<rparr>"

lemma skip_prefix_loop_spec:
  "reading m h ls P s eng cur rs \<Longrightarrow>
     \<exists>eng' cur' b. skip_prefix_loop skip eng cur = Some (eng', cur', b) \<and> same_store eng eng' \<and>
       (case dropWhile (Sublist.prefix skip) (visible_keys s (sc_txn cur) rs) of
          [] \<Rightarrow> \<not> b \<and> cu_exhausted (sc_btree_cur cur')
        | k # ks \<Rightarrow> b \<and> (\<exists>c1 rs'. cur' = put_back c1 k \<and> sc_txn c1 = sc_txn cur \<and>
            reading m h ls P s eng' c1 rs' \<and> stands_at Neither ls eng' c1 (k, None)))"
proof (induction "length rs" arbitrary: eng cur rs rule: less_induct)
  case less
  have scan: "scanning m h ls P eng cur rs" using less.prems by (simp add: reading_def)
  from less.prems obtain eng' cur' r where n: "garry_storage_cursor_next Neither eng cur = Some (eng', cur', r)"
    "same_store eng eng'" "visits m h ls P s (sc_txn cur) rs eng' cur' r"
    by (rule next_visible)
  show ?case
  proof (cases "visible_keys s (sc_txn cur) rs")
    case Nil
    have "cu_exhausted (sc_btree_cur cur')"
    proof -
      have a: "logs_rep eng (versions ls) s" "table_rep eng s" "sc_txn cur \<in> ss_running s"
        "kv_on h eng ls P" "set rs \<subseteq> set ls"
        using less.prems by (simp_all add: reading_def scanning_def)
      from storage_cursor_step [OF scan, of Neither] n(1) have "steps_to Neither m h ls P eng cur rs eng' cur' r" by simp
      then show ?thesis using map_filter_shown(2) [OF a(4,1-3,5)] Nil by (simp add: steps_to_def)
    qed
    with n Nil show ?thesis
      by (subst skip_prefix_loop.simps) (auto simp: visits_def intro: exI [of _ False])
  next
    case (Cons k ks)
    with n(3) obtain rs' where r: "r = Some (k, None)" "sc_txn cur' = sc_txn cur"
      "reading m h ls P s eng' cur' rs'" "length rs' < length rs" "visible_keys s (sc_txn cur) rs' = ks"
      "stands_at Neither ls eng' cur' (k, None)"
      by (auto simp: visits_def)
    show ?thesis
    proof (cases "Sublist.prefix skip k")
      case True
      then have "skip_prefix_loop skip eng cur = skip_prefix_loop skip eng' cur'"
        using n(1) r(1) by (subst skip_prefix_loop.simps) (simp add: skip_test)
      with less.hyps [OF r(4,3), unfolded r(2,5)] True Cons same_store_trans [OF n(2)] show ?thesis by auto
    next
      case False
      then have "skip_prefix_loop skip eng cur = Some (eng', put_back cur' k, True)"
        using n(1) r(1) by (subst skip_prefix_loop.simps) (simp add: skip_test put_back_def)
      with n(2) r(2,3,6) Cons False show ?thesis by auto
    qed
  qed
qed

lemma next_after_put_back:
  assumes "reading m h ls P s eng cur rs" "stands_at Neither ls eng cur (k, None)"
  shows "\<exists>eng' cur'. garry_storage_cursor_next Value_and_length eng (put_back cur k) =
    Some (eng', cur', Some (k, store_read s (sc_txn cur) k))"
proof -
  let ?bc = "sc_btree_cur cur" and ?t = "sc_txn cur"
  have a: "kv_on h eng ls P" "logs_rep eng (versions ls) s" "table_rep eng s" "?t \<in> ss_running s"
    "scan_at m eng ?bc rs"
    using assms(1) by (simp_all add: reading_def scanning_def)
  have "2 \<le> Suc (length rs) * visit_cost m" by (simp add: visit_cost_def)
  then have idle: "pool_idle (0 + 2) (eng_pool eng)"
    using assms(1) pool_idle_mono unfolding reading_def scanning_def by force
  obtain c xs where st: "(k, c, xs) \<in> set ls" "stands_on ?bc (descriptor_bytes c False)"
    "shown Neither eng ?t (k, c, xs) = Some (k, None)"
    using assms(2) by (auto simp: stands_at_def)
  have vis: "store_read s ?t k \<noteq> None"
    using shown_store(2) [OF a(1-4) st(1)] st(3) by (auto split: if_splits)
  note d = kv_onD [OF a(1)]
  have c: "i32 c" "0 \<le> c" using d(5) [OF st(1)] key_logD(1) [OF d(6) [OF st(1)]] by simp_all
  let ?b2 = "?bc\<lparr>cu_saved_key := [], cu_has_saved := False, cu_current := k\<rparr>"
  have ch: "cursor_chain ?b2 = Some c"
    using cursor_chain_stands [OF st(2) c] by (simp add: cursor_chain_def)
  have nx: "garry_btree_cursor_next (eng_pool eng) (?bc\<lparr>cu_saved_key := k, cu_has_saved := True\<rparr>) =
      Some (eng_pool eng, ?b2, Some k)"
    using scan_atD [OF a(5)] by (simp add: garry_btree_cursor_next_def)
  from idle d(6) [OF st(1)] obtain q where g:
    "garry_mvcc_get eng ?t c = (eng\<lparr>eng_pool := q\<rparr>, read_log ?t (eng_active_txns eng) xs)"
    by (rule mvcc_get_spec [where s = ?t]) blast
  have out: "cursor_output (eng\<lparr>eng_pool := q\<rparr>) Value_and_length v = cursor_output eng Value_and_length v" for v
    by (simp add: cursor_output_def)
  have sh: "shown Value_and_length eng ?t (k, c, xs) = Some (k, store_read s ?t k)"
    using shown_store(1) [OF a(1-4) st(1)] vis by auto
  then obtain v where v: "read_log ?t (eng_active_txns eng) xs = Some v"
    "cursor_output eng Value_and_length v = Some (store_read s ?t k)"
    by (auto simp: shown_def split: option.splits)
  have "storage_cursor_loop Value_and_length eng (put_back cur k) =
      Some (eng\<lparr>eng_pool := q\<rparr>, (put_back cur k)\<lparr>sc_btree_cur := ?b2\<rparr>, Some (k, store_read s ?t k))"
    using g v by (subst storage_cursor_loop.simps) (simp add: nx ch put_back_def out)
  moreover have "\<not> cu_exhausted (sc_btree_cur (put_back cur k))"
    using scan_atD [OF a(5)] by (simp add: put_back_def)
  ultimately show ?thesis by (simp add: garry_storage_cursor_next_def)
qed

text \<open>Skipping is exact: on a cursor opened with a prefix, \<open>garry_storage_cursor_skip_prefix\<close> passes
  over the visible keys that start with the skipped prefix up to the first that does not, puts
  that one back, so that the next call delivers it with its value, and reports whether there is one.\<close>

theorem storage_skip_prefix_exact:
  assumes "view_rep h m eng s" "t \<in> ss_running s" "length pfx \<le> 256"
  shows "\<exists>eng1 cur1 eng2 cur2 b eng3 cur3 ks.
    garry_storage_cursor_open eng t (Some pfx) (int (length pfx)) = Some (eng1, cur1) \<and>
    garry_storage_cursor_skip_prefix eng1 cur1 skip = Some (eng2, cur2, b) \<and>
    garry_storage_cursor_next Value_and_length eng2 cur2 = Some (eng3, cur3,
      case dropWhile (Sublist.prefix skip) ks of [] \<Rightarrow> None | k # _ \<Rightarrow> Some (k, store_read s t k)) \<and>
    b = (dropWhile (Sublist.prefix skip) ks \<noteq> []) \<and>
    sorted_wrt (<) ks \<and> set ks = {k. Sublist.prefix pfx k \<and> store_read s t k \<noteq> None}"
proof -
  from assms(1) obtain ls P e cur where o:
    "garry_storage_cursor_open eng t (Some pfx) (int (length pfx)) = Some (e, cur)" "same_store eng e"
    "sc_txn cur = t" "kv_on h eng ls P" "logs_rep eng (versions ls) s" "table_rep eng s"
    "scanning (4 ^ h) h ls P e cur (filter (\<lambda>r. Sublist.prefix pfx (fst r)) ls)"
    by (rule open_view [where pfx = "Some pfx"]) auto
  let ?rs = "filter (\<lambda>r. Sublist.prefix pfx (fst r)) ls"
  let ?ks = "visible_keys s t ?rs"
  have rd: "reading (4 ^ h) h ls P s e cur ?rs"
    using o(3,7) reading_store [OF o(5,6,2)] assms(2) by (simp add: reading_def)
  have ks: "sorted_wrt (<) ?ks" "set ?ks = {k. Sublist.prefix pfx k \<and> store_read s t k \<noteq> None}"
    using visible_keys_sorted [of ?rs s t] sorted_wrt_filter [OF kv_keys_sorted [OF o(4)], of "Sublist.prefix pfx"]
      visible_keys_set [OF o(5), of t]
    by (auto simp: o_def filter_map visible_keys_prefix)
  have nex: "\<not> cu_exhausted (sc_btree_cur cur)" using o(7) scan_atD by (auto simp: scanning_def)
  from skip_prefix_loop_spec [OF rd, of skip] obtain e2 c2 b where l:
    "skip_prefix_loop skip e cur = Some (e2, c2, b)"
    "case dropWhile (Sublist.prefix skip) ?ks of
       [] \<Rightarrow> \<not> b \<and> cu_exhausted (sc_btree_cur c2)
     | k # ks \<Rightarrow> b \<and> (\<exists>c1 rs'. c2 = put_back c1 k \<and> sc_txn c1 = t \<and>
         reading (4 ^ h) h ls P s e2 c1 rs' \<and> stands_at Neither ls e2 c1 (k, None))"
    unfolding o(3) by blast
  have sk: "garry_storage_cursor_skip_prefix e cur skip = Some (e2, c2, b)"
    using l(1) nex by (simp add: garry_storage_cursor_skip_prefix_def)
  have "\<exists>e3 c3. garry_storage_cursor_next Value_and_length e2 c2 = Some (e3, c3,
      case dropWhile (Sublist.prefix skip) ?ks of [] \<Rightarrow> None | k # _ \<Rightarrow> Some (k, store_read s t k))"
  proof (cases "dropWhile (Sublist.prefix skip) ?ks")
    case Nil
    from l(2) show ?thesis unfolding Nil by (simp add: garry_storage_cursor_next_def)
  next
    case (Cons k ks)
    with l(2) obtain c1 rs' where "c2 = put_back c1 k" "sc_txn c1 = t"
      "reading (4 ^ h) h ls P s e2 c1 rs'" "stands_at Neither ls e2 c1 (k, None)" by auto
    with next_after_put_back [of "4 ^ h" h ls P s e2 c1 rs' k] show ?thesis unfolding Cons by auto
  qed
  moreover have "b = (dropWhile (Sublist.prefix skip) ?ks \<noteq> [])"
    using l(2) by (cases "dropWhile (Sublist.prefix skip) ?ks") (simp_all del: dropWhile_eq_Nil_conv)
  ultimately show ?thesis using o(1) sk ks by blast
qed

subsection \<open>A store with one key\<close>

definition one_key_store :: store_state where
  "one_key_store = store_append busy_store 1 [107, 49] (Some [1, 2, 3])"

lemma one_key_read: "store_read one_key_store 1 k = (if k = [107, 49] then Some [1, 2, 3] else None)"
  by (simp add: one_key_store_def store_append_def busy_store_def store_read_def read_log_def may_see_def)

lemma singleton_list: "set xs = {x} \<Longrightarrow> distinct xs \<Longrightarrow> xs = [x]"
  by (cases xs) (auto simp: subset_singleton_iff dest: subset_singletonD)

lemma one_key_view:
  obtains h eng1 where "garry_storage_set True busy_engine 1 [107, 49] [1, 2, 3] = Some (eng1, True)"
    "view_rep h 1 eng1 one_key_store"
proof -
  have "store_rep (Suc 4) busy_engine busy_store" using busy_rep(1) by simp
  then have tab: "table_rep busy_engine busy_store" by (rule store_rep_open)
  obtain h eng1 ls Q where s:
    "garry_storage_set True busy_engine 1 [107, 49] [1, 2, 3] = Some (eng1, True)" "h \<le> 1"
    "kv_on h eng1 ls Q" "length ls \<le> 1" "tree_pool 24 0 (eng_pool eng1)" "same_session busy_engine eng1"
    "versions ls = (versions [])([107, 49] := [(1, compress_value busy_engine [1, 2, 3])])"
    by (rule busy_set_kv [of 24 0 "[107, 49]" "[1, 2, 3]"]) simp_all
  have log: "logs_rep busy_engine (versions []) busy_store" by (simp add: logs_rep_def versions_def busy_store_def)
  have V: "versions ls = (versions [])([107, 49] := versions [] [107, 49] @
      [(1, Option.bind (Some [1, 2, 3]) (compress_value busy_engine))])"
    unfolding s(7) by (simp add: versions_def)
  have "logs_rep busy_engine (versions ls) one_key_store"
    unfolding V one_key_store_def by (rule logs_rep_append [OF log]) (simp add: small_value_def)
  then have "logs_rep eng1 (versions ls) one_key_store"
    by (rule logs_rep_cong) (use s(6) in \<open>simp_all add: same_session_def\<close>)
  moreover have "table_rep eng1 one_key_store"
    by (rule table_rep_session [OF tab s(6)]) (simp_all add: one_key_store_def store_append_def)
  moreover have "Suc 1 * visit_cost (4 ^ h) + 2 * Suc h \<le> 24"
    using s(2) by (cases h) (auto simp: visit_cost_def)
  then have "pool_idle (Suc 1 * visit_cost (4 ^ h) + 2 * Suc h) (eng_pool eng1)"
    by (rule pool_idle_mono [OF tree_poolD(1) [OF s(5)]])
  ultimately have "view_rep h 1 eng1 one_key_store" using s(3,4) by (auto simp: view_rep_def)
  with s(1) that show ?thesis by simp
qed

theorem storage_scan_exact_witness:
  "\<exists>eng1 eng2 cur eng3. garry_storage_set True busy_engine 1 [107, 49] [1, 2, 3] = Some (eng1, True) \<and>
     garry_storage_cursor_open eng1 1 (Some [107]) 1 = Some (eng2, cur) \<and>
     storage_collect 2 Value_and_length eng2 cur = Some (eng3, [([107, 49], Some [1, 2, 3])])"
proof -
  obtain h eng1 where e: "garry_storage_set True busy_engine 1 [107, 49] [1, 2, 3] = Some (eng1, True)"
    "view_rep h 1 eng1 one_key_store" by (rule one_key_view)
  have t: "1 \<in> ss_running one_key_store" by (simp add: one_key_store_def store_append_def busy_store_def)
  from storage_scan_exact [OF e(2) t, of "[107]"] obtain eng2 cur eng3 xs where s:
    "garry_storage_cursor_open eng1 1 (Some [107]) 1 = Some (eng2, cur)"
    "storage_collect (Suc 1) Value_and_length eng2 cur = Some (eng3, map (\<lambda>(k, v). (k, Some v)) xs)"
    "sorted_wrt (<) (map fst xs)"
    "set xs = {(k, v). Sublist.prefix [107] k \<and> store_read one_key_store 1 k = Some v}"
    by auto
  have "set xs = {([107, 49], [1, 2, 3])}" unfolding s(4) by (auto simp: one_key_read split: if_splits)
  moreover have "distinct xs" using s(3) strict_sorted_iff distinct_map by blast
  ultimately have "xs = [([107, 49], [1, 2, 3])]"
    by (rule singleton_list)
  with e(1) s(1,2) show ?thesis by (simp add: numeral_2_eq_2 del: storage_collect.simps)
qed

theorem storage_neighbours_exact_witness:
  "\<exists>eng1 eng2 eng3. garry_storage_set True busy_engine 1 [107, 49] [1, 2, 3] = Some (eng1, True) \<and>
     garry_storage_next_key eng1 1 [107] = Some (eng2, Some [107, 49]) \<and>
     garry_storage_prev_key eng1 1 [107] = Some (eng3, None)"
proof -
  obtain h eng1 where e: "garry_storage_set True busy_engine 1 [107, 49] [1, 2, 3] = Some (eng1, True)"
    "view_rep h 1 eng1 one_key_store" by (rule one_key_view)
  have t: "1 \<in> ss_running one_key_store" by (simp add: one_key_store_def store_append_def busy_store_def)
  have ks: "{k. store_read one_key_store 1 k \<noteq> None} = {[107, 49]}" by (auto simp: one_key_read)
  from storage_neighbours_exact [OF e(2) t, of "[107]"] obtain eng2 r1 eng3 r2 where s:
    "garry_storage_next_key eng1 1 [107] = Some (eng2, r1)" "least_above {[107, 49]} [107] r1"
    "garry_storage_prev_key eng1 1 [107] = Some (eng3, r2)" "greatest_below {[107, 49]} [107] r2"
    unfolding ks by auto
  have "r1 = Some [107, 49]" "r2 = None"
    using s(2,4) by (auto simp: least_above_def greatest_below_def split: option.splits)
  with e(1) s(1,3) show ?thesis by blast
qed

theorem storage_first_exact_witness:
  "\<exists>eng1 eng2. garry_storage_set True busy_engine 1 [107, 49] [1, 2, 3] = Some (eng1, True) \<and>
     garry_storage_first eng1 1 = Some (eng2, Some [107, 49])"
proof -
  obtain h eng1 where e: "garry_storage_set True busy_engine 1 [107, 49] [1, 2, 3] = Some (eng1, True)"
    "view_rep h 1 eng1 one_key_store" by (rule one_key_view)
  have t: "1 \<in> ss_running one_key_store" by (simp add: one_key_store_def store_append_def busy_store_def)
  have ks: "{k. store_read one_key_store 1 k \<noteq> None} = {[107, 49]}" by (auto simp: one_key_read)
  from storage_first_exact [OF e(2) t] obtain eng2 r where s: "garry_storage_first eng1 1 = Some (eng2, r)"
    "case r of None \<Rightarrow> {k. store_read one_key_store 1 k \<noteq> None} = {}
     | Some k \<Rightarrow> store_read one_key_store 1 k \<noteq> None" by (auto split: option.splits)
  have "r = Some [107, 49]" using s(2) ks by (auto simp: one_key_read split: option.splits if_splits)
  with e(1) s(1) show ?thesis by blast
qed

theorem storage_skip_prefix_exact_witness:
  "\<exists>eng1 eng2 cur eng3 cur3 eng4 cur4.
     garry_storage_set True busy_engine 1 [107, 49] [1, 2, 3] = Some (eng1, True) \<and>
     garry_storage_cursor_open eng1 1 (Some []) 0 = Some (eng2, cur) \<and>
     garry_storage_cursor_skip_prefix eng2 cur [107, 50] = Some (eng3, cur3, True) \<and>
     garry_storage_cursor_next Value_and_length eng3 cur3 = Some (eng4, cur4, Some ([107, 49], Some [1, 2, 3]))"
proof -
  obtain h eng1 where e: "garry_storage_set True busy_engine 1 [107, 49] [1, 2, 3] = Some (eng1, True)"
    "view_rep h 1 eng1 one_key_store" by (rule one_key_view)
  have t: "1 \<in> ss_running one_key_store" by (simp add: one_key_store_def store_append_def busy_store_def)
  from storage_skip_prefix_exact [OF e(2) t, of "[]" "[107, 50]"] obtain eng2 cur eng3 cur3 b eng4 cur4 ks where s:
    "garry_storage_cursor_open eng1 1 (Some []) 0 = Some (eng2, cur)"
    "garry_storage_cursor_skip_prefix eng2 cur [107, 50] = Some (eng3, cur3, b)"
    "garry_storage_cursor_next Value_and_length eng3 cur3 = Some (eng4, cur4,
      case dropWhile (Sublist.prefix [107, 50]) ks of [] \<Rightarrow> None | k # _ \<Rightarrow> Some (k, store_read one_key_store 1 k))"
    "b = (dropWhile (Sublist.prefix [107, 50]) ks \<noteq> [])" "sorted_wrt (<) ks"
    "set ks = {k. Sublist.prefix [] k \<and> store_read one_key_store 1 k \<noteq> None}"
    by auto
  have "set ks = {[107, 49]}" unfolding s(6) by (auto simp: one_key_read)
  moreover have "distinct ks" using s(5) strict_sorted_iff by blast
  ultimately have "ks = [[107, 49]]" by (rule singleton_list)
  with e(1) s(1-4) show ?thesis by (auto simp: one_key_read)
qed

end
