(* ===== verification/Garry_Versions.thy ===== *)
theory Garry_Versions
  imports Garry_Navigation
begin

text \<open>
  The history of a key: the version iterator of \<open>src/src/version_chain.c\<close>, on the database handle of
  \<open>src/src/garry_internal.h\<close>.

  An iterator has a copy of the chain page and walks it from the newest record down. The pool it
  points to, which holds the overflow pages, is passed along; \<open>mem\<close> is the memory its copy of the page
  is allocated in. A null pointer is \<open>None\<close>. Allocations succeed, except those of a negative size.

  The lemmas show that an iterator delivers every version of the key, newest first, whoever wrote
  it, as it is stored: also versions of transactions that still run, and compressed values.
\<close>

subsection \<open>The database handle (garry\_internal.h)\<close>

record garry_database =
  db_eng :: garry_engine_handle

subsection \<open>The version iterator (version\_chain.c)\<close>

record garry_version_iter =
  vi_page_buf :: buffer
  vi_page_size :: int
  vi_record_count :: int
  vi_next_slot :: int

definition garry_version_iter_open ::
  "buffer \<Rightarrow> garry_database option \<Rightarrow> int \<Rightarrow> byte list option \<Rightarrow>
   (garry_database option \<times> garry_version_iter option) option" where
  "garry_version_iter_open mem db txn key =
     (case (db, key) of
        (Some db, Some key) \<Rightarrow>
          if length key = 0 then Some (Some db, None)
          else
            (case engine_search (db_eng db) key of
               None \<Rightarrow> None
             | Some (eng, None) \<Rightarrow> Some (Some (db\<lparr>db_eng := eng\<rparr>), None)
             | Some (eng, Some lookup) \<Rightarrow>
                 (let cid = garry_decode_cid_from_descriptor lookup
                  in if cid < 0 then Some (Some (db\<lparr>db_eng := eng\<rparr>), None)
                     else
                       (case garry_pool_pin_page (eng_pool eng) cid of
                          (pool, None) \<Rightarrow> Some (Some (db\<lparr>db_eng := eng\<lparr>eng_pool := pool\<rparr>\<rparr>), None)
                        | (pool, Some idx) \<Rightarrow>
                            (let page_size = bp_page_size pool;
                                 page_buf = put_bytes mem 0 (read_bytes (bp_pages pool idx) 0 page_size);
                                 pool = garry_pool_release_page pool cid;
                                 record_count = garry_page_record_count page_buf
                             in Some (Some (db\<lparr>db_eng := eng\<lparr>eng_pool := pool\<rparr>\<rparr>),
                                  Some \<lparr>vi_page_buf = page_buf, vi_page_size = page_size,
                                        vi_record_count = record_count, vi_next_slot = record_count - 1\<rparr>)))))
      | _ \<Rightarrow> Some (db, None))"

text \<open>The result of a step: the transaction, the value (no value for a tombstone) and whether the version
  is a tombstone; \<open>None\<close> is \<open>GARRY_FALSE\<close>, which leaves the iterator where it was.\<close>

definition garry_version_iter_next ::
  "garry_buffer_pool \<Rightarrow> garry_version_iter option \<Rightarrow>
   garry_buffer_pool \<times> garry_version_iter option \<times> (int \<times> byte list option \<times> bool) option" where
  "garry_version_iter_next pool it =
     (case it of
        None \<Rightarrow> (pool, None, None)
      | Some i \<Rightarrow>
          if vi_next_slot i < 0 then (pool, it, None)
          else
            (case garry_page_get (vi_page_buf i) (vi_next_slot i) (vi_page_size i) of
               None \<Rightarrow> (pool, it, None)
             | Some r \<Rightarrow>
                 if length r < 14 then (pool, it, None)
                 else
                   (let rec_data = buf_of r;
                        e = read_entry rec_data;
                        it' = Some (i\<lparr>vi_next_slot := vi_next_slot i - 1\<rparr>)
                    in if ce_tombstone e then (pool, it', Some (ce_created e, None, True))
                       else if ce_value_len e < 0 then (pool, it, None)
                       else if ce_overflow e
                       then (case garry_overflow_read pool (garry_read_le32 rec_data 14) (ce_value_len e) of
                               (pool, None) \<Rightarrow> (pool, it, None)
                             | (pool, Some v) \<Rightarrow> (pool, it', Some (ce_created e, Some v, False)))
                       else (pool, it',
                         Some (ce_created e, Some (read_bytes rec_data 14 (ce_value_len e)), False)))))"

definition garry_version_iter_close :: "garry_version_iter option \<Rightarrow> garry_version_iter option" where
  "garry_version_iter_close it = None"

subsection \<open>What an iterator delivers\<close>

text \<open>Draining an iterator, with at most \<open>n\<close> calls; \<open>None\<close> if the end is not reached.\<close>

fun drain ::
  "nat \<Rightarrow> garry_buffer_pool \<Rightarrow> garry_version_iter option \<Rightarrow> (int \<times> byte list option \<times> bool) list option" where
  "drain 0 pool it = None"
| "drain (Suc n) pool it =
     (case garry_version_iter_next pool it of
        (pool, it, None) \<Rightarrow> Some []
      | (pool, it, Some x) \<Rightarrow> map_option ((#) x) (drain n pool it))"

definition told :: "version \<Rightarrow> int \<times> byte list option \<times> bool" where
  "told = (\<lambda>(t, v). (t, v, v = None))"

text \<open>An iterator that has the first \<open>n\<close> versions of a log to go.\<close>

definition iterating :: "garry_version_iter \<Rightarrow> version list \<Rightarrow> nat \<Rightarrow> bool" where
  "iterating i xs n \<longleftrightarrow>
     page_log (vi_page_size i) (vi_page_buf i) xs \<and> vi_next_slot i = int n - 1 \<and> n \<le> length xs"

lemma next_version:
  assumes "iterating i xs n"
  shows "garry_version_iter_next pool (Some i) =
    (case n of
       0 \<Rightarrow> (pool, Some i, None)
     | Suc m \<Rightarrow> (pool, Some (i\<lparr>vi_next_slot := int m - 1\<rparr>), Some (told (xs ! m))))"
proof (cases n)
  case 0
  with assms show ?thesis by (simp add: garry_version_iter_next_def iterating_def)
next
  case (Suc m)
  obtain vs where vs: "chain_rep (vi_page_buf i) (vi_page_size i) vs" "list_all not_spilled vs" "xs = map cv_pair vs"
    using assms by (auto simp: iterating_def page_log_def)
  have m: "m < length vs" "vi_next_slot i = int m" using assms Suc vs(3) by (simp_all add: iterating_def)
  have g: "garry_page_get (vi_page_buf i) (vi_next_slot i) (vi_page_size i) = Some (entry_bytes (vs ! m))"
    using chain_rep_get [OF vs(1), of m] m by simp
  have ok: "version_ok (vs ! m)" "not_spilled (vs ! m)"
    using vs(1,2) m(1) by (simp_all add: chain_rep_def list_all_length)
  have len: "\<not> length (entry_bytes (vs ! m)) < 14" using length_entry_bytes [of "vs ! m"] by simp
  show ?thesis
  proof (cases "vs ! m")
    case (Inline t d)
    with ok(1) g len m vs(3) Suc show ?thesis
      by (simp add: garry_version_iter_next_def read_entry_bytes inline_payload told_def del: entry_bytes.simps)
  next
    case (Tombstone t)
    with ok(1) g len m vs(3) Suc show ?thesis
      by (simp add: garry_version_iter_next_def read_entry_bytes told_def del: entry_bytes.simps)
  next
    case (Spilled t l hd)
    with ok(2) show ?thesis by simp
  qed
qed

lemma drain_iterating:
  "iterating i xs n \<Longrightarrow> n < k \<Longrightarrow> drain k pool (Some i) = Some (map told (rev (take n xs)))"
proof (induction k arbitrary: i n)
  case (Suc k)
  show ?case
  proof (cases n)
    case 0
    with next_version [OF Suc.prems(1)] show ?thesis by simp
  next
    case (Suc m)
    let ?i = "i\<lparr>vi_next_slot := int m - 1\<rparr>"
    have "iterating ?i xs m" "m < k" using Suc.prems Suc by (simp_all add: iterating_def)
    from Suc.IH [OF this] have "drain k pool (Some ?i) = Some (map told (rev (take m xs)))" .
    moreover have "m < length xs" using Suc.prems(1) Suc by (simp add: iterating_def)
    ultimately show ?thesis
      using next_version [OF Suc.prems(1), of pool] by (simp add: Suc take_Suc_conv_app_nth)
  qed
qed simp

text \<open>Opening an iterator on a key of the store.\<close>

lemma versions_open_kv:
  assumes "kv_on h (db_eng db) ls P" "pool_idle (n + 2 + 2 * Suc h) (eng_pool (db_eng db))" "k \<noteq> []"
  obtains pool it where
    "garry_version_iter_open mem (Some db) t (Some k) = Some (Some (db\<lparr>db_eng := (db_eng db)\<lparr>eng_pool := pool\<rparr>\<rparr>), it)"
    "pool_idle n pool" "page_frame {} (eng_pool (db_eng db)) pool"
    "case map_of ls k of None \<Rightarrow> it = None | Some (c, xs) \<Rightarrow> \<exists>i. it = Some i \<and> iterating i xs (length xs)"
proof -
  let ?eng = "db_eng db"
  from assms(1,2) obtain p where p:
    "engine_search ?eng k = Some (?eng\<lparr>eng_pool := p\<rparr>, map_option (\<lambda>r. descriptor_bytes (fst r) False) (map_of ls k))"
    "pool_idle (n + 2) p" "page_frame {} (eng_pool ?eng) p" "kv_on h (?eng\<lparr>eng_pool := p\<rparr>) ls P"
    by (rule engine_search_kv) blast
  show ?thesis
  proof (cases "map_of ls k")
    case None
    with p assms(3) show ?thesis
      by (intro that [of p None]) (auto simp: garry_version_iter_open_def intro: pool_idle_mono)
  next
    case (Some r)
    obtain c xs where r: "r = (c, xs)" by (cases r)
    have mem: "(k, c, xs) \<in> set ls" using Some unfolding r by (rule map_of_SomeD)
    note d = kv_onD [OF p(4)]
    note l = key_logD [OF d(6) [OF mem]]
    have "0 \<le> c" "c < bp_next_page p" using l(1,2) by simp_all
    with p(2) obtain q i where q: "garry_pool_pin_page p c = (q, Some i)" "pool_ready n q" "same_view p q"
      "find_slot q c = Some i" "bp_capacity q = bp_capacity p"
      "agree 0 (bp_page_size p) (page_view p c) (bp_pages q i)"
      "\<And>j. j < bp_capacity p \<Longrightarrow> bp_pin_counts q j = (if j = i then 1 else 0)"
      by (rule idle_pin_cases) blast
    let ?q = "garry_pool_release_page q c"
    define page where "page = put_bytes mem 0 (read_bytes (bp_pages q i) 0 (bp_page_size q))"
    have ps: "bp_page_size q = bp_page_size p" "eng_page_size ?eng = bp_page_size p"
      using q(3) d(1) by (simp_all add: same_view_def)
    have "agree 0 (bp_page_size p) (page_view p c) page"
      using q(6) by (auto simp: page_def ps(1) agree_def put_bytes_apply)
    then have log: "page_log (bp_page_size q) page xs" using page_log_agree [OF l(4)] by (simp add: ps)
    have rc: "garry_page_record_count page = int (length xs)"
      using log by (auto simp: page_log_def chain_rep_count)
    let ?i = "\<lparr>vi_page_buf = page, vi_page_size = bp_page_size q, vi_record_count = int (length xs),
               vi_next_slot = int (length xs) - 1\<rparr>"
    show ?thesis
    proof (rule that [of ?q "Some ?i"])
      show "garry_version_iter_open mem (Some db) t (Some k) =
          Some (Some (db\<lparr>db_eng := ?eng\<lparr>eng_pool := ?q\<rparr>\<rparr>), Some ?i)"
        using assms(3) p(1) l(1) rc
        by (simp add: garry_version_iter_open_def Some r decode_cid_descriptor(1) [OF d(5) [OF mem]] q(1) Let_def
            flip: page_def)
      show "pool_idle n ?q" using q(5,7) l(1) by (intro release_idle [OF q(2,4)]) simp_all
      have "page_frame {} p ?q" using same_view_frame [of p ?q] q(3) by (simp add: same_view_def)
      with p(3) show "page_frame {} (eng_pool ?eng) ?q" using page_frame_trans by fastforce
      show "case map_of ls k of None \<Rightarrow> Some ?i = None
          | Some (c, xs) \<Rightarrow> \<exists>i. Some ?i = Some i \<and> iterating i xs (length xs)"
        using log by (simp add: Some r iterating_def)
    qed
  qed
qed

lemma versions_drain:
  assumes "case map_of ls k of None \<Rightarrow> it = None | Some (c, xs) \<Rightarrow> \<exists>i. it = Some i \<and> iterating i xs (length xs)"
    and "length (versions ls k) < n"
  shows "drain n pool it = Some (map told (rev (versions ls k)))"
proof (cases "map_of ls k")
  case None
  with assms show ?thesis by (cases n) (simp_all add: versions_def garry_version_iter_next_def)
next
  case (Some r)
  with assms show ?thesis by (auto simp: versions_def drain_iterating split: prod.splits)
qed

subsection \<open>Property\<close>

text \<open>An iterator tells the whole history of a key: on an engine that shows a store, opening an
  iterator on a key returns, and stepping it until it reports the end delivers every version of the
  key, newest first, with its transaction, its value as it is stored and whether it is a deletion;
  there is no iterator only if the key has no versions. The transaction that asks plays no part.\<close>

theorem version_history_exact:
  assumes "view_rep h m (db_eng db) s" "k \<noteq> []"
  shows "\<exists>db' it. garry_version_iter_open mem (Some db) t (Some k) = Some (Some db', it) \<and>
    same_store (db_eng db) (db_eng db') \<and> (it = None \<longrightarrow> ss_versions s k = []) \<and>
    drain (Suc (length (ss_versions s k))) (eng_pool (db_eng db')) it =
      Some (map (\<lambda>(t, v). (t, Option.bind v (compress_value (db_eng db)), Option.bind v (compress_value (db_eng db)) = None))
        (rev (ss_versions s k)))"
proof -
  obtain ls P where v: "kv_on h (db_eng db) ls P" "logs_rep (db_eng db) (versions ls) s"
    "pool_idle (Suc m * visit_cost (4 ^ h) + 2 * Suc h) (eng_pool (db_eng db))"
    using assms(1) by (auto simp: view_rep_def)
  have log: "versions ls k = map (stored (db_eng db)) (ss_versions s k)" by (rule logs_repD(1) [OF v(2)])
  have "pool_idle (0 + 2 + 2 * Suc h) (eng_pool (db_eng db))"
    by (rule pool_idle_mono [OF v(3)]) (simp add: visit_cost_def)
  from v(1) this assms(2) obtain pool it where o:
    "garry_version_iter_open mem (Some db) t (Some k) = Some (Some (db\<lparr>db_eng := (db_eng db)\<lparr>eng_pool := pool\<rparr>\<rparr>), it)"
    "page_frame {} (eng_pool (db_eng db)) pool"
    "case map_of ls k of None \<Rightarrow> it = None | Some (c, xs) \<Rightarrow> \<exists>i. it = Some i \<and> iterating i xs (length xs)"
    by (rule versions_open_kv) blast
  have "drain (Suc (length (ss_versions s k))) pool it = Some (map told (rev (versions ls k)))"
    by (rule versions_drain [OF o(3)]) (simp add: log)
  moreover have "it = None \<longrightarrow> ss_versions s k = []"
    using o(3) log by (cases "map_of ls k") (auto simp: versions_def split: prod.splits)
  moreover have "map told (rev (versions ls k)) = map (\<lambda>(t, v). (t, Option.bind v (compress_value (db_eng db)),
      Option.bind v (compress_value (db_eng db)) = None)) (rev (ss_versions s k))"
    by (simp add: log told_def stored_def rev_map case_prod_unfold)
  ultimately show ?thesis
    by (intro exI [of _ "db\<lparr>db_eng := (db_eng db)\<lparr>eng_pool := pool\<rparr>\<rparr>"] exI [of _ it])
      (simp add: o(1) same_store_pool [OF o(2)] del: drain.simps)
qed

theorem version_history_exact_witness:
  "\<exists>eng1 db it c. garry_storage_set True busy_engine 1 [107, 49] [1, 2, 3] = Some (eng1, True) \<and>
     garry_version_iter_open (\<lambda>_. 0) (Some \<lparr>db_eng = eng1\<rparr>) 9 (Some [107, 49]) = Some (Some db, it) \<and>
     drain 2 (eng_pool (db_eng db)) it = Some [(1, Some c, False)] \<and> decompress_value eng1 c = Some [1, 2, 3]"
proof -
  obtain h eng1 where e: "garry_storage_set True busy_engine 1 [107, 49] [1, 2, 3] = Some (eng1, True)"
    "view_rep h 1 eng1 one_key_store" by (rule one_key_view)
  have vs: "ss_versions one_key_store [107, 49] = [(1, Some [1, 2, 3])]"
    by (simp add: one_key_store_def store_append_def busy_store_def)
  have "value_ok eng1 [1, 2, 3]" by (simp add: value_ok_def)
  then obtain c where c: "compress_value eng1 [1, 2, 3] = Some c" "decompress_value eng1 c = Some [1, 2, 3]"
    by (rule payload_ok)
  have "view_rep h 1 (db_eng \<lparr>db_eng = eng1\<rparr>) one_key_store" using e(2) by simp
  from version_history_exact [OF this, of "[107, 49]" "\<lambda>_. 0" 9] obtain db it where
    "garry_version_iter_open (\<lambda>_. 0) (Some \<lparr>db_eng = eng1\<rparr>) 9 (Some [107, 49]) = Some (Some db, it)"
    "drain 2 (eng_pool (db_eng db)) it = Some [(1, Some c, False)]"
    by (auto simp: vs c(1) numeral_2_eq_2)
  with e(1) c(2) show ?thesis by blast
qed

end
