(* ===== verification/Garry_Api.thy ===== *)
theory Garry_Api
  imports Garry_Engine Garry_Versions
begin

text \<open>
  The public interface: \<open>src/src/garry_api.c\<close>.

  A database handle is an engine in a record, a null handle is \<open>None\<close>, and an operation returns the
  handle with its result; \<open>None\<close> around both is a call that never returns. Allocations of handles and
  buffers succeed; \<open>malloc_ok\<close> says whether that of a lock node does. Keys and values are byte lists; a
  C string is the list of its bytes before the terminator, shorter than \<open>2 ^ 31\<close>. What opening the two
  files gives is an argument, as in \<open>Garry_Engine\<close>.

  The lemmas show that sequences of calls return and give the results of an abstract store of version
  logs with the status codes of the interface, that a string that was set is read back, and that a
  visitor sees exactly the visible keys in order.
\<close>

subsection \<open>Life of a database\<close>

definition db_of :: "garry_engine_handle option \<Rightarrow> garry_database option" where
  "db_of eng = map_option (\<lambda>eng. \<lparr>db_eng = eng\<rparr>) eng"

definition garry_database_create ::
  "garry_file \<Rightarrow> (nat \<Rightarrow> buffer) \<Rightarrow> garry_stream \<Rightarrow> string option \<Rightarrow> garry_database option" where
  "garry_database_create fd mem wal_fd path =
     (if path = None then None
      else db_of (garry_storage_init fd mem wal_fd path garry_default_engine_settings))"

definition garry_database_create_with_config ::
  "garry_file \<Rightarrow> (nat \<Rightarrow> buffer) \<Rightarrow> garry_stream \<Rightarrow> string option \<Rightarrow> garry_config \<Rightarrow> garry_database option" where
  "garry_database_create_with_config fd mem wal_fd path config =
     (if path = None then None
      else
        (let settings = garry_default_engine_settings
               \<lparr>es_pool_size := cfg_pool_size config, es_max_record_size := cfg_max_record_size config,
                es_page_size := cfg_page_size config, es_max_txns := cfg_max_txns config,
                es_max_versions := cfg_max_versions config, es_max_key_size := cfg_max_key_size config,
                es_max_subscripts := cfg_max_subscripts config, es_compression := cfg_compression config,
                es_btree_flags := cfg_btree_flags config\<rparr>
         in db_of (garry_storage_init fd mem wal_fd path settings)))"

definition garry_database_open ::
  "garry_disk \<Rightarrow> (nat \<Rightarrow> buffer) \<Rightarrow> garry_stream \<Rightarrow> string option \<Rightarrow> garry_database option option" where
  "garry_database_open disk mem wal_fd path =
     (if path = None then Some None else map_option db_of (garry_storage_open disk mem wal_fd path))"

definition garry_database_close :: "garry_database option \<Rightarrow> (garry_file \<times> garry_stream) option" where
  "garry_database_close db = (case db of None \<Rightarrow> None | Some db \<Rightarrow> Some (garry_storage_close (db_eng db)))"

subsection \<open>Transactions\<close>

definition garry_txn_begin :: "garry_database option \<Rightarrow> garry_database option \<times> int" where
  "garry_txn_begin db =
     (case db of
        None \<Rightarrow> (None, -1)
      | Some db \<Rightarrow> (case garry_storage_begin (db_eng db) of (eng, txn) \<Rightarrow> (Some (db\<lparr>db_eng := eng\<rparr>), txn)))"

definition garry_txn_commit :: "garry_database option \<Rightarrow> int \<Rightarrow> garry_database option" where
  "garry_txn_commit db txn =
     (case db of None \<Rightarrow> None | Some db \<Rightarrow> Some (db\<lparr>db_eng := garry_storage_commit (db_eng db) txn\<rparr>))"

definition garry_txn_rollback :: "garry_database option \<Rightarrow> int \<Rightarrow> garry_database option" where
  "garry_txn_rollback db txn =
     (case db of None \<Rightarrow> None | Some db \<Rightarrow> Some (db\<lparr>db_eng := garry_storage_rollback (db_eng db) txn\<rparr>))"

subsection \<open>Operations\<close>

text \<open>A call on the engine behind a handle; a null handle gives the result \<open>r\<close>.\<close>

definition with_db ::
  "'r \<Rightarrow> (garry_engine_handle \<Rightarrow> (garry_engine_handle \<times> 'r) option) \<Rightarrow> garry_database option \<Rightarrow>
   (garry_database option \<times> 'r) option" where
  "with_db r f db =
     (case db of
        None \<Rightarrow> Some (None, r)
      | Some db \<Rightarrow> map_option (\<lambda>(eng, x). (Some (db\<lparr>db_eng := eng\<rparr>), x)) (f (db_eng db)))"

definition garry_get ::
  "garry_database option \<Rightarrow> int \<Rightarrow> byte list \<Rightarrow> (garry_database option \<times> garry_status \<times> byte list option) option" where
  "garry_get db txn key =
     with_db (GARRY_ERR_INVALID_ARG, None)
       (\<lambda>eng. case garry_storage_get eng txn key of
          None \<Rightarrow> None
        | Some (eng, Some v) \<Rightarrow> Some (eng, GARRY_OK, Some v)
        | Some (eng, None) \<Rightarrow>
            if \<not> garry_txn_is_active txn eng then Some (eng, GARRY_ERR_INVALID_ARG, None)
            else Some (eng, GARRY_ERR_NOT_FOUND, None)) db"

definition garry_set ::
  "bool \<Rightarrow> garry_database option \<Rightarrow> int \<Rightarrow> byte list \<Rightarrow> byte list \<Rightarrow>
   (garry_database option \<times> garry_status) option" where
  "garry_set malloc_ok db txn key val =
     with_db GARRY_ERR_INVALID_ARG
       (\<lambda>eng. map_option (\<lambda>(eng, ok). (eng, if ok then GARRY_OK else GARRY_ERR_INVALID_ARG))
          (garry_storage_set malloc_ok eng txn key val)) db"

definition garry_delete ::
  "bool \<Rightarrow> garry_database option \<Rightarrow> int \<Rightarrow> byte list \<Rightarrow> (garry_database option \<times> garry_status) option" where
  "garry_delete malloc_ok db txn key =
     with_db GARRY_ERR_INVALID_ARG
       (\<lambda>eng. map_option (\<lambda>(eng, ok). (eng, if ok then GARRY_OK else GARRY_ERR_NOT_FOUND))
          (garry_storage_delete malloc_ok eng txn key)) db"

definition garry_get_default ::
  "garry_database option \<Rightarrow> int \<Rightarrow> byte list \<Rightarrow> byte list \<Rightarrow>
   (garry_database option \<times> garry_status \<times> byte list option) option" where
  "garry_get_default db txn key def =
     with_db (GARRY_ERR_INVALID_ARG, None)
       (\<lambda>eng. map_option (\<lambda>(eng, v). (eng, if v \<noteq> None then GARRY_OK else GARRY_ERR_INVALID_ARG, v))
          (garry_storage_get_default eng txn key def)) db"

definition garry_data ::
  "garry_database option \<Rightarrow> int \<Rightarrow> byte list \<Rightarrow> (garry_database option \<times> int) option" where
  "garry_data db txn key = with_db 0 (\<lambda>eng. garry_storage_data eng txn key) db"

definition garry_first ::
  "garry_database option \<Rightarrow> int \<Rightarrow> (garry_database option \<times> byte list option) option" where
  "garry_first db txn = with_db None (\<lambda>eng. garry_storage_first eng txn) db"

definition garry_last ::
  "garry_database option \<Rightarrow> int \<Rightarrow> (garry_database option \<times> byte list option) option" where
  "garry_last db txn = with_db None (\<lambda>eng. garry_storage_last eng txn) db"

definition garry_next_key ::
  "garry_database option \<Rightarrow> int \<Rightarrow> byte list \<Rightarrow> (garry_database option \<times> byte list option) option" where
  "garry_next_key db txn after = with_db None (\<lambda>eng. garry_storage_next_key eng txn after) db"

definition garry_prev_key ::
  "garry_database option \<Rightarrow> int \<Rightarrow> byte list \<Rightarrow> (garry_database option \<times> byte list option) option" where
  "garry_prev_key db txn before = with_db None (\<lambda>eng. garry_storage_prev_key eng txn before) db"

definition garry_exists ::
  "garry_database option \<Rightarrow> int \<Rightarrow> byte list \<Rightarrow> (garry_database option \<times> bool) option" where
  "garry_exists db txn key = with_db False (\<lambda>eng. garry_storage_exists eng txn key) db"

definition garry_count :: "garry_database option \<Rightarrow> int \<Rightarrow> int" where
  "garry_count db txn = (case db of None \<Rightarrow> 0 | Some db \<Rightarrow> garry_storage_count (db_eng db) txn)"

subsection \<open>Cursors\<close>

text \<open>The engine a cursor points to is that of the handle it was opened on.\<close>

record garry_cursor =
  gc_scur :: garry_storage_cursor

definition garry_cursor_open ::
  "garry_database option \<Rightarrow> int \<Rightarrow> byte list option \<Rightarrow> int \<Rightarrow>
   (garry_database option \<times> garry_cursor option) option" where
  "garry_cursor_open db txn pfx plen =
     with_db None
       (\<lambda>eng. map_option (\<lambda>(eng, scur). (eng, Some \<lparr>gc_scur = scur\<rparr>))
          (garry_storage_cursor_open eng txn pfx plen)) db"

definition cursor_step ::
  "outputs \<Rightarrow> garry_database \<Rightarrow> garry_cursor option \<Rightarrow>
   (garry_database \<times> garry_cursor option \<times> (byte list \<times> byte list option) option) option" where
  "cursor_step outs db cur =
     (case cur of
        None \<Rightarrow> Some (db, None, None)
      | Some cur \<Rightarrow>
          map_option (\<lambda>(eng, scur, r). (db\<lparr>db_eng := eng\<rparr>, Some (cur\<lparr>gc_scur := scur\<rparr>), r))
            (garry_storage_cursor_next outs (db_eng db) (gc_scur cur)))"

definition garry_cursor_next ::
  "garry_database \<Rightarrow> garry_cursor option \<Rightarrow>
   (garry_database \<times> garry_cursor option \<times> (byte list \<times> byte list option) option) option" where
  "garry_cursor_next db cur = cursor_step Value_and_length db cur"

definition garry_cursor_next_key ::
  "garry_database \<Rightarrow> garry_cursor option \<Rightarrow>
   (garry_database \<times> garry_cursor option \<times> byte list option) option" where
  "garry_cursor_next_key db cur =
     map_option (\<lambda>(db, cur, r). (db, cur, map_option fst r)) (cursor_step Neither db cur)"

definition garry_cursor_close :: "garry_cursor option \<Rightarrow> garry_cursor option" where
  "garry_cursor_close cur = None"

subsection \<open>Strings\<close>

definition garry_set_str ::
  "bool \<Rightarrow> garry_database option \<Rightarrow> int \<Rightarrow> byte list option \<Rightarrow> byte list option \<Rightarrow>
   (garry_database option \<times> garry_status) option" where
  "garry_set_str malloc_ok db txn key val =
     (case (db, key, val) of
        (Some _, Some key, Some val) \<Rightarrow>
          if length key > GARRY_MAX_KEY_SIZE then Some (db, GARRY_ERR_BUFFER_TOO_SMALL)
          else if length val > GARRY_MAX_RECORD_SIZE then Some (db, GARRY_ERR_BUFFER_TOO_SMALL)
          else garry_set malloc_ok db txn key val
      | _ \<Rightarrow> Some (db, GARRY_ERR_INVALID_ARG))"

text \<open>The buffer of the caller is written: the bytes of the value, however many, and a terminator.\<close>

definition garry_get_str ::
  "garry_database option \<Rightarrow> int \<Rightarrow> byte list option \<Rightarrow> buffer option \<Rightarrow> int \<Rightarrow>
   (garry_database option \<times> garry_status \<times> buffer option) option" where
  "garry_get_str db txn key out value_size =
     (case (db, key, out) of
        (Some _, Some key, Some buf) \<Rightarrow>
          if value_size \<le> 0 then Some (db, GARRY_ERR_INVALID_ARG, out)
          else if length key > GARRY_MAX_KEY_SIZE then Some (db, GARRY_ERR_BUFFER_TOO_SMALL, out)
          else
            (case garry_get db txn key of
               None \<Rightarrow> None
             | Some (db, rc, Some v) \<Rightarrow>
                 (let vlen = int (length v);
                      vlen = (if vlen \<ge> value_size then value_size - 1 else vlen)
                  in Some (db, rc, Some ((put_bytes buf 0 v)(vlen := 0))))
             | Some (db, rc, None) \<Rightarrow> Some (db, rc, out))
      | _ \<Rightarrow> Some (db, GARRY_ERR_INVALID_ARG, out))"

subsection \<open>Visiting\<close>

text \<open>A visitor is a function on the data behind the pointer it is given. The value buffer keeps what
  the previous entry left in it.\<close>

partial_function (option) for_each_loop ::
  "(byte list \<Rightarrow> byte list \<Rightarrow> 'u \<Rightarrow> 'u) \<Rightarrow> garry_database \<Rightarrow> garry_cursor option \<Rightarrow> byte list \<Rightarrow> 'u \<Rightarrow>
   (garry_database \<times> 'u) option" where
  "for_each_loop visitor db cur val user_data =
     (case garry_cursor_next db cur of
        None \<Rightarrow> None
      | Some (db, cur, None) \<Rightarrow> Some (db, user_data)
      | Some (db, cur, Some (key, out)) \<Rightarrow>
          (let val = (case out of None \<Rightarrow> val | Some v \<Rightarrow> v)
           in for_each_loop visitor db cur val (visitor key val user_data)))"

definition garry_for_each ::
  "byte list \<Rightarrow> garry_database option \<Rightarrow> int \<Rightarrow> byte list option \<Rightarrow> int \<Rightarrow>
   (byte list \<Rightarrow> byte list \<Rightarrow> 'u \<Rightarrow> 'u) option \<Rightarrow> 'u \<Rightarrow> (garry_database option \<times> 'u) option" where
  "garry_for_each mem db txn pfx plen visitor user_data =
     (case (db, visitor) of
        (Some _, Some visitor) \<Rightarrow>
          (case garry_cursor_open db txn pfx plen of
             Some (Some db, Some cur) \<Rightarrow>
               map_option (\<lambda>(db, user_data). (Some db, user_data)) (for_each_loop visitor db (Some cur) mem user_data)
           | Some (db, _) \<Rightarrow> Some (db, user_data)
           | None \<Rightarrow> None)
      | _ \<Rightarrow> Some (db, user_data))"

definition garry_get_versions ::
  "buffer \<Rightarrow> garry_database option \<Rightarrow> int \<Rightarrow> byte list option \<Rightarrow>
   (garry_database option \<times> garry_version_iter option) option" where
  "garry_get_versions mem db txn key = garry_version_iter_open mem db txn key"

subsection \<open>The interface as a machine\<close>

text \<open>The calls that do not iterate, and what they give. The flag says whether the allocation of a lock
  node succeeds.\<close>

datatype api_call =
    Call_begin
  | Call_commit int
  | Call_rollback int
  | Call_get int key
  | Call_set bool int key "byte list"
  | Call_delete bool int key
  | Call_get_default int key "byte list"
  | Call_data int key
  | Call_exists int key
  | Call_count int

datatype api_result =
    Txn int
  | Nothing
  | Value garry_status "byte list option"
  | Status garry_status
  | Number int
  | Truth bool

fun api_exec :: "garry_database option \<Rightarrow> api_call \<Rightarrow> (garry_database option \<times> api_result) option" where
  "api_exec db Call_begin = (case garry_txn_begin db of (db, t) \<Rightarrow> Some (db, Txn t))"
| "api_exec db (Call_commit t) = Some (garry_txn_commit db t, Nothing)"
| "api_exec db (Call_rollback t) = Some (garry_txn_rollback db t, Nothing)"
| "api_exec db (Call_get t k) = map_option (\<lambda>(db, st, v). (db, Value st v)) (garry_get db t k)"
| "api_exec db (Call_set m t k v) = map_option (\<lambda>(db, st). (db, Status st)) (garry_set m db t k v)"
| "api_exec db (Call_delete m t k) = map_option (\<lambda>(db, st). (db, Status st)) (garry_delete m db t k)"
| "api_exec db (Call_get_default t k d) =
     map_option (\<lambda>(db, st, v). (db, Value st v)) (garry_get_default db t k d)"
| "api_exec db (Call_data t k) = map_option (\<lambda>(db, n). (db, Number n)) (garry_data db t k)"
| "api_exec db (Call_exists t k) = map_option (\<lambda>(db, b). (db, Truth b)) (garry_exists db t k)"
| "api_exec db (Call_count t) = Some (db, Number (garry_count db t))"

fun api_call_ok :: "api_call \<Rightarrow> bool" where
  "api_call_ok (Call_get t k) \<longleftrightarrow> k \<noteq> [] \<and> length k < 256"
| "api_call_ok (Call_set m t k v) \<longleftrightarrow> k \<noteq> [] \<and> length k < 256 \<and> v \<noteq> [] \<and> length v \<le> 256"
| "api_call_ok (Call_delete m t k) \<longleftrightarrow> k \<noteq> [] \<and> length k < 256"
| "api_call_ok (Call_get_default t k d) \<longleftrightarrow> k \<noteq> [] \<and> length k < 256 \<and> length d \<le> 16384"
| "api_call_ok (Call_data t k) \<longleftrightarrow> k \<noteq> []"
| "api_call_ok (Call_exists t k) \<longleftrightarrow> k \<noteq> [] \<and> length k < 256"
| "api_call_ok _ \<longleftrightarrow> True"

text \<open>What the calls give on the abstract store. A write may be refused; then nothing changes. The shape of
  a key is told for any number, also one that is no running transaction.\<close>

fun api_spec :: "store_state \<Rightarrow> api_call \<Rightarrow> api_result \<Rightarrow> store_state option" where
  "api_spec s Call_begin r = (case r of Txn t \<Rightarrow> store_spec s Start (Started t) | _ \<Rightarrow> None)"
| "api_spec s (Call_commit t) r = (if r = Nothing then store_spec s (Commit t) Done else None)"
| "api_spec s (Call_rollback t) r = (if r = Nothing then store_spec s (Rollback t) Done else None)"
| "api_spec s (Call_get t k) r =
     (let v = store_read s t k
      in if r = Value (if v \<noteq> None then GARRY_OK else if t \<in> ss_running s then GARRY_ERR_NOT_FOUND
                       else GARRY_ERR_INVALID_ARG) v
         then Some s else None)"
| "api_spec s (Call_set m t k v) r =
     (if r = Status GARRY_OK then store_spec s (Write t k v) (Written True)
      else if r = Status GARRY_ERR_INVALID_ARG then Some s else None)"
| "api_spec s (Call_delete m t k) r =
     (if r = Status GARRY_OK then store_spec s (Remove t k) (Written True)
      else if r = Status GARRY_ERR_NOT_FOUND then Some s else None)"
| "api_spec s (Call_get_default t k d) r =
     (if r = (if t \<in> ss_running s
              then Value GARRY_OK (Some (case store_read s t k of None \<Rightarrow> d | Some x \<Rightarrow> x))
              else Value GARRY_ERR_INVALID_ARG None)
      then Some s else None)"
| "api_spec s (Call_data t k) r =
     (if r = Number (if read_log t (ss_active s) (ss_versions s k) \<noteq> None then GARRY_DATA_HAS_VALUE
                     else GARRY_DATA_NOT_FOUND)
      then Some s else None)"
| "api_spec s (Call_exists t k) r = (if r = Truth (store_read s t k \<noteq> None) then Some s else None)"
| "api_spec s (Call_count t) r =
     (case r of Number n \<Rightarrow> if t \<notin> ss_running s \<and> n \<noteq> 0 then None else Some s | _ \<Rightarrow> None)"

lemma store_rep_running: "store_rep n eng s \<Longrightarrow> garry_txn_is_active t eng \<longleftrightarrow> t \<in> ss_running s"
  by (auto simp: store_rep_def table_rep_def)

lemma not_running_read: "t \<notin> ss_running s \<Longrightarrow> store_read s t k = None"
  by (simp add: store_read_def)

text \<open>One call.\<close>

lemma api_get:
  assumes "store_rep (Suc n) (db_eng db) s" "k \<noteq> []" "length k < 256"
  obtains db' where "store_rep n (db_eng db') s"
    "garry_get (Some db) t k = Some (Some db',
       if store_read s t k \<noteq> None then GARRY_OK else if t \<in> ss_running s then GARRY_ERR_NOT_FOUND
       else GARRY_ERR_INVALID_ARG, store_read s t k)"
    "length d \<le> 16384 \<Longrightarrow> garry_get_default (Some db) t k d = Some (Some db',
       if t \<in> ss_running s
       then (GARRY_OK, Some (case store_read s t k of None \<Rightarrow> d | Some x \<Rightarrow> x)) else (GARRY_ERR_INVALID_ARG, None))"
proof -
  from step_read(1) [OF assms, of t] obtain eng where
    e: "garry_storage_get (db_eng db) t k = Some (eng, store_read s t k)" "store_rep n eng s" by blast
  note run = store_rep_running [OF e(2), of t]
  show ?thesis
  proof (rule that [of "db\<lparr>db_eng := eng\<rparr>"])
    show "store_rep n (db_eng (db\<lparr>db_eng := eng\<rparr>)) s" using e(2) by simp
    show "garry_get (Some db) t k = Some (Some (db\<lparr>db_eng := eng\<rparr>),
       if store_read s t k \<noteq> None then GARRY_OK else if t \<in> ss_running s then GARRY_ERR_NOT_FOUND
       else GARRY_ERR_INVALID_ARG, store_read s t k)"
      by (cases "store_read s t k") (simp_all add: garry_get_def with_db_def e(1) run)
    show "garry_get_default (Some db) t k d = Some (Some (db\<lparr>db_eng := eng\<rparr>),
       if t \<in> ss_running s
       then (GARRY_OK, Some (case store_read s t k of None \<Rightarrow> d | Some x \<Rightarrow> x)) else (GARRY_ERR_INVALID_ARG, None))"
      if "length d \<le> 16384"
      using that not_running_read [of t s k]
      by (cases "store_read s t k")
        (auto simp: garry_get_default_def garry_storage_get_default_def with_db_def e(1) run GARRY_MAX_RECORD_SIZE_def)
  qed
qed

lemma api_set:
  assumes "store_rep (Suc n) (db_eng db) s" "k \<noteq> []" "length k < 256" "v \<noteq> []" "length v \<le> 256"
  obtains db' ok where "garry_set m (Some db) t k v = Some (Some db', if ok then GARRY_OK else GARRY_ERR_INVALID_ARG)"
    "ok \<Longrightarrow> t \<in> ss_running s" "store_rep n (db_eng db') (if ok then store_append s t k (Some v) else s)"
    "garry_storage_set m (db_eng db) t k v = Some (db_eng db', ok)"
proof -
  from step_write [OF assms, of m t] obtain eng ok where
    "garry_storage_set m (db_eng db) t k v = Some (eng, ok)" "ok \<longrightarrow> t \<in> ss_running s"
    "store_rep n eng (if ok then store_append s t k (Some v) else s)" by blast
  then show ?thesis by (intro that [of "db\<lparr>db_eng := eng\<rparr>" ok]) (simp_all add: garry_set_def with_db_def)
qed

lemma api_step:
  assumes rep: "store_rep (Suc n) (db_eng db) s" and ok: "api_call_ok c"
  shows "\<exists>db' r s'. api_exec (Some db) c = Some (Some db', r) \<and> api_spec s c r = Some s' \<and>
    store_rep n (db_eng db') s'"
proof (cases c)
  case Call_begin
  from step_begin [OF rep] obtain eng t s' where
    "garry_storage_begin (db_eng db) = (eng, t)" "store_spec s Start (Started t) = Some s'" "store_rep n eng s'" by blast
  then show ?thesis
    unfolding Call_begin by (intro exI [of _ "db\<lparr>db_eng := eng\<rparr>"] exI [of _ "Txn t"]) (simp add: garry_txn_begin_def)
next
  case (Call_commit t)
  show ?thesis
    unfolding Call_commit using step_commit [OF rep, of t]
    by (intro exI [of _ "db\<lparr>db_eng := garry_storage_commit (db_eng db) t\<rparr>"]) (simp add: garry_txn_commit_def)
next
  case (Call_rollback t)
  show ?thesis
    unfolding Call_rollback using step_rollback [OF rep, of t]
    by (intro exI [of _ "db\<lparr>db_eng := garry_storage_rollback (db_eng db) t\<rparr>"]) (simp add: garry_txn_rollback_def)
next
  case (Call_get t k)
  with ok have k: "k \<noteq> []" "length k < 256" by simp_all
  from rep k show ?thesis unfolding Call_get by (rule api_get [where t = t]) auto
next
  case (Call_set m t k v)
  with ok have k: "k \<noteq> []" "length k < 256" "v \<noteq> []" "length v \<le> 256" by simp_all
  from rep k show ?thesis unfolding Call_set by (rule api_set [where t = t and m = m]) (auto split: if_splits)
next
  case (Call_delete m t k)
  with ok have k: "k \<noteq> []" "length k < 256" by simp_all
  from step_remove [OF rep k, of m t] obtain eng b where
    "garry_storage_delete m (db_eng db) t k = Some (eng, b)" "b \<longrightarrow> t \<in> ss_running s"
    "store_rep n eng (if b then store_append s t k None else s)" by blast
  then show ?thesis
    unfolding Call_delete
    by (intro exI [of _ "db\<lparr>db_eng := eng\<rparr>"]) (auto simp: garry_delete_def with_db_def split: if_splits)
next
  case (Call_get_default t k d)
  with ok have k: "k \<noteq> []" "length k < 256" and d: "length d \<le> 16384" by simp_all
  from rep k show ?thesis unfolding Call_get_default by (rule api_get [where t = t and d = d]) (use d in auto)
next
  case (Call_data t k)
  with ok have "k \<noteq> []" by simp
  with rep obtain eng where "store_rep n eng s"
    "garry_storage_data (db_eng db) t k = Some (eng,
       if read_log t (ss_active s) (ss_versions s k) \<noteq> None then GARRY_DATA_HAS_VALUE else GARRY_DATA_NOT_FOUND)"
    by (rule step_look [where t = t]) blast
  then show ?thesis
    unfolding Call_data by (intro exI [of _ "db\<lparr>db_eng := eng\<rparr>"]) (simp add: garry_data_def with_db_def)
next
  case (Call_exists t k)
  with ok have k: "k \<noteq> []" "length k < 256" by simp_all
  from step_read(2) [OF rep k, of t] obtain eng where
    "garry_storage_exists (db_eng db) t k = Some (eng, store_read s t k \<noteq> None)" "store_rep n eng s" by blast
  then show ?thesis
    unfolding Call_exists by (intro exI [of _ "db\<lparr>db_eng := eng\<rparr>"]) (simp add: garry_exists_def with_db_def)
next
  case (Call_count t)
  show ?thesis
    unfolding Call_count using store_rep_less [OF rep] store_rep_running [OF rep, of t]
    by (intro exI [of _ db]) (simp add: garry_count_def garry_storage_count_def)
qed

text \<open>What each call promises of its result, whatever the store.\<close>

fun result_ok :: "api_call \<Rightarrow> api_result \<Rightarrow> bool" where
  "result_ok Call_begin r \<longleftrightarrow> (case r of Txn t \<Rightarrow> t = -1 \<or> 0 < t \<and> i32 t | _ \<Rightarrow> False)"
| "result_ok (Call_commit t) r \<longleftrightarrow> r = Nothing"
| "result_ok (Call_rollback t) r \<longleftrightarrow> r = Nothing"
| "result_ok (Call_get t k) r \<longleftrightarrow>
     (case r of Value GARRY_OK (Some v) \<Rightarrow> v \<noteq> [] \<and> length v \<le> 256
      | Value st None \<Rightarrow> st = GARRY_ERR_NOT_FOUND \<or> st = GARRY_ERR_INVALID_ARG | _ \<Rightarrow> False)"
| "result_ok (Call_set m t k v) r \<longleftrightarrow> r = Status GARRY_OK \<or> r = Status GARRY_ERR_INVALID_ARG"
| "result_ok (Call_delete m t k) r \<longleftrightarrow> r = Status GARRY_OK \<or> r = Status GARRY_ERR_NOT_FOUND"
| "result_ok (Call_get_default t k d) r \<longleftrightarrow>
     (case r of Value GARRY_OK (Some v) \<Rightarrow> length v \<le> 16384 | Value st None \<Rightarrow> st = GARRY_ERR_INVALID_ARG | _ \<Rightarrow> False)"
| "result_ok (Call_data t k) r \<longleftrightarrow> r = Number GARRY_DATA_HAS_VALUE \<or> r = Number GARRY_DATA_NOT_FOUND"
| "result_ok (Call_exists t k) r \<longleftrightarrow> (case r of Truth b \<Rightarrow> True | _ \<Rightarrow> False)"
| "result_ok (Call_count t) r \<longleftrightarrow> (case r of Number n \<Rightarrow> True | _ \<Rightarrow> False)"

lemma store_read_small:
  assumes "store_rep n eng s" "store_read s t k = Some v"
  shows "v \<noteq> []" "length v \<le> 256"
proof -
  have "list_all small_value (ss_versions s k)"
    using assms(1) by (auto simp: store_rep_def logs_rep_def)
  moreover have "read_log t (ss_active s) (ss_versions s k) = Some v"
    using assms(2) by (simp add: store_read_def split: if_splits)
  ultimately show "v \<noteq> []" "length v \<le> 256" using read_log_small by blast+
qed

lemma api_result_ok:
  assumes rep: "store_rep (Suc n) eng s" and ok: "api_call_ok c" and spec: "api_spec s c r = Some s'"
  shows "result_ok c r"
proof -
  note small = store_read_small [OF rep]
  have nx: "0 < ss_next s" "i32 (ss_next s)"
    using rep by (auto simp: store_rep_def table_rep_def txn_inv_def i32_def)
  show ?thesis
  proof (cases c)
    case Call_begin
    with spec nx show ?thesis by (cases r) (auto split: if_splits)
  next
    case (Call_get t k)
    with spec small [of t k] show ?thesis by (cases "store_read s t k") (auto simp: Let_def split: if_splits)
  next
    case (Call_get_default t k d)
    with spec ok small [of t k] show ?thesis
      by (cases "store_read s t k") (force split: if_splits)+
  qed (use spec in \<open>auto split: if_splits api_result.splits\<close>)
qed

text \<open>A simulation in which the abstract machine accepts results of the promised kinds only.\<close>

locale typed_simulation = simulation rep step spec command_ok
  for rep :: "nat \<Rightarrow> 's \<Rightarrow> 'a \<Rightarrow> bool"
    and step :: "'s \<Rightarrow> 'c \<Rightarrow> ('s \<times> 'r) option"
    and spec :: "'a \<Rightarrow> 'c \<Rightarrow> 'r \<Rightarrow> 'a option"
    and command_ok :: "'c \<Rightarrow> bool" +
  fixes promised :: "'c \<Rightarrow> 'r \<Rightarrow> bool"
  assumes result_law: "rep (Suc n) s a \<Longrightarrow> command_ok c \<Longrightarrow> spec a c r = Some a' \<Longrightarrow> promised c r"
begin

lemma run_typed:
  assumes "rep (length cs + n) s a" "\<forall>c \<in> set cs. command_ok c"
  shows "\<exists>s' rs a'. run step s cs = Some (s', rs) \<and> list_all2 promised cs rs \<and> rep n s' a'"
  using assms
proof (induction cs arbitrary: s a)
  case (Cons c cs)
  have r: "rep (Suc (length cs + n)) s a" "command_ok c" using Cons.prems by simp_all
  from step_law [OF r] obtain s1 x a1 where
    1: "step s c = Some (s1, x)" "spec a c x = Some a1" "rep (length cs + n) s1 a1" by blast
  from Cons.IH [OF 1(3)] Cons.prems(2) obtain s2 rs a2 where
    2: "run step s1 cs = Some (s2, rs)" "list_all2 promised cs rs" "rep n s2 a2" by auto
  with 1 result_law [OF r 1(2)] show ?case by (intro exI [of _ s2] exI [of _ "x # rs"] exI [of _ a2]) simp
qed auto

end

interpretation api: typed_simulation
  "\<lambda>n db s. \<exists>d. db = Some d \<and> store_rep n (db_eng d) s" api_exec api_spec api_call_ok result_ok
proof unfold_locales
  fix n and db :: "garry_database option" and s c
  assume "\<exists>d. db = Some d \<and> store_rep (Suc n) (db_eng d) s" and ok: "api_call_ok c"
  then obtain d where d: "db = Some d" "store_rep (Suc n) (db_eng d) s" by blast
  from api_step [OF d(2) ok] d(1)
  show "\<exists>db' r s'. api_exec db c = Some (db', r) \<and> api_spec s c r = Some s' \<and>
    (\<exists>d. db' = Some d \<and> store_rep n (db_eng d) s')" by blast
next
  fix n and db :: "garry_database option" and s c r s'
  assume "\<exists>d. db = Some d \<and> store_rep (Suc n) (db_eng d) s" "api_call_ok c" "api_spec s c r = Some s'"
  then show "result_ok c r" using api_result_ok by blast
qed

subsection \<open>Properties of the machine\<close>

text \<open>C1. The interface implements multi-version concurrency control: on a handle whose resources
  suffice for so many calls, any sequence of calls returns, with the values and the status codes that
  the abstract store of version logs gives, and ends in a handle that represents the final state of
  the abstract store.\<close>

theorem api_implements_mvcc:
  assumes "store_rep (length cs) (db_eng db) s" "\<forall>c \<in> set cs. api_call_ok c"
  shows "\<exists>db' rs s'. run api_exec (Some db) cs = Some (Some db', rs) \<and> length rs = length cs \<and>
    check_run api_spec s (zip cs rs) = Some s' \<and> store_rep 0 (db_eng db') s'"
proof -
  have "\<exists>d. Some db = Some d \<and> store_rep (length cs + 0) (db_eng d) s" using assms(1) by simp
  from api.run_simulates [OF this assms(2)] show ?thesis by blast
qed

text \<open>C7. Calls keep to their types: on a well-formed handle any sequence of calls returns; each result
  is of the kind its call promises (an identifier of a transaction is positive or -1, a status is one
  of those documented, there is a value exactly with the status of success, and it is at most as long
  as a record), and the handle stays well formed.\<close>

theorem api_results_typed:
  assumes "store_rep (length cs) (db_eng db) s" "\<forall>c \<in> set cs. api_call_ok c"
  shows "\<exists>db' rs s'. run api_exec (Some db) cs = Some (Some db', rs) \<and> list_all2 result_ok cs rs \<and>
    store_rep 0 (db_eng db') s'"
proof -
  have "\<exists>d. Some db = Some d \<and> store_rep (length cs + 0) (db_eng d) s" using assms(1) by simp
  from api.run_typed [OF this assms(2)] show ?thesis by blast
qed

definition busy_db :: garry_database where
  "busy_db = \<lparr>db_eng = busy_engine\<rparr>"

definition small_calls :: "api_call list" where
  "small_calls =
     [Call_set True 1 [107] [1, 2, 3], Call_get 1 [107], Call_commit 1, Call_get 1 [107], Call_data 7 [107]]"

lemma small_calls_ok: "store_rep (length small_calls) (db_eng busy_db) busy_store" "\<forall>c \<in> set small_calls. api_call_ok c"
  using busy_rep(1) by (simp_all add: small_calls_def busy_db_def eval_nat_numeral)

theorem api_implements_mvcc_witness:
  "\<exists>db' rs s'. run api_exec (Some busy_db) small_calls = Some (Some db', rs) \<and> length rs = 5 \<and>
     check_run api_spec busy_store (zip small_calls rs) = Some s'"
  using api_implements_mvcc [OF small_calls_ok] by (auto simp: small_calls_def)

theorem api_results_typed_witness:
  "\<exists>db' rs. run api_exec (Some busy_db) small_calls = Some (Some db', rs) \<and> list_all2 result_ok small_calls rs"
  using api_results_typed [OF small_calls_ok] by blast

subsection \<open>Strings\<close>

lemma string_get:
  assumes rep: "store_rep 2 (db_eng db) s" and k: "key \<noteq> []" "length key < 256" and v: "val \<noteq> []" "length val \<le> 256"
    and set: "garry_set_str m (Some db) t (Some key) (Some val) = Some (db1, GARRY_OK)" and cap: "0 < value_size"
  obtains db2 where "garry_get_str db1 t (Some key) (Some buf) value_size = Some (Some db2, GARRY_OK,
    Some ((put_bytes buf 0 val)(min (int (length val)) (value_size - 1) := 0)))"
proof -
  have r: "store_rep (Suc (Suc 0)) (db_eng db) s" using rep by (simp add: numeral_2_eq_2)
  have small: "\<not> length key > GARRY_MAX_KEY_SIZE" "\<not> length val > GARRY_MAX_RECORD_SIZE"
    using k(2) v(2) by (simp_all add: GARRY_MAX_KEY_SIZE_def GARRY_MAX_RECORD_SIZE_def)
  from r k v obtain db' ok where w:
    "garry_set m (Some db) t key val = Some (Some db', if ok then GARRY_OK else GARRY_ERR_INVALID_ARG)"
    "ok \<Longrightarrow> t \<in> ss_running s"
    "store_rep (Suc 0) (db_eng db') (if ok then store_append s t key (Some val) else s)"
    by (rule api_set [where m = m and t = t]) blast
  from set w(1) small have e: "db1 = Some db'" ok by (auto simp: garry_set_str_def split: if_splits)
  then have rep1: "store_rep (Suc 0) (db_eng db') (store_append s t key (Some val))" using w(3) by simp
  have "store_read (store_append s t key (Some val)) t key = Some val"
    using append_read [OF running_active(1) [OF rep] w(2)] w(2) e(2) by simp
  with rep1 k obtain db2 where "garry_get (Some db') t key = Some (Some db2, GARRY_OK, Some val)"
    by (auto elim: api_get [where t = t])
  with small(1) cap e(1) show ?thesis
    by (intro that [of db2]) (simp add: garry_get_str_def min_def Let_def)
qed

text \<open>C8. Strings round trip: a string that was set and is shorter than the caller's buffer is read back
  by its transaction, with its terminator, and the rest of the memory is as it was.\<close>

theorem string_roundtrip:
  assumes "store_rep 2 (db_eng db) s" "key \<noteq> []" "length key < 256" "val \<noteq> []" "length val \<le> 256"
    and "garry_set_str m (Some db) t (Some key) (Some val) = Some (db1, GARRY_OK)"
    and "int (length val) < value_size"
  shows "\<exists>db2 buf'. garry_get_str db1 t (Some key) (Some buf) value_size = Some (db2, GARRY_OK, Some buf') \<and>
    holds buf' 0 (val @ [0]) \<and> (\<forall>j. j < 0 \<or> value_size \<le> j \<longrightarrow> buf' j = buf j)"
proof -
  have "0 < value_size" using assms(7) by simp
  then obtain db2 where g: "garry_get_str db1 t (Some key) (Some buf) value_size = Some (Some db2, GARRY_OK,
      Some ((put_bytes buf 0 val)(min (int (length val)) (value_size - 1) := 0)))"
    by (rule string_get [OF assms(1-6)])
  have m: "min (int (length val)) (value_size - 1) = int (length val)" using assms(7) by simp
  let ?b = "(put_bytes buf 0 val)(int (length val) := 0)"
  have "holds ?b 0 (val @ [0])"
    by (auto simp: holds_def put_bytes_apply nth_append less_Suc_eq)
  moreover have "?b j = buf j" if "j < 0 \<or> value_size \<le> j" for j
    using that assms(7) by (auto simp: put_bytes_apply)
  ultimately show ?thesis using g unfolding m by blast
qed

text \<open>C21. Reading a string runs over the caller's buffer: if the stored string is longer than the buffer,
  the call reports success and has written the bytes of the string behind the end of the buffer.\<close>

theorem get_str_overruns_buffer:
  assumes "store_rep 2 (db_eng db) s" "key \<noteq> []" "length key < 256" "val \<noteq> []" "length val \<le> 256"
    and "garry_set_str m (Some db) t (Some key) (Some val) = Some (db1, GARRY_OK)"
    and "0 < value_size" "value_size < int (length val)"
  shows "\<exists>db2 buf'. garry_get_str db1 t (Some key) (Some buf) value_size = Some (db2, GARRY_OK, Some buf') \<and>
    buf' (value_size - 1) = 0 \<and>
    read_bytes buf' value_size (int (length val) - value_size) = drop (nat value_size) val"
proof -
  obtain db2 where g: "garry_get_str db1 t (Some key) (Some buf) value_size = Some (Some db2, GARRY_OK,
      Some ((put_bytes buf 0 val)(min (int (length val)) (value_size - 1) := 0)))"
    by (rule string_get [OF assms(1-7)])
  have m: "min (int (length val)) (value_size - 1) = value_size - 1" using assms(8) by simp
  have "read_bytes ((put_bytes buf 0 val)(value_size - 1 := 0)) value_size (int (length val) - value_size) =
      drop (nat value_size) val"
    by (rule nth_equalityI) (use assms(7,8) in \<open>auto simp: put_bytes_apply nat_add_distrib\<close>)
  with g show ?thesis unfolding m by auto
qed

lemma busy_set_str:
  assumes "val \<noteq> []" "length val \<le> 256"
  obtains db1 where "garry_set_str True (Some busy_db) 1 (Some [107]) (Some val) = Some (db1, GARRY_OK)"
proof -
  have r: "store_rep (Suc 4) busy_engine busy_store" using busy_rep(1) by simp
  have k: "[107] \<noteq> []" "length [107 :: byte] < 256" by simp_all
  have v: "1 \<in> ss_running busy_store" "length (ss_versions busy_store [107]) \<le> 5" by (simp_all add: busy_store_def)
  from write_succeeds [OF r k assms v busy_free] obtain eng where
    "garry_storage_set True busy_engine 1 [107] val = Some (eng, True)" by blast
  with assms(2) show ?thesis
    by (intro that [of "Some (busy_db\<lparr>db_eng := eng\<rparr>)"])
      (simp add: garry_set_str_def garry_set_def with_db_def busy_db_def GARRY_MAX_KEY_SIZE_def GARRY_MAX_RECORD_SIZE_def)
qed

lemma busy_db_rep: "store_rep 2 (db_eng busy_db) busy_store"
  unfolding busy_db_def by (rule store_rep_mono [of 5]) (use busy_rep(1) in simp_all)

theorem string_roundtrip_witness:
  "\<exists>db1 db2 buf. garry_set_str True (Some busy_db) 1 (Some [107]) (Some [104, 105]) = Some (db1, GARRY_OK) \<and>
     garry_get_str db1 1 (Some [107]) (Some (\<lambda>_. 7)) 16 = Some (db2, GARRY_OK, Some buf) \<and>
     buf 0 = 104 \<and> buf 1 = 105 \<and> buf 2 = 0 \<and> buf 20 = 7"
proof -
  obtain db1 where s: "garry_set_str True (Some busy_db) 1 (Some [107]) (Some [104, 105]) = Some (db1, GARRY_OK)"
    by (rule busy_set_str [of "[104, 105]"]) simp_all
  from string_roundtrip [OF busy_db_rep _ _ _ _ s, of 16 "\<lambda>_. 7"] obtain db2 buf where
    "garry_get_str db1 1 (Some [107]) (Some (\<lambda>_. 7)) 16 = Some (db2, GARRY_OK, Some buf)"
    "holds buf 0 [104, 105, 0]" "\<And>j. 16 \<le> j \<Longrightarrow> buf j = 7" by auto
  moreover from this(2) have "buf 0 = 104 \<and> buf 1 = 105 \<and> buf 2 = 0"
    by (auto simp: holds_def less_Suc_eq_0_disj)
  ultimately show ?thesis using s by auto
qed

theorem get_str_overruns_buffer_witness:
  "\<exists>db1 db2 buf. garry_set_str True (Some busy_db) 1 (Some [107]) (Some [104, 105, 106]) = Some (db1, GARRY_OK) \<and>
     garry_get_str db1 1 (Some [107]) (Some (\<lambda>_. 7)) 2 = Some (db2, GARRY_OK, Some buf) \<and> buf 2 = 106"
proof -
  obtain db1 where s: "garry_set_str True (Some busy_db) 1 (Some [107]) (Some [104, 105, 106]) = Some (db1, GARRY_OK)"
    by (rule busy_set_str [of "[104, 105, 106]"]) simp_all
  from get_str_overruns_buffer [OF busy_db_rep _ _ _ _ s, of 2 "\<lambda>_. 7"] obtain db2 buf where
    "garry_get_str db1 1 (Some [107]) (Some (\<lambda>_. 7)) 2 = Some (db2, GARRY_OK, Some buf)"
    "read_bytes buf 2 1 = [106]" by auto
  with s show ?thesis by (auto simp: read_bytes_def)
qed

subsection \<open>Visiting\<close>

lemma for_each_loop_shown:
  assumes "scanning m h ls P (db_eng db) (gc_scur cur) rs"
    and "List.map_filter (shown Value_and_length (db_eng db) (sc_txn (gc_scur cur))) rs = map (\<lambda>(k, v). (k, Some v)) xs"
  shows "\<exists>db'. for_each_loop visitor db (Some cur) val u = Some (db', fold (\<lambda>(k, v). visitor k v) xs u) \<and>
    same_store (db_eng db) (db_eng db')"
  using assms
proof (induction xs arbitrary: db cur rs val u)
  case Nil
  from storage_cursor_step [OF Nil.prems(1), of Value_and_length] Nil.prems(2) obtain eng' cur' where
    "garry_storage_cursor_next Value_and_length (db_eng db) (gc_scur cur) = Some (eng', cur', None)"
    "same_store (db_eng db) eng'" by (auto simp: steps_to_def)
  then show ?case
    by (intro exI [of _ "db\<lparr>db_eng := eng'\<rparr>"])
      (subst for_each_loop.simps, simp add: garry_cursor_next_def cursor_step_def)
next
  case (Cons x xs)
  obtain k v where x: "x = (k, v)" by (cases x)
  from storage_cursor_step [OF Cons.prems(1), of Value_and_length] Cons.prems(2) x obtain eng' cur' rs' where
    s: "garry_storage_cursor_next Value_and_length (db_eng db) (gc_scur cur) = Some (eng', cur', Some (k, Some v))"
    "same_store (db_eng db) eng'" "sc_txn cur' = sc_txn (gc_scur cur)" "scanning m h ls P eng' cur' rs'"
    "List.map_filter (shown Value_and_length (db_eng db) (sc_txn (gc_scur cur))) rs' = map (\<lambda>(k, v). (k, Some v)) xs"
    by (auto simp: steps_to_def)
  let ?db = "db\<lparr>db_eng := eng'\<rparr>" and ?cur = "cur\<lparr>gc_scur := cur'\<rparr>"
  have "scanning m h ls P (db_eng ?db) (gc_scur ?cur) rs'" using s(4) by simp
  moreover have "List.map_filter (shown Value_and_length (db_eng ?db) (sc_txn (gc_scur ?cur))) rs' =
      map (\<lambda>(k, v). (k, Some v)) xs"
    using s(5) by (simp add: s(3) same_store_sel(5) [OF s(2)])
  ultimately obtain db' where
    "for_each_loop visitor ?db (Some ?cur) v (visitor k v u) = Some (db', fold (\<lambda>(k, v). visitor k v) xs (visitor k v u))"
    "same_store (db_eng ?db) (db_eng db')" using Cons.IH by blast
  with s(1) same_store_trans [OF s(2)] show ?case
    by (intro exI [of _ db'])
      (subst for_each_loop.simps, simp add: garry_cursor_next_def cursor_step_def x)
qed

text \<open>C13. A visitor sees exactly the visible entries: visiting the keys with a prefix for a running
  transaction returns, and has called the visitor for each key with the prefix that the transaction
  can read, in strictly ascending order, with the value it reads there, and for nothing else.\<close>

theorem for_each_visits_exactly:
  assumes "view_rep h m (db_eng db) s" "t \<in> ss_running s" "length pfx \<le> 256"
  shows "\<exists>db' xs. garry_for_each mem (Some db) t (Some pfx) (int (length pfx)) (Some visitor) u =
      Some (Some db', fold (\<lambda>(k, v). visitor k v) xs u) \<and>
    same_store (db_eng db) (db_eng db') \<and> sorted_wrt (<) (map fst xs) \<and>
    set xs = {(k, v). Sublist.prefix pfx k \<and> store_read s t k = Some v}"
proof -
  from assms(1) obtain ls P eng1 cur where o:
    "garry_storage_cursor_open (db_eng db) t (Some pfx) (int (length pfx)) = Some (eng1, cur)"
    "same_store (db_eng db) eng1" "sc_txn cur = t" "length ls \<le> m" "kv_on h (db_eng db) ls P"
    "logs_rep (db_eng db) (versions ls) s" "table_rep (db_eng db) s"
    "scanning (4 ^ h) h ls P eng1 cur (filter (\<lambda>r. Sublist.prefix pfx (fst r)) ls)"
    by (rule open_view [where pfx = "Some pfx"]) auto
  let ?rs = "filter (\<lambda>r. Sublist.prefix pfx (fst r)) ls"
  define xs where "xs = map (\<lambda>k. (k, the (store_read s t k))) (visible_keys s t ?rs)"
  let ?db = "db\<lparr>db_eng := eng1\<rparr>" and ?cur = "\<lparr>gc_scur = cur\<rparr>"
  have "set ?rs \<subseteq> set ls" by simp
  from map_filter_shown(1) [OF o(5-7) assms(2) this]
  have "List.map_filter (shown Value_and_length (db_eng ?db) (sc_txn (gc_scur ?cur))) ?rs = map (\<lambda>(k, v). (k, Some v)) xs"
    by (simp add: o(3) same_store_sel(5) [OF o(2)] o_def xs_def)
  moreover have "scanning (4 ^ h) h ls P (db_eng ?db) (gc_scur ?cur) ?rs" using o(8) by simp
  ultimately have "\<exists>db'. for_each_loop visitor ?db (Some ?cur) mem u = Some (db', fold (\<lambda>(k, v). visitor k v) xs u) \<and>
      same_store (db_eng ?db) (db_eng db')" by (intro for_each_loop_shown)
  then obtain db' where l:
    "for_each_loop visitor ?db (Some ?cur) mem u = Some (db', fold (\<lambda>(k, v). visitor k v) xs u)"
    "same_store (db_eng ?db) (db_eng db')" by blast
  have "garry_for_each mem (Some db) t (Some pfx) (int (length pfx)) (Some visitor) u =
      Some (Some db', fold (\<lambda>(k, v). visitor k v) xs u)"
    by (simp add: garry_for_each_def garry_cursor_open_def with_db_def o(1) l(1))
  moreover have "same_store (db_eng db) (db_eng db')" using same_store_trans [OF o(2)] l(2) by simp
  moreover have "sorted_wrt (<) (map fst xs)"
    using visible_keys_sorted [of ?rs s t] sorted_wrt_filter [OF kv_keys_sorted [OF o(5)], of "Sublist.prefix pfx"]
    by (simp add: o_def filter_map xs_def)
  moreover have "set xs = {(k, v). Sublist.prefix pfx k \<and> store_read s t k = Some v}"
  proof -
    have "set (visible_keys s t ?rs) = {k. Sublist.prefix pfx k \<and> store_read s t k \<noteq> None}"
      using visible_keys_set [OF o(6), of t] by (auto simp: visible_keys_prefix)
    then show ?thesis by (auto simp: image_iff xs_def)
  qed
  ultimately show ?thesis by blast
qed

theorem for_each_visits_exactly_witness:
  "\<exists>eng1 db. garry_storage_set True busy_engine 1 [107, 49] [1, 2, 3] = Some (eng1, True) \<and>
     garry_for_each [] (Some \<lparr>db_eng = eng1\<rparr>) 1 (Some [107]) 1 (Some (\<lambda>k v n. n + length v)) 10 = Some (Some db, 13)"
proof -
  obtain h eng1 where e: "garry_storage_set True busy_engine 1 [107, 49] [1, 2, 3] = Some (eng1, True)"
    "view_rep h 1 eng1 one_key_store" by (rule one_key_view)
  have t: "1 \<in> ss_running one_key_store" by (simp add: one_key_store_def store_append_def busy_store_def)
  have "view_rep h 1 (db_eng \<lparr>db_eng = eng1\<rparr>) one_key_store" using e(2) by simp
  from for_each_visits_exactly [OF this t, of "[107]" "[]" "\<lambda>k v n. n + length v" 10] obtain db xs where s:
    "garry_for_each [] (Some \<lparr>db_eng = eng1\<rparr>) 1 (Some [107]) 1 (Some (\<lambda>k v n. n + length v)) 10 =
       Some (Some db, fold (\<lambda>(k, v) n. n + length v) xs 10)"
    "sorted_wrt (<) (map fst xs)"
    "set xs = {(k, v). Sublist.prefix [107] k \<and> store_read one_key_store 1 k = Some v}"
    by auto
  have "set xs = {([107, 49], [1, 2, 3])}" unfolding s(3) by (auto simp: one_key_read split: if_splits)
  moreover have "distinct xs" using s(2) strict_sorted_iff distinct_map by blast
  ultimately have "xs = [([107, 49], [1, 2, 3])]" by (rule singleton_list)
  with e(1) s(1) show ?thesis by simp
qed

subsection \<open>Histories and isolation\<close>

lemma api_get_status:
  assumes "store_rep (Suc n) (db_eng db) s" "k \<noteq> []" "length k < 256"
  shows "\<exists>db'. garry_get (Some db) t k = Some (Some db', if store_read s t k \<noteq> None then GARRY_OK
    else if t \<in> ss_running s then GARRY_ERR_NOT_FOUND else GARRY_ERR_INVALID_ARG, store_read s t k)"
  by (rule api_get [OF assms, where t = t]) blast

lemma api_append_get:
  assumes "store_rep (Suc n) (db_eng db) (store_append s t k v)" "k \<noteq> []" "length k < 256"
    and "t \<in> set (ss_active s)" "t \<in> ss_running s" "t' \<noteq> t"
  shows "\<exists>db'. garry_get (Some db) t' k = Some (Some db', if store_read s t' k \<noteq> None then GARRY_OK
    else if t' \<in> ss_running s then GARRY_ERR_NOT_FOUND else GARRY_ERR_INVALID_ARG, store_read s t' k)"
proof -
  have same: "store_read (store_append s t k v) t' k = store_read s t' k"
    "ss_running (store_append s t k v) = ss_running s"
    using append_read [OF assms(4,5)] assms(6) by (simp_all add: store_append_def)
  show ?thesis using api_get_status [OF assms(1-3), of t'] by (simp only: same)
qed

text \<open>C20. The history of a key shows what isolation hides: after a transaction has set a key, every other
  transaction still gets what it got before, but the first version its iterator delivers is the
  uncommitted one.\<close>

theorem history_shows_uncommitted:
  assumes "store_rep 2 (db_eng db) s" "k \<noteq> []" "length k < 256" "v \<noteq> []" "length v \<le> 256"
    and "garry_set m (Some db) t k v = Some (Some db1, GARRY_OK)" "t' \<noteq> t"
  shows "\<exists>db2 db3 st old db4 it pool it'.
    garry_get (Some db) t' k = Some (Some db2, st, old) \<and> garry_get (Some db1) t' k = Some (Some db3, st, old) \<and>
    garry_get_versions mem (Some db1) t' (Some k) = Some (Some db4, it) \<and>
    garry_version_iter_next (eng_pool (db_eng db4)) it =
      (pool, it', Some (t, compress_value (db_eng db1) v, False))"
proof -
  have r: "store_rep (Suc (Suc 0)) (db_eng db) s" using assms(1) by (simp add: numeral_2_eq_2)
  from r assms(2-5) obtain dbx ok where
    "garry_set m (Some db) t k v = Some (Some dbx, if ok then GARRY_OK else GARRY_ERR_INVALID_ARG)"
    "ok \<Longrightarrow> t \<in> ss_running s"
    "store_rep (Suc 0) (db_eng dbx) (if ok then store_append s t k (Some v) else s)"
    by (rule api_set [where m = m and t = t]) blast
  then have t: "t \<in> ss_running s" and r1: "store_rep (Suc 0) (db_eng db1) (store_append s t k (Some v))"
    using assms(6) by (auto split: if_splits)
  let ?st = "if store_read s t' k \<noteq> None then GARRY_OK
    else if t' \<in> ss_running s then GARRY_ERR_NOT_FOUND else GARRY_ERR_INVALID_ARG"
  obtain db2 where g2: "garry_get (Some db) t' k = Some (Some db2, ?st, store_read s t' k)"
    using api_get_status [OF r assms(2,3), of t'] by blast
  obtain db3 where g3: "garry_get (Some db1) t' k = Some (Some db3, ?st, store_read s t' k)"
    using api_append_get [OF r1 assms(2,3) running_active(1) [OF assms(1) t] t assms(7)] by blast
  obtain h H ls P where q: "h + Suc 0 \<le> H" "kv_on h (db_eng db1) ls P"
    "tree_pool (Suc 0 * (29 + 15 * H)) (Suc 0 * (3 + H)) (eng_pool (db_eng db1))"
    "logs_rep (db_eng db1) (versions ls) (store_append s t k (Some v))"
    using r1 by (rule store_rep_open) blast
  have "pool_idle (0 + 2 + 2 * Suc h) (eng_pool (db_eng db1))"
    by (rule pool_idle_mono [OF tree_poolD(1) [OF q(3)]]) (use q(1) in simp)
  with q(2) obtain pool it where o:
    "garry_version_iter_open mem (Some db1) t' (Some k) =
       Some (Some (db1\<lparr>db_eng := (db_eng db1)\<lparr>eng_pool := pool\<rparr>\<rparr>), it)"
    "case map_of ls k of None \<Rightarrow> it = None | Some (c, xs) \<Rightarrow> \<exists>i. it = Some i \<and> iterating i xs (length xs)"
    using assms(2) by (rule versions_open_kv) blast
  have log: "versions ls k = map (stored (db_eng db1)) (ss_versions s k) @ [(t, compress_value (db_eng db1) v)]"
    using logs_repD(1) [OF q(4), of k] by (simp add: store_append_def stored_def)
  then obtain c where c: "map_of ls k = Some (c, versions ls k)"
    by (cases "map_of ls k") (auto simp: versions_def)
  with o(2) obtain i where i: "it = Some i" "iterating i (versions ls k) (length (versions ls k))" by auto
  have "compress_value (db_eng db1) v \<noteq> None"
    using payload_ok [of "db_eng db1" v] assms(4,5) by (auto simp: value_ok_def)
  with next_version [OF i(2), of pool] log
  have "garry_version_iter_next pool it = (pool, Some (i\<lparr>vi_next_slot := int (length (ss_versions s k)) - 1\<rparr>),
      Some (t, compress_value (db_eng db1) v, False))"
    by (simp add: i(1) told_def nth_append)
  then have "garry_version_iter_next (eng_pool (db_eng (db1\<lparr>db_eng := (db_eng db1)\<lparr>eng_pool := pool\<rparr>\<rparr>))) it =
      (pool, Some (i\<lparr>vi_next_slot := int (length (ss_versions s k)) - 1\<rparr>),
       Some (t, compress_value (db_eng db1) v, False))" by simp
  with g2 g3 o(1) show ?thesis unfolding garry_get_versions_def by blast
qed

theorem history_shows_uncommitted_witness:
  "\<exists>db1 db2 st db4 it pool it'. garry_set True (Some busy_db) 1 [107] [1, 2, 3] = Some (Some db1, GARRY_OK) \<and>
     garry_get (Some db1) 2 [107] = Some (Some db2, st, None) \<and>
     garry_get_versions (\<lambda>_. 0) (Some db1) 2 (Some [107]) = Some (Some db4, it) \<and>
     garry_version_iter_next (eng_pool (db_eng db4)) it =
       (pool, it', Some (1, compress_value (db_eng db1) [1, 2, 3], False))"
proof -
  have r: "store_rep (Suc 4) (db_eng busy_db) busy_store" using busy_rep(1) by (simp add: busy_db_def)
  obtain eng1 where e: "garry_storage_set True busy_engine 1 [107] [1, 2, 3] = Some (eng1, True)" by (rule busy_set)
  let ?db1 = "busy_db\<lparr>db_eng := eng1\<rparr>"
  have s: "garry_set True (Some busy_db) 1 [107] [1, 2, 3] = Some (Some ?db1, GARRY_OK)"
    using e by (simp add: garry_set_def with_db_def busy_db_def)
  have k: "[107 :: byte] \<noteq> []" "length [107 :: byte] < 256" by simp_all
  have none: "store_read busy_store 2 [107] = None" by (simp add: store_read_def busy_store_def)
  obtain db2 st where g: "garry_get (Some busy_db) 2 [107] = Some (Some db2, st, None)"
    using api_get_status [OF r k, of 2] unfolding none by blast
  from history_shows_uncommitted [OF busy_db_rep k _ _ s, of 2 "\<lambda>_. 0"] obtain db3 st' old db4 it pool it' where
    "garry_get (Some busy_db) 2 [107] = Some (db3, st', old)" "garry_get (Some ?db1) 2 [107] = Some (Some db4, st', old)"
    and h: "\<exists>db4. garry_get_versions (\<lambda>_. 0) (Some ?db1) 2 (Some [107]) = Some (Some db4, it) \<and>
      garry_version_iter_next (eng_pool (db_eng db4)) it =
       (pool, it', Some (1, compress_value (db_eng ?db1) [1, 2, 3], False))"
    by auto
  then have "garry_get (Some ?db1) 2 [107] = Some (Some db4, st', None)" using g by simp
  with s h show ?thesis by blast
qed

end
