(* ===== verification/Spec2Isabelle.thy ===== *)
theory Spec2Isabelle
  imports Garry_Hierarchical Garry_Api
begin

text \<open>
  Garry: a transactional key-value store in C89. This is the root of its verification library.

  \<^bold>\<open>The program.\<close> A caller sees byte-string keys and values through the functions of
  \<open>src/src/garry_api.c\<close>. Behind them an engine (\<open>src/src/transaction.c\<close>) owns a page cache over the
  database file, a write-ahead log, a lock table and a table of transactions. The index is a B-tree of
  slotted pages that maps a key to a descriptor of its version chain; a chain is a slotted page with
  one record per version. A read goes down the tree to the chain and takes the newest version the
  transaction may see. A write takes the lock of the key, finds or makes its chain, appends a record to
  the log and a version to the chain. A commit removes the transaction from the table and flushes
  the pages it noted; a rollback leaves the versions and the identifier behind, which readers then take
  for unfinished. Opening a database replays the log.

  \<^bold>\<open>The theories,\<close> in the order the code builds on itself.

  \<^item> \<open>Garry_Prelude\<close>: byte buffers as functions on offsets, byte lists in them, agreement on a range;
    the collections \<open>buffer_simps\<close> and \<open>codec_simps\<close>. \<open>Garry_Endian\<close>: \<open>util_endian.h\<close>.
  \<^item> \<open>Garry_Header\<close>: \<open>engine_settings.c\<close>, \<open>garry_config.c\<close>, \<open>garry_types.c\<close>, \<open>storage_core.c\<close>,
    \<open>db_header.c\<close>. A written header reads back; a change of one guarded byte is noticed.
  \<^item> \<open>Garry_SlottedPage\<close>: \<open>slotted_page.c\<close>. A page is an append-only list of records (locale
    \<open>record_log\<close>).
  \<^item> \<open>Garry_BufferPool\<close>: \<open>buffer_pool.c\<close> and the page operations of \<open>platform_src/posix/file_io.c\<close>.
    The cache with its evictions is transparent: clients see a flat array of pages (\<open>page_view\<close>).
    That holds while no page is freed; a freed page that is allocated again can get two slots,
    and then its content is lost.
  \<^item> \<open>Garry_RecordCodec\<close>, \<open>Garry_KeyEncoding\<close>, \<open>Garry_Hierarchical\<close>: \<open>record_codec.c\<close>, \<open>key_encoding.c\<close>,
    \<open>btree_compression.c\<close>, \<open>hierarchical.c\<close>, \<open>keysplit.c\<close>. Round trips (locale \<open>codec\<close>), the byte order is
    the lexicographic one (locale \<open>key_order\<close>), the walkers over the parts of a key.
  \<^item> \<open>Garry_LockTable\<close>: \<open>lock_table.c\<close>, with reachable tables and exclusion (locale \<open>lock_service\<close>).
  \<^item> \<open>Garry_VersionChain\<close>: \<open>version_chain.c\<close>: chain pages, overflow pages, visibility, pruning (locale
    \<open>version_log\<close>).
  \<^item> \<open>Garry_Wal\<close>: \<open>wal_record.c\<close>, \<open>wal_log.c\<close>, the stream operations of \<open>file_io.c\<close> and the pass of
    \<open>wal_recovery.c\<close> that collects commits. Streams tear writes where their room ends (locale
    \<open>journal\<close>).
  \<^item> \<open>Garry_Transaction\<close>: \<open>transaction.h\<close>, the table and the MVCC operations of \<open>transaction.c\<close>,
    \<open>storage_txn.c\<close>. The table stays within its arrays; nobody reads unfinished writes of others.
  \<^item> \<open>Garry_Lz4\<close>: \<open>lz4.c\<close>. Compression round-trips and decompression stays within its capacity.
  \<^item> \<open>Garry_BTreeNode\<close>: \<open>btree_node.c\<close> and the searches within a node. \<open>Garry_BTreeSpec\<close>: the abstract tree,
    its invariants and its insertion. \<open>Garry_BTree\<close>: \<open>btree_search.c\<close>, \<open>btree_modify.c\<close>; the pages implement
    the abstract tree, and the tree an ordered map (locale \<open>ordered_index\<close>). \<open>Garry_BTreeCursor\<close>:
    \<open>btree_cursor.c\<close>; a scan delivers the entries with the prefix in order.
  \<^item> \<open>Garry_Storage\<close>: \<open>storage_ops.c\<close>, existence and count. An engine shows a map from keys to version
    logs (\<open>kv_on\<close>), on which the operations act. \<open>Garry_Store\<close>: sequences of operations simulate an
    abstract store of version logs (locale \<open>simulation\<close>).
  \<^item> \<open>Garry_Navigation\<close>: \<open>storage_cursor.c\<close>, \<open>storage_navigation.c\<close>. Scans and neighbours are those of the
    visible keys. \<open>Garry_Versions\<close>: the version iterator of \<open>version_chain.c\<close>, which tells every version.
  \<^item> \<open>Garry_Recovery\<close>: the replay of \<open>wal_recovery.c\<close> as a function on version logs, with what it loses and
    repeats. \<open>Garry_Engine\<close>: the life of an engine in \<open>transaction.c\<close>, \<open>storage_engine.c\<close>, \<open>gc.c\<close>,
    \<open>wal_checkpoint.c\<close>; creating gives the empty store, closing and opening keeps every log, from a file
    in which the page size is found: of at least 65536 bytes, or with pages of 4096 bytes.
  \<^item> \<open>Garry_Api\<close>: \<open>garry_api.c\<close>. Sequences of calls of the public interface simulate the abstract store with
    the status codes of the interface and results of the promised kinds (locale \<open>typed_simulation\<close>,
    which extends \<open>simulation\<close>); strings, visitors and histories.

  \<^bold>\<open>How the model is built.\<close> A structure is a record with the fields of the source, a function a
  definition with its guards in their order. State is passed along; the pool inside an engine, the
  engine behind a cursor and the pool behind an iterator, which the code reaches through pointers,
  are passed along as well. A null pointer is \<open>None\<close>; a function with a status and an output gives a
  pair or an option. Ranges of machine integers that matter are written out (\<open>i32\<close> for \<open>garry_i32\<close>,
  32-bit words for the access counter, wrap-around in the checksum, the hash and the decoders).
  Transaction identifiers and log sequence numbers count on without wrapping, which the code reaches
  after \<open>2 ^ 31\<close> of them. The operations of the pool check for a null pool, which an engine never has;
  the check is left out. A write of a page is done whole or refused.

  \<^bold>\<open>Termination.\<close> Loops over arrays recurse on their length. Loops that follow links in pages (descents
  of the tree, cursors, overflow chains that are freed, navigation) end only if the links do:
  they are partial functions, where \<open>None\<close> is a call that never returns, and every theorem about them
  states that they return. \<open>storage_collect\<close> and \<open>drain\<close>, which are of the specification, count
  calls: one more than there are entries is enough, and the theorems say so.

  \<^bold>\<open>Resources.\<close> The cache stamps accesses with a 32-bit counter that must not wrap:
  \<open>pool_idle n pool\<close> says that no page is pinned, that writes to the file succeed and that \<open>n\<close> more
  stamps fit. \<open>tree_pool n m pool\<close> adds that \<open>m\<close> more pages can be allocated, that nothing is on the free
  list and that pages have at least 2048 bytes, below which a node may not fit its page. One
  operation on a tree of height \<open>h\<close> takes at most \<open>29 + 15 * h\<close> stamps and \<open>3 + h\<close> pages;
  \<open>store_rep n\<close> asks for \<open>n\<close> operations with the growth of the tree, \<open>view_rep h m\<close> for one scan
  of at most \<open>m\<close> keys, \<open>recoverable\<close> and \<open>restartable\<close> for one replay. \<open>log_room\<close> says exactly when a version
  fits a chain page. The theorems on stores are for keys of 1 to 255 bytes and values of 1 to 256
  bytes: a key of 256 bytes is accepted but its length is stored in one byte, and longer values take
  overflow pages of the log. The engines made by \<open>garry_storage_init\<close> meet these conditions, and each
  property with hypotheses has an instance that does.

  \<^bold>\<open>The environment\<close> is an argument: the database file, as pages of the size the cache has (\<open>garry_file\<close>)
  or, when it is opened and the page size has to be found, as bytes (\<open>garry_disk\<close>, with \<open>pages_of\<close> for
  its pages of a size), whether a write of a page succeeds, the room on the device of the log, the contents of freshly
  allocated memory. Allocations succeed except where a flag (\<open>malloc_ok\<close>) or a negative size says
  otherwise. Buffers of callers are as large as the code writes, except where a property shows that the
  code writes past them.

  \<^bold>\<open>Not modelled.\<close> Threads: the development is about calls one after the other, where mutexes and
  read-write locks (\<open>garry_threading.h\<close>, \<open>platform_threading.h\<close>, \<open>threading.c\<close>) have no effect.
  \<open>garry_file_open\<close> and \<open>garry_file_unlink\<close> of \<open>file_io.c\<close>, which are one system call each, and freeing of
  memory. The Windows platform layer, the wrappers for other languages under \<open>src/wrappers\<close>, tests
  and examples. Modelled, but without a theorem: deletion from the tree, which the engine never calls
  (a deletion of a key appends a version); \<open>garry_storage_last\<close>, which follows links to previous
  leaves that splits leave stale; the pass of the collector and the checkpoint, which nothing calls.
\<close>

end
